(* ===== verification/Prelude.thy ===== *)
theory Prelude
  imports Main "HOL-Library.Word"
begin

text \<open>
  Shared vocabulary of the ZeptoOS development: the machine integers of
  kernel/lib/types.h, byte-addressed memory with little-endian access, the
  two byte loops the C code writes again and again (copy and fill), C string
  literals, and the collections of hints the component theories share.
  Memory is a total function from machine addresses to bytes; the address
  width is a type variable, instantiated with 32 for the i386 build and with
  64 for the x86_64 build.
\<close>

unbundle bit_operations_syntax

type_synonym u8 = "8 word"
type_synonym u16 = "16 word"
type_synonym u32 = "32 word"
type_synonym u64 = "64 word"
type_synonym 'a memory = "'a word \<Rightarrow> u8"

named_theorems mem_simps \<open>reading back what was written to byte memory\<close>
named_theorems inv_intros \<open>preservation of component invariants\<close>

section \<open>String literals as bytes\<close>

definition cs :: "string \<Rightarrow> u8 list" where
  "cs s = map (\<lambda>c. word_of_int (of_char c)) s"

lemma takeWhile_nul: "0 \<notin> set s \<Longrightarrow> takeWhile (\<lambda>c. c \<noteq> (0 :: u8)) (s @ 0 # rest) = s"
  by (induction s) auto

section \<open>Little-endian words\<close>

primrec bytes_le :: "nat \<Rightarrow> 'b::len word \<Rightarrow> u8 list" where
  "bytes_le 0 w = []"
| "bytes_le (Suc n) w = ucast w # bytes_le n (drop_bit 8 w)"

primrec word_le :: "u8 list \<Rightarrow> 'b::len word" where
  "word_le [] = 0"
| "word_le (b # bs) = ucast b OR push_bit 8 (word_le bs)"

lemma length_bytes_le [simp]: "length (bytes_le n w) = n"
  by (induction n arbitrary: w) auto

lemma bit_word_le_Cons:
  "bit (word_le (b # bs) :: 'b::len word) i \<longleftrightarrow>
     i < LENGTH('b) \<and> (if i < 8 then bit b i else bit (word_le bs :: 'b word) (i - 8))"
  by (auto simp: bit_or_iff bit_ucast_iff bit_push_bit_iff dest: bit_imp_le_length)

lemma word_le_bytes_le:
  "word_le (bytes_le n w) = take_bit (8 * n) (w :: 'b::len word)"
proof (induction n arbitrary: w)
  case 0
  then show ?case by simp
next
  case (Suc n)
  show ?case
  proof (rule bit_eqI)
    fix i
    assume i: "possible_bit TYPE('b word) i"
    then have len: "i < LENGTH('b)" by simp
    have "bit (word_le (bytes_le (Suc n) w) :: 'b word) i \<longleftrightarrow>
        (if i < 8 then bit w i else bit (take_bit (8 * n) (drop_bit 8 w)) (i - 8))"
      using len by (simp add: bit_word_le_Cons Suc.IH bit_ucast_iff del: word_le.simps)
    also have "\<dots> \<longleftrightarrow> bit (take_bit (8 * Suc n) w) i"
      using len by (auto simp: bit_take_bit_iff bit_drop_bit_eq)
    finally show "bit (word_le (bytes_le (Suc n) w) :: 'b word) i \<longleftrightarrow>
        bit (take_bit (8 * Suc n) w) i" .
  qed
qed

corollary word_le_bytes_le_full [simp]:
  "LENGTH('b) \<le> 8 * n \<Longrightarrow> word_le (bytes_le n w) = (w :: 'b::len word)"
  by (simp add: word_le_bytes_le take_bit_word_eq_self)

lemma bytes_le_word_le:
  "length bs = n \<Longrightarrow> 8 * n \<le> LENGTH('b) \<Longrightarrow> bytes_le n (word_le bs :: 'b::len word) = bs"
proof (induction bs arbitrary: n)
  case Nil
  then show ?case by simp
next
  case (Cons b bs)
  then obtain k where n: "n = Suc k" and k: "length bs = k" by auto
  from Cons.prems n have len: "8 + 8 * k \<le> LENGTH('b)" by simp
  let ?w = "word_le (b # bs) :: 'b word"
  have low: "(ucast ?w :: u8) = b"
  proof (rule bit_eqI)
    fix i
    assume "possible_bit TYPE(u8) i"
    then have "i < 8" by simp
    with len show "bit (ucast ?w :: u8) i \<longleftrightarrow> bit b i"
      by (simp add: bit_ucast_iff bit_word_le_Cons del: word_le.simps)
  qed
  have rest: "bytes_le k (drop_bit 8 ?w) = bs"
  proof -
    have "bytes_le k (drop_bit 8 ?w) = bytes_le k (word_le bs :: 'b word)"
    proof -
      have "bytes_le j (drop_bit 8 ?w) = bytes_le j (word_le bs :: 'b word)"
        if "8 + 8 * j \<le> LENGTH('b)" for j
      proof -
        have agree: "\<forall>i < 8 * j. bit (u :: 'b word) i = bit (v :: 'b word) i \<Longrightarrow>
            bytes_le j u = bytes_le j v" for j u v
        proof (induction j arbitrary: u v)
          case 0
          then show ?case by simp
        next
          case (Suc j)
          have "(ucast u :: u8) = ucast v"
          proof (rule bit_eqI)
            fix i
            assume "possible_bit TYPE(u8) i"
            then have "i < 8" by simp
            with Suc.prems show "bit (ucast u :: u8) i \<longleftrightarrow> bit (ucast v :: u8) i"
              by (simp add: bit_ucast_iff)
          qed
          moreover have "bytes_le j (drop_bit 8 u) = bytes_le j (drop_bit 8 v)"
            by (rule Suc.IH) (use Suc.prems in \<open>simp add: bit_drop_bit_eq\<close>)
          ultimately show ?case by simp
        qed
        show ?thesis
          by (rule agree) (use that in \<open>simp add: bit_drop_bit_eq bit_word_le_Cons del: word_le.simps\<close>)
      qed
      then show ?thesis using len by blast
    qed
    also have "\<dots> = bs"
      by (rule Cons.IH [OF k]) (use len in simp)
    finally show ?thesis .
  qed
  from low rest n show ?case by (simp del: word_le.simps)
qed

section \<open>Loops that may not return\<close>

text \<open>The loop \<open>for (i \<in> is) body(i)\<close> with a body that may not return.\<close>

primrec for_each :: "('i \<Rightarrow> 's \<Rightarrow> 's option) \<Rightarrow> 'i list \<Rightarrow> 's \<Rightarrow> 's option" where
  "for_each body [] s = Some s"
| "for_each body (i # is) s = Option.bind (body i s) (for_each body is)"

section \<open>Byte memory\<close>

primrec read_bytes :: "'a::len memory \<Rightarrow> 'a word \<Rightarrow> nat \<Rightarrow> u8 list" where
  "read_bytes m a 0 = []"
| "read_bytes m a (Suc n) = m a # read_bytes m (a + 1) n"

primrec write_bytes :: "'a::len memory \<Rightarrow> 'a word \<Rightarrow> u8 list \<Rightarrow> 'a memory" where
  "write_bytes m a [] = m"
| "write_bytes m a (b # bs) = write_bytes (m(a := b)) (a + 1) bs"

definition read16 :: "'a::len memory \<Rightarrow> 'a word \<Rightarrow> u16" where
  "read16 m a = word_le (read_bytes m a 2)"

definition read32 :: "'a::len memory \<Rightarrow> 'a word \<Rightarrow> u32" where
  "read32 m a = word_le (read_bytes m a 4)"

definition read64 :: "'a::len memory \<Rightarrow> 'a word \<Rightarrow> u64" where
  "read64 m a = word_le (read_bytes m a 8)"

definition write16 :: "'a::len memory \<Rightarrow> 'a word \<Rightarrow> u16 \<Rightarrow> 'a memory" where
  "write16 m a w = write_bytes m a (bytes_le 2 w)"

definition write32 :: "'a::len memory \<Rightarrow> 'a word \<Rightarrow> u32 \<Rightarrow> 'a memory" where
  "write32 m a w = write_bytes m a (bytes_le 4 w)"

definition write64 :: "'a::len memory \<Rightarrow> 'a word \<Rightarrow> u64 \<Rightarrow> 'a memory" where
  "write64 m a w = write_bytes m a (bytes_le 8 w)"

text \<open>The loop \<open>for (j = 0; j < n; j++) dest[j] = src[j]\<close>, byte by byte in this order.\<close>

primrec mem_copy :: "'a::len memory \<Rightarrow> 'a word \<Rightarrow> 'a word \<Rightarrow> nat \<Rightarrow> 'a memory" where
  "mem_copy m d s 0 = m"
| "mem_copy m d s (Suc n) = mem_copy (m(d := m s)) (d + 1) (s + 1) n"

text \<open>The loop \<open>for (j = 0; j < n; j++) dest[j] = v\<close>.\<close>

primrec mem_fill :: "'a::len memory \<Rightarrow> 'a word \<Rightarrow> u8 \<Rightarrow> nat \<Rightarrow> 'a memory" where
  "mem_fill m d v 0 = m"
| "mem_fill m d v (Suc n) = mem_fill (m(d := v)) (d + 1) v n"

subsection \<open>Facts about reading and writing\<close>

lemma length_read_bytes [simp]: "length (read_bytes m a n) = n"
  by (induction n arbitrary: a) auto

lemma nth_read_bytes [simp]: "i < n \<Longrightarrow> read_bytes m a n ! i = m (a + of_nat i)"
proof (induction n arbitrary: a i)
  case 0
  then show ?case by simp
next
  case (Suc n)
  then show ?case by (cases i) (auto simp: add.assoc)
qed

lemma read_bytes_cong:
  "(\<And>i. i < n \<Longrightarrow> m (a + of_nat i) = m' (b + of_nat i)) \<Longrightarrow> read_bytes m a n = read_bytes m' b n"
  by (rule nth_equalityI) auto

lemma read_bytes_append:
  "read_bytes m a (n + k) = read_bytes m a n @ read_bytes m (a + of_nat n) k"
  by (induction n arbitrary: a) (auto simp: add.assoc)

text \<open>
  A region of \<open>n\<close> bytes at \<open>a\<close> holds the addresses at a wrap-around distance
  below \<open>n\<close> from \<open>a\<close>.
\<close>

definition region :: "'a::len word \<Rightarrow> nat \<Rightarrow> 'a word set" where
  "region a n = {x. unat (x - a) < n}"

lemma region_0 [simp]: "region a 0 = {}"
  by (simp add: region_def)

lemma unat_minus_1: "x \<noteq> 0 \<Longrightarrow> unat (x - 1) = unat (x :: 'a::len word) - 1"
  by (simp add: unat_minus_one)

lemma region_Suc: "region a (Suc n) = insert a (region (a + 1) n)" if "n < 2 ^ LENGTH('a)"
  for a :: "'a::len word"
proof (rule set_eqI)
  fix x
  show "x \<in> region a (Suc n) \<longleftrightarrow> x \<in> insert a (region (a + 1) n)"
  proof (cases "x = a")
    case True
    then show ?thesis by (simp add: region_def)
  next
    case False
    then have "x - a \<noteq> 0" by simp
    then have "unat (x - a - 1) = unat (x - a) - 1" and "0 < unat (x - a)"
      by (simp_all add: unat_minus_1 unat_gt_0)
    then show ?thesis using False by (auto simp: region_def algebra_simps)
  qed
qed

lemma in_region_nat: "x \<in> region a n \<Longrightarrow> \<exists>i < n. x = a + of_nat i"
  for a :: "'a::len word"
  by (rule exI [of _ "unat (x - a)"]) (simp add: region_def)

lemma nat_in_region: "i < n \<Longrightarrow> a + of_nat i \<in> region a n" for a :: "'a::len word"
  by (simp add: region_def unat_of_nat) (meson le_less_trans mod_less_eq_dividend)

lemma unat_of_nat_less: "i < 2 ^ LENGTH('a) \<Longrightarrow> unat (of_nat i :: 'a::len word) = i"
  by (simp add: unat_of_nat)

lemma word_of_unat: "unat x = n \<Longrightarrow> x = of_nat n" for x :: "'a::len word"
  by auto

lemma unat_u32: "unat (x :: u32) < 4294967296"
proof -
  have "unat x < 2 ^ LENGTH(32)" by (rule unsigned_less)
  then show ?thesis by simp
qed

lemma bit_below: "unat w < 2 ^ k \<Longrightarrow> bit w n \<Longrightarrow> n < k" for w :: "'a::len word"
proof (rule ccontr)
  assume w: "unat w < 2 ^ k" "bit w n" and "\<not> n < k"
  then have "(2 :: nat) ^ k \<le> 2 ^ n" by (intro power_increasing) simp_all
  with w(1) have "unat w < 2 ^ n" by (rule less_le_trans)
  then have "\<not> bit (unat w) n" by (simp add: bit_iff_odd)
  with w(2) show False by (simp only: bit_unsigned_iff possible_bit_nat simp_thms)
qed

lemma unat_add_of_nat:
  "unat p + n < 2 ^ LENGTH('a) \<Longrightarrow> unat (p + of_nat n) = unat (p :: 'a::len word) + n"
  by (simp add: unat_word_ariths unat_of_nat)

lemma write_bytes_apply:
  "length bs \<le> 2 ^ LENGTH('a) \<Longrightarrow>
   write_bytes m a bs x = (if x \<in> region a (length bs) then bs ! unat (x - a) else m x)"
  for a :: "'a::len word"
proof (induction bs arbitrary: m a)
  case Nil
  then show ?case by simp
next
  case (Cons b bs)
  then have len: "length bs < 2 ^ LENGTH('a)" by simp
  have IH: "write_bytes (m(a := b)) (a + 1) bs x =
      (if x \<in> region (a + 1) (length bs) then bs ! unat (x - (a + 1)) else (m(a := b)) x)"
    using Cons.IH [of "m(a := b)" "a + 1"] len by (simp del: fun_upd_apply)
  have step: "unat (x - a) = Suc (unat (x - (a + 1)))" if "x \<noteq> a"
  proof -
    from that have "x - a \<noteq> 0" by simp
    then have "unat (x - a - 1) = unat (x - a) - 1" and "0 < unat (x - a)"
      by (simp_all add: unat_minus_1 unat_gt_0)
    then show ?thesis by (simp add: algebra_simps)
  qed
  have self: "a \<notin> region (a + 1) (length bs)"
  proof -
    have "a - (a + 1) = (-1 :: 'a word)" by simp
    then have "unat (a - (a + 1)) = 2 ^ LENGTH('a) - 1" by (simp add: unsigned_minus_1_eq_mask mask_eq_exp_minus_1)
    with len show ?thesis by (simp add: region_def)
  qed
  show ?case
    using IH len step self
    by (cases "x = a") (simp_all add: region_Suc)
qed

lemma read_write_bytes_same [mem_simps]:
  "length bs \<le> 2 ^ LENGTH('a) \<Longrightarrow> n = length bs \<Longrightarrow>
   read_bytes (write_bytes m a bs) (a :: 'a::len word) n = bs"
  by (rule nth_equalityI)
     (auto simp: write_bytes_apply nat_in_region unat_of_nat_less)

lemma read_write_bytes_disjoint [mem_simps]:
  "length bs \<le> 2 ^ LENGTH('a) \<Longrightarrow> region a (length bs) \<inter> region b n = {} \<Longrightarrow>
   read_bytes (write_bytes m a bs) (b :: 'a::len word) n = read_bytes m b n"
  by (rule read_bytes_cong) (use nat_in_region in \<open>fastforce simp: write_bytes_apply\<close>)

lemma write_bytes_outside [mem_simps]:
  "length bs \<le> 2 ^ LENGTH('a) \<Longrightarrow> x \<notin> region a (length bs) \<Longrightarrow> write_bytes m a bs x = m x"
  for a :: "'a::len word"
  by (simp add: write_bytes_apply)

lemma write_bytes_inside [mem_simps]:
  "length bs \<le> 2 ^ LENGTH('a) \<Longrightarrow> i < length bs \<Longrightarrow> write_bytes m a bs (a + of_nat i) = bs ! i"
  for a :: "'a::len word"
  by (simp add: write_bytes_apply nat_in_region unat_of_nat_less)

lemma write_bytes_append:
  "write_bytes m a (xs @ ys) = write_bytes (write_bytes m a xs) (a + of_nat (length xs)) ys"
  by (induction xs arbitrary: m a) (auto simp: add.assoc)

lemma mem_fill_write: "mem_fill m d v n = write_bytes m d (replicate n v)"
  by (induction n arbitrary: m d) auto

text \<open>A forward copy between disjoint regions writes the bytes that were at the source.\<close>

lemma mem_copy_write:
  "n \<le> 2 ^ LENGTH('a) \<Longrightarrow> region d n \<inter> region s n = {} \<Longrightarrow>
   mem_copy m d s n = write_bytes m d (read_bytes m s n)"
  for d :: "'a::len word"
proof (induction n arbitrary: m d s)
  case 0
  then show ?case by simp
next
  case (Suc n)
  then have n: "n < 2 ^ LENGTH('a)" by simp
  with Suc.prems(2) have disj: "region (d + 1) n \<inter> region (s + 1) n = {}"
    and d: "d \<notin> region (s + 1) n"
    by (auto simp: region_Suc)
  have "mem_copy m d s (Suc n) = mem_copy (m(d := m s)) (d + 1) (s + 1) n" by simp
  also have "\<dots> = write_bytes (m(d := m s)) (d + 1) (read_bytes (m(d := m s)) (s + 1) n)"
    using Suc.IH n disj by simp
  also have "read_bytes (m(d := m s)) (s + 1) n = read_bytes m (s + 1) n"
    by (rule read_bytes_cong) (use d nat_in_region in \<open>fastforce simp: fun_upd_def\<close>)
  finally show ?case by (simp del: fun_upd_apply)
qed

text \<open>Two regions one after the other, without wrap-around.\<close>

lemma regions_apart:
  fixes a b :: "'a::len word"
  assumes "unat a + n \<le> unat b" "unat b + k \<le> 2 ^ LENGTH('a)"
  shows "region a n \<inter> region b k = {}"
proof -
  have False if "x \<in> region a n" "x \<in> region b k" for x
  proof -
    from in_region_nat [OF that(1)] obtain i where i: "i < n" "x = a + of_nat i" by blast
    from in_region_nat [OF that(2)] obtain j where j: "j < k" "x = b + of_nat j" by blast
    have "unat x = unat a + i" unfolding i(2) by (rule unat_add_of_nat) (use i(1) assms in linarith)
    moreover have "unat x = unat b + j" unfolding j(2) by (rule unat_add_of_nat) (use j(1) assms in linarith)
    ultimately show False using i(1) assms(1) by linarith
  qed
  then show ?thesis by blast
qed

lemma regions_apart_base:
  fixes d :: "'a::len word"
  assumes "a + n \<le> b" "b + k \<le> 2 ^ LENGTH('a)"
  shows "region (d + of_nat a) n \<inter> region (d + of_nat b) k = {}"
proof -
  have False if "x \<in> region (d + of_nat a) n" "x \<in> region (d + of_nat b) k" for x
  proof -
    from in_region_nat [OF that(1)] obtain i where i: "i < n" "x = d + of_nat (a + i)" by (auto simp: ac_simps)
    from in_region_nat [OF that(2)] obtain j where j: "j < k" "x = d + of_nat (b + j)" by (auto simp: ac_simps)
    from i(2) j(2) have "of_nat (a + i) = (of_nat (b + j) :: 'a word)" by (simp del: of_nat_add)
    then have "unat (of_nat (a + i) :: 'a word) = unat (of_nat (b + j) :: 'a word)" by (simp only:)
    moreover have "a + i < 2 ^ LENGTH('a)" "b + j < 2 ^ LENGTH('a)" using assms i(1) j(1) by linarith+
    ultimately have "a + i = b + j" by (simp only: unat_of_nat_less)
    with assms(1) i(1) show False by simp
  qed
  then show ?thesis by blast
qed

lemma region_mono: "n \<le> k \<Longrightarrow> region a n \<subseteq> region a k"
  by (auto simp: region_def)

lemma region_offset:
  "i + k \<le> n \<Longrightarrow> n \<le> 2 ^ LENGTH('a) \<Longrightarrow> region (a + of_nat i) k \<subseteq> region a n"
  for a :: "'a::len word"
proof
  fix x
  assume ik: "i + k \<le> n" and n: "n \<le> 2 ^ LENGTH('a)" and x: "x \<in> region (a + of_nat i) k"
  then obtain j where "j < k" and "x = a + of_nat i + of_nat j" using in_region_nat by blast
  then have "x = a + of_nat (i + j)" and "i + j < n" using ik by (simp_all add: add.assoc)
  then show "x \<in> region a n" using nat_in_region [of "i + j" n a] by simp
qed

lemma read_write_word_same [simp, mem_simps]:
  fixes a :: "'a::len word"
  shows "(2 :: nat) \<le> 2 ^ LENGTH('a) \<Longrightarrow> read16 (write16 m a v16) a = v16"
    and "(4 :: nat) \<le> 2 ^ LENGTH('a) \<Longrightarrow> read32 (write32 m a v32) a = v32"
    and "(8 :: nat) \<le> 2 ^ LENGTH('a) \<Longrightarrow> read64 (write64 m a v64) a = v64"
  by (simp_all add: read16_def write16_def read32_def write32_def read64_def write64_def
      read_write_bytes_same)

lemma read32_write32_disjoint:
  "(4 :: nat) \<le> 2 ^ LENGTH('a) \<Longrightarrow> region a 4 \<inter> region b 4 = {} \<Longrightarrow>
   read32 (write32 m a v) (b :: 'a::len word) = read32 m b"
  by (simp add: read32_def write32_def read_write_bytes_disjoint)

text \<open>Two loops that may not return agree when each returns what the other does.\<close>

lemma option_eqI: "(\<And>y. f = Some y \<Longrightarrow> g = Some y) \<Longrightarrow> (\<And>y. g = Some y \<Longrightarrow> f = Some y) \<Longrightarrow> f = g"
  by (cases f; cases g) auto

end
