(* ===== verification/Pmm.thy ===== *)
theory Pmm
  imports Prelude
begin

text \<open>
  The physical page allocator of kernel/mm/pmm.c: a bitmap of 4096 pages in
  512 bytes, bit set when the page is in use. The operations work on the
  bitmap as the C does (byte \<open>i / 8\<close>, bit \<open>i mod 8\<close>); the abstraction is the
  set of free page numbers. \<open>None\<close> is the call of panic, which never returns.
  pmm_init reads the multiboot structures from byte memory; the address width
  and the alignment of uint64_t are parameters, because the unpacked struct
  multiboot_mmap_entry_t is laid out differently in the two builds.
\<close>

section \<open>The bitmap\<close>

abbreviation (input) PMM_MAX_PAGES :: nat where
  "PMM_MAX_PAGES \<equiv> 4096"

definition bit_set :: "u8 list \<Rightarrow> nat \<Rightarrow> u8 list" where
  "bit_set a i = a[i div 8 := a ! (i div 8) OR push_bit (i mod 8) 1]"

definition bit_clear :: "u8 list \<Rightarrow> nat \<Rightarrow> u8 list" where
  "bit_clear a i = a[i div 8 := a ! (i div 8) AND NOT (push_bit (i mod 8) 1)]"

definition bit_test :: "u8 list \<Rightarrow> nat \<Rightarrow> bool" where
  "bit_test a i \<longleftrightarrow> a ! (i div 8) AND push_bit (i mod 8) 1 \<noteq> 0"

text \<open>The two range loops of pmm_init: \<open>for (i = lo; i < hi && i < PMM_MAX_PAGES; i++)\<close>.\<close>

function set_range :: "u8 list \<Rightarrow> nat \<Rightarrow> nat \<Rightarrow> u8 list" where
  "set_range bm i hi =
     (if i < hi \<and> i < PMM_MAX_PAGES then set_range (bit_set bm i) (Suc i) hi else bm)"
  by pat_completeness auto
termination by (relation "measure (\<lambda>(bm, i, hi). hi - i)") auto

function clear_range :: "u8 list \<Rightarrow> nat \<Rightarrow> nat \<Rightarrow> u8 list" where
  "clear_range bm i hi =
     (if i < hi \<and> i < PMM_MAX_PAGES then clear_range (bit_clear bm i) (Suc i) hi else bm)"
  by pat_completeness auto
termination by (relation "measure (\<lambda>(bm, i, hi). hi - i)") auto

declare set_range.simps [simp del] clear_range.simps [simp del]

section \<open>Allocation and release\<close>

function pmm_alloc_from :: "nat \<Rightarrow> u8 list \<Rightarrow> (nat \<times> u8 list) option" where
  "pmm_alloc_from i bm =
     (if i < PMM_MAX_PAGES
      then if \<not> bit_test bm i then Some (i * 4096, bit_set bm i) else pmm_alloc_from (Suc i) bm
      else None)"
  by pat_completeness auto
termination by (relation "measure (\<lambda>(i, bm). PMM_MAX_PAGES - i)") auto

declare pmm_alloc_from.simps [simp del]

definition pmm_alloc :: "u8 list \<Rightarrow> ('a::len word \<times> u8 list) option" where
  "pmm_alloc bm = map_option (\<lambda>(p, bm'). (of_nat p, bm')) (pmm_alloc_from 0 bm)"

definition pmm_free :: "'a::len word \<Rightarrow> u8 list \<Rightarrow> u8 list" where
  "pmm_free addr bm =
     (let page = unat (ucast (addr div 4096) :: u32)
      in if page < PMM_MAX_PAGES then bit_clear bm page else bm)"

text \<open>
  The scan of pmm_alloc_pages; \<open>start\<close> and \<open>found\<close> are the C ints, \<open>count\<close> is the
  signed argument. The inner loop that marks the run is \<open>set_run\<close>.
\<close>

primrec set_run :: "u8 list \<Rightarrow> nat \<Rightarrow> nat \<Rightarrow> u8 list" where
  "set_run bm j 0 = bm"
| "set_run bm j (Suc n) = set_run (bit_set bm j) (Suc j) n"

function pmm_alloc_pages_from ::
    "int \<Rightarrow> u8 list \<Rightarrow> nat \<Rightarrow> int \<Rightarrow> int \<Rightarrow> (nat \<times> u8 list) option" where
  "pmm_alloc_pages_from count bm i start found =
     (if i < PMM_MAX_PAGES
      then if \<not> bit_test bm i
           then let start' = (if start = -1 then int i else start); found' = found + 1
                in if found' = count
                   then Some (nat start' * 4096, set_run bm (nat start') (nat count))
                   else pmm_alloc_pages_from count bm (Suc i) start' found'
           else pmm_alloc_pages_from count bm (Suc i) (-1) 0
      else None)"
  by pat_completeness auto
termination by (relation "measure (\<lambda>(c, bm, i, s, f). PMM_MAX_PAGES - i)") auto

declare pmm_alloc_pages_from.simps [simp del]

definition pmm_alloc_pages :: "u32 \<Rightarrow> u8 list \<Rightarrow> ('a::len word \<times> u8 list) option" where
  "pmm_alloc_pages count bm =
     map_option (\<lambda>(p, bm'). (of_nat p, bm')) (pmm_alloc_pages_from (sint count) bm 0 (-1) 0)"

section \<open>Initialisation from the multiboot information\<close>

text \<open>The alignment of uint64_t inside a struct: 4 on i386, 8 on x86_64.\<close>

datatype arch = I386 | X64

record multiboot_info =
  mb_flags :: u32
  mb_mem_lower :: u32
  mb_mem_upper :: u32
  mb_boot_device :: u32
  mb_cmdline :: u32
  mb_mods_count :: u32
  mb_mods_addr :: u32
  mb_mmap_length :: u32
  mb_mmap_addr :: u32

record mmap_entry =
  me_size :: u32
  me_base_addr :: u64
  me_length :: u64
  me_type :: u32

definition align_u64 :: "arch \<Rightarrow> nat" where
  "align_u64 ar = (case ar of I386 \<Rightarrow> 4 | X64 \<Rightarrow> 8)"

text \<open>The fields of multiboot_mmap_entry_t as the compiled code reads them.\<close>

definition read_mmap_entry :: "arch \<Rightarrow> 'a::len memory \<Rightarrow> 'a word \<Rightarrow> mmap_entry" where
  "read_mmap_entry ar m p =
     (let b = of_nat (align_u64 ar)
      in \<lparr>me_size = read32 m p, me_base_addr = read64 m (p + b),
          me_length = read64 m (p + b + 8), me_type = read32 m (p + b + 16)\<rparr>)"

definition apply_mmap_entry :: "mmap_entry \<Rightarrow> u8 list \<Rightarrow> u8 list" where
  "apply_mmap_entry e bm =
     (if me_type e = 1
      then clear_range bm (unat (me_base_addr e div 4096))
             (unat ((me_base_addr e + me_length e) div 4096))
      else bm)"

partial_function (option) mmap_loop ::
    "arch \<Rightarrow> 'a::len memory \<Rightarrow> 'a word \<Rightarrow> 'a word \<Rightarrow> u8 list \<Rightarrow> u8 list option" where
  "mmap_loop ar m mmap mmap_end bm =
     (if mmap < mmap_end
      then let e = read_mmap_entry ar m mmap
           in mmap_loop ar m (mmap + ucast (me_size e) + 4) mmap_end (apply_mmap_entry e bm)
      else Some bm)"

text \<open>Module \<open>k\<close> of the array at mods_addr: mod_start and mod_end, 16 bytes apart.\<close>

definition read_module :: "'a::len memory \<Rightarrow> 'a word \<Rightarrow> nat \<Rightarrow> u32 \<times> u32" where
  "read_module m base k =
     (read32 m (base + of_nat (16 * k)), read32 m (base + of_nat (16 * k) + 4))"

definition reserve_module :: "u32 \<times> u32 \<Rightarrow> u8 list \<Rightarrow> u8 list" where
  "reserve_module md bm =
     set_range bm (unat (fst md div 4096)) (unat ((snd md + 4095) div 4096))"

definition pmm_init ::
    "arch \<Rightarrow> 'a::len word \<Rightarrow> 'a memory \<Rightarrow> multiboot_info \<Rightarrow> u8 list option" where
  "pmm_init ar kernel_end_sym m mb =
     (let bm0 = replicate (PMM_MAX_PAGES div 8) 0xFF
      in case (if mb_flags mb AND push_bit 6 1 \<noteq> 0
               then mmap_loop ar m (ucast (mb_mmap_addr mb))
                      (ucast (mb_mmap_addr mb) + ucast (mb_mmap_length mb)) bm0
               else Some bm0) of
           None \<Rightarrow> None
         | Some bm1 \<Rightarrow>
             let bm2 = set_run bm1 0 0x100;
                 kernel_start = 0x100000 div 4096;
                 kernel_end = unat (ucast ((kernel_end_sym + 4095) div 4096) :: u32);
                 bm3 = set_range bm2 kernel_start kernel_end
             in Some (if mb_flags mb AND push_bit 3 1 \<noteq> 0
                      then fold (\<lambda>k bm. reserve_module (read_module m (ucast (mb_mods_addr mb)) k) bm)
                             [0..<unat (mb_mods_count mb)] bm3
                      else bm3))"

section \<open>The free pages of a bitmap\<close>

definition pmm_inv :: "u8 list \<Rightarrow> bool" where
  "pmm_inv bm \<longleftrightarrow> length bm = PMM_MAX_PAGES div 8"

definition free_pages :: "u8 list \<Rightarrow> nat set" where
  "free_pages bm = {i. i < PMM_MAX_PAGES \<and> \<not> bit_test bm i}"

lemma bit_test_bit: "bit_test bm i \<longleftrightarrow> bit (bm ! (i div 8)) (i mod 8)"
  unfolding bit_test_def push_bit_of_1 and_exp_eq_0_iff_not_bit by simp

lemma bit_or_flag: "k < 8 \<Longrightarrow> bit (b OR push_bit k 1 :: u8) n \<longleftrightarrow> bit b n \<or> n = k"
  by (auto simp: bit_or_iff bit_exp_iff)

lemma bit_and_not_flag:
  "n < 8 \<Longrightarrow> bit (b AND NOT (push_bit k 1) :: u8) n \<longleftrightarrow> bit b n \<and> n \<noteq> k"
  by (auto simp: bit_and_iff bit_not_iff bit_exp_iff dest: bit_imp_le_length)

lemma page_byte: "pmm_inv bm \<Longrightarrow> i < PMM_MAX_PAGES \<Longrightarrow> i div 8 < length bm"
  by (simp add: pmm_inv_def)

lemma same_page: "(i :: nat) div 8 = j div 8 \<Longrightarrow> i mod 8 = j mod 8 \<longleftrightarrow> i = j"
  by (metis mult_div_mod_eq)

lemma bit_test_set [simp]:
  assumes "pmm_inv bm" and "i < PMM_MAX_PAGES"
  shows "bit_test (bit_set bm i) j \<longleftrightarrow> j = i \<or> bit_test bm j"
proof (cases "i div 8 = j div 8")
  case True
  then have "bit_set bm i ! (j div 8) = bm ! (j div 8) OR push_bit (i mod 8) 1"
    using page_byte [OF assms] by (simp add: bit_set_def del: push_bit_of_1)
  then show ?thesis
    using same_page [OF True] by (auto simp: bit_test_bit bit_or_flag simp del: push_bit_of_1)
next
  case False
  then show ?thesis by (auto simp: bit_test_bit bit_set_def)
qed

lemma bit_test_clear [simp]:
  assumes "pmm_inv bm" and "i < PMM_MAX_PAGES"
  shows "bit_test (bit_clear bm i) j \<longleftrightarrow> j \<noteq> i \<and> bit_test bm j"
proof (cases "i div 8 = j div 8")
  case True
  then have "bit_clear bm i ! (j div 8) = bm ! (j div 8) AND NOT (push_bit (i mod 8) 1)"
    using page_byte [OF assms] by (simp add: bit_clear_def del: push_bit_of_1)
  then show ?thesis
    using same_page [OF True] by (auto simp: bit_test_bit bit_and_not_flag simp del: push_bit_of_1)
next
  case False
  then show ?thesis by (auto simp: bit_test_bit bit_clear_def)
qed

lemma pmm_inv_bit_set [simp, inv_intros]: "pmm_inv bm \<Longrightarrow> pmm_inv (bit_set bm i)"
  by (simp add: pmm_inv_def bit_set_def)

lemma pmm_inv_bit_clear [simp, inv_intros]: "pmm_inv bm \<Longrightarrow> pmm_inv (bit_clear bm i)"
  by (simp add: pmm_inv_def bit_clear_def)

lemma free_bit_set:
  "pmm_inv bm \<Longrightarrow> i < PMM_MAX_PAGES \<Longrightarrow> free_pages (bit_set bm i) = free_pages bm - {i}"
  by (auto simp: free_pages_def)

lemma free_bit_clear:
  "pmm_inv bm \<Longrightarrow> i < PMM_MAX_PAGES \<Longrightarrow> free_pages (bit_clear bm i) = insert i (free_pages bm)"
  by (auto simp: free_pages_def)

lemma free_bound: "i \<in> free_pages bm \<Longrightarrow> i < PMM_MAX_PAGES"
  by (simp add: free_pages_def)


section \<open>The range loops\<close>

lemma from_Suc: "i \<le> j \<longleftrightarrow> j = i \<or> Suc i \<le> j" for i j :: nat
  by auto

lemma set_range_spec:
  "pmm_inv bm \<Longrightarrow>
   pmm_inv (set_range bm i hi) \<and>
   (\<forall>j. bit_test (set_range bm i hi) j \<longleftrightarrow> bit_test bm j \<or> i \<le> j \<and> j < hi \<and> j < PMM_MAX_PAGES)"
proof (induction bm i hi rule: set_range.induct)
  case (1 bm i hi)
  show ?case
  proof (cases "i < hi \<and> i < PMM_MAX_PAGES")
    case True
    then have eq: "set_range bm i hi = set_range (bit_set bm i) (Suc i) hi"
      by (simp add: set_range.simps [of bm i hi])
    from "1.IH" [OF True] "1.prems" True show ?thesis
      unfolding eq from_Suc [of i] by auto
  next
    case False
    then have "set_range bm i hi = bm" by (subst set_range.simps) (simp only: if_False)
    with False "1.prems" show ?thesis by auto
  qed
qed

lemma clear_range_spec:
  "pmm_inv bm \<Longrightarrow>
   pmm_inv (clear_range bm i hi) \<and>
   (\<forall>j. bit_test (clear_range bm i hi) j \<longleftrightarrow>
      bit_test bm j \<and> \<not> (i \<le> j \<and> j < hi \<and> j < PMM_MAX_PAGES))"
proof (induction bm i hi rule: clear_range.induct)
  case (1 bm i hi)
  show ?case
  proof (cases "i < hi \<and> i < PMM_MAX_PAGES")
    case True
    then have eq: "clear_range bm i hi = clear_range (bit_clear bm i) (Suc i) hi"
      by (simp add: clear_range.simps [of bm i hi])
    from "1.IH" [OF True] "1.prems" True show ?thesis
      unfolding eq from_Suc [of i] by auto
  next
    case False
    then have "clear_range bm i hi = bm" by (subst clear_range.simps) (simp only: if_False)
    with False "1.prems" show ?thesis by auto
  qed
qed

lemma set_run_spec:
  "pmm_inv bm \<Longrightarrow> j + n \<le> PMM_MAX_PAGES \<Longrightarrow>
   pmm_inv (set_run bm j n) \<and>
   (\<forall>k. bit_test (set_run bm j n) k \<longleftrightarrow> bit_test bm k \<or> j \<le> k \<and> k < j + n)"
proof (induction n arbitrary: bm j)
  case 0
  then show ?case by auto
next
  case (Suc n)
  then have "pmm_inv (bit_set bm j)" and "Suc j + n \<le> PMM_MAX_PAGES" by simp_all
  from Suc.IH [OF this] Suc.prems show ?case
    unfolding from_Suc [of j] set_run.simps by auto
qed

lemma free_set_run:
  "pmm_inv bm \<Longrightarrow> j + n \<le> PMM_MAX_PAGES \<Longrightarrow>
   free_pages (set_run bm j n) = free_pages bm - {j..<j + n}"
  by (drule (1) set_run_spec) (simp add: free_pages_def set_eq_iff)

section \<open>pmm_alloc takes the lowest free page\<close>

lemma pmm_alloc_from_step:
  "i < PMM_MAX_PAGES \<Longrightarrow> bit_test bm i \<Longrightarrow> pmm_alloc_from i bm = pmm_alloc_from (Suc i) bm"
  "i < PMM_MAX_PAGES \<Longrightarrow> \<not> bit_test bm i \<Longrightarrow> pmm_alloc_from i bm = Some (i * 4096, bit_set bm i)"
  "\<not> i < PMM_MAX_PAGES \<Longrightarrow> pmm_alloc_from i bm = None"
  by (simp_all add: pmm_alloc_from.simps [of i bm])

text \<open>The result of the scan from page \<open>i\<close>: the first clear bit at or after \<open>i\<close>, if any.\<close>

lemma pmm_alloc_from_cases:
  "(pmm_alloc_from i bm = None \<and> (\<forall>j. i \<le> j \<and> j < PMM_MAX_PAGES \<longrightarrow> bit_test bm j)) \<or>
   (\<exists>j. pmm_alloc_from i bm = Some (j * 4096, bit_set bm j) \<and> i \<le> j \<and> j < PMM_MAX_PAGES \<and>
        \<not> bit_test bm j \<and> (\<forall>k. i \<le> k \<and> k < j \<longrightarrow> bit_test bm k))"
proof (induction i bm rule: pmm_alloc_from.induct)
  case (1 i bm)
  show ?case
  proof (cases "i < PMM_MAX_PAGES \<and> bit_test bm i")
    case True
    with "1.IH" show ?thesis
      unfolding pmm_alloc_from_step(1) [OF conjunct1 [OF True] conjunct2 [OF True]]
      by (metis from_Suc)
  next
    case False
    show ?thesis
    proof (cases "i < PMM_MAX_PAGES")
      case True
      with False have "pmm_alloc_from i bm = Some (i * 4096, bit_set bm i)"
        by (simp add: pmm_alloc_from_step(2))
      with True False show ?thesis by (intro disjI2 exI [of _ i]) auto
    next
      case False
      then show ?thesis by (intro disjI1) (auto simp: pmm_alloc_from_step(3))
    qed
  qed
qed

lemma pmm_alloc_None: "pmm_alloc bm = None \<longleftrightarrow> free_pages bm = {}"
  using pmm_alloc_from_cases [of 0 bm] by (auto simp: pmm_alloc_def free_pages_def)

lemma pmm_alloc_Some:
  assumes "pmm_alloc bm = Some (p, bm')"
  obtains i where "i \<in> free_pages bm" and "\<forall>j \<in> free_pages bm. i \<le> j"
    and "p = of_nat (i * 4096)" and "bm' = bit_set bm i"
proof -
  obtain j where j: "pmm_alloc_from 0 bm = Some (j * 4096, bit_set bm j)" "j < PMM_MAX_PAGES"
    "\<not> bit_test bm j" and below: "\<forall>k < j. bit_test bm k"
    using pmm_alloc_from_cases [of 0 bm] assms by (auto simp: pmm_alloc_def)
  have "\<forall>k \<in> free_pages bm. j \<le> k"
    using below by (auto simp: free_pages_def intro: leI)
  with j assms show ?thesis
    by (intro that [of j]) (auto simp: free_pages_def pmm_alloc_def)
qed


section \<open>pmm_alloc_pages takes the lowest run of free pages\<close>

definition run_free :: "u8 list \<Rightarrow> nat \<Rightarrow> nat \<Rightarrow> bool" where
  "run_free bm t n \<longleftrightarrow> t + n \<le> PMM_MAX_PAGES \<and> (\<forall>k. t \<le> k \<and> k < t + n \<longrightarrow> \<not> bit_test bm k)"

lemma run_free_pages: "run_free bm t n \<longleftrightarrow> t + n \<le> PMM_MAX_PAGES \<and> {t..<t + n} \<subseteq> free_pages bm"
  by (auto simp: run_free_def free_pages_def)

text \<open>
  What the scan knows at page \<open>i\<close>: \<open>lo\<close> is where the current run of free pages
  began (or \<open>i\<close> itself when there is none), and no run of \<open>n\<close> pages starts before it.
\<close>

definition scan_inv :: "nat \<Rightarrow> u8 list \<Rightarrow> nat \<Rightarrow> nat \<Rightarrow> int \<Rightarrow> int \<Rightarrow> bool" where
  "scan_inv n bm i lo start found \<longleftrightarrow>
     lo \<le> i \<and> i < lo + n \<and> found = int (i - lo) \<and>
     (start = (if lo = i then -1 else int lo)) \<and>
     (\<forall>k. lo \<le> k \<and> k < i \<longrightarrow> \<not> bit_test bm k) \<and>
     (\<forall>t. run_free bm t n \<longrightarrow> lo \<le> t)"

lemma scan_inv_start: "0 < n \<Longrightarrow> scan_inv n bm 0 0 (-1) 0"
  by (simp add: scan_inv_def)

lemma scan_inv_used:
  assumes inv: "scan_inv n bm i lo start found" and used: "bit_test bm i" and n: "0 < n"
  shows "scan_inv n bm (Suc i) (Suc i) (-1) 0"
proof -
  have "Suc i \<le> t" if "run_free bm t n" for t
  proof (rule ccontr)
    assume "\<not> Suc i \<le> t"
    with that inv have "t \<le> i" and "i < t + n" by (auto simp: scan_inv_def)
    with that used show False by (auto simp: run_free_def)
  qed
  with n show ?thesis by (auto simp: scan_inv_def)
qed

lemma scan_inv_free:
  assumes inv: "scan_inv n bm i lo start found" and free: "\<not> bit_test bm i"
    and more: "found + 1 \<noteq> int n"
  shows "scan_inv n bm (Suc i) lo (if start = -1 then int i else start) (found + 1)"
proof -
  from inv more have "Suc i < lo + n" by (auto simp: scan_inv_def)
  moreover have "\<forall>k. lo \<le> k \<and> k < Suc i \<longrightarrow> \<not> bit_test bm k"
    using inv free by (auto simp: scan_inv_def less_Suc_eq)
  ultimately show ?thesis using inv by (auto simp: scan_inv_def)
qed

lemma pmm_alloc_pages_from_spec:
  "scan_inv n bm i lo start found \<Longrightarrow> 0 < n \<Longrightarrow> i \<le> PMM_MAX_PAGES \<Longrightarrow>
   (pmm_alloc_pages_from (int n) bm i start found = None \<and> (\<forall>t. \<not> run_free bm t n)) \<or>
   (\<exists>s. pmm_alloc_pages_from (int n) bm i start found = Some (s * 4096, set_run bm s n) \<and>
        run_free bm s n \<and> (\<forall>t. run_free bm t n \<longrightarrow> s \<le> t))"
proof (induction "int n" bm i start found arbitrary: lo rule: pmm_alloc_pages_from.induct)
  case (1 bm i start found)
  note eq = pmm_alloc_pages_from.simps [of "int n" bm i start found]
  from "1.prems"(1) have run: "lo \<le> i" "i < lo + n" "\<forall>k. lo \<le> k \<and> k < i \<longrightarrow> \<not> bit_test bm k"
    and least: "\<forall>t. run_free bm t n \<longrightarrow> lo \<le> t" and found: "found = int (i - lo)"
    and start: "start = (if lo = i then -1 else int lo)"
    by (simp_all add: scan_inv_def)
  show ?case
  proof (cases "i < PMM_MAX_PAGES")
    case False
    have "\<not> run_free bm t n" for t
      using least run(2) False unfolding run_free_def by fastforce
    with False show ?thesis by (simp add: eq)
  next
    case here: True
    show ?thesis
    proof (cases "bit_test bm i")
      case True
      with here have step: "pmm_alloc_pages_from (int n) bm i start found =
          pmm_alloc_pages_from (int n) bm (Suc i) (-1) 0" by (simp add: eq)
      show ?thesis
        unfolding step
        by (rule "1.hyps"(2)) (use here True "1.prems" scan_inv_used in auto)
    next
      case free: False
      show ?thesis
      proof (cases "found + 1 = int n")
        case True
        have s: "(if start = -1 then int i else start) = int lo" using start by simp
        have "i = lo + n - 1" using True found run by linarith
        then have "run_free bm lo n"
          using free run here unfolding run_free_def by (metis Suc_leI Suc_pred' add_gr_0
              less_Suc_eq "1.prems"(2) add.commute not_less_eq_eq)
        with s least here free True show ?thesis
          by (intro disjI2 exI [of _ lo]) (simp add: eq Let_def)
      next
        case False
        with here free have step: "pmm_alloc_pages_from (int n) bm i start found =
            pmm_alloc_pages_from (int n) bm (Suc i) (if start = -1 then int i else start) (found + 1)"
          by (simp add: eq Let_def)
        show ?thesis
          unfolding step
          using "1.hyps"(1) [OF here free refl refl False
              scan_inv_free [OF "1.prems"(1) free False] "1.prems"(2)] here by simp
      qed
    qed
  qed
qed

lemma pmm_alloc_pages_from_nonpos:
  "count \<le> 0 \<Longrightarrow> 0 \<le> found \<Longrightarrow> pmm_alloc_pages_from count bm i start found = None"
proof (induction count bm i start found rule: pmm_alloc_pages_from.induct)
  case (1 count bm i start found)
  then show ?case
    by (auto simp: pmm_alloc_pages_from.simps [of count bm i start found] Let_def)
qed


section \<open>The allocator as an interface\<close>

text \<open>
  What the clients of an allocator rely on: a successful call hands out a page
  that was available, and only that page stops being available; it fails only
  when nothing is available. \<open>alloc_seq\<close> calls the allocator \<open>n\<close> times.
\<close>

primrec alloc_seq :: "('s \<Rightarrow> ('p \<times> 's) option) \<Rightarrow> nat \<Rightarrow> 's \<Rightarrow> ('p list \<times> 's) option" where
  "alloc_seq alloc 0 s = Some ([], s)"
| "alloc_seq alloc (Suc n) s =
     (case alloc s of None \<Rightarrow> None
      | Some (p, s') \<Rightarrow> map_option (\<lambda>(ps, s''). (p # ps, s'')) (alloc_seq alloc n s'))"

locale page_allocator =
  fixes alloc :: "'s \<Rightarrow> ('p \<times> 's) option"
    and avail :: "'s \<Rightarrow> nat set"
    and page_no :: "'p \<Rightarrow> nat"
    and inv :: "'s \<Rightarrow> bool"
  assumes alloc_none: "inv s \<Longrightarrow> alloc s = None \<longleftrightarrow> avail s = {}"
    and alloc_some: "inv s \<Longrightarrow> alloc s = Some (p, s') \<Longrightarrow>
      inv s' \<and> page_no p \<in> avail s \<and> avail s' = avail s - {page_no p}"
    and avail_finite: "inv s \<Longrightarrow> finite (avail s)"
begin

lemma alloc_seq_fresh:
  "inv s \<Longrightarrow> alloc_seq alloc n s = Some (ps, s') \<Longrightarrow>
   inv s' \<and> length ps = n \<and> distinct (map page_no ps) \<and> page_no ` set ps \<subseteq> avail s \<and>
   avail s' = avail s - page_no ` set ps"
proof (induction n arbitrary: s ps)
  case 0
  then show ?case by simp
next
  case (Suc n)
  from Suc.prems(2) obtain p t qs where a: "alloc s = Some (p, t)"
    and rest: "alloc_seq alloc n t = Some (qs, s')" and ps: "ps = p # qs"
    by (auto split: option.splits)
  from alloc_some [OF Suc.prems(1) a] have t: "inv t" and p: "page_no p \<in> avail s"
    and av: "avail t = avail s - {page_no p}" by simp_all
  from Suc.IH [OF t rest] p av ps show ?case by auto
qed

lemma alloc_seq_total:
  "inv s \<Longrightarrow> n \<le> card (avail s) \<Longrightarrow> \<exists>ps s'. alloc_seq alloc n s = Some (ps, s')"
proof (induction n arbitrary: s)
  case 0
  then show ?case by simp
next
  case (Suc n)
  then have "avail s \<noteq> {}" by auto
  with alloc_none Suc.prems(1) obtain p t where a: "alloc s = Some (p, t)" by fastforce
  from alloc_some [OF Suc.prems(1) a] avail_finite [OF Suc.prems(1)] Suc.prems(2)
  have "inv t" and "n \<le> card (avail t)" by simp_all
  from Suc.IH [OF this] a show ?case by auto
qed

lemma alloc_seq_fails:
  "inv s \<Longrightarrow> card (avail s) < n \<Longrightarrow> alloc_seq alloc n s = None"
proof (rule ccontr)
  assume inv: "inv s" and few: "card (avail s) < n" and "alloc_seq alloc n s \<noteq> None"
  then obtain ps s' where "alloc_seq alloc n s = Some (ps, s')" by auto
  from alloc_seq_fresh [OF inv this] have "length ps = n" and "distinct (map page_no ps)"
    and sub: "page_no ` set ps \<subseteq> avail s" by simp_all
  then have "card (page_no ` set ps) = n" by (metis distinct_card length_map list.set_map)
  with sub few avail_finite [OF inv] show False by (metis card_mono not_le)
qed

end

lemma pmm_page_no: "i < PMM_MAX_PAGES \<Longrightarrow> 24 \<le> LENGTH('a) \<Longrightarrow>
  unat (of_nat (i * 4096) :: 'a::len word) = i * 4096"
proof (rule unat_of_nat_less)
  assume i: "i < PMM_MAX_PAGES" and len: "24 \<le> LENGTH('a)"
  have "i * 4096 < (2 :: nat) ^ 24" using i by simp
  also have "\<dots> \<le> 2 ^ LENGTH('a)" using len by (rule power_increasing) simp
  finally show "i * 4096 < 2 ^ LENGTH('a)" .
qed

lemma pmm_alloc_laws:
  assumes "pmm_inv bm" and "pmm_alloc bm = Some (p :: 'a::len word, bm')" and "24 \<le> LENGTH('a)"
  shows "pmm_inv bm' \<and> unat p div 4096 \<in> free_pages bm \<and>
    free_pages bm' = free_pages bm - {unat p div 4096}"
  using pmm_alloc_Some [OF assms(2)] assms
  by (metis free_bit_set free_bound nonzero_mult_div_cancel_right pmm_inv_bit_set pmm_page_no
      zero_neq_numeral)

interpretation pmm32: page_allocator
    "pmm_alloc :: u8 list \<Rightarrow> (u32 \<times> u8 list) option" free_pages "\<lambda>p. unat p div 4096" pmm_inv
proof
  show "pmm_alloc s = None \<longleftrightarrow> free_pages s = {}" for s by (rule pmm_alloc_None)
  show "pmm_inv s' \<and> unat p div 4096 \<in> free_pages s \<and> free_pages s' = free_pages s - {unat p div 4096}"
    if "pmm_inv s" and "pmm_alloc s = Some (p :: u32, s')" for s s' p
    using pmm_alloc_laws [OF that] by simp
  show "finite (free_pages s)" for s by (simp add: free_pages_def)
qed

interpretation pmm64: page_allocator
    "pmm_alloc :: u8 list \<Rightarrow> (u64 \<times> u8 list) option" free_pages "\<lambda>p. unat p div 4096" pmm_inv
proof
  show "pmm_alloc s = None \<longleftrightarrow> free_pages s = {}" for s by (rule pmm_alloc_None)
  show "pmm_inv s' \<and> unat p div 4096 \<in> free_pages s \<and> free_pages s' = free_pages s - {unat p div 4096}"
    if "pmm_inv s" and "pmm_alloc s = Some (p :: u64, s')" for s s' p
    using pmm_alloc_laws [OF that] by simp
  show "finite (free_pages s)" for s by (simp add: free_pages_def)
qed

section \<open>Initialisation\<close>

text \<open>
  \<open>mmap_at\<close> says that the entries \<open>es\<close> lie one after the other in memory as the
  loop of pmm_init walks them, each \<open>size + 4\<close> bytes after the one before.
\<close>

primrec mmap_at :: "arch \<Rightarrow> 'a::len memory \<Rightarrow> 'a word \<Rightarrow> mmap_entry list \<Rightarrow> bool" where
  "mmap_at ar m p [] \<longleftrightarrow> True"
| "mmap_at ar m p (e # es) \<longleftrightarrow>
     read_mmap_entry ar m p = e \<and> mmap_at ar m (p + ucast (me_size e) + 4) es"

definition mmap_bytes :: "mmap_entry list \<Rightarrow> nat" where
  "mmap_bytes es = sum_list (map (\<lambda>e. unat (me_size e) + 4) es)"

lemma mmap_loop_entries:
  "mmap_at ar m p es \<Longrightarrow> unat p + mmap_bytes es < 2 ^ LENGTH('a) \<Longrightarrow>
   mmap_loop ar m (p :: 'a::len word) (p + of_nat (mmap_bytes es)) bm =
     Some (fold apply_mmap_entry es bm)"
proof (induction es arbitrary: p bm)
  case Nil
  then show ?case by (simp add: mmap_loop.simps [of ar m p] mmap_bytes_def)
next
  case (Cons e es)
  let ?q = "p + ucast (me_size e) + 4"
  let ?d = "unat (me_size e) + 4"
  have bytes: "mmap_bytes (e # es) = ?d + mmap_bytes es" by (simp add: mmap_bytes_def)
  have q: "?q = p + of_nat ?d" by (simp add: of_nat_unat)
  have uq: "unat ?q = unat p + ?d"
    unfolding q by (rule unat_add_of_nat) (use Cons.prems(2) bytes in simp)
  have "unat (p + of_nat (mmap_bytes (e # es))) = unat p + mmap_bytes (e # es)"
    by (rule unat_add_of_nat) (rule Cons.prems(2))
  then have less: "p < p + of_nat (mmap_bytes (e # es))"
    by (simp add: word_less_nat_alt bytes)
  have end_eq: "p + of_nat (mmap_bytes (e # es)) = ?q + of_nat (mmap_bytes es)"
    unfolding q bytes by (simp add: algebra_simps)
  have "mmap_loop ar m p (p + of_nat (mmap_bytes (e # es))) bm =
      mmap_loop ar m ?q (p + of_nat (mmap_bytes (e # es))) (apply_mmap_entry e bm)"
    using less Cons.prems(1) by (simp add: mmap_loop.simps [of ar m p])
  also have "\<dots> = Some (fold apply_mmap_entry es (apply_mmap_entry e bm))"
    unfolding end_eq
    by (rule Cons.IH) (use Cons.prems uq bytes in auto)
  finally show ?case by simp
qed

definition entry_pages :: "mmap_entry \<Rightarrow> nat set" where
  "entry_pages e = {i. me_type e = 1 \<and> unat (me_base_addr e div 4096) \<le> i \<and>
     i < unat ((me_base_addr e + me_length e) div 4096)}"

definition module_pages :: "u32 \<times> u32 \<Rightarrow> nat set" where
  "module_pages md = {i. unat (fst md div 4096) \<le> i \<and> i < unat ((snd md + 4095) div 4096)}"

definition kernel_end_page :: "'a::len word \<Rightarrow> nat" where
  "kernel_end_page ke = unat (ucast ((ke + 4095) div 4096) :: u32)"

lemma apply_mmap_entry_spec:
  "pmm_inv bm \<Longrightarrow>
   pmm_inv (apply_mmap_entry e bm) \<and>
   (\<forall>j. bit_test (apply_mmap_entry e bm) j \<longleftrightarrow>
      bit_test bm j \<and> \<not> (j < PMM_MAX_PAGES \<and> j \<in> entry_pages e))"
  using clear_range_spec [of bm "unat (me_base_addr e div 4096)"
      "unat ((me_base_addr e + me_length e) div 4096)"]
  by (auto simp: apply_mmap_entry_def entry_pages_def)

lemma fold_mmap_entries_spec:
  "pmm_inv bm \<Longrightarrow>
   pmm_inv (fold apply_mmap_entry es bm) \<and>
   (\<forall>j. bit_test (fold apply_mmap_entry es bm) j \<longleftrightarrow>
      bit_test bm j \<and> \<not> (j < PMM_MAX_PAGES \<and> (\<exists>e \<in> set es. j \<in> entry_pages e)))"
proof (induction es arbitrary: bm)
  case Nil
  then show ?case by simp
next
  case (Cons e es)
  from apply_mmap_entry_spec [OF Cons.prems, of e] Cons.IH [of "apply_mmap_entry e bm"]
  show ?case by auto
qed

lemma reserve_modules_spec:
  "pmm_inv bm \<Longrightarrow>
   pmm_inv (fold (\<lambda>k bm. reserve_module (md k) bm) ks bm) \<and>
   (\<forall>j. bit_test (fold (\<lambda>k bm. reserve_module (md k) bm) ks bm) j \<longleftrightarrow>
      bit_test bm j \<or> j < PMM_MAX_PAGES \<and> (\<exists>k \<in> set ks. j \<in> module_pages (md k)))"
proof (induction ks arbitrary: bm)
  case Nil
  then show ?case by simp
next
  case (Cons k ks)
  have "pmm_inv (reserve_module (md k) bm) \<and>
      (\<forall>j. bit_test (reserve_module (md k) bm) j \<longleftrightarrow>
         bit_test bm j \<or> j < PMM_MAX_PAGES \<and> j \<in> module_pages (md k))"
    using set_range_spec [OF Cons.prems, of "unat (fst (md k) div 4096)"
        "unat ((snd (md k) + 4095) div 4096)"]
    by (auto simp: reserve_module_def module_pages_def)
  with Cons.IH [of "reserve_module (md k) bm"] show ?case by auto
qed

lemma all_used:
  "pmm_inv (replicate 512 0xFF)" "j < PMM_MAX_PAGES \<Longrightarrow> bit_test (replicate 512 0xFF) j"
proof -
  show "pmm_inv (replicate 512 0xFF)" by (simp add: pmm_inv_def)
  assume j: "j < PMM_MAX_PAGES"
  have ff: "(0xFF :: u8) = mask 8" by (simp add: mask_eq_exp_minus_1)
  have "bit (0xFF :: u8) k" if "k < 8" for k
    unfolding ff using that by (simp add: bit_mask_iff)
  then show "bit_test (replicate 512 0xFF) j" using j by (simp add: bit_test_bit)
qed

definition mmap_described :: "arch \<Rightarrow> 'a::len memory \<Rightarrow> multiboot_info \<Rightarrow> mmap_entry list \<Rightarrow> bool" where
  "mmap_described ar m mb es \<longleftrightarrow>
     mb_flags mb AND push_bit 6 1 \<noteq> 0 \<and> mmap_at ar m (ucast (mb_mmap_addr mb)) es \<and>
     unat (mb_mmap_length mb) = mmap_bytes es \<and>
     unat (ucast (mb_mmap_addr mb) :: 'a word) + mmap_bytes es < 2 ^ LENGTH('a)"

definition reserved_by_modules :: "'a::len memory \<Rightarrow> multiboot_info \<Rightarrow> nat \<Rightarrow> bool" where
  "reserved_by_modules m mb i \<longleftrightarrow>
     mb_flags mb AND push_bit 3 1 \<noteq> 0 \<and>
     (\<exists>k < unat (mb_mods_count mb). i \<in> module_pages (read_module m (ucast (mb_mods_addr mb)) k))"

lemma pmm_init_free_pages:
  fixes m :: "'a::len memory"
  assumes "mmap_described ar m mb es"
  obtains bm where "pmm_init ar ke m mb = Some bm" and "pmm_inv bm"
    and "free_pages bm = {i. i < PMM_MAX_PAGES \<and> (\<exists>e \<in> set es. i \<in> entry_pages e) \<and>
           0x100 \<le> i \<and> kernel_end_page ke \<le> i \<and> \<not> reserved_by_modules m mb i}"
proof -
  let ?bm0 = "replicate 512 0xFF :: u8 list"
  let ?bm1 = "fold apply_mmap_entry es ?bm0"
  let ?bm2 = "set_run ?bm1 0 0x100"
  let ?bm3 = "set_range ?bm2 256 (kernel_end_page ke)"
  let ?md = "read_module m (ucast (mb_mods_addr mb))"
  let ?bm4 = "if mb_flags mb AND push_bit 3 1 \<noteq> 0
    then fold (\<lambda>k bm. reserve_module (?md k) bm) [0..<unat (mb_mods_count mb)] ?bm3 else ?bm3"
  have flag: "mb_flags mb AND push_bit 6 1 \<noteq> 0"
    using assms by (simp add: mmap_described_def)
  have len: "ucast (mb_mmap_length mb) = (of_nat (mmap_bytes es) :: 'a word)"
    using assms by (metis mmap_described_def of_nat_unat)
  have "mmap_loop ar m (ucast (mb_mmap_addr mb))
      (ucast (mb_mmap_addr mb) + ucast (mb_mmap_length mb)) ?bm0 = Some ?bm1"
    unfolding len by (rule mmap_loop_entries) (use assms in \<open>simp_all add: mmap_described_def\<close>)
  then have init: "pmm_init ar ke m mb = Some ?bm4"
    using flag by (simp add: pmm_init_def Let_def kernel_end_page_def del: push_bit_of_1)
  note s1 = fold_mmap_entries_spec [OF all_used(1), of es]
  note s2 = set_run_spec [OF conjunct1 [OF s1], of 0 "0x100"]
  have i2: "pmm_inv ?bm2" using s2 by simp
  note s3 = set_range_spec [OF i2, of 256 "kernel_end_page ke"]
  note s4 = reserve_modules_spec [OF conjunct1 [OF s3], of ?md "[0..<unat (mb_mods_count mb)]"]
  have i4: "pmm_inv ?bm4" using s3 s4 by simp
  have free: "i \<in> free_pages ?bm4 \<longleftrightarrow> i < PMM_MAX_PAGES \<and> (\<exists>e \<in> set es. i \<in> entry_pages e) \<and>
      0x100 \<le> i \<and> kernel_end_page ke \<le> i \<and> \<not> reserved_by_modules m mb i" for i
  proof (cases "i < PMM_MAX_PAGES")
    case False
    then show ?thesis by (simp add: free_pages_def)
  next
    case i: True
    have b3: "bit_test ?bm3 i \<longleftrightarrow>
        \<not> (\<exists>e \<in> set es. i \<in> entry_pages e) \<or> i < 256 \<or> 256 \<le> i \<and> i < kernel_end_page ke"
      using s1 s2 s3 i all_used(2) [OF i] by simp
    have "bit_test ?bm4 i \<longleftrightarrow> bit_test ?bm3 i \<or> reserved_by_modules m mb i"
      using s4 i by (auto simp: reserved_by_modules_def simp del: push_bit_of_1)
    with b3 i show ?thesis
      unfolding free_pages_def by (simp del: push_bit_of_1) (metis not_le)
  qed
  show ?thesis by (rule that [OF init i4]) (use free in \<open>simp add: set_eq_iff\<close>)
qed


section \<open>Properties\<close>

text \<open>
  pmm_alloc panics exactly when no page is free; otherwise it returns the address of
  the lowest free page and takes that page, and no other, out of the free set. So a page
  is never handed out twice before it is freed.
\<close>

theorem pmm_alloc_lowest:
  assumes "pmm_inv bm"
  shows "case (pmm_alloc bm :: (u32 \<times> u8 list) option) of
      None \<Rightarrow> free_pages bm = {}
    | Some (p, bm') \<Rightarrow> pmm_inv bm' \<and>
        (\<exists>i \<in> free_pages bm. (\<forall>j \<in> free_pages bm. i \<le> j) \<and> unat p = i * 4096 \<and>
           free_pages bm' = free_pages bm - {i})"
proof (cases "pmm_alloc bm :: (u32 \<times> u8 list) option")
  case None
  then show ?thesis by (simp add: pmm_alloc_None [where ?'a = 32, symmetric])
next
  case (Some r)
  obtain p bm' where r: "r = (p, bm')" by (cases r)
  with Some obtain i where "i \<in> free_pages bm" "\<forall>j \<in> free_pages bm. i \<le> j"
    "p = of_nat (i * 4096)" "bm' = bit_set bm i" by (auto elim: pmm_alloc_Some)
  then show ?thesis
    using Some r assms free_bit_set [of bm i] free_bound [of i bm] pmm_page_no [of i, where ?'a = 32]
    by auto
qed

theorem pmm_alloc_lowest_witness:
  "case (pmm_alloc (bit_clear (bit_clear (replicate 512 0xFF) 7) 9) :: (u32 \<times> u8 list) option) of
      None \<Rightarrow> False | Some (p, bm') \<Rightarrow> unat p = 7 * 4096 \<and> free_pages bm' = {9}"
proof -
  let ?bm = "bit_clear (bit_clear (replicate 512 0xFF) 7) 9"
  have inv: "pmm_inv ?bm" by (simp add: all_used)
  have fr: "free_pages ?bm = {7, 9}"
    using all_used by (auto simp: free_pages_def)
  show ?thesis
    using pmm_alloc_lowest [OF inv] unfolding fr by (auto split: option.splits)
qed

text \<open>
  C26: pmm_alloc_pages is first fit: for a positive count it returns the lowest run of
  that many free pages and takes exactly the run, and it panics only when there is no such
  run; for a count that is zero or negative it always panics.
\<close>

theorem pmm_alloc_pages_first_fit:
  assumes "pmm_inv bm"
  shows "case (pmm_alloc_pages count bm :: (u32 \<times> u8 list) option) of
      None \<Rightarrow> sint count \<le> 0 \<or>
        (\<forall>t. t + nat (sint count) \<le> PMM_MAX_PAGES \<longrightarrow> \<not> {t..<t + nat (sint count)} \<subseteq> free_pages bm)
    | Some (p, bm') \<Rightarrow> 0 < sint count \<and> pmm_inv bm' \<and>
        (\<exists>s. unat p = s * 4096 \<and> {s..<s + nat (sint count)} \<subseteq> free_pages bm \<and>
           (\<forall>t. t + nat (sint count) \<le> PMM_MAX_PAGES \<longrightarrow>
              {t..<t + nat (sint count)} \<subseteq> free_pages bm \<longrightarrow> s \<le> t) \<and>
           free_pages bm' = free_pages bm - {s..<s + nat (sint count)})"
proof (cases "0 < sint count")
  case False
  then show ?thesis by (simp add: pmm_alloc_pages_def pmm_alloc_pages_from_nonpos)
next
  case True
  define n where "n = nat (sint count)"
  with True have n: "sint count = int n" "0 < n" by simp_all
  note spec = pmm_alloc_pages_from_spec [OF scan_inv_start [OF n(2), of bm] n(2)]
  show ?thesis
  proof (cases "\<exists>t. run_free bm t n")
    case False
    with spec n show ?thesis
      by (auto simp: pmm_alloc_pages_def run_free_pages)
  next
    case True
    with spec obtain s where s: "pmm_alloc_pages_from (int n) bm 0 (-1) 0 = Some (s * 4096, set_run bm s n)"
      and run: "run_free bm s n" and least: "\<forall>t. run_free bm t n \<longrightarrow> s \<le> t" by auto
    from run have sn: "s + n \<le> PMM_MAX_PAGES" by (simp add: run_free_def)
    then have "unat (of_nat (s * 4096) :: u32) = s * 4096" using n(2) by (intro pmm_page_no) simp_all
    with s run least sn n set_run_spec [OF assms sn] free_set_run [OF assms sn] show ?thesis
      by (simp add: pmm_alloc_pages_def run_free_pages)
  qed
qed

theorem pmm_alloc_pages_first_fit_witness:
  "case (pmm_alloc_pages 2 (bit_clear (bit_clear (bit_clear (replicate 512 0xFF) 3) 8) 9) ::
      (u32 \<times> u8 list) option) of
      None \<Rightarrow> False | Some (p, bm') \<Rightarrow> unat p = 8 * 4096 \<and> free_pages bm' = {3}"
proof -
  let ?bm = "bit_clear (bit_clear (bit_clear (replicate 512 0xFF) 3) 8) 9"
  have inv: "pmm_inv ?bm" by (simp add: all_used)
  have fr: "free_pages ?bm = {3, 8, 9}"
    using all_used by (auto simp: free_pages_def)
  have two: "{t..<t + 2} = {t, Suc t}" for t :: nat by auto
  have run: "{s, Suc s} \<subseteq> {3, 8, 9} \<longleftrightarrow> s = 8" for s :: nat by auto
  note spec = pmm_alloc_pages_first_fit [OF inv, of 2]
  have n: "nat (sint (2 :: u32)) = 2" "0 < sint (2 :: u32)" by simp_all
  show ?thesis
  proof (cases "pmm_alloc_pages 2 ?bm :: (u32 \<times> u8 list) option")
    case None
    from spec have "\<forall>t. t + 2 \<le> PMM_MAX_PAGES \<longrightarrow> t \<noteq> 8"
      unfolding None option.case n two fr run using n(2) by simp
    from this [rule_format, of 8] show ?thesis by simp
  next
    case (Some r)
    obtain p bm' where r: "r = (p, bm')" by (cases r)
    from spec obtain s where "unat p = s * 4096" "s = 8" "free_pages bm' = {3, 8, 9} - {s, Suc s}"
      unfolding Some r option.case prod.case n two fr run by blast
    with Some r show ?thesis by (simp add: insert_Diff_if)
  qed
qed

text \<open>
  after pmm_init on a memory map described by the entries es, a page is free exactly
  when its number lies between the start and the end of an entry of type 1, both divided by
  the page size and rounded down, and it is outside the first megabyte, the kernel image and
  every boot module.
\<close>

theorem pmm_init_free_exactly:
  fixes m :: "u32 \<Rightarrow> u8"
  assumes "mmap_described I386 m mb es"
  shows "\<exists>bm. pmm_init I386 ke m mb = Some bm \<and> pmm_inv bm \<and>
    free_pages bm = {i. i < PMM_MAX_PAGES \<and> (\<exists>e \<in> set es. i \<in> entry_pages e) \<and>
      0x100 \<le> i \<and> kernel_end_page ke \<le> i \<and> \<not> reserved_by_modules m mb i}"
  using assms by (rule pmm_init_free_pages) blast

definition boot_memory :: "'a::len memory" where
  "boot_memory = write32 (write64 (write64 (write32 (\<lambda>_. 0) 0x1000 20) 0x1004 0x100000)
     0x100C 0x7F00000) 0x1014 1"

definition boot_info :: multiboot_info where
  "boot_info = \<lparr>mb_flags = 0x40, mb_mem_lower = 0, mb_mem_upper = 0, mb_boot_device = 0,
     mb_cmdline = 0, mb_mods_count = 0, mb_mods_addr = 0, mb_mmap_length = 24, mb_mmap_addr = 0x1000\<rparr>"

definition boot_entry :: mmap_entry where
  "boot_entry = \<lparr>me_size = 20, me_base_addr = 0x100000, me_length = 0x7F00000, me_type = 1\<rparr>"

lemma boot_entry_at:
  "mmap_described I386 (boot_memory :: u32 \<Rightarrow> u8) boot_info [boot_entry]"
  "mmap_described I386 (boot_memory :: u64 \<Rightarrow> u8) boot_info [boot_entry]"
proof -
  have "read_mmap_entry I386 (boot_memory :: u32 \<Rightarrow> u8) 0x1000 = boot_entry" by code_simp
  then show "mmap_described I386 (boot_memory :: u32 \<Rightarrow> u8) boot_info [boot_entry]"
    by (simp add: mmap_described_def boot_info_def mmap_bytes_def) (simp add: boot_entry_def)
  have "read_mmap_entry I386 (boot_memory :: u64 \<Rightarrow> u8) 0x1000 = boot_entry" by code_simp
  then show "mmap_described I386 (boot_memory :: u64 \<Rightarrow> u8) boot_info [boot_entry]"
    by (simp add: mmap_described_def boot_info_def mmap_bytes_def) (simp add: boot_entry_def)
qed

theorem pmm_init_free_exactly_witness:
  "\<exists>bm. pmm_init I386 0x140000 (boot_memory :: u32 \<Rightarrow> u8) boot_info = Some bm \<and>
     free_pages bm = {0x140..<4096}"
proof -
  have k: "kernel_end_page (0x140000 :: u32) = 0x140" by (simp add: kernel_end_page_def)
  have e: "entry_pages boot_entry = {0x100..<0x8000}"
    by (auto simp: entry_pages_def boot_entry_def)
  have md: "\<not> reserved_by_modules m boot_info i" for m :: "u32 \<Rightarrow> u8" and i
    by (simp add: reserved_by_modules_def boot_info_def)
  have "{i. i < PMM_MAX_PAGES \<and> (\<exists>e \<in> set [boot_entry]. i \<in> entry_pages e) \<and>
      0x100 \<le> i \<and> kernel_end_page (0x140000 :: u32) \<le> i \<and>
      \<not> reserved_by_modules (boot_memory :: u32 \<Rightarrow> u8) boot_info i} = {0x140..<4096}"
    using md by (auto simp: e k)
  with pmm_init_free_exactly [OF boot_entry_at(1), of "0x140000"] show ?thesis by auto
qed

text \<open>
  What a boot-time allocation may touch, in bytes: the bytes of a page, the
  addresses an entry of the memory map reports as available, and the modules.
\<close>

definition bytes_of_page :: "u32 \<Rightarrow> nat set" where
  "bytes_of_page p = {unat p ..< unat p + 4096}"

definition available :: "mmap_entry \<Rightarrow> nat set" where
  "available e = (if me_type e = 1
     then {unat (me_base_addr e) ..< unat (me_base_addr e) + unat (me_length e)} else {})"

definition boot_modules :: "'a::len memory \<Rightarrow> multiboot_info \<Rightarrow> (u32 \<times> u32) list" where
  "boot_modules m mb = (if mb_flags mb AND push_bit 3 1 \<noteq> 0
     then map (read_module m (ucast (mb_mods_addr mb))) [0..<unat (mb_mods_count mb)] else [])"

text \<open>
  The entry sets a page free exactly if the end of the page lies in the region
  and the region does not begin behind the page: a page with the unaligned
  start of the region inside it is set free although only its rear part is
  available.
\<close>

lemma entry_pages_available:
  assumes "i \<in> entry_pages e" and a: "a = 4096 * i"
  shows "{a ..< a + 4096} \<subseteq> available e \<or>
    me_type e = 1 \<and> a < unat (me_base_addr e) \<and> unat (me_base_addr e) < a + 4096 \<and>
    {unat (me_base_addr e) ..< a + 4096} \<subseteq> available e"
proof -
  let ?b = "unat (me_base_addr e)" and ?l = "unat (me_length e)"
  have ty: "me_type e = 1" and lo: "?b div 4096 \<le> i" and hi: "i < unat (me_base_addr e + me_length e) div 4096"
    using assms(1) by (simp_all add: entry_pages_def unat_div)
  have "unat (me_base_addr e + me_length e) \<le> ?b + ?l" by (simp add: unat_word_ariths)
  with hi have "Suc i \<le> (?b + ?l) div 4096" by (meson Suc_leI div_le_mono le_less_trans less_le_trans)
  then have top: "a + 4096 \<le> ?b + ?l" unfolding a by linarith
  have "?b < a + 4096" using lo unfolding a by linarith
  with ty top show ?thesis by (cases "?b \<le> a") (auto simp: available_def)
qed

lemma module_pages_bytes:
  assumes "i \<notin> module_pages md" "unat (snd md) + 4095 < 2 ^ 32"
  shows "{4096 * i ..< 4096 * i + 4096} \<inter> {unat (fst md) ..< unat (snd md)} = {}"
proof -
  have "unat (snd md + 4095) = unat (snd md) + 4095"
    using unat_add_of_nat [of "snd md" 4095] assms(2) by simp
  with assms(1) show ?thesis by (auto simp: module_pages_def unat_div)
qed

lemma kernel_end_bytes:
  assumes "kernel_end_page (ke :: u32) \<le> i" "unat ke + 4095 < 2 ^ 32"
  shows "unat ke \<le> 4096 * i"
proof -
  have "unat (ke + 4095) = unat ke + 4095"
    using unat_add_of_nat [of ke 4095] assms(2) by simp
  with assms(1) show ?thesis by (simp add: kernel_end_page_def unat_div)
qed

lemma pmm_alloc_aligned:
  "pmm_inv bm \<Longrightarrow> pmm_alloc bm = Some (p :: u32, bm') \<Longrightarrow> unat p = 4096 * (unat p div 4096)"
  by (erule pmm_alloc_Some) (simp add: pmm_page_no free_bound del: of_nat_mult)

lemma alloc_seq_aligned:
  "pmm_inv bm \<Longrightarrow> alloc_seq pmm_alloc n bm = Some (ps :: u32 list, bm') \<Longrightarrow> p \<in> set ps \<Longrightarrow>
    unat p = 4096 * (unat p div 4096)"
proof (induction n arbitrary: bm ps)
  case 0
  then show ?case by simp
next
  case (Suc n)
  then obtain q t qs where q: "pmm_alloc bm = Some (q, t)" "alloc_seq pmm_alloc n t = Some (qs, bm')" "ps = q # qs"
    by (auto split: option.splits)
  from Suc pmm_alloc_laws [OF Suc.prems(1) q(1)] pmm_alloc_aligned [OF Suc.prems(1) q(1)] q show ?case by auto
qed

text \<open>
  C10: whatever number of single pages the i386 kernel allocates after
  pmm_init, they are whole, pairwise different pages above the first megabyte
  and above the end of the kernel image, and no byte of them belongs to a boot
  module. Every byte lies in a region that the boot loader reported as
  available, with one exception, which is an error of the code: the start of
  a region is rounded down, so a page in which an available region begins may
  be handed out with the bytes before the region. With regions that begin on
  page boundaries that does not occur. The end of the kernel and of the
  modules is taken to lie below the last page of the 32-bit addresses, where
  rounding it up does not wrap around.
\<close>

theorem pmm_boot_allocations_safe:
  fixes m :: "u32 \<Rightarrow> u8"
  assumes "mmap_described I386 m mb es" and "pmm_init I386 ke m mb = Some bm"
    and "alloc_seq pmm_alloc n bm = Some (ps, bm')"
    and "unat ke + 4095 < 2 ^ 32" and "\<forall>md \<in> set (boot_modules m mb). unat (snd md) + 4095 < 2 ^ 32"
  shows "length ps = n \<and> distinct ps \<and>
    (\<forall>p \<in> set ps. 4096 dvd unat p \<and> 0x100000 \<le> unat p \<and> unat ke \<le> unat p \<and>
       (\<forall>md \<in> set (boot_modules m mb). bytes_of_page p \<inter> {unat (fst md) ..< unat (snd md)} = {}) \<and>
       (\<exists>e \<in> set es. bytes_of_page p \<subseteq> available e \<or>
          unat (me_base_addr e) \<in> bytes_of_page p - {unat p} \<and> bytes_of_page p \<inter> {unat (me_base_addr e)..} \<subseteq> available e)) \<and>
    ((\<forall>e \<in> set es. 4096 dvd unat (me_base_addr e)) \<longrightarrow>
       (\<forall>p \<in> set ps. \<exists>e \<in> set es. bytes_of_page p \<subseteq> available e))"
proof -
  obtain bm0 where "pmm_init I386 ke m mb = Some bm0" and inv0: "pmm_inv bm0"
    and free0: "free_pages bm0 = {i. i < PMM_MAX_PAGES \<and> (\<exists>e \<in> set es. i \<in> entry_pages e) \<and>
      0x100 \<le> i \<and> kernel_end_page ke \<le> i \<and> \<not> reserved_by_modules m mb i}"
    using pmm_init_free_pages [OF assms(1)] by blast
  with assms(2) have inv: "pmm_inv bm" and free: "free_pages bm = {i. i < PMM_MAX_PAGES \<and>
      (\<exists>e \<in> set es. i \<in> entry_pages e) \<and> 0x100 \<le> i \<and> kernel_end_page ke \<le> i \<and> \<not> reserved_by_modules m mb i}"
    by simp_all
  note fresh = pmm32.alloc_seq_fresh [OF inv assms(3)]
  have page: "4096 dvd unat p \<and> 0x100000 \<le> unat p \<and> unat ke \<le> unat p \<and>
      (\<forall>md \<in> set (boot_modules m mb). bytes_of_page p \<inter> {unat (fst md) ..< unat (snd md)} = {}) \<and>
      (\<exists>e \<in> set es. unat p div 4096 \<in> entry_pages e)"
    if p: "p \<in> set ps" for p
  proof -
    let ?i = "unat p div 4096"
    have a: "unat p = 4096 * ?i" by (rule alloc_seq_aligned [OF inv assms(3) p])
    have i: "?i \<in> free_pages bm" using fresh p by auto
    have "bytes_of_page p \<inter> {unat (fst md) ..< unat (snd md)} = {}" if md: "md \<in> set (boot_modules m mb)" for md
    proof -
      have "?i \<notin> module_pages md"
        using md i by (auto simp: free reserved_by_modules_def boot_modules_def split: if_splits)
      from module_pages_bytes [OF this] assms(5) md a show ?thesis by (simp add: bytes_of_page_def)
    qed
    moreover have "unat ke \<le> unat p" using kernel_end_bytes [of ke ?i] i assms(4) a by (simp add: free)
    moreover have "4096 dvd unat p" by (subst a) simp
    moreover have "0x100 \<le> ?i" using i by (simp add: free)
    then have "0x100000 \<le> unat p" using a by linarith
    ultimately show ?thesis using i by (auto simp: free)
  qed
  have covered: "\<exists>e \<in> set es. bytes_of_page p \<subseteq> available e \<or>
      unat (me_base_addr e) \<in> bytes_of_page p - {unat p} \<and> bytes_of_page p \<inter> {unat (me_base_addr e)..} \<subseteq> available e"
    if p: "p \<in> set ps" for p
  proof -
    obtain e where e: "e \<in> set es" "unat p div 4096 \<in> entry_pages e" using page [OF p] by blast
    from entry_pages_available [OF e(2) alloc_seq_aligned [OF inv assms(3) p]] e(1)
    show ?thesis by (intro bexI [of _ e]) (auto simp: bytes_of_page_def)
  qed
  have whole: "\<exists>e \<in> set es. bytes_of_page p \<subseteq> available e"
    if al: "\<forall>e \<in> set es. 4096 dvd unat (me_base_addr e)" and p: "p \<in> set ps" for p
  proof -
    have "unat (me_base_addr e) \<notin> bytes_of_page p - {unat p}" if "e \<in> set es" for e
    proof -
      have "4096 dvd unat p" "4096 dvd unat (me_base_addr e)" using page [OF p] al that by auto
      then obtain j k where "unat p = 4096 * j" "unat (me_base_addr e) = 4096 * k" by (auto elim!: dvdE)
      then show ?thesis by (auto simp: bytes_of_page_def)
    qed
    with covered [OF p] show ?thesis by blast
  qed
  have "length ps = n" "distinct ps" using fresh by (simp_all add: distinct_map)
  with page covered whole show ?thesis by blast
qed

text \<open>The error: a region that begins in the middle of a page sets this page free.\<close>

lemma pmm_init_frees_partial_page:
  fixes m :: "u32 \<Rightarrow> u8"
  assumes "mmap_described I386 m mb es" and "e \<in> set es" "me_type e = 1"
    and "unat (me_base_addr e) div 4096 = i" "\<not> 4096 dvd unat (me_base_addr e)"
    and "4096 * i + 4096 \<le> unat (me_base_addr e) + unat (me_length e)"
      "unat (me_base_addr e) + unat (me_length e) < 2 ^ 64"
    and "0x100 \<le> i" "i < PMM_MAX_PAGES" "kernel_end_page ke \<le> i" "\<not> reserved_by_modules m mb i"
  shows "\<exists>bm. pmm_init I386 ke m mb = Some bm \<and> i \<in> free_pages bm \<and> 4096 * i \<notin> available e"
proof -
  have "unat (me_base_addr e + me_length e) = unat (me_base_addr e) + unat (me_length e)"
    using assms(7) by (simp add: unat_word_ariths)
  then have e: "i \<in> entry_pages e" using assms(3,4,6) by (simp add: entry_pages_def unat_div)
  have "4096 * i < unat (me_base_addr e)" using assms(4,5) by (metis dvd_triv_left mult_div_mod_eq le_add1 nat_less_le)
  then have "4096 * i \<notin> available e" by (simp add: available_def)
  moreover obtain bm where "pmm_init I386 ke m mb = Some bm"
    and free: "free_pages bm = {i. i < PMM_MAX_PAGES \<and> (\<exists>e \<in> set es. i \<in> entry_pages e) \<and>
      0x100 \<le> i \<and> kernel_end_page ke \<le> i \<and> \<not> reserved_by_modules m mb i}"
    by (rule pmm_init_free_pages [OF assms(1)])
  moreover have "i \<in> free_pages bm" unfolding free using e assms(2,8-11) by blast
  ultimately show ?thesis by blast
qed

theorem pmm_boot_allocations_safe_witness:
  "\<exists>bm ps bm'. pmm_init I386 0x140000 (boot_memory :: u32 \<Rightarrow> u8) boot_info = Some bm \<and>
     alloc_seq pmm_alloc 3 bm = Some (ps, bm') \<and> length ps = 3 \<and>
     (\<forall>p \<in> set ps. 0x140000 \<le> unat (p :: u32) \<and> bytes_of_page p \<subseteq> available boot_entry)"
proof -
  obtain bm where bm: "pmm_init I386 0x140000 (boot_memory :: u32 \<Rightarrow> u8) boot_info = Some bm"
    and inv: "pmm_inv bm"
    and free: "free_pages bm = {i. i < PMM_MAX_PAGES \<and> (\<exists>e \<in> set [boot_entry]. i \<in> entry_pages e) \<and>
      0x100 \<le> i \<and> kernel_end_page (0x140000 :: u32) \<le> i \<and>
      \<not> reserved_by_modules (boot_memory :: u32 \<Rightarrow> u8) boot_info i}"
    by (rule pmm_init_free_pages [OF boot_entry_at(1)])
  have k: "kernel_end_page (0x140000 :: u32) = 0x140" by (simp add: kernel_end_page_def)
  have "{0x140..<0x143} \<subseteq> free_pages bm"
    unfolding free k by (auto simp: entry_pages_def boot_entry_def reserved_by_modules_def boot_info_def)
  then have "3 \<le> card (free_pages bm)"
    using card_mono [of "free_pages bm" "{0x140..<0x143}"] by (simp add: pmm32.avail_finite inv)
  then obtain ps bm' where ps: "alloc_seq pmm_alloc 3 bm = Some (ps :: u32 list, bm')"
    using pmm32.alloc_seq_total [OF inv] by blast
  have "\<forall>e \<in> set [boot_entry]. 4096 dvd unat (me_base_addr e)" by (simp add: boot_entry_def)
  with pmm_boot_allocations_safe [OF boot_entry_at(1) bm ps] have "length ps = 3 \<and>
      (\<forall>p \<in> set ps. 0x140000 \<le> unat p \<and> bytes_of_page p \<subseteq> available boot_entry)"
    by (simp add: boot_modules_def boot_info_def)
  with bm ps show ?thesis by blast
qed

lemma bit_clear_set: "pmm_inv bm \<Longrightarrow> i \<in> free_pages bm \<Longrightarrow> bit_clear (bit_set bm i) i = bm"
proof -
  assume inv: "pmm_inv bm" and i: "i \<in> free_pages bm"
  then have "\<not> bit (bm ! (i div 8)) (i mod 8)" by (simp add: free_pages_def bit_test_bit)
  then have "(bm ! (i div 8) OR push_bit (i mod 8) 1) AND NOT (push_bit (i mod 8) 1) = bm ! (i div 8)"
    by (intro bit_word_eqI) (auto simp: bit_and_iff bit_or_iff bit_not_iff bit_exp_iff)
  then show ?thesis
    using page_byte [OF inv free_bound [OF i]]
    by (simp add: bit_clear_def bit_set_def del: push_bit_of_1)
qed

lemma pmm_free_spec:
  assumes "pmm_inv bm"
  shows "pmm_inv (pmm_free addr bm)" (is ?inv)
    and "free_pages (pmm_free (addr :: u32) bm) =
      (if unat addr div 4096 < PMM_MAX_PAGES then insert (unat addr div 4096) (free_pages bm)
       else free_pages bm)" (is ?free)
proof -
  have "unat (ucast (addr div 4096) :: u32) = unat addr div 4096" for addr :: u32
    by (simp add: unat_div)
  then show ?free using assms by (simp add: pmm_free_def Let_def free_bit_clear)
  show ?inv using assms by (simp add: pmm_free_def Let_def)
qed

text \<open>
  freeing the page just allocated restores the bitmap bit for bit, and freeing any
  page below 16 MB makes that page, and no other, available again.
\<close>

theorem pmm_free_undoes_alloc:
  assumes "pmm_inv bm" and "pmm_alloc bm = Some (p :: u32, bm')"
  shows "pmm_free p bm' = bm"
proof -
  from assms(2) obtain i where i: "i \<in> free_pages bm" and p: "p = of_nat (i * 4096)"
    and bm': "bm' = bit_set bm i" by (rule pmm_alloc_Some)
  have bound: "i < PMM_MAX_PAGES" using i by (rule free_bound)
  then have "unat p = i * 4096" unfolding p by (rule pmm_page_no) simp
  then have "unat (ucast (p div 4096) :: u32) = i" by (simp add: unat_div)
  with bound bm' bit_clear_set [OF assms(1) i] show ?thesis by (simp add: pmm_free_def)
qed

theorem pmm_free_undoes_alloc_witness:
  "\<exists>p bm'. pmm_alloc (bit_clear (replicate 512 0xFF) 300) = Some (p :: u32, bm') \<and>
     pmm_free p bm' = bit_clear (replicate 512 0xFF) 300"
proof -
  let ?bm = "bit_clear (replicate 512 0xFF) 300"
  have inv: "pmm_inv ?bm" by (simp add: all_used)
  have "300 \<in> free_pages ?bm" by (simp add: free_pages_def all_used)
  then have "(pmm_alloc ?bm :: (u32 \<times> u8 list) option) \<noteq> None" by (auto simp: pmm_alloc_None)
  then obtain p bm' where "pmm_alloc ?bm = Some (p :: u32, bm')" by auto
  with pmm_free_undoes_alloc [OF inv this] show ?thesis by blast
qed

text \<open>
  The x86_64 build reads the same boot loader structures with uint64_t aligned to 8 bytes, so
  base_addr, length and type are taken four bytes too far: type is read where the next
  entry's size is.
\<close>

lemma x64_entries_shifted:
  fixes m :: "'a::len memory"
  shows "mmap_at I386 m p es \<Longrightarrow> \<forall>e \<in> set es. me_size e = 20 \<Longrightarrow>
    read32 m (p + of_nat (24 * length es)) \<noteq> 1 \<Longrightarrow>
    \<exists>es'. mmap_at X64 m p es' \<and> length es' = length es \<and>
      (\<forall>e \<in> set es'. me_size e = 20 \<and> me_type e \<noteq> 1)"
proof (induction es arbitrary: p)
  case Nil
  then show ?case by simp
next
  case (Cons e es)
  let ?e = "read_mmap_entry X64 m p"
  have size: "read32 m p = 20"
    using Cons.prems by (auto simp: read_mmap_entry_def Let_def)
  have rest: "mmap_at I386 m (p + 24) es"
    using Cons.prems by (simp add: add.assoc)
  have "read32 m (p + 24 + of_nat (24 * length es)) \<noteq> 1"
    using Cons.prems(3) by (simp add: algebra_simps)
  from Cons.IH [OF rest _ this] Cons.prems(2) obtain es' where es': "mmap_at X64 m (p + 24) es'"
    "length es' = length es" "\<forall>e \<in> set es'. me_size e = 20 \<and> me_type e \<noteq> 1" by auto
  have "read32 m (p + 24) \<noteq> 1"
  proof (cases es)
    case Nil
    with Cons.prems(3) show ?thesis by simp
  next
    case (Cons f fs)
    with rest have "read32 m (p + 24) = me_size f"
      by (auto simp: read_mmap_entry_def Let_def)
    with Cons \<open>\<forall>e \<in> set (e # es). me_size e = 20\<close> show ?thesis by simp
  qed
  then have "me_size ?e = 20 \<and> me_type ?e \<noteq> 1"
    using size by (simp add: read_mmap_entry_def Let_def align_u64_def add.assoc)
  with es' show ?case by (intro exI [of _ "?e # es'"]) (simp add: add.assoc)
qed

text \<open>
  C35: on x86_64, a standard multiboot memory map (entries of size 20, packed as the boot
  loader writes them) leaves pmm_init with no free page at all, unless the word after the map
  happens to be 1: every later pmm_alloc panics, however much memory the machine has.
\<close>

theorem pmm_init_x64_finds_no_memory:
  fixes m :: "u64 \<Rightarrow> u8"
  assumes "mmap_described I386 m mb es" and "\<forall>e \<in> set es. me_size e = 20"
    and "read32 m (ucast (mb_mmap_addr mb) + ucast (mb_mmap_length mb)) \<noteq> 1"
  shows "\<exists>bm. pmm_init X64 ke m mb = Some bm \<and> free_pages bm = {} \<and>
    (pmm_alloc bm :: (u64 \<times> u8 list) option) = None"
proof -
  have b24: "mmap_bytes es = 24 * length es"
    if "\<forall>e \<in> set es. me_size e = 20" for es
    using that by (induction es) (auto simp: mmap_bytes_def)
  have len: "ucast (mb_mmap_length mb) = (of_nat (24 * length es) :: u64)"
    using assms(1) b24 [OF assms(2)] by (metis mmap_described_def of_nat_unat)
  obtain es' where es': "mmap_at X64 m (ucast (mb_mmap_addr mb)) es'" "length es' = length es"
    "\<forall>e \<in> set es'. me_size e = 20 \<and> me_type e \<noteq> 1"
    using x64_entries_shifted [of m "ucast (mb_mmap_addr mb)" es] assms len
    by (auto simp: mmap_described_def)
  have "mmap_bytes es' = mmap_bytes es" using b24 assms(2) es' by simp
  then have "mmap_described X64 m mb es'"
    using assms(1) es'(1) by (simp add: mmap_described_def)
  then obtain bm where "pmm_init X64 ke m mb = Some bm" "free_pages bm = {}"
    using es'(3) by (elim pmm_init_free_pages) (auto simp: entry_pages_def)
  then show ?thesis by (simp add: pmm_alloc_None)
qed

theorem pmm_init_x64_finds_no_memory_witness:
  "\<exists>bm. pmm_init X64 0x140000 (boot_memory :: u64 \<Rightarrow> u8) boot_info = Some bm \<and>
     (pmm_alloc bm :: (u64 \<times> u8 list) option) = None"
proof -
  have "read32 (boot_memory :: u64 \<Rightarrow> u8) 0x1018 \<noteq> 1" by code_simp
  then have "read32 (boot_memory :: u64 \<Rightarrow> u8)
      (ucast (mb_mmap_addr boot_info) + ucast (mb_mmap_length boot_info)) \<noteq> 1"
    by (simp add: boot_info_def)
  with pmm_init_x64_finds_no_memory [OF boot_entry_at(2), of "0x140000"] show ?thesis
    by (auto simp: boot_entry_def)
qed

text \<open>A bitmap with six free pages, on which the paging theories are tried.\<close>

definition demo_bitmap :: "u8 list" where
  "demo_bitmap = fold (\<lambda>i bm. bit_clear bm i) [6..<12] (replicate 512 0xFF)"

lemma demo_bitmap_free: "pmm_inv demo_bitmap" "free_pages demo_bitmap = {6, 7, 8, 9, 10, 11}"
proof -
  have six: "[6..<12] = [6, 7, 8, 9, 10, 11 :: nat]" by (simp add: upt_rec)
  show "pmm_inv demo_bitmap" by (simp add: demo_bitmap_def six all_used)
  show "free_pages demo_bitmap = {6, 7, 8, 9, 10, 11}"
    using all_used by (auto simp: demo_bitmap_def six free_pages_def)
qed

end
