(* ===== verification/Vmm386.thy ===== *)
theory Vmm386
  imports Pmm
begin

text \<open>
  Two-level paging of the i386 build, kernel/i386/vmm.c. Page directories and page tables
  live in byte memory, as in the code (the kernel runs with physical memory mapped one to
  one, so a physical address is a pointer); frames for new tables come from pmm_alloc.
  \<open>None\<close> is the panic of the allocator. The abstraction of an address space is the page
  table entry of every virtual page number, 0 where no table exists.
\<close>

section \<open>State and operations\<close>

record vmm =
  phys :: "32 memory"
  bitmap :: "u8 list"
  current_pd :: u32
  kernel_pd :: u32
  cr3 :: u32
  cr0 :: u32

abbreviation (input) PAGE_PRESENT :: u32 where "PAGE_PRESENT \<equiv> 1"
abbreviation (input) PAGE_WRITE :: u32 where "PAGE_WRITE \<equiv> 2"
abbreviation (input) PAGE_USER :: u32 where "PAGE_USER \<equiv> 4"
abbreviation (input) FRAME_MASK :: u32 where "FRAME_MASK \<equiv> 0xFFFFF000"

definition pt_index :: "u32 \<Rightarrow> u32" where
  "pt_index virt = drop_bit 12 virt AND 0x3FF"

text \<open>Clearing the first \<open>n\<close> entries of a table, in increasing order.\<close>

definition zero_table :: "32 memory \<Rightarrow> u32 \<Rightarrow> nat \<Rightarrow> 32 memory" where
  "zero_table m t n = fold (\<lambda>i m. write32 m (t + 4 * of_nat i) 0) [0..<n] m"

definition get_page_table :: "u32 \<Rightarrow> u32 \<Rightarrow> bool \<Rightarrow> vmm \<Rightarrow> (u32 \<times> vmm) option" where
  "get_page_table pd virt create s =
     (let pd_idx = drop_bit 22 virt; entry = pd + 4 * pd_idx
      in if read32 (phys s) entry AND PAGE_PRESENT = 0
         then if \<not> create then Some (0, s)
              else case pmm_alloc (bitmap s) of
                     None \<Rightarrow> None
                   | Some (pt_phys, bm) \<Rightarrow>
                       let m1 = zero_table (phys s) pt_phys 1024;
                           m2 = write32 m1 entry (pt_phys OR PAGE_PRESENT OR PAGE_WRITE OR PAGE_USER)
                       in Some (read32 m2 entry AND FRAME_MASK, s\<lparr>phys := m2, bitmap := bm\<rparr>)
         else Some (read32 (phys s) entry AND FRAME_MASK, s))"

definition vmm_map_page :: "u32 \<Rightarrow> u32 \<Rightarrow> u32 \<Rightarrow> u32 \<Rightarrow> vmm \<Rightarrow> vmm option" where
  "vmm_map_page pd virt phys_addr flags s =
     (case get_page_table pd virt True s of
        None \<Rightarrow> None
      | Some (pt, s') \<Rightarrow>
          Some (s'\<lparr>phys := write32 (phys s') (pt + 4 * pt_index virt)
                     ((phys_addr AND FRAME_MASK) OR flags OR PAGE_PRESENT)\<rparr>))"

definition vmm_unmap_page :: "u32 \<Rightarrow> u32 \<Rightarrow> vmm \<Rightarrow> vmm option" where
  "vmm_unmap_page pd virt s =
     (case get_page_table pd virt False s of
        None \<Rightarrow> None
      | Some (pt, s') \<Rightarrow>
          if pt = 0 then Some s'
          else Some (s'\<lparr>phys := write32 (phys s') (pt + 4 * pt_index virt) 0\<rparr>))"

definition vmm_get_phys_addr :: "u32 \<Rightarrow> u32 \<Rightarrow> vmm \<Rightarrow> u32 option" where
  "vmm_get_phys_addr pd virt s =
     (case get_page_table pd virt False s of
        None \<Rightarrow> None
      | Some (pt, s') \<Rightarrow>
          if pt = 0 then Some 0
          else Some (read32 (phys s') (pt + 4 * pt_index virt) AND FRAME_MASK))"

definition vmm_switch_to :: "u32 \<Rightarrow> vmm \<Rightarrow> vmm" where
  "vmm_switch_to pd s = s\<lparr>current_pd := pd, cr3 := pd\<rparr>"

definition copy_entries :: "32 memory \<Rightarrow> u32 \<Rightarrow> u32 \<Rightarrow> nat \<Rightarrow> 32 memory" where
  "copy_entries m dst src n =
     fold (\<lambda>i m. write32 m (dst + 4 * of_nat i) (read32 m (src + 4 * of_nat i))) [0..<n] m"

definition vmm_create_address_space :: "vmm \<Rightarrow> (u32 \<times> vmm) option" where
  "vmm_create_address_space s =
     (case pmm_alloc (bitmap s) of
        None \<Rightarrow> None
      | Some (pd, bm) \<Rightarrow>
          Some (pd, s\<lparr>phys := copy_entries (zero_table (phys s) pd 1024) pd (kernel_pd s) 1024,
                     bitmap := bm\<rparr>))"

text \<open>The loop of init_paging over the addresses below 16 MB, and init_paging.\<close>

function init_map_loop :: "u32 \<Rightarrow> vmm \<Rightarrow> vmm option" where
  "init_map_loop addr s =
     (if addr < 0x1000000
      then case vmm_map_page (kernel_pd s) addr addr (PAGE_PRESENT OR PAGE_WRITE OR PAGE_USER) s of
             None \<Rightarrow> None
           | Some s' \<Rightarrow> init_map_loop (addr + 0x1000) s'
      else Some s)"
  by pat_completeness auto
termination
proof (relation "measure (\<lambda>(addr, s). 0x1000000 - unat addr)")
  fix addr :: u32 and s s' :: vmm
  assume "addr < 0x1000000"
  then have "unat addr < 0x1000000" by (simp add: word_less_nat_alt)
  moreover from this have "unat (addr + 0x1000) = unat addr + 0x1000"
    by (simp add: unat_word_ariths)
  ultimately show "((addr + 0x1000, s'), addr, s) \<in> measure (\<lambda>(addr, s). 0x1000000 - unat addr)"
    by simp
qed simp

declare init_map_loop.simps [simp del]

definition init_paging :: "vmm \<Rightarrow> vmm option" where
  "init_paging s =
     (case pmm_alloc (bitmap s) of
        None \<Rightarrow> None
      | Some (pd, bm) \<Rightarrow>
          (case init_map_loop 0 (s\<lparr>phys := zero_table (phys s) pd 1024, bitmap := bm, kernel_pd := pd\<rparr>) of
             None \<Rightarrow> None
           | Some s' \<Rightarrow> Some (s'\<lparr>current_pd := kernel_pd s', cr3 := kernel_pd s',
                                cr0 := cr0 s' OR 0x80000000\<rparr>)))"

text \<open>vmm_clone_address_space: one directory entry, then the loop over the entries.\<close>

definition clone_table :: "32 memory \<Rightarrow> u32 \<Rightarrow> u32 \<Rightarrow> 32 memory" where
  "clone_table m dst_pt src_pt =
     fold (\<lambda>j m. let e = read32 m (src_pt + 4 * of_nat j)
                 in write32 m (dst_pt + 4 * of_nat j)
                      (if e AND PAGE_PRESENT \<noteq> 0
                       then (e AND FRAME_MASK) OR (e AND NOT FRAME_MASK) else 0))
       [0..<1024] m"

definition clone_entry :: "u32 \<Rightarrow> u32 \<Rightarrow> nat \<Rightarrow> vmm \<Rightarrow> vmm option" where
  "clone_entry src dst i s =
     (let e = read32 (phys s) (src + 4 * of_nat i)
      in if e AND PAGE_PRESENT \<noteq> 0
         then case pmm_alloc (bitmap s) of
                None \<Rightarrow> None
              | Some (dst_pt, bm) \<Rightarrow>
                  let m1 = clone_table (phys s) dst_pt (e AND FRAME_MASK);
                      e1 = read32 m1 (src + 4 * of_nat i)
                  in Some (s\<lparr>phys := write32 m1 (dst + 4 * of_nat i)
                                      (dst_pt OR (e1 AND NOT FRAME_MASK)),
                            bitmap := bm\<rparr>)
         else Some s)"

primrec clone_entries :: "u32 \<Rightarrow> u32 \<Rightarrow> nat list \<Rightarrow> vmm \<Rightarrow> vmm option" where
  "clone_entries src dst [] s = Some s"
| "clone_entries src dst (i # is) s =
     (case clone_entry src dst i s of None \<Rightarrow> None | Some s' \<Rightarrow> clone_entries src dst is s')"

definition vmm_clone_address_space :: "u32 \<Rightarrow> u32 \<Rightarrow> vmm \<Rightarrow> vmm option" where
  "vmm_clone_address_space src dst s = clone_entries src dst [0..<1024] s"

section \<open>Entries of page frames\<close>

definition ent :: "nat \<Rightarrow> nat \<Rightarrow> u32" where
  "ent p i = of_nat (p * 4096 + 4 * i)"

text \<open>The address of page frame \<open>p\<close>.\<close>

definition base :: "nat \<Rightarrow> u32" where
  "base p = of_nat (p * 4096)"

definition frame :: "u32 \<Rightarrow> nat" where
  "frame w = unat w div 4096"

lemma frame_bound [simp]: "frame w < 0x100000"
  using unsigned_less [of w, where ?'a = nat] by (simp add: frame_def less_mult_imp_div_less)

lemma frame_mask: "w AND FRAME_MASK = base (frame w)"
proof -
  have "w AND FRAME_MASK = push_bit 12 (drop_bit 12 w)"
  proof -
    have m: "(0xFFFFF000 :: u32) = NOT (mask 12)" by (simp add: mask_eq_exp_minus_1)
    show ?thesis
      unfolding m by (rule bit_word_eqI)
        (auto simp: bit_and_iff bit_not_iff bit_mask_iff bit_push_bit_iff bit_drop_bit_eq)
  qed
  also have "\<dots> = base (frame w)"
    by (simp add: push_bit_eq_mult drop_bit_eq_div frame_def word_arith_nat_div base_def)
  finally show ?thesis .
qed

lemma unat_ent: "p < 0x100000 \<Longrightarrow> i < 1024 \<Longrightarrow> unat (ent p i) = p * 4096 + 4 * i"
  unfolding ent_def by (rule unat_of_nat_less) simp

lemma ent_address: "base p + 4 * of_nat i = ent p i"
  by (simp add: ent_def base_def)

lemma unat_base: "p < 0x100000 \<Longrightarrow> unat (base p) = p * 4096"
  unfolding base_def by (rule unat_of_nat_less) simp

lemma entry_unique: "4 * a + k = 4 * b + l \<Longrightarrow> k < 4 \<Longrightarrow> l < 4 \<Longrightarrow> a = b" for a b k l :: nat
  by linarith

lemma ent_region:
  assumes "p < 0x100000" "i < 1024" "q < 0x100000" "j < 1024" "\<not> (p = q \<and> i = j)"
  shows "region (ent p i) 4 \<inter> region (ent q j) 4 = {}"
proof (rule equals0I)
  fix x
  assume x: "x \<in> region (ent p i) 4 \<inter> region (ent q j) 4"
  then obtain k l where k: "k < 4" "x = ent p i + of_nat k" and l: "l < 4" "x = ent q j + of_nat l"
    by (meson IntE in_region_nat)
  have "unat (ent p i + of_nat k) = p * 4096 + 4 * i + k"
    using assms k(1) by (subst unat_add_of_nat) (simp_all add: unat_ent)
  moreover have "unat (ent q j + of_nat l) = q * 4096 + 4 * j + l"
    using assms l(1) by (subst unat_add_of_nat) (simp_all add: unat_ent)
  ultimately have "4 * (p * 1024 + i) + k = 4 * (q * 1024 + j) + l" using k l by simp
  from entry_unique [OF this k(1) l(1)] have "p * 1024 + i = q * 1024 + j" .
  then have "(p * 1024 + i) div 1024 = (q * 1024 + j) div 1024"
    and "(p * 1024 + i) mod 1024 = (q * 1024 + j) mod 1024" by simp_all
  then have "p = q \<and> i = j" using assms(2,4) by simp
  with assms(5) show False ..
qed

lemma read32_write32_ent:
  "p < 0x100000 \<Longrightarrow> i < 1024 \<Longrightarrow> q < 0x100000 \<Longrightarrow> j < 1024 \<Longrightarrow>
   read32 (write32 m (ent p i) v) (ent q j) = (if p = q \<and> i = j then v else read32 m (ent q j))"
  by (simp add: read32_write32_disjoint ent_region)

text \<open>
  A loop that writes entries 0 to n - 1 of one table, each value computed from memory
  outside that table.
\<close>

lemma fold_table:
  assumes p: "p < 0x100000" and n: "n \<le> 1024"
    and local: "\<And>i m'. i < n \<Longrightarrow>
      (\<And>r j. r < 0x100000 \<Longrightarrow> j < 1024 \<Longrightarrow> r \<noteq> p \<Longrightarrow> read32 m' (ent r j) = read32 m (ent r j)) \<Longrightarrow>
      g m' i = g m i"
    and r: "r < 0x100000" and j: "j < 1024"
  shows "read32 (fold (\<lambda>i m. write32 m (ent p i) (g m i)) [0..<n] m) (ent r j) =
    (if r = p \<and> j < n then g m j else read32 m (ent r j))"
  using n local r j
proof (induction n arbitrary: r j)
  case 0
  then show ?case by simp
next
  case (Suc n)
  let ?m = "fold (\<lambda>i m. write32 m (ent p i) (g m i)) [0..<n] m"
  have IH: "read32 ?m (ent r j) = (if r = p \<and> j < n then g m j else read32 m (ent r j))"
    if rj: "r < 0x100000" "j < 1024" for r j
  proof (rule Suc.IH [OF _ _ rj])
    show "n \<le> 1024" using Suc.prems(1) by simp
    show "g m' i = g m i"
      if "i < n" and "\<And>r j. r < 0x100000 \<Longrightarrow> j < 1024 \<Longrightarrow> r \<noteq> p \<Longrightarrow>
        read32 m' (ent r j) = read32 m (ent r j)" for i m'
      by (rule Suc.prems(2) [OF less_SucI [OF that(1)] that(2)])
  qed
  have "g ?m n = g m n"
    by (rule Suc.prems(2)) (simp_all add: IH)
  then have "fold (\<lambda>i m. write32 m (ent p i) (g m i)) [0..<Suc n] m = write32 ?m (ent p n) (g m n)"
    by simp
  moreover have "read32 (write32 ?m (ent p n) (g m n)) (ent r j) =
      (if p = r \<and> n = j then g m n else read32 ?m (ent r j))"
    by (rule read32_write32_ent) (use p Suc.prems in auto)
  ultimately have "read32 (fold (\<lambda>i m. write32 m (ent p i) (g m i)) [0..<Suc n] m) (ent r j) =
      (if p = r \<and> n = j then g m n else read32 ?m (ent r j))" by simp
  with IH [OF Suc.prems(3,4)] show ?case
    by (cases "r = p"; cases "n = j") (auto simp: less_Suc_eq)
qed

lemma read32_zero_table:
  "p < 0x100000 \<Longrightarrow> r < 0x100000 \<Longrightarrow> j < 1024 \<Longrightarrow>
   read32 (zero_table m (base p) 1024) (ent r j) =
     (if r = p then 0 else read32 m (ent r j))"
  using fold_table [where p = p and n = 1024 and g = "\<lambda>m i. 0" and m = m and r = r and j = j] unfolding zero_table_def ent_address by simp

lemma read32_copy_entries:
  "p < 0x100000 \<Longrightarrow> q < 0x100000 \<Longrightarrow> p \<noteq> q \<Longrightarrow> r < 0x100000 \<Longrightarrow> j < 1024 \<Longrightarrow>
   read32 (copy_entries m (base p) (base q) 1024) (ent r j) =
     (if r = p then read32 m (ent q j) else read32 m (ent r j))"
  using fold_table [where p = p and n = 1024 and g = "\<lambda>m i. read32 m (ent q i)"
      and m = m and r = r and j = j]
  unfolding copy_entries_def ent_address by simp

text \<open>What clone_table writes for a source entry: the entry itself, or 0 when not present.\<close>

definition cloned :: "u32 \<Rightarrow> u32" where
  "cloned e = (if e AND PAGE_PRESENT \<noteq> 0 then e else 0)"

lemma mask_split: "(e AND k) OR (e AND NOT k) = (e :: u32)"
  by (rule bit_word_eqI) (auto simp: bit_or_iff bit_and_iff bit_not_iff)

lemma read32_clone_table:
  "p < 0x100000 \<Longrightarrow> q < 0x100000 \<Longrightarrow> p \<noteq> q \<Longrightarrow> r < 0x100000 \<Longrightarrow> j < 1024 \<Longrightarrow>
   read32 (clone_table m (base p) (base q)) (ent r j) =
     (if r = p then cloned (read32 m (ent q j)) else read32 m (ent r j))"
  using fold_table [where p = p and n = 1024 and g = "\<lambda>m i. cloned (read32 m (ent q i))"
      and m = m and r = r and j = j]
  unfolding clone_table_def ent_address mask_split cloned_def Let_def by simp

section \<open>Address spaces\<close>

definition pde :: "32 memory \<Rightarrow> nat \<Rightarrow> nat \<Rightarrow> u32" where
  "pde m P i = read32 m (ent P i)"

definition present :: "u32 \<Rightarrow> bool" where
  "present e \<longleftrightarrow> e AND PAGE_PRESENT \<noteq> 0"

definition pte :: "32 memory \<Rightarrow> nat \<Rightarrow> nat \<Rightarrow> u32" where
  "pte m P v =
     (if present (pde m P (v div 1024))
      then read32 m (ent (frame (pde m P (v div 1024))) (v mod 1024)) else 0)"

definition space_ok :: "32 memory \<Rightarrow> u8 list \<Rightarrow> nat \<Rightarrow> bool" where
  "space_ok m bm P \<longleftrightarrow>
     P < 0x100000 \<and> P \<notin> free_pages bm \<and>
     (\<forall>i < 1024. present (pde m P i) \<longrightarrow>
        frame (pde m P i) \<noteq> 0 \<and> frame (pde m P i) \<noteq> P \<and> frame (pde m P i) \<notin> free_pages bm) \<and>
     (\<forall>i < 1024. \<forall>j < 1024. present (pde m P i) \<and> present (pde m P j) \<and>
        frame (pde m P i) = frame (pde m P j) \<longrightarrow> i = j)"

definition vmm_ok :: "vmm \<Rightarrow> nat \<Rightarrow> bool" where
  "vmm_ok s P \<longleftrightarrow>
     pmm_inv (bitmap s) \<and> 0 \<notin> free_pages (bitmap s) \<and> space_ok (phys s) (bitmap s) P"

lemma present_odd: "present e \<longleftrightarrow> odd e"
  by (simp add: present_def and_one_eq odd_iff_mod_2_eq_one)

lemma not_present_0 [simp]: "\<not> present 0"
  by (simp add: present_def)

lemma table_entry_bits:
  "frame (base i OR 7) = i" "present (base i OR 7)" if "i < 0x100000"
proof -
  let ?a = "base i :: u32"
  have "unat ?a = i * 4096" by (rule unat_base) (use that in simp)
  then have a: "frame ?a = i" by (simp add: frame_def)
  have "(?a OR 7) AND FRAME_MASK = (?a AND FRAME_MASK) OR (7 AND FRAME_MASK)"
    by (rule bit.conj_disj_distrib2)
  also have "\<dots> = ?a AND FRAME_MASK" by simp
  finally have "base (frame (?a OR 7)) = base i"
    by (simp only: frame_mask a)
  then have "unat (base (frame (?a OR 7))) = unat (base i)"
    by (simp only:)
  then show "frame (?a OR 7) = i" using that by (simp add: unat_base)
  show "present (?a OR 7)" by (simp add: present_odd even_or_iff)
qed

lemma vpn_split:
  "unat (drop_bit 22 virt) = frame virt div 1024" "unat (pt_index virt) = frame virt mod 1024"
  for virt :: u32
proof -
  have d: "unat (drop_bit n virt) = unat virt div 2 ^ n" for n
    unfolding unat_drop_bit_eq by (rule drop_bit_eq_div)
  show "unat (drop_bit 22 virt) = frame virt div 1024"
    by (simp add: d frame_def div_mult2_eq)
  have m: "(0x3FF :: u32) = mask 10" by (simp add: mask_eq_exp_minus_1)
  show "unat (pt_index virt) = frame virt mod 1024"
    unfolding pt_index_def m
    by (simp add: take_bit_eq_mask [symmetric] take_bit_eq_mod unat_mod d frame_def)
qed

lemma vpn_bounds: "v < 0x100000 \<Longrightarrow> v div 1024 < 1024" "v mod 1024 < 1024" for v :: nat
  by auto

lemma entry_addresses:
  "base P + 4 * drop_bit 22 virt = ent P (frame virt div 1024)"
  "base f + 4 * pt_index virt = ent f (frame virt mod 1024)"
  unfolding ent_address [symmetric] vpn_split [symmetric] by simp_all

text \<open>Writing an entry of a table that the directory \<open>P\<close> uses changes that one translation.\<close>

lemma write_pte:
  fixes x :: u32
  assumes ok: "space_ok m bm P" and k: "k < 0x100000" and pr: "present (pde m P (k div 1024))"
  defines "m' \<equiv> write32 m (ent (frame (pde m P (k div 1024))) (k mod 1024)) x"
  shows "space_ok m' bm P" and "v < 0x100000 \<Longrightarrow> pte m' P v = (if v = k then x else pte m P v)"
proof -
  let ?f = "frame (pde m P (k div 1024))"
  have P: "P < 0x100000" and f: "?f \<noteq> P"
    using ok k pr vpn_bounds(1) [OF k] by (auto simp: space_ok_def)
  have read: "read32 m' (ent q j) = (if q = ?f \<and> j = k mod 1024 then x else read32 m (ent q j))"
    if "q < 0x100000" "j < 1024" for q j
    using read32_write32_ent [OF frame_bound vpn_bounds(2) that] by (auto simp: m'_def)
  have pde_eq: "pde m' P i = pde m P i" if "i < 1024" for i
    using read [OF P that] f by (auto simp: pde_def)
  then show "space_ok m' bm P" using ok by (simp add: space_ok_def)
  assume v: "v < 0x100000"
  show "pte m' P v = (if v = k then x else pte m P v)"
  proof (cases "present (pde m P (v div 1024))")
    case False
    with pr v show ?thesis by (auto simp: pte_def pde_eq)
  next
    case True
    have "frame (pde m P (v div 1024)) = ?f \<longleftrightarrow> v div 1024 = k div 1024"
      using ok True pr vpn_bounds(1) [OF v] vpn_bounds(1) [OF k] by (auto simp: space_ok_def)
    moreover have "v = k \<longleftrightarrow> v div 1024 = k div 1024 \<and> v mod 1024 = k mod 1024"
      by (metis mult_div_mod_eq)
    ultimately show ?thesis
      using True v by (auto simp: pte_def pde_eq read frame_bound)
  qed
qed

text \<open>Hooking a fresh zeroed frame into an empty directory slot changes no translation.\<close>

definition hook_table :: "32 memory \<Rightarrow> nat \<Rightarrow> nat \<Rightarrow> nat \<Rightarrow> 32 memory" where
  "hook_table m P i f =
     write32 (zero_table m (base f) 1024) (ent P i) (base f OR 7)"

lemma hook_table_reads:
  assumes "P < 0x100000" "f < 0x100000" "f \<noteq> P" "i < 1024" "q < 0x100000" "j < 1024"
  shows "read32 (hook_table m P i f) (ent q j) =
    (if q = P \<and> j = i then base f OR 7 else if q = f then 0 else read32 m (ent q j))"
  using read32_write32_ent [of P i q j "zero_table m (base f) 1024"
      "base f OR 7"] read32_zero_table [of f q j m] assms
  by (auto simp: hook_table_def)

lemma hook_table_ok:
  assumes ok: "space_ok m bm P" and i: "i < 1024" and absent: "\<not> present (pde m P i)"
    and f: "f \<in> free_pages bm" "f \<noteq> 0" and bm': "free_pages bm' = free_pages bm - {f}"
  shows "space_ok (hook_table m P i f) bm' P"
    and "j < 1024 \<Longrightarrow>
      pde (hook_table m P i f) P j = (if j = i then base f OR 7 else pde m P j)"
    and "v < 0x100000 \<Longrightarrow> pte (hook_table m P i f) P v = pte m P v"
proof -
  let ?m = "hook_table m P i f"
  have P: "P < 0x100000" and fP: "f \<noteq> P" using ok f by (auto simp: space_ok_def)
  have fb: "f < 0x100000" using free_bound [OF f(1)] by simp
  note read = hook_table_reads [OF P fb fP i]
  have pde_eq: "pde ?m P j = (if j = i then base f OR 7 else pde m P j)"
    if "j < 1024" for j
    using read [OF P that] fP by (simp add: pde_def)
  then show "pde ?m P j = (if j = i then base f OR 7 else pde m P j)" if "j < 1024"
    using that by simp
  have used: "frame (pde m P j) \<noteq> f" if "j < 1024" "present (pde m P j)" for j
    using ok f that by (auto simp: space_ok_def)
  have pr: "present (pde ?m P j) \<longleftrightarrow> j = i \<or> present (pde m P j)"
    and fr: "frame (pde ?m P j) = (if j = i then f else frame (pde m P j))" if "j < 1024" for j
    using that by (simp_all add: pde_eq table_entry_bits [OF fb])
  show "space_ok ?m bm' P"
    unfolding space_ok_def bm'
  proof (intro conjI allI impI)
    fix j
    assume j: "j < 1024" "present (pde ?m P j)"
    then have "j = i \<or> frame (pde m P j) \<noteq> 0 \<and> frame (pde m P j) \<noteq> P \<and>
        frame (pde m P j) \<notin> free_pages bm"
      using ok pr by (auto simp: space_ok_def)
    then show "frame (pde ?m P j) \<noteq> 0" "frame (pde ?m P j) \<noteq> P"
      "frame (pde ?m P j) \<notin> free_pages bm - {f}"
      using fr [OF j(1)] f fP by auto
  next
    fix j k
    assume "j < 1024" "k < 1024"
      and "present (pde ?m P j) \<and> present (pde ?m P k) \<and> frame (pde ?m P j) = frame (pde ?m P k)"
    then show "j = k"
      using pr fr used ok unfolding space_ok_def by metis
  qed (use ok in \<open>simp_all add: space_ok_def\<close>)
  assume v: "v < 0x100000"
  show "pte ?m P v = pte m P v"
  proof (cases "v div 1024 = i")
    case True
    with absent i fb fP show ?thesis
      by (simp add: pte_def pde_eq table_entry_bits read)
  next
    case False
    with used vpn_bounds(1) v ok show ?thesis
      by (auto simp: pte_def pde_eq read space_ok_def)
  qed
qed

lemma get_page_table_present:
  "present (pde (phys s) P (frame virt div 1024)) \<Longrightarrow>
   get_page_table (base P) virt c s =
     Some (base (frame (pde (phys s) P (frame virt div 1024))), s)"
  unfolding get_page_table_def Let_def entry_addresses frame_mask
  by (simp add: present_def pde_def)

lemma get_page_table_absent:
  "\<not> present (pde (phys s) P (frame virt div 1024)) \<Longrightarrow>
   get_page_table (base P) virt False s = Some (0, s)"
  unfolding get_page_table_def Let_def entry_addresses
  by (simp add: present_def pde_def)

lemma get_page_table_create:
  assumes ok: "vmm_ok s P" and absent: "\<not> present (pde (phys s) P (frame virt div 1024))"
  shows "case pmm_alloc (bitmap s) :: (u32 \<times> u8 list) option of
      None \<Rightarrow> get_page_table (base P) virt True s = None
    | Some (p, bm) \<Rightarrow> \<exists>f. f \<in> free_pages (bitmap s) \<and> f \<noteq> 0 \<and> pmm_inv bm \<and>
        free_pages bm = free_pages (bitmap s) - {f} \<and>
        get_page_table (base P) virt True s = Some (base f,
          s\<lparr>phys := hook_table (phys s) P (frame virt div 1024) f, bitmap := bm\<rparr>)"
proof (cases "pmm_alloc (bitmap s) :: (u32 \<times> u8 list) option")
  case None
  with absent show ?thesis
    unfolding get_page_table_def Let_def entry_addresses by (simp add: present_def pde_def)
next
  case (Some r)
  obtain p bm where r: "r = (p, bm)" by (cases r)
  with Some obtain f where f: "f \<in> free_pages (bitmap s)" "p = base f"
    and bm: "bm = bit_set (bitmap s) f" unfolding base_def by (auto elim: pmm_alloc_Some)
  have inv: "pmm_inv (bitmap s)" and f0: "f \<noteq> 0"
    using ok f unfolding vmm_ok_def by metis+
  have fb: "f < 0x100000" using free_bound [OF f(1)] by simp
  have or7: "base f OR PAGE_PRESENT OR PAGE_WRITE OR PAGE_USER =
      (base f OR 7 :: u32)"
    by (simp add: or.assoc)
  have "read32 (hook_table (phys s) P i f) (ent P i) = base f OR 7" for i
    by (simp add: hook_table_def)
  then have "get_page_table (base P) virt True s = Some (base f,
      s\<lparr>phys := hook_table (phys s) P (frame virt div 1024) f, bitmap := bm\<rparr>)"
    using absent Some r f(2) table_entry_bits(1) [OF fb]
    unfolding get_page_table_def Let_def entry_addresses frame_mask
    by (simp add: present_def pde_def or7 hook_table_def [symmetric])
  with Some r f f0 bm inv free_bit_set [OF inv free_bound [OF f(1)]] show ?thesis by auto
qed

section \<open>The operations on an address space\<close>

lemma frame_base: "p < 0x100000 \<Longrightarrow> frame (base p) = p"
  by (simp add: frame_def unat_base)

lemma base_eq_0: "p < 0x100000 \<Longrightarrow> base p = 0 \<longleftrightarrow> p = 0"
  by (metis unat_base base_def mult_0 mult_eq_0_iff of_nat_0 unsigned_0 zero_neq_numeral)

text \<open>Everything the proofs below need to know about one call of vmm_map_page.\<close>

lemma vmm_map_page_cases:
  assumes ok: "vmm_ok s P"
  shows "(vmm_map_page (base P) virt pa flags s = None \<and>
       \<not> present (pde (phys s) P (frame virt div 1024)) \<and> free_pages (bitmap s) = {}) \<or>
    (\<exists>m bm. vmm_map_page (base P) virt pa flags s = Some (s\<lparr>phys := m, bitmap := bm\<rparr>) \<and>
       vmm_ok (s\<lparr>phys := m, bitmap := bm\<rparr>) P \<and>
       (\<forall>v < 0x100000. pte m P v =
          (if v = frame virt then (pa AND FRAME_MASK) OR flags OR PAGE_PRESENT else pte (phys s) P v)) \<and>
       (\<forall>j < 1024. present (pde m P j) \<longleftrightarrow> j = frame virt div 1024 \<or> present (pde (phys s) P j)) \<and>
       free_pages bm \<subseteq> free_pages (bitmap s) \<and>
       card (free_pages (bitmap s)) = card (free_pages bm) +
         (if present (pde (phys s) P (frame virt div 1024)) then 0 else 1))"
proof -
  let ?k = "frame virt" and ?x = "(pa AND FRAME_MASK) OR flags OR PAGE_PRESENT"
  let ?i = "?k div 1024"
  have k: "?k < 0x100000" and i: "?i < 1024" by (simp_all add: less_mult_imp_div_less)
  have upd: "vmm_ok (s\<lparr>phys := m', bitmap := bm\<rparr>) P \<and>
      (\<forall>v < 0x100000. pte m' P v = (if v = ?k then ?x else pte m P v)) \<and>
      (\<forall>j < 1024. pde m' P j = pde m P j)"
    if m: "space_ok m bm P" "present (pde m P ?i)" and bm: "pmm_inv bm" "0 \<notin> free_pages bm"
      and m': "m' = write32 m (ent (frame (pde m P ?i)) (?k mod 1024)) ?x" for m m' bm
  proof -
    have "pde m' P j = pde m P j" if "j < 1024" for j
      using m i that unfolding m' pde_def
      by (subst read32_write32_ent) (auto simp: space_ok_def pde_def)
    with write_pte [OF m(1) k m(2), where x = ?x] bm show ?thesis
      unfolding m' by (auto simp: vmm_ok_def)
  qed
  show ?thesis
  proof (cases "present (pde (phys s) P ?i)")
    case True
    let ?m = "write32 (phys s) (ent (frame (pde (phys s) P ?i)) (?k mod 1024)) ?x"
    have "vmm_map_page (base P) virt pa flags s = Some (s\<lparr>phys := ?m, bitmap := bitmap s\<rparr>)"
      using True by (simp add: vmm_map_page_def get_page_table_present entry_addresses)
    with upd [OF _ True _ _ refl, of "bitmap s"] ok True show ?thesis
      by (intro disjI2 exI [of _ ?m] exI [of _ "bitmap s"]) (auto simp: vmm_ok_def)
  next
    case absent: False
    note create = get_page_table_create [OF ok absent]
    show ?thesis
    proof (cases "pmm_alloc (bitmap s) :: (u32 \<times> u8 list) option")
      case None
      with create absent show ?thesis
        by (intro disjI1) (simp add: vmm_map_page_def pmm_alloc_None)
    next
      case (Some r)
      then obtain f bm where f: "f \<in> free_pages (bitmap s)" "f \<noteq> 0" and inv: "pmm_inv bm"
        and bm: "free_pages bm = free_pages (bitmap s) - {f}"
        and gpt: "get_page_table (base P) virt True s =
          Some (base f, s\<lparr>phys := hook_table (phys s) P ?i f, bitmap := bm\<rparr>)"
        using create by (cases r) auto
      let ?h = "hook_table (phys s) P ?i f"
      let ?m = "write32 ?h (ent f (?k mod 1024)) ?x"
      have sok: "space_ok (phys s) (bitmap s) P" using ok by (simp add: vmm_ok_def)
      note hook = hook_table_ok [OF sok i absent f bm]
      have fb: "f < 0x100000" using free_bound [OF f(1)] by simp
      have pdei: "pde ?h P ?i = base f OR 7" using hook(2) [OF i] by simp
      have res: "vmm_map_page (base P) virt pa flags s = Some (s\<lparr>phys := ?m, bitmap := bm\<rparr>)"
        by (simp add: vmm_map_page_def gpt entry_addresses)
      have "vmm_ok (s\<lparr>phys := ?m, bitmap := bm\<rparr>) P \<and>
          (\<forall>v < 0x100000. pte ?m P v = (if v = ?k then ?x else pte ?h P v)) \<and>
          (\<forall>j < 1024. pde ?m P j = pde ?h P j)"
        by (rule upd [OF hook(1)])
          (use inv bm ok in \<open>simp_all add: pdei table_entry_bits [OF fb] vmm_ok_def\<close>)
      moreover have "card (free_pages (bitmap s)) = Suc (card (free_pages bm))"
        unfolding bm by (rule card.remove) (use f in \<open>simp_all add: free_pages_def\<close>)
      ultimately show ?thesis
        using res absent bm hook(2,3) table_entry_bits(2) [OF fb]
        by (intro disjI2 exI [of _ ?m] exI [of _ bm]) auto
    qed
  qed
qed

lemma vmm_get_phys_addr_pte:
  assumes ok: "vmm_ok s P"
  shows "vmm_get_phys_addr (base P) virt s = Some (pte (phys s) P (frame virt) AND FRAME_MASK)"
proof (cases "present (pde (phys s) P (frame virt div 1024))")
  case True
  have "frame virt div 1024 < 1024" by (simp add: less_mult_imp_div_less)
  with True ok have "base (frame (pde (phys s) P (frame virt div 1024))) \<noteq> 0"
    by (simp add: base_eq_0 vmm_ok_def space_ok_def)
  with True show ?thesis
    by (simp add: vmm_get_phys_addr_def get_page_table_present pte_def entry_addresses)
next
  case False
  then show ?thesis by (simp add: vmm_get_phys_addr_def get_page_table_absent pte_def)
qed

lemma vmm_unmap_page_pte:
  assumes ok: "vmm_ok s P"
  shows "\<exists>m. vmm_unmap_page (base P) virt s = Some (s\<lparr>phys := m\<rparr>) \<and> vmm_ok (s\<lparr>phys := m\<rparr>) P \<and>
    (\<forall>v < 0x100000. pte m P v = (if v = frame virt then 0 else pte (phys s) P v))"
proof (cases "present (pde (phys s) P (frame virt div 1024))")
  case True
  let ?f = "frame (pde (phys s) P (frame virt div 1024))"
  let ?m = "write32 (phys s) (ent ?f (frame virt mod 1024)) 0"
  have "frame virt div 1024 < 1024" by (simp add: less_mult_imp_div_less)
  with True ok have "base ?f \<noteq> 0" by (simp add: base_eq_0 vmm_ok_def space_ok_def)
  with True have "vmm_unmap_page (base P) virt s = Some (s\<lparr>phys := ?m\<rparr>)"
    by (simp add: vmm_unmap_page_def get_page_table_present entry_addresses)
  moreover have "space_ok (phys s) (bitmap s) P" using ok by (simp add: vmm_ok_def)
  ultimately show ?thesis
    using write_pte [OF _ frame_bound True, where bm = "bitmap s" and x = 0] ok
    by (intro exI [of _ ?m]) (auto simp: vmm_ok_def)
next
  case False
  then have "vmm_unmap_page (base P) virt s = Some (s\<lparr>phys := phys s\<rparr>)"
    and "pte (phys s) P (frame virt) = 0"
    by (simp_all add: vmm_unmap_page_def get_page_table_absent pte_def)
  with ok show ?thesis by (intro exI [of _ "phys s"]) auto
qed

section \<open>Initial identity mapping\<close>

text \<open>How many of the tables for the first \<open>k\<close> pages exist: one per 1024 pages begun.\<close>

lemma base_step: "base k + 0x1000 = base (Suc k)"
  by (simp add: base_def)

lemma base_less: "k \<le> 4096 \<Longrightarrow> base k < 0x1000000 \<longleftrightarrow> k < 4096"
  by (simp add: word_less_nat_alt unat_base)

lemma base_frame_mask: "k < 0x100000 \<Longrightarrow> base k AND FRAME_MASK = base k"
  by (simp add: frame_mask frame_base)

lemma round_up: "(k + 1023) div 1024 = k div 1024 + (if k mod 1024 = 0 then 0 else 1)" for k :: nat
proof -
  have "(k mod 1024 + 1023) div 1024 = 1" if "k mod 1024 \<noteq> 0"
  proof (rule div_nat_eqI)
    show "1024 * 1 \<le> k mod 1024 + 1023" using that by simp
    have "k mod 1024 < 1024" by simp
    then show "k mod 1024 + 1023 < 1024 * Suc 1" by simp
  qed
  then show ?thesis by (simp add: div_add1_eq [of k 1023 1024])
qed

lemma tables_begun:
  "(Suc k + 1023) div 1024 = (k + 1023) div 1024 + (if k mod 1024 = 0 then 1 else 0)" for k :: nat
proof -
  have "(Suc k + 1023) div 1024 = k div 1024 + 1" by simp
  then show ?thesis by (simp add: round_up)
qed

lemma table_of_page: "j = k div 1024 \<or> j * 1024 < k \<longleftrightarrow> j * 1024 < Suc k" for j k :: nat
  by (metis div_times_less_eq_dividend le_imp_less_Suc less_Suc_eq nonzero_mult_div_cancel_right
      zero_neq_numeral)

lemma table_boundary: "k div 1024 * 1024 < k \<longleftrightarrow> k mod 1024 \<noteq> 0" for k :: nat
  using div_mult_mod_eq [of k 1024] by linarith

definition identity_upto :: "nat \<Rightarrow> nat \<Rightarrow> vmm \<Rightarrow> bool" where
  "identity_upto P k s \<longleftrightarrow>
     vmm_ok s P \<and> kernel_pd s = base P \<and>
     (\<forall>v < 0x100000. pte (phys s) P v = (if v < k then base v OR 7 else 0)) \<and>
     (\<forall>j < 1024. present (pde (phys s) P j) \<longleftrightarrow> j * 1024 < k) \<and>
     4 \<le> card (free_pages (bitmap s)) + (k + 1023) div 1024"

lemma identity_step:
  assumes inv: "identity_upto P k s" and k: "k < 4096"
  obtains s' where "vmm_map_page (kernel_pd s) (base k) (base k)
      (PAGE_PRESENT OR PAGE_WRITE OR PAGE_USER) s = Some s'"
    and "identity_upto P (Suc k) s'" and "cr0 s' = cr0 s"
proof -
  let ?r = "vmm_map_page (base P) (base k) (base k) 7 s"
  have ok: "vmm_ok s P" and kpd: "kernel_pd s = base P"
    and ptes: "\<forall>v < 0x100000. pte (phys s) P v = (if v < k then base v OR 7 else 0)"
    and tabs: "\<forall>j < 1024. present (pde (phys s) P j) \<longleftrightarrow> j * 1024 < k"
    and few: "4 \<le> card (free_pages (bitmap s)) + (k + 1023) div 1024"
    using inv by (simp_all add: identity_upto_def)
  have k20: "k < 0x100000" using k by simp
  have fr: "frame (base k) = k" using k20 by (rule frame_base)
  have here: "present (pde (phys s) P (k div 1024)) \<longleftrightarrow> k mod 1024 \<noteq> 0"
  proof -
    have "k div 1024 < 1024" using k by simp
    then show ?thesis using tabs table_boundary by simp
  qed
  have seven: "PAGE_PRESENT OR PAGE_WRITE OR PAGE_USER = 7" by simp
  have or71: "x OR 7 OR PAGE_PRESENT = x OR 7" for x :: u32
  proof -
    have "(7 :: u32) OR 1 = 7" by simp
    then show ?thesis by (simp only: or.assoc)
  qed
  note cases = vmm_map_page_cases [OF ok, of "base k" "base k" 7, unfolded fr base_frame_mask [OF k20] or71]
  have "?r \<noteq> None"
  proof
    assume "?r = None"
    with cases here have "k mod 1024 = 0" and "free_pages (bitmap s) = {}" by auto
    with few have "4 \<le> (k + 1023) div 1024" by simp
    moreover have "(k + 1023) div 1024 = k div 1024" using \<open>k mod 1024 = 0\<close> by (simp add: round_up)
    ultimately show False using k by simp
  qed
  with cases obtain m bm where r: "?r = Some (s\<lparr>phys := m, bitmap := bm\<rparr>)"
    and ok': "vmm_ok (s\<lparr>phys := m, bitmap := bm\<rparr>) P"
    and p': "\<forall>v < 0x100000. pte m P v = (if v = k then base k OR 7 else pte (phys s) P v)"
    and t': "\<forall>j < 1024. present (pde m P j) \<longleftrightarrow> j = k div 1024 \<or> present (pde (phys s) P j)"
    and c': "card (free_pages (bitmap s)) =
      card (free_pages bm) + (if present (pde (phys s) P (k div 1024)) then 0 else 1)"
    by auto
  have tabs': "\<forall>j < 1024. present (pde m P j) \<longleftrightarrow> j * 1024 < Suc k"
    using t' tabs table_of_page by simp
  have "\<forall>v < 0x100000. pte m P v = (if v < Suc k then base v OR 7 else 0)"
    using p' ptes by (auto simp: less_Suc_eq)
  then have "identity_upto P (Suc k) (s\<lparr>phys := m, bitmap := bm\<rparr>)"
    using ok' kpd tabs' few c' here unfolding identity_upto_def tables_begun
    by (cases "k mod 1024 = 0") simp_all
  with r show ?thesis using kpd that unfolding seven by simp
qed

lemma init_map_loop_identity:
  "identity_upto P k s \<Longrightarrow> k \<le> 4096 \<Longrightarrow>
   \<exists>s'. init_map_loop (base k) s = Some s' \<and> identity_upto P 4096 s' \<and> cr0 s' = cr0 s"
proof (induction "4096 - k" arbitrary: k s)
  case 0
  then have "k = 4096" by simp
  then have "init_map_loop (base k) s = Some s"
    using base_less [of 4096] by (simp add: init_map_loop.simps [of "base 4096"])
  with 0 \<open>k = 4096\<close> show ?case by simp
next
  case (Suc d)
  then have k: "k < 4096" by simp
  obtain t where "vmm_map_page (kernel_pd s) (base k) (base k)
      (PAGE_PRESENT OR PAGE_WRITE OR PAGE_USER) s = Some t"
    and t: "identity_upto P (Suc k) t" "cr0 t = cr0 s"
    by (rule identity_step [OF Suc.prems(1) k])
  then have "init_map_loop (base k) s = init_map_loop (base (Suc k)) t"
    using k by (simp add: init_map_loop.simps [of "base k"] base_less base_step)
  with Suc.hyps(1) [of "Suc k" t] Suc.hyps(2) t k show ?case by simp
qed

text \<open>A freshly zeroed directory is an address space with no translation.\<close>

lemma zeroed_directory:
  assumes "P < 0x100000" "P \<notin> free_pages bm"
  shows "space_ok (zero_table m (base P) 1024) bm P"
    and "i < 1024 \<Longrightarrow> pde (zero_table m (base P) 1024) P i = 0"
    and "v < 0x100000 \<Longrightarrow> pte (zero_table m (base P) 1024) P v = 0"
proof -
  show pde0: "pde (zero_table m (base P) 1024) P i = 0" if "i < 1024" for i
    using read32_zero_table [OF assms(1) assms(1) that, of m] by (simp add: pde_def)
  show "space_ok (zero_table m (base P) 1024) bm P"
    using assms pde0 by (simp add: space_ok_def)
  show "pte (zero_table m (base P) 1024) P v = 0" if "v < 0x100000"
    using pde0 [OF vpn_bounds(1) [OF that]] by (simp add: pte_def)
qed

lemma init_paging_identity:
  assumes inv: "pmm_inv (bitmap s)" and nz: "0 \<notin> free_pages (bitmap s)"
    and five: "5 \<le> card (free_pages (bitmap s))"
  shows "\<exists>P s'. init_paging s = Some s' \<and> kernel_pd s' = base P \<and> current_pd s' = base P \<and>
    cr3 s' = base P \<and> cr0 s' = cr0 s OR 0x80000000 \<and> vmm_ok s' P \<and>
    (\<forall>v < 0x100000. pte (phys s') P v = (if v < 4096 then base v OR 7 else 0))"
proof -
  from five have "free_pages (bitmap s) \<noteq> {}" by auto
  then obtain pd bm where a: "pmm_alloc (bitmap s) = Some (pd :: u32, bm)"
    using pmm_alloc_None [of "bitmap s", where ?'a = 32] by fastforce
  then obtain P where P: "P \<in> free_pages (bitmap s)" "pd = base P" and bm: "bm = bit_set (bitmap s) P"
    unfolding base_def by (auto elim: pmm_alloc_Some)
  have Pb: "P < 0x100000" using free_bound [OF P(1)] by simp
  have free: "free_pages bm = free_pages (bitmap s) - {P}"
    unfolding bm by (rule free_bit_set [OF inv free_bound [OF P(1)]])
  have four: "4 \<le> card (free_pages bm)"
    using five P(1) by (simp add: free card_Diff_singleton)
  have unused: "P \<notin> free_pages bm" by (simp add: free)
  let ?s = "s\<lparr>phys := zero_table (phys s) pd 1024, bitmap := bm, kernel_pd := pd\<rparr>"
  note z = zeroed_directory [OF Pb unused, where m = "phys s"]
  have "identity_upto P 0 ?s"
    using z four inv nz bm free P(2) by (simp add: identity_upto_def vmm_ok_def)
  from init_map_loop_identity [OF this] obtain s' where "init_map_loop (base 0) ?s = Some s'"
    and s': "identity_upto P 4096 s'" "cr0 s' = cr0 ?s" by auto
  moreover have "base 0 = 0" by (simp add: base_def)
  ultimately have "init_paging s = Some (s'\<lparr>current_pd := kernel_pd s', cr3 := kernel_pd s',
      cr0 := cr0 s' OR 0x80000000\<rparr>)"
    using a by (simp add: init_paging_def)
  with s' show ?thesis
    by (intro exI [of _ P]) (simp add: identity_upto_def vmm_ok_def)
qed

section \<open>Cloning an address space\<close>

definition src_present :: "32 memory \<Rightarrow> nat \<Rightarrow> nat \<Rightarrow> nat set" where
  "src_present m P k = {i. i < k \<and> present (pde m P i)}"

text \<open>The directory entry the clone gets for the source entry \<open>e\<close> and the new table frame \<open>f\<close>.\<close>

definition cloned_pde :: "nat \<Rightarrow> u32 \<Rightarrow> u32" where
  "cloned_pde f e = base f OR (e AND NOT FRAME_MASK)"

lemma cloned_pde_bits:
  assumes "f < 0x100000"
  shows "frame (cloned_pde f e) = f" "present (cloned_pde f e) \<longleftrightarrow> present e"
proof -
  have "cloned_pde f e AND FRAME_MASK = base f AND FRAME_MASK"
  proof -
    have "((a :: u32) OR (e AND NOT k)) AND k = a AND k" for a k
      by (rule bit_word_eqI) (auto simp: bit_or_iff bit_and_iff bit_not_iff)
    then show ?thesis by (simp only: cloned_pde_def)
  qed
  then have "base (frame (cloned_pde f e)) = base f"
    by (simp only: frame_mask frame_base [OF assms])
  then have "unat (base (frame (cloned_pde f e))) = unat (base f)" by (simp only:)
  then show "frame (cloned_pde f e) = f" using assms by (simp add: unat_base)
  have "even (base f)" by (simp add: base_def)
  moreover have "odd (e AND NOT FRAME_MASK) \<longleftrightarrow> odd e" by (simp add: even_and_iff)
  ultimately show "present (cloned_pde f e) \<longleftrightarrow> present e"
    by (simp add: present_odd cloned_pde_def even_or_iff)
qed

text \<open>
  After the first \<open>k\<close> directory entries: \<open>F i\<close> is the new table of source entry \<open>i\<close>.
  Only the destination directory and the new tables have changed.
\<close>

definition cloning ::
    "32 memory \<Rightarrow> u8 list \<Rightarrow> nat \<Rightarrow> nat \<Rightarrow> nat \<Rightarrow> 32 memory \<Rightarrow> u8 list \<Rightarrow> (nat \<Rightarrow> nat) \<Rightarrow> bool" where
  "cloning m0 bm0 P Q k m bm F \<longleftrightarrow>
     pmm_inv bm \<and> free_pages bm \<subseteq> free_pages bm0 \<and>
     (\<forall>q < 0x100000. \<forall>j < 1024. q \<noteq> Q \<and> q \<notin> F ` src_present m0 P k \<longrightarrow>
        read32 m (ent q j) = read32 m0 (ent q j)) \<and>
     (\<forall>i < 1024. pde m Q i =
        (if i \<in> src_present m0 P k then cloned_pde (F i) (pde m0 P i) else pde m0 Q i)) \<and>
     (\<forall>i \<in> src_present m0 P k. F i \<in> free_pages bm0 - free_pages bm \<and>
        (\<forall>j < 1024. read32 m (ent (F i) j) = cloned (read32 m0 (ent (frame (pde m0 P i)) j)))) \<and>
     inj_on F (src_present m0 P k) \<and>
     card (free_pages bm0) = card (free_pages bm) + card (src_present m0 P k)"

lemma finite_src_present [simp]: "finite (src_present m P k)"
  by (simp add: src_present_def)

lemma src_present_Suc:
  "src_present m P (Suc k) =
     (if present (pde m P k) then insert k (src_present m P k) else src_present m P k)"
  by (auto simp: src_present_def less_Suc_eq)

lemma not_yet [simp]: "k \<notin> src_present m P k"
  by (simp add: src_present_def)

text \<open>What a clone needs of its source \<open>P\<close> and destination \<open>Q\<close>.\<close>

definition clonable :: "vmm \<Rightarrow> nat \<Rightarrow> nat \<Rightarrow> bool" where
  "clonable s P Q \<longleftrightarrow>
     vmm_ok s P \<and> Q < 0x100000 \<and> Q \<noteq> P \<and> Q \<notin> free_pages (bitmap s) \<and>
     (\<forall>i < 1024. present (pde (phys s) P i) \<longrightarrow> frame (pde (phys s) P i) \<noteq> Q) \<and>
     (\<forall>i < 1024. present (pde (phys s) Q i) \<longrightarrow> present (pde (phys s) P i))"

lemma cloning_source:
  assumes "clonable s P Q" and c: "cloning (phys s) (bitmap s) P Q k m bm F" and "j < 1024"
  shows "pde m P j = pde (phys s) P j"
    and "present (pde (phys s) P j) \<Longrightarrow> i < 1024 \<Longrightarrow>
      read32 m (ent (frame (pde (phys s) P j)) i) = read32 (phys s) (ent (frame (pde (phys s) P j)) i)"
proof -
  have ok: "space_ok (phys s) (bitmap s) P" and PQ: "Q \<noteq> P"
    using assms(1) by (simp_all add: clonable_def vmm_ok_def)
  have new: "F i \<in> free_pages (bitmap s)" if "i \<in> src_present (phys s) P k" for i
    using c that by (simp add: cloning_def)
  have same: "\<forall>q < 0x100000. \<forall>j < 1024. q \<noteq> Q \<and> q \<notin> F ` src_present (phys s) P k \<longrightarrow>
      read32 m (ent q j) = read32 (phys s) (ent q j)"
    using c by (simp add: cloning_def)
  have "P < 0x100000" "P \<notin> F ` src_present (phys s) P k"
    using ok new by (auto simp: space_ok_def)
  with same PQ assms(3) show "pde m P j = pde (phys s) P j" by (simp add: pde_def)
  assume pr: "present (pde (phys s) P j)" and i: "i < 1024"
  have "frame (pde (phys s) P j) \<notin> F ` src_present (phys s) P k"
    using ok new pr assms(3) by (auto simp: space_ok_def)
  moreover have "frame (pde (phys s) P j) \<noteq> Q"
    using assms(1,3) pr by (simp add: clonable_def)
  ultimately show "read32 m (ent (frame (pde (phys s) P j)) i) =
      read32 (phys s) (ent (frame (pde (phys s) P j)) i)"
    using same i by simp
qed

lemma clone_entry_step:
  assumes cl: "clonable s P Q" and c: "cloning (phys s) (bitmap s) P Q k m bm F" and k: "k < 1024"
  shows "case clone_entry (base P) (base Q) k (s\<lparr>phys := m, bitmap := bm\<rparr>) of
      None \<Rightarrow> present (pde (phys s) P k) \<and> free_pages bm = {}
    | Some s' \<Rightarrow> \<exists>m' bm' F'. s' = s\<lparr>phys := m', bitmap := bm'\<rparr> \<and>
        cloning (phys s) (bitmap s) P Q (Suc k) m' bm' F'"
proof (cases "present (pde (phys s) P k)")
  case False
  then have "clone_entry (base P) (base Q) k (s\<lparr>phys := m, bitmap := bm\<rparr>) =
      Some (s\<lparr>phys := m, bitmap := bm\<rparr>)"
    using cloning_source(1) [OF cl c k]
    by (simp add: clone_entry_def ent_address pde_def present_def)
  moreover have "cloning (phys s) (bitmap s) P Q (Suc k) m bm F"
    using c False unfolding cloning_def src_present_Suc by simp
  ultimately show ?thesis by (simp only: option.case) blast
next
  case pr: True
  let ?e = "pde (phys s) P k" and ?S = "src_present (phys s) P k"
  have e: "read32 m (ent P k) = ?e" using cloning_source(1) [OF cl c k] by (simp add: pde_def)
  have bm_inv: "pmm_inv bm" and bm_sub: "free_pages bm \<subseteq> free_pages (bitmap s)"
    using c by (simp_all add: cloning_def)
  show ?thesis
  proof (cases "pmm_alloc bm :: (u32 \<times> u8 list) option")
    case None
    with pr show ?thesis
      using pmm_alloc_None [of bm, where ?'a = 32]
      by (simp add: clone_entry_def ent_address e present_def)
  next
    case (Some r)
    then obtain f bm' where f: "f \<in> free_pages bm" and r: "r = (base f, bm')"
      and bm': "bm' = bit_set bm f"
      unfolding base_def by (cases r) (auto elim: pmm_alloc_Some)
    have free': "free_pages bm' = free_pages bm - {f}"
      unfolding bm' by (rule free_bit_set [OF bm_inv free_bound [OF f]])
    have fb: "f < 0x100000" using free_bound [OF f] by simp
    have ok: "space_ok (phys s) (bitmap s) P" and Q: "Q < 0x100000" "Q \<noteq> P"
      and Qf: "Q \<notin> free_pages (bitmap s)" and eQ: "frame ?e \<noteq> Q"
      using cl pr k by (simp_all add: clonable_def vmm_ok_def)
    have P: "P < 0x100000" and fP: "f \<noteq> P" and fe: "f \<noteq> frame ?e"
      using ok f bm_sub pr k by (auto simp: space_ok_def)
    have fQ: "f \<noteq> Q" using Qf f bm_sub by auto
    have fS: "f \<notin> F ` ?S" using c f by (auto simp: cloning_def)
    let ?m1 = "clone_table m (base f) (base (frame ?e))"
    let ?m' = "write32 ?m1 (ent Q k) (cloned_pde f ?e)"
    note r1 = read32_clone_table [OF fb frame_bound fe]
    have read: "read32 ?m' (ent q j) =
        (if q = Q \<and> j = k then cloned_pde f ?e
         else if q = f then cloned (read32 (phys s) (ent (frame ?e) j)) else read32 m (ent q j))"
      if "q < 0x100000" "j < 1024" for q j
      using read32_write32_ent [OF Q(1) k that, of ?m1 "cloned_pde f ?e"] r1 [OF that, of m] fQ
        cloning_source(2) [OF cl c k pr that(2)]
      by auto
    have "read32 ?m1 (ent P k) = ?e" using r1 [OF P k, of m] fP e by simp
    then have step: "clone_entry (base P) (base Q) k (s\<lparr>phys := m, bitmap := bm\<rparr>) =
        Some (s\<lparr>phys := ?m', bitmap := bm'\<rparr>)"
      using pr Some r unfolding clone_entry_def Let_def
      by (simp add: ent_address e present_def frame_mask cloned_pde_def)
    let ?F = "F(k := f)"
    have S': "src_present (phys s) P (Suc k) = insert k ?S" using pr by (simp add: src_present_Suc)
    have img: "?F ` insert k ?S = insert f (F ` ?S)" by (auto simp: src_present_def)
    have old: "?F i = F i" if "i \<in> ?S" for i using that by (auto simp: src_present_def)
    have "cloning (phys s) (bitmap s) P Q (Suc k) ?m' bm' ?F"
      unfolding cloning_def S' img
    proof (intro conjI allI impI ballI)
      show "pmm_inv bm'" unfolding bm' using bm_inv by simp
      show "free_pages bm' \<subseteq> free_pages (bitmap s)" using free' bm_sub by auto
      show "read32 ?m' (ent q j) = read32 (phys s) (ent q j)"
        if "q < 0x100000" "j < 1024" "q \<noteq> Q \<and> q \<notin> insert f (F ` ?S)" for q j
        using read [OF that(1,2)] that c by (simp add: cloning_def)
      show "pde ?m' Q i = (if i \<in> insert k ?S then cloned_pde (?F i) (pde (phys s) P i)
          else pde (phys s) Q i)" if "i < 1024" for i
        using read [OF Q(1) that] that c fQ old by (auto simp: cloning_def pde_def)
      show "?F i \<in> free_pages (bitmap s) - free_pages bm'" if "i \<in> insert k ?S" for i
        using that c f free' bm_sub old by (auto simp: cloning_def)
      show "read32 ?m' (ent (?F i) j) = cloned (read32 (phys s) (ent (frame (pde (phys s) P i)) j))"
        if "i \<in> insert k ?S" "j < 1024" for i j
      proof (cases "i = k")
        case True
        with read [OF fb that(2)] fQ show ?thesis by simp
      next
        case False
        with that have i: "i \<in> ?S" by simp
        with c have Fi: "F i \<in> free_pages (bitmap s)" by (simp add: cloning_def)
        then have "F i < 0x100000" using free_bound [OF Fi] by simp
        moreover have "F i \<noteq> Q" "F i \<noteq> f" using Fi Qf fS i by auto
        ultimately show ?thesis
          using read [of "F i" j] that(2) c i old by (simp add: cloning_def)
      qed
      show "inj_on ?F (insert k ?S)"
        using c fS old by (auto simp: cloning_def inj_on_def)
      have "card (free_pages bm) = Suc (card (free_pages bm'))"
        unfolding free' by (rule card.remove) (use f in \<open>simp_all add: free_pages_def\<close>)
      then show "card (free_pages (bitmap s)) = card (free_pages bm') + card (insert k ?S)"
        using c by (simp add: cloning_def)
    qed
    with step show ?thesis by auto
  qed
qed

lemma clone_entries_loop:
  assumes cl: "clonable s P Q"
  shows "cloning (phys s) (bitmap s) P Q k m bm F \<Longrightarrow> k \<le> 1024 \<Longrightarrow>
    case clone_entries (base P) (base Q) [k..<1024] (s\<lparr>phys := m, bitmap := bm\<rparr>) of
      None \<Rightarrow> card (free_pages (bitmap s)) < card (src_present (phys s) P 1024)
    | Some s' \<Rightarrow> \<exists>m' bm' F'. s' = s\<lparr>phys := m', bitmap := bm'\<rparr> \<and>
        cloning (phys s) (bitmap s) P Q 1024 m' bm' F'"
proof (induction "1024 - k" arbitrary: k m bm F)
  case 0
  then have "k = 1024" by simp
  with 0 show ?case by (simp only: upt_rec_numeral) auto
next
  case (Suc d)
  then have k: "k < 1024" by simp
  then have upt: "[k..<1024] = k # [Suc k..<1024]" by (simp add: upt_conv_Cons)
  note step = clone_entry_step [OF cl Suc.prems(1) k]
  show ?case
  proof (cases "clone_entry (base P) (base Q) k (s\<lparr>phys := m, bitmap := bm\<rparr>)")
    case None
    with step have pr: "present (pde (phys s) P k)" and "free_pages bm = {}" by auto
    with Suc.prems(1) have "card (free_pages (bitmap s)) = card (src_present (phys s) P k)"
      by (simp add: cloning_def)
    also have "\<dots> < card (src_present (phys s) P 1024)"
      using k pr by (intro psubset_card_mono) (auto simp: src_present_def)
    finally show ?thesis using None by (simp add: upt)
  next
    case (Some t)
    with step obtain m' bm' F' where t: "t = s\<lparr>phys := m', bitmap := bm'\<rparr>"
      and c: "cloning (phys s) (bitmap s) P Q (Suc k) m' bm' F'" by auto
    with Suc.hyps(1) [OF _ c] Suc.hyps(2) Some k show ?thesis by (simp add: upt)
  qed
qed

text \<open>The frames of the tables an address space uses, and address spaces that share none.\<close>

definition tables :: "32 memory \<Rightarrow> nat \<Rightarrow> nat set" where
  "tables m P = (\<lambda>i. frame (pde m P i)) ` src_present m P 1024"

definition separate :: "32 memory \<Rightarrow> nat \<Rightarrow> nat \<Rightarrow> bool" where
  "separate m P Q \<longleftrightarrow> P \<noteq> Q \<and> P \<notin> tables m Q \<and> Q \<notin> tables m P \<and> tables m P \<inter> tables m Q = {}"

lemma vmm_clone_address_space_ok:
  assumes cl: "clonable s P Q"
  shows "case vmm_clone_address_space (base P) (base Q) s of
      None \<Rightarrow> card (free_pages (bitmap s)) < card (src_present (phys s) P 1024)
    | Some s' \<Rightarrow> vmm_ok s' P \<and> vmm_ok s' Q \<and> separate (phys s') P Q \<and>
        (\<forall>v < 0x100000. pte (phys s') P v = pte (phys s) P v \<and>
           pte (phys s') Q v = cloned (pte (phys s) P v))"
proof -
  have start: "cloning (phys s) (bitmap s) P Q 0 (phys s) (bitmap s) (\<lambda>i. 0)"
    using cl by (simp add: cloning_def clonable_def vmm_ok_def src_present_def)
  note loop = clone_entries_loop [OF cl start, simplified]
  show ?thesis
  proof (cases "vmm_clone_address_space (base P) (base Q) s")
    case None
    with loop show ?thesis by (simp add: vmm_clone_address_space_def)
  next
    case (Some s')
    with loop obtain m bm F where s': "s' = s\<lparr>phys := m, bitmap := bm\<rparr>"
      and c: "cloning (phys s) (bitmap s) P Q 1024 m bm F"
      by (auto simp: vmm_clone_address_space_def)
    let ?m0 = "phys s" and ?S = "src_present (phys s) P 1024"
    have S: "i \<in> ?S \<longleftrightarrow> i < 1024 \<and> present (pde ?m0 P i)" for i by (simp add: src_present_def)
    note src = cloning_source [OF cl c]
    have ok: "space_ok ?m0 (bitmap s) P" using cl by (simp add: clonable_def vmm_ok_def)
    have F: "F i \<in> free_pages (bitmap s)" "F i \<notin> free_pages bm" "F i < 0x100000"
      if "i \<in> ?S" for i
      using c that free_bound [of "F i" "bitmap s"] by (auto simp: cloning_def)
    have sub: "free_pages bm \<subseteq> free_pages (bitmap s)" and inv: "pmm_inv bm"
      using c by (simp_all add: cloning_def)
    have pdeQ: "pde m Q i = (if i \<in> ?S then cloned_pde (F i) (pde ?m0 P i) else pde ?m0 Q i)"
      if "i < 1024" for i using c that by (simp add: cloning_def)
    have pQ: "present (pde m Q i) \<longleftrightarrow> i \<in> ?S" if "i < 1024" for i
      using pdeQ [OF that] cl that F(3) cloned_pde_bits(2) by (auto simp: S clonable_def)
    have fQ: "frame (pde m Q i) = F i" if "i \<in> ?S" for i
      using that F(3) pdeQ [of i] cloned_pde_bits(1) by (auto simp: S)
    have okP: "space_ok m bm P"
      using ok sub src(1) unfolding space_ok_def by (metis subsetD)
    have Qf: "Q \<notin> free_pages (bitmap s)" and Qb: "Q < 0x100000" and Q0: "0 \<notin> free_pages (bitmap s)"
      using cl by (simp_all add: clonable_def vmm_ok_def)
    have okQ: "space_ok m bm Q"
      unfolding space_ok_def
    proof (intro conjI allI impI)
      show "Q < 0x100000" "Q \<notin> free_pages bm" using Qb Qf sub by auto
      show "frame (pde m Q i) \<noteq> 0" "frame (pde m Q i) \<noteq> Q" "frame (pde m Q i) \<notin> free_pages bm"
        if "i < 1024" "present (pde m Q i)" for i
        using that pQ fQ F Q0 Qf by metis+
      show "i = j" if "i < 1024" "j < 1024"
        "present (pde m Q i) \<and> present (pde m Q j) \<and> frame (pde m Q i) = frame (pde m Q j)" for i j
      proof -
        have "i \<in> ?S" "j \<in> ?S" using that pQ by blast+
        moreover from this have "F i = F j" using that(3) fQ by metis
        moreover have "inj_on F ?S" using c by (simp add: cloning_def)
        ultimately show ?thesis by (simp add: inj_on_def)
      qed
    qed
    have tP: "tables m P = tables ?m0 P"
      using src(1) unfolding tables_def src_present_def by (auto intro!: image_cong)
    have tQ: "tables m Q = F ` ?S"
      unfolding tables_def using pQ fQ by (auto simp: src_present_def S intro!: image_cong)
    have sep: "separate m P Q"
      unfolding separate_def tP tQ using ok F cl
      by (auto simp: tables_def src_present_def space_ok_def clonable_def)
    have "pte m P v = pte ?m0 P v \<and> pte m Q v = cloned (pte ?m0 P v)" if v: "v < 0x100000" for v
    proof (cases "present (pde ?m0 P (v div 1024))")
      case True
      with src vpn_bounds(1) [OF v] have "pte m P v = pte ?m0 P v" by (simp add: pte_def)
      moreover have i: "v div 1024 \<in> ?S" using True vpn_bounds(1) [OF v] by (simp add: S)
      ultimately show ?thesis
        using True c pQ [OF vpn_bounds(1) [OF v]] fQ [OF i] by (simp add: pte_def cloning_def)
    next
      case False
      then show ?thesis
        using src(1) pQ vpn_bounds(1) [OF v] by (simp add: pte_def S cloned_def)
    qed
    with Some s' okP okQ sep inv sub Q0 show ?thesis by (auto simp: vmm_ok_def)
  qed
qed

text \<open>vmm_map_page writes only the directory, its tables and frames that were free.\<close>

lemma vmm_map_page_frame:
  assumes ok: "vmm_ok s Q" and map: "vmm_map_page (base Q) virt pa flags s = Some s'"
    and q: "q < 0x100000" "q \<noteq> Q" "q \<notin> tables (phys s) Q" "q \<notin> free_pages (bitmap s)" and j: "j < 1024"
  shows "read32 (phys s') (ent q j) = read32 (phys s) (ent q j)"
proof (cases "present (pde (phys s) Q (frame virt div 1024))")
  case True
  then have "frame (pde (phys s) Q (frame virt div 1024)) \<noteq> q"
    using q(3) by (auto simp: tables_def src_present_def less_mult_imp_div_less)
  with True map q(1) j show ?thesis
    by (auto simp: vmm_map_page_def get_page_table_present entry_addresses read32_write32_ent)
next
  case False
  note create = get_page_table_create [OF ok False]
  then obtain p bm where "pmm_alloc (bitmap s) = Some (p :: u32, bm)"
    using map by (cases "pmm_alloc (bitmap s) :: (u32 \<times> u8 list) option")
      (auto simp: vmm_map_page_def)
  with create map obtain f bm where f: "f \<in> free_pages (bitmap s)"
    and s': "phys s' = write32 (hook_table (phys s) Q (frame virt div 1024) f)
      (ent f (frame virt mod 1024)) ((pa AND FRAME_MASK) OR flags OR PAGE_PRESENT)"
    by (auto simp: vmm_map_page_def entry_addresses)
  have "f < 0x100000" "f \<noteq> q" "f \<noteq> Q" "Q < 0x100000"
    using free_bound [OF f] f q(4) ok by (auto simp: vmm_ok_def space_ok_def)
  with q j show ?thesis
    unfolding s'
    by (simp add: read32_write32_ent hook_table_reads less_mult_imp_div_less)
qed

lemma vmm_map_page_isolated:
  assumes "vmm_ok s P" "vmm_ok s Q" "separate (phys s) P Q"
    and "vmm_map_page (base Q) virt pa flags s = Some s'" and v: "v < 0x100000"
  shows "pte (phys s') P v = pte (phys s) P v"
proof -
  note same = vmm_map_page_frame [OF assms(2,4)]
  have P: "P < 0x100000" "P \<noteq> Q" "P \<notin> tables (phys s) Q" "P \<notin> free_pages (bitmap s)"
    using assms(1,3) by (simp_all add: vmm_ok_def space_ok_def separate_def)
  have dir: "pde (phys s') P i = pde (phys s) P i" if "i < 1024" for i
    using same [OF P that] by (simp add: pde_def)
  show ?thesis
  proof (cases "present (pde (phys s) P (v div 1024))")
    case True
    let ?f = "frame (pde (phys s) P (v div 1024))"
    have t: "?f \<in> tables (phys s) P"
      using True vpn_bounds(1) [OF v] by (auto simp: tables_def src_present_def)
    then have "?f \<noteq> Q" "?f \<notin> tables (phys s) Q" using assms(3) by (auto simp: separate_def)
    moreover have "?f \<notin> free_pages (bitmap s)"
      using assms(1) True vpn_bounds(1) [OF v] by (simp add: vmm_ok_def space_ok_def)
    ultimately show ?thesis
      using dir [OF vpn_bounds(1) [OF v]] same by (simp add: pte_def)
  next
    case False
    with dir [OF vpn_bounds(1) [OF v]] show ?thesis by (simp add: pte_def)
  qed
qed

section \<open>A concrete machine for the witnesses\<close>

text \<open>All memory zero, a directory in frame 5 and six free frames, 6 to 11.\<close>

definition demo_vmm :: vmm where
  "demo_vmm = \<lparr>phys = (\<lambda>_. 0), bitmap = demo_bitmap, current_pd = base 5, kernel_pd = base 5,
     cr3 = base 5, cr0 = 0\<rparr>"

lemma read32_zero: "read32 (\<lambda>_. 0) a = 0"
  by (simp add: read32_def eval_nat_numeral)

lemma demo_vmm_free: "free_pages (bitmap demo_vmm) = {6, 7, 8, 9, 10, 11}"
  by (simp add: demo_vmm_def demo_bitmap_free)

lemma demo_vmm_ok: "vmm_ok demo_vmm 5"
  by (simp add: vmm_ok_def demo_vmm_def demo_bitmap_free space_ok_def pde_def read32_zero)

section \<open>Properties\<close>

text \<open>
  C6: vmm_map_page refines an update of the translation. On a well-formed address space it
  panics only when a new page table is needed and no page is free; otherwise the entry of the
  page becomes the frame of phys with the flags and the present bit, no other of the 2^20
  translations changes (though a page table may have been created), and the address space stays
  well formed.
\<close>

theorem vmm_map_page_refines:
  assumes "vmm_ok s P"
  shows "case vmm_map_page (base P) virt pa flags s of
      None \<Rightarrow> \<not> present (pde (phys s) P (frame virt div 1024)) \<and> free_pages (bitmap s) = {}
    | Some s' \<Rightarrow> vmm_ok s' P \<and>
        (\<forall>v < 0x100000. pte (phys s') P v =
           (if v = frame virt then (pa AND FRAME_MASK) OR flags OR PAGE_PRESENT
            else pte (phys s) P v))"
  using vmm_map_page_cases [OF assms, of virt pa flags] by auto

theorem vmm_map_page_refines_witness:
  "\<exists>s'. vmm_map_page (base 5) 0x801000 0x9000 6 demo_vmm = Some s' \<and> pte (phys s') 5 0x801 = 0x9007 \<and>
     pte (phys s') 5 0x802 = 0"
proof -
  have "vmm_map_page (base 5) 0x801000 0x9000 6 demo_vmm \<noteq> None"
    using vmm_map_page_refines [OF demo_vmm_ok, of "0x801000" "0x9000" 6]
    by (auto simp: demo_vmm_free split: option.splits)
  then obtain s' where s': "vmm_map_page (base 5) 0x801000 0x9000 6 demo_vmm = Some s'" by auto
  have "pte (phys demo_vmm) 5 0x802 = 0" by (simp add: demo_vmm_def pte_def pde_def read32_zero)
  with vmm_map_page_refines [OF demo_vmm_ok, of "0x801000" "0x9000" 6] s' show ?thesis
    by (auto simp: frame_def)
qed

text \<open>
  translation agrees with the mapping. After vmm_map_page with flags that fit in the low
  twelve bits, vmm_get_phys_addr returns the frame of phys for the page mapped and, for every
  other page, what it returned before; after vmm_unmap_page it returns 0 for the page unmapped
  and what it returned before for the others.
\<close>

theorem vmm_map_unmap_translate:
  assumes "vmm_ok s P" and "flags AND FRAME_MASK = 0"
    and "vmm_map_page (base P) virt pa flags s = Some s1"
  shows "vmm_get_phys_addr (base P) va s1 =
      (if frame va = frame virt then Some (pa AND FRAME_MASK) else vmm_get_phys_addr (base P) va s) \<and>
    (\<exists>s2. vmm_unmap_page (base P) virt s1 = Some s2 \<and>
       vmm_get_phys_addr (base P) va s2 =
         (if frame va = frame virt then Some 0 else vmm_get_phys_addr (base P) va s))"
proof -
  have ok1: "vmm_ok s1 P" and pte1: "\<forall>v < 0x100000. pte (phys s1) P v =
      (if v = frame virt then (pa AND FRAME_MASK) OR flags OR PAGE_PRESENT else pte (phys s) P v)"
    using vmm_map_page_cases [OF assms(1), of virt pa flags] assms(3) by auto
  have "((pa AND k) OR flags OR PAGE_PRESENT) AND k =
      (pa AND k) OR (flags AND k) OR (PAGE_PRESENT AND k)" for k
    by (rule bit_word_eqI) (auto simp: bit_or_iff bit_and_iff)
  from this [of FRAME_MASK] have masked:
    "((pa AND FRAME_MASK) OR flags OR PAGE_PRESENT) AND FRAME_MASK = pa AND FRAME_MASK"
    using assms(2) by simp
  obtain m where un: "vmm_unmap_page (base P) virt s1 = Some (s1\<lparr>phys := m\<rparr>)"
    and ok2: "vmm_ok (s1\<lparr>phys := m\<rparr>) P"
    and pte2: "\<forall>v < 0x100000. pte m P v = (if v = frame virt then 0 else pte (phys s1) P v)"
    using vmm_unmap_page_pte [OF ok1] by blast
  show ?thesis
    unfolding vmm_get_phys_addr_pte [OF ok1] vmm_get_phys_addr_pte [OF assms(1)]
    using pte1 pte2 masked un vmm_get_phys_addr_pte [OF ok2] by auto
qed

theorem vmm_map_unmap_translate_witness:
  "\<exists>s1. vmm_map_page (base 5) 0x801000 0x9000 6 demo_vmm = Some s1 \<and>
     vmm_get_phys_addr (base 5) 0x801234 s1 = Some 0x9000"
proof -
  have "vmm_map_page (base 5) 0x801000 0x9000 6 demo_vmm \<noteq> None"
    using vmm_map_page_cases [OF demo_vmm_ok, of "0x801000" "0x9000" 6]
    by (auto simp: demo_vmm_free)
  then obtain s1 where s1: "vmm_map_page (base 5) 0x801000 0x9000 6 demo_vmm = Some s1" by auto
  with vmm_map_unmap_translate [OF demo_vmm_ok _ s1, of "0x801234"] show ?thesis
    by (simp add: frame_def)
qed

text \<open>
  C23: init_paging succeeds when five pages are free and page 0 is not, and leaves the new
  kernel address space loaded in cr3 with paging on: virtual pages 0 to 4095, the first 16 MB, are
  mapped to themselves (present, writable, user) and no other page is mapped.
\<close>

theorem init_paging_identity_maps_16MB:
  assumes "pmm_inv (bitmap s)" and "0 \<notin> free_pages (bitmap s)" and "5 \<le> card (free_pages (bitmap s))"
  shows "\<exists>P s'. init_paging s = Some s' \<and> kernel_pd s' = base P \<and> current_pd s' = base P \<and>
    cr3 s' = base P \<and> cr0 s' = cr0 s OR 0x80000000 \<and> vmm_ok s' P \<and>
    (\<forall>v < 0x100000. pte (phys s') P v = (if v < 4096 then of_nat (v * 4096) OR 7 else 0))"
  using init_paging_identity [OF assms] unfolding base_def .

theorem init_paging_identity_maps_16MB_witness:
  "\<exists>P s'. init_paging demo_vmm = Some s' \<and> cr3 s' = base P \<and> pte (phys s') P 0x400 = 0x400007"
proof -
  have "pmm_inv (bitmap demo_vmm)" "0 \<notin> free_pages (bitmap demo_vmm)"
    "5 \<le> card (free_pages (bitmap demo_vmm))"
    by (simp_all add: demo_vmm_def demo_bitmap_free)
  from init_paging_identity_maps_16MB [OF this] obtain P s' where "init_paging demo_vmm = Some s'"
    "cr3 s' = base P"
    "\<forall>v < 0x100000. pte (phys s') P v = (if v < 4096 then of_nat (v * 4096) OR 7 else 0)" by blast
  then show ?thesis by (intro exI [of _ P] exI [of _ s']) simp
qed

text \<open>
  C4: vmm_clone_address_space is a deep copy of the page tables. It panics only when fewer pages
  are free than the source has tables; otherwise every translation of the clone is the source's
  (entries that are not present become 0), the source is unchanged, both address spaces are well
  formed, and a page mapped in either one afterwards does not change any translation of the other.
\<close>

theorem vmm_clone_isolated:
  assumes "clonable s P Q"
  shows "case vmm_clone_address_space (base P) (base Q) s of
      None \<Rightarrow> card (free_pages (bitmap s)) < card (src_present (phys s) P 1024)
    | Some s' \<Rightarrow> vmm_ok s' P \<and> vmm_ok s' Q \<and>
        (\<forall>v < 0x100000. pte (phys s') P v = pte (phys s) P v \<and>
           pte (phys s') Q v = cloned (pte (phys s) P v)) \<and>
        (\<forall>virt pa flags. \<forall>v < 0x100000.
           (\<forall>t. vmm_map_page (base Q) virt pa flags s' = Some t \<longrightarrow> pte (phys t) P v = pte (phys s') P v) \<and>
           (\<forall>t. vmm_map_page (base P) virt pa flags s' = Some t \<longrightarrow> pte (phys t) Q v = pte (phys s') Q v))"
proof (cases "vmm_clone_address_space (base P) (base Q) s")
  case None
  with vmm_clone_address_space_ok [OF assms] show ?thesis by simp
next
  case (Some s')
  with vmm_clone_address_space_ok [OF assms] have ok: "vmm_ok s' P" "vmm_ok s' Q"
    and sep: "separate (phys s') P Q"
    and ptes: "\<forall>v < 0x100000. pte (phys s') P v = pte (phys s) P v \<and>
      pte (phys s') Q v = cloned (pte (phys s) P v)" by simp_all
  from sep have sep': "separate (phys s') Q P" by (auto simp: separate_def)
  from Some ok ptes vmm_map_page_isolated [OF ok sep] vmm_map_page_isolated [OF ok(2,1) sep']
  show ?thesis by simp
qed

text \<open>The same machine with one page mapped: directory entry 2 uses frame 9.\<close>

definition demo_mapped :: vmm where
  "demo_mapped = demo_vmm\<lparr>
     phys := write32 (write32 (\<lambda>_. 0) (ent 5 2) (base 9 OR 7)) (ent 9 1) 0x9007,
     bitmap := bit_set demo_bitmap 9\<rparr>"

lemma demo_mapped_read:
  "q < 0x100000 \<Longrightarrow> j < 1024 \<Longrightarrow> read32 (phys demo_mapped) (ent q j) =
    (if q = 9 \<and> j = 1 then 0x9007 else if q = 5 \<and> j = 2 then base 9 OR 7 else 0)"
  by (auto simp: demo_mapped_def read32_write32_ent read32_zero)

lemma demo_mapped_free:
  "pmm_inv (bitmap demo_mapped)" "free_pages (bitmap demo_mapped) = {6, 7, 8, 10, 11}"
  by (auto simp: demo_mapped_def demo_bitmap_free free_bit_set)

lemma demo_mapped_pde:
  "i < 1024 \<Longrightarrow> pde (phys demo_mapped) 5 i = (if i = 2 then base 9 OR 7 else 0)"
  "i < 1024 \<Longrightarrow> pde (phys demo_mapped) 20 i = 0"
  by (simp_all add: pde_def demo_mapped_read)

lemma demo_mapped_bits: "frame (base 9 OR 7) = 9" "present (base 9 OR 7)"
  by (rule table_entry_bits, simp)+

lemma demo_mapped_ok: "vmm_ok demo_mapped 5" "clonable demo_mapped 5 20"
proof -
  show ok: "vmm_ok demo_mapped 5"
    unfolding vmm_ok_def space_ok_def
    using demo_mapped_pde(1) demo_mapped_free demo_mapped_bits by (auto split: if_splits)
  then show "clonable demo_mapped 5 20"
    using demo_mapped_pde demo_mapped_free demo_mapped_bits
    by (auto simp: clonable_def split: if_splits)
qed

theorem vmm_clone_isolated_witness:
  "\<exists>s'. vmm_clone_address_space (base 5) (base 20) demo_mapped = Some s' \<and>
     pte (phys s') 20 0x801 = 0x9007 \<and>
     (\<forall>t. vmm_map_page (base 20) 0x801000 0xB000 6 s' = Some t \<longrightarrow> pte (phys t) 5 0x801 = 0x9007)"
proof -
  have S: "src_present (phys demo_mapped) 5 1024 = {2}"
    using demo_mapped_pde demo_mapped_bits by (auto simp: src_present_def split: if_splits)
  have p: "pte (phys demo_mapped) 5 0x801 = 0x9007"
    by (simp add: pte_def demo_mapped_pde demo_mapped_bits demo_mapped_read)
  have c: "cloned 0x9007 = 0x9007" by (simp add: cloned_def)
  note iso = vmm_clone_isolated [OF demo_mapped_ok(2)]
  have "vmm_clone_address_space (base 5) (base 20) demo_mapped \<noteq> None"
    using iso by (auto simp: demo_mapped_free S split: option.splits)
  then obtain s' where "vmm_clone_address_space (base 5) (base 20) demo_mapped = Some s'" by auto
  with iso p c show ?thesis by simp
qed

text \<open>
  vmm_create_address_space is a shallow copy of the kernel directory. The new address
  space has every translation of the kernel's, but through the same tables: mapping a page in it,
  in a region where the kernel has a table, changes the kernel's translation of that page too.
\<close>

theorem vmm_create_shares_kernel_tables:
  assumes "vmm_ok s K" and "kernel_pd s = base K" and "free_pages (bitmap s) \<noteq> {}"
    and "present (pde (phys s) K (frame virt div 1024))"
  shows "\<exists>Q s1 s2. vmm_create_address_space s = Some (base Q, s1) \<and> Q \<noteq> K \<and> vmm_ok s1 Q \<and>
    (\<forall>v < 0x100000. pte (phys s1) Q v = pte (phys s) K v) \<and>
    vmm_map_page (base Q) virt pa flags s1 = Some s2 \<and>
    pte (phys s2) K (frame virt) = (pa AND FRAME_MASK) OR flags OR PAGE_PRESENT"
proof -
  obtain pd bm where a: "pmm_alloc (bitmap s) = Some (pd :: u32, bm)"
    using assms(3) pmm_alloc_None [of "bitmap s", where ?'a = 32] by fastforce
  then obtain Q where Q: "Q \<in> free_pages (bitmap s)" "pd = base Q" and bm: "bm = bit_set (bitmap s) Q"
    unfolding base_def by (auto elim: pmm_alloc_Some)
  have inv: "pmm_inv (bitmap s)" and nz: "0 \<notin> free_pages (bitmap s)"
    and ok: "space_ok (phys s) (bitmap s) K" using assms(1) by (simp_all add: vmm_ok_def)
  have free: "free_pages bm = free_pages (bitmap s) - {Q}"
    unfolding bm by (rule free_bit_set [OF inv free_bound [OF Q(1)]])
  have QK: "Q \<noteq> K" and Qb: "Q < 0x100000" and Kb: "K < 0x100000"
    using Q(1) ok free_bound [OF Q(1)] by (auto simp: space_ok_def)
  let ?m = "copy_entries (zero_table (phys s) (base Q) 1024) (base Q) (base K) 1024"
  let ?i = "frame virt div 1024"
  have create: "vmm_create_address_space s = Some (base Q, s\<lparr>phys := ?m, bitmap := bm\<rparr>)"
    using a Q(2) assms(2) by (simp add: vmm_create_address_space_def)
  have read: "read32 ?m (ent q j) = (if q = Q then read32 (phys s) (ent K j) else read32 (phys s) (ent q j))"
    if "q < 0x100000" "j < 1024" for q j
    using read32_copy_entries [OF Qb Kb QK that] read32_zero_table [OF Qb Kb that(2)]
      read32_zero_table [OF Qb that] QK by simp
  have dirs: "pde ?m Q j = pde (phys s) K j" "pde ?m K j = pde (phys s) K j" if "j < 1024" for j
    using read [OF Qb that] read [OF Kb that] QK by (simp_all add: pde_def)
  have okK: "space_ok ?m bm K" and okQ: "space_ok ?m bm Q"
    using ok Q(1) QK Qb unfolding space_ok_def free by (auto simp: dirs)
  have v: "frame virt < 0x100000" and i: "?i < 1024" by (simp_all add: less_mult_imp_div_less)
  have same: "pte ?m Q v = pte (phys s) K v" if "v < 0x100000" for v
    using read [OF frame_bound vpn_bounds(2)] vpn_bounds(1) [OF that] ok Q(1)
    by (auto simp: pte_def dirs space_ok_def)
  let ?m2 = "write32 ?m (ent (frame (pde ?m K ?i)) (frame virt mod 1024))
    ((pa AND FRAME_MASK) OR flags OR PAGE_PRESENT)"
  have "vmm_map_page (base Q) virt pa flags (s\<lparr>phys := ?m, bitmap := bm\<rparr>) =
      Some (s\<lparr>phys := ?m2, bitmap := bm\<rparr>)"
    using assms(4) by (simp add: vmm_map_page_def get_page_table_present dirs i entry_addresses)
  moreover have "pte ?m2 K (frame virt) = (pa AND FRAME_MASK) OR flags OR PAGE_PRESENT"
    using write_pte(2) [OF okK v _ v] assms(4) by (simp add: dirs i)
  moreover have "vmm_ok (s\<lparr>phys := ?m, bitmap := bm\<rparr>) Q"
    using okQ inv nz bm free by (simp add: vmm_ok_def)
  ultimately show ?thesis using create QK same by fastforce
qed

theorem vmm_create_shares_kernel_tables_witness:
  "\<exists>Q s1 s2. vmm_create_address_space demo_mapped = Some (base Q, s1) \<and> Q \<noteq> 5 \<and>
     vmm_map_page (base Q) 0x805000 0xB000 6 s1 = Some s2 \<and> pte (phys s2) 5 0x805 = 0xB007"
proof -
  have "kernel_pd demo_mapped = base 5" by (simp add: demo_mapped_def demo_vmm_def)
  moreover have "free_pages (bitmap demo_mapped) \<noteq> {}" by (simp add: demo_mapped_free)
  moreover have "present (pde (phys demo_mapped) 5 (frame 0x805000 div 1024))"
    by (simp add: frame_def demo_mapped_pde demo_mapped_bits)
  ultimately show ?thesis
    using vmm_create_shares_kernel_tables [OF demo_mapped_ok(1), of "0x805000" "0xB000" 6]
    by (auto simp: frame_def)
qed

end
