(* ===== verification/PortIO.thy ===== *)
theory PortIO
  imports Prelude
begin

text \<open>
  Port input and output (kernel/core/io.h and its per-architecture copies).
  The functions inb, inw, outb and outw are one machine instruction each;
  what they do is decided by the device behind the port. A device is
  therefore a parameter of the model: a record of four functions over an
  abstract device state, which every driver of the development takes as an
  argument. The two scripted devices at the end are concrete devices on which
  the drivers can be evaluated: one records what is written to it, the other
  answers reads from a list of prepared bytes.
\<close>

record 'd hardware =
  in8 :: "u16 \<Rightarrow> 'd \<Rightarrow> u8 \<times> 'd"
  in16 :: "u16 \<Rightarrow> 'd \<Rightarrow> u16 \<times> 'd"
  out8 :: "u16 \<Rightarrow> u8 \<Rightarrow> 'd \<Rightarrow> 'd"
  out16 :: "u16 \<Rightarrow> u16 \<Rightarrow> 'd \<Rightarrow> 'd"

datatype port_event = Out8 u16 u8 | Out16 u16 u16

text \<open>
  A scripted device: reads of a port answer a fixed function of the port (and
  leave the device alone), writes are appended to a log.
\<close>

definition log_device :: "(u16 \<Rightarrow> u8) \<Rightarrow> port_event list hardware" where
  "log_device answer = \<lparr>in8 = (\<lambda>p d. (answer p, d)), in16 = (\<lambda>p d. (ucast (answer p), d)),
     out8 = (\<lambda>p b d. d @ [Out8 p b]), out16 = (\<lambda>p w d. d @ [Out16 p w])\<rparr>"

text \<open>A scripted device whose reads consume a list of bytes, 0 once it is used up.\<close>

definition tape_device :: "u8 list hardware" where
  "tape_device = \<lparr>in8 = (\<lambda>p d. case d of [] \<Rightarrow> (0, []) | b # bs \<Rightarrow> (b, bs)),
     in16 = (\<lambda>p d. case d of b # c # bs \<Rightarrow> (ucast b OR push_bit 8 (ucast c), bs) | _ \<Rightarrow> (0, [])),
     out8 = (\<lambda>p b d. d), out16 = (\<lambda>p w d. d)\<rparr>"

lemma log_device_simps [simp]:
  "in8 (log_device answer) p d = (answer p, d)"
  "in16 (log_device answer) p d = (ucast (answer p), d)"
  "out8 (log_device answer) p b d = d @ [Out8 p b]"
  "out16 (log_device answer) p w d = d @ [Out16 p w]"
  by (simp_all add: log_device_def)

lemma tape_device_simps [simp]:
  "in8 tape_device p (b # bs) = (b, bs)"
  "in8 tape_device p [] = (0, [])"
  "out8 tape_device p b bs = bs"
  "out16 tape_device p w bs = bs"
  by (simp_all add: tape_device_def)

end
