(* ===== verification/Keyboard.thy ===== *)
theory Keyboard
  imports PortIO "HOL-Library.Sublist"
begin

text \<open>
  The keyboard driver, kernel/core/keyboard.c: the scan code table, the
  256-slot ring buffer between the interrupt handler and the readers, the
  polling of the controller that keyboard_has_char does on every 100000th
  call, and the blocking keyboard_get_char. The interface of the ring is the
  locale bounded_queue; its interpretation at the end of the theory shows
  that the ring is a queue of 255 characters that drops what does not fit.
\<close>

section \<open>Bounded queues\<close>

text \<open>Of a sequence of arrivals (Some x) and reads (None), the arrivals.\<close>

primrec arrivals :: "'x option list \<Rightarrow> 'x list" where
  "arrivals [] = []"
| "arrivals (e # es) = (case e of None \<Rightarrow> arrivals es | Some x \<Rightarrow> x # arrivals es)"

lemma arrivals_append [simp]: "arrivals (xs @ ys) = arrivals xs @ arrivals ys"
  by (induction xs) (simp_all split: option.split)

text \<open>
  What a reader of a bounded first-in first-out buffer relies on: put appends
  when there is room and drops otherwise, get removes the oldest element.
\<close>

locale bounded_queue =
  fixes ok :: "'q \<Rightarrow> bool"
    and contents :: "'q \<Rightarrow> 'x list"
    and put :: "'x \<Rightarrow> 'q \<Rightarrow> 'q"
    and get :: "'q \<Rightarrow> 'x \<times> 'q"
    and capacity :: nat
  assumes put_ok: "ok q \<Longrightarrow> ok (put x q)"
    and get_ok: "ok q \<Longrightarrow> contents q \<noteq> [] \<Longrightarrow> ok (snd (get q))"
    and put_contents: "ok q \<Longrightarrow>
      contents (put x q) = (if length (contents q) < capacity then contents q @ [x] else contents q)"
    and get_contents: "ok q \<Longrightarrow> contents q = y # ys \<Longrightarrow> fst (get q) = y \<and> contents (snd (get q)) = ys"
    and within: "ok q \<Longrightarrow> length (contents q) \<le> capacity"
begin

text \<open>A put_all is a burst of arrivals with no reader in between.\<close>

primrec put_all :: "'x list \<Rightarrow> 'q \<Rightarrow> 'q" where
  "put_all [] q = q"
| "put_all (x # xs) q = put_all xs (put x q)"

lemma put_all_ok: "ok q \<Longrightarrow> ok (put_all xs q)"
  by (induction xs arbitrary: q) (simp_all add: put_ok)

lemma put_all_contents:
  "ok q \<Longrightarrow> contents (put_all xs q) = contents q @ take (capacity - length (contents q)) xs"
proof (induction xs arbitrary: q)
  case Nil
  then show ?case by simp
next
  case (Cons x xs)
  show ?case
  proof (cases "length (contents q) < capacity")
    case True
    then obtain n where n: "capacity - length (contents q) = Suc n"
      by (metis Suc_diff_Suc)
    then have "capacity - Suc (length (contents q)) = n" by simp
    with True n Cons show ?thesis by (simp add: put_ok put_contents)
  next
    case False
    with Cons show ?thesis by (simp add: put_ok put_contents)
  qed
qed

text \<open>
  Arrivals and reads in any order: Some x is an arrival, None a read, which
  is skipped when the buffer is empty. The result lists what the reads
  returned.
\<close>

primrec run :: "'x option list \<Rightarrow> 'q \<Rightarrow> 'x list \<times> 'q" where
  "run [] q = ([], q)"
| "run (e # es) q =
     (case e of
        Some x \<Rightarrow> run es (put x q)
      | None \<Rightarrow> if contents q = [] then run es q
                else (let (x, q1) = get q; (xs, q2) = run es q1 in (x # xs, q2)))"

lemma run_subseq:
  assumes "ok q"
  shows "ok (snd (run es q))
    \<and> subseq (fst (run es q) @ contents (snd (run es q))) (contents q @ arrivals es)"
  using assms
proof (induction es arbitrary: q)
  case Nil
  then show ?case by simp
next
  case (Cons e es)
  show ?case
  proof (cases e)
    case None
    show ?thesis
    proof (cases "contents q")
      case Nil
      with None Cons.IH [OF Cons.prems] show ?thesis by simp
    next
      case C: (Cons y ys)
      have g: "fst (get q) = y" "contents (snd (get q)) = ys" "ok (snd (get q))"
        using get_contents [OF Cons.prems C] get_ok [OF Cons.prems] C by simp_all
      from Cons.IH [OF g(3)] None C g show ?thesis
        by (simp add: Let_def split_beta)
    qed
  next
    case (Some x)
    let ?rest = "arrivals es"
    have "subseq (contents (put x q) @ ?rest) (contents q @ x # ?rest)"
      by (auto simp: put_contents Cons.prems intro: list_emb_append_mono)
    with Cons.IH [OF put_ok [OF Cons.prems], of x] Some show ?thesis
      by (auto intro: subseq_order.trans)
  qed
qed

lemma run_lossless:
  assumes "ok q" and "length (contents q) + length (arrivals es) \<le> capacity"
  shows "fst (run es q) @ contents (snd (run es q)) = contents q @ arrivals es"
  using assms
proof (induction es arbitrary: q)
  case Nil
  then show ?case by simp
next
  case (Cons e es)
  show ?case
  proof (cases e)
    case None
    show ?thesis
    proof (cases "contents q")
      case Nil
      with None Cons show ?thesis by simp
    next
      case C: (Cons y ys)
      have g: "fst (get q) = y" "contents (snd (get q)) = ys" "ok (snd (get q))"
        using get_contents [OF Cons.prems(1) C] get_ok [OF Cons.prems(1)] C by simp_all
      from Cons.IH [OF g(3)] Cons.prems(2) None C g show ?thesis
        by (simp add: Let_def split_beta)
    qed
  next
    case (Some x)
    with Cons.IH [OF put_ok [OF Cons.prems(1)], of x] Cons.prems(2) show ?thesis
      by (simp add: put_contents Cons.prems(1))
  qed
qed

end

section \<open>State and operations\<close>

definition KEYBOARD_DATA_PORT :: u16 where "KEYBOARD_DATA_PORT = 0x60"
definition KEYBOARD_STATUS_PORT :: u16 where "KEYBOARD_STATUS_PORT = 0x64"
definition POLL_INTERVAL :: u32 where "POLL_INTERVAL = 100000"

text \<open>
  The table kbdus, by its rows in the source; the initialiser lists fewer than
  128 entries and C fills the rest with zeros.
\<close>

definition kbdus_rows :: "u8 list" where
  "kbdus_rows =
     [0, 27] @ cs ''12345678'' @
     cs ''90-='' @ [8] @
     [9] @ cs ''qwertyuio'' @
     cs ''p[]'' @ [10, 0] @
     cs ''asdfghjkl;'' @
     [39] @ cs ''`'' @ [0, 92] @ cs ''zxcvbn'' @
     cs ''m,./'' @ [0] @
     cs ''*'' @ [0] @ cs '' '' @ [0, 0] @
     replicate 10 0 @
     replicate 6 0 @ cs ''-'' @ [0, 0, 0] @
     cs ''+'' @ replicate 9 0 @
     [0, 0]"

definition kbdus :: "u8 list" where
  "kbdus = kbdus_rows @ replicate (128 - length kbdus_rows) 0"

record keyboard =
  keyboard_buffer :: "u8 list"
  head_ix :: nat
  tail_ix :: nat
  poll_counter :: u32

text \<open>The statics before the first call: C zero-initialises them.\<close>

definition keyboard_static :: keyboard where
  "keyboard_static = \<lparr>keyboard_buffer = replicate 256 0, head_ix = 0, tail_ix = 0, poll_counter = 0\<rparr>"

definition keyboard_init :: "keyboard \<Rightarrow> keyboard" where
  "keyboard_init k = k\<lparr>head_ix := 0, tail_ix := 0, poll_counter := 0\<rparr>"

text \<open>The enqueueing branch of keyboard_handler.\<close>

definition enqueue_char :: "u8 \<Rightarrow> keyboard \<Rightarrow> keyboard" where
  "enqueue_char c k =
     (let next = (head_ix k + 1) mod 256 in
      if next \<noteq> tail_ix k
      then k\<lparr>keyboard_buffer := (keyboard_buffer k)[head_ix k := c], head_ix := next\<rparr>
      else k)"

definition handle_scancode :: "u8 \<Rightarrow> keyboard \<Rightarrow> keyboard" where
  "handle_scancode scancode k =
     (if scancode AND 0x80 = 0
      then (let c = kbdus ! unat scancode in if c \<noteq> 0 then enqueue_char c k else k)
      else k)"

definition keyboard_handler :: "'d hardware \<Rightarrow> keyboard \<times> 'd \<Rightarrow> keyboard \<times> 'd" where
  "keyboard_handler hw = (\<lambda>(k, d).
     let (scancode, d) = in8 hw KEYBOARD_DATA_PORT d in (handle_scancode scancode k, d))"

definition keyboard_poll :: "'d hardware \<Rightarrow> keyboard \<times> 'd \<Rightarrow> keyboard \<times> 'd" where
  "keyboard_poll hw = (\<lambda>(k, d).
     let k = k\<lparr>poll_counter := poll_counter k + 1\<rparr> in
     if poll_counter k \<ge> POLL_INTERVAL
     then (let k = k\<lparr>poll_counter := 0\<rparr>;
               (status, d) = in8 hw KEYBOARD_STATUS_PORT d in
           if status AND 1 \<noteq> 0 then keyboard_handler hw (k, d) else (k, d))
     else (k, d))"

definition keyboard_has_char :: "'d hardware \<Rightarrow> keyboard \<times> 'd \<Rightarrow> bool \<times> keyboard \<times> 'd" where
  "keyboard_has_char hw s = (let (k, d) = keyboard_poll hw s in (head_ix k \<noteq> tail_ix k, k, d))"

text \<open>The two lines of keyboard_get_char after its waiting loop.\<close>

definition dequeue_char :: "keyboard \<Rightarrow> u8 \<times> keyboard" where
  "dequeue_char k = (keyboard_buffer k ! tail_ix k, k\<lparr>tail_ix := (tail_ix k + 1) mod 256\<rparr>)"

text \<open>
  The waiting loop polls for ever when no key ever arrives; not returning is
  the value None.
\<close>

partial_function (option) await_char :: "'d hardware \<Rightarrow> keyboard \<times> 'd \<Rightarrow> (keyboard \<times> 'd) option" where
  "await_char hw s =
     (case keyboard_has_char hw s of (ready, s) \<Rightarrow> if ready then Some s else await_char hw s)"

definition keyboard_get_char :: "'d hardware \<Rightarrow> keyboard \<times> 'd \<Rightarrow> (u8 \<times> keyboard \<times> 'd) option" where
  "keyboard_get_char hw s =
     (case await_char hw s of None \<Rightarrow> None
      | Some (k, d) \<Rightarrow> (case dequeue_char k of (c, k) \<Rightarrow> Some (c, k, d)))"

section \<open>The ring as a queue\<close>

definition kb_ok :: "keyboard \<Rightarrow> bool" where
  "kb_ok k \<longleftrightarrow> length (keyboard_buffer k) = 256 \<and> head_ix k < 256 \<and> tail_ix k < 256"

definition pending :: "keyboard \<Rightarrow> nat" where
  "pending k = (head_ix k + 256 - tail_ix k) mod 256"

definition kb_contents :: "keyboard \<Rightarrow> u8 list" where
  "kb_contents k = map (\<lambda>i. keyboard_buffer k ! ((tail_ix k + i) mod 256)) [0 ..< pending k]"

lemma ring_distance:
  fixes h t :: nat
  assumes "h < 256" "t < 256"
  shows "(h + 256 - t) mod 256 = (if t \<le> h then h - t else h + 256 - t)"
proof (cases "t \<le> h")
  case True
  then have "h + 256 - t = (h - t) + 256" by simp
  then have "(h + 256 - t) mod 256 = (h - t) mod 256" by (simp only: mod_add_self2)
  with True assms show ?thesis by simp
qed (use assms in simp)

lemma ring_index:
  fixes t i :: nat
  assumes "t < 256" "i < 256"
  shows "(t + i) mod 256 = (if t + i < 256 then t + i else t + i - 256)"
  using assms by (simp add: mod_if)

lemma ring_succ:
  fixes h :: nat
  assumes "h < 256"
  shows "Suc h mod 256 = (if h = 255 then 0 else Suc h)"
  using assms by auto

lemma pending_bound [simp]: "pending k < 256"
  by (simp add: pending_def)

lemma kb_contents_nonempty: "kb_ok k \<Longrightarrow> kb_contents k \<noteq> [] \<longleftrightarrow> head_ix k \<noteq> tail_ix k"
  by (auto simp: kb_contents_def pending_def kb_ok_def ring_distance)

lemma kb_init_ok: "length (keyboard_buffer k) = 256 \<Longrightarrow> kb_ok (keyboard_init k)"
  and kb_init_contents: "kb_contents (keyboard_init k) = []"
  by (simp_all add: kb_ok_def keyboard_init_def kb_contents_def pending_def)

lemma enqueue_ok [inv_intros]: "kb_ok k \<Longrightarrow> kb_ok (enqueue_char c k)"
  by (simp add: kb_ok_def enqueue_char_def Let_def)

lemma dequeue_ok [inv_intros]: "kb_ok k \<Longrightarrow> kb_ok (snd (dequeue_char k))"
  by (simp add: kb_ok_def dequeue_char_def)

lemma enqueue_contents:
  assumes "kb_ok k"
  shows "kb_contents (enqueue_char c k) =
    (if length (kb_contents k) < 255 then kb_contents k @ [c] else kb_contents k)"
proof -
  let ?h = "head_ix k" and ?t = "tail_ix k"
  have b: "?h < 256" "?t < 256" "length (keyboard_buffer k) = 256"
    using assms by (auto simp: kb_ok_def)
  have room: "(?h + 1) mod 256 \<noteq> ?t \<longleftrightarrow> pending k < 255"
    using b by (auto simp: pending_def ring_distance ring_succ)
  show ?thesis
  proof (cases "pending k < 255")
    case False
    with room have "enqueue_char c k = k" by (simp add: enqueue_char_def Let_def)
    with False show ?thesis by (simp add: kb_contents_def)
  next
    case True
    let ?k = "enqueue_char c k"
    have k: "?k = k\<lparr>keyboard_buffer := (keyboard_buffer k)[?h := c], head_ix := (?h + 1) mod 256\<rparr>"
      using True room by (simp add: enqueue_char_def Let_def)
    have p: "pending ?k = Suc (pending k)"
      using b True by (auto simp: k pending_def ring_distance ring_succ split: if_splits)
    have last: "(?t + pending k) mod 256 = ?h"
      using b by (auto simp: pending_def ring_distance mod_if)
    have old: "(?t + i) mod 256 \<noteq> ?h" if "i < pending k" for i
    proof -
      have "i < 256" by (rule less_trans [OF that pending_bound])
      with that b show ?thesis
        by (auto simp: ring_index pending_def ring_distance split: if_splits)
    qed
    have prefix: "map (\<lambda>i. (keyboard_buffer k)[?h := c] ! ((?t + i) mod 256)) [0 ..< pending k]
        = kb_contents k"
      unfolding kb_contents_def
    proof (rule map_cong [OF refl])
      fix i
      assume "i \<in> set [0 ..< pending k]"
      then have "(?t + i) mod 256 \<noteq> ?h" by (intro old) simp
      then show "(keyboard_buffer k)[?h := c] ! ((?t + i) mod 256)
          = keyboard_buffer k ! ((?t + i) mod 256)"
        by (metis nth_list_update_neq)
    qed
    have "kb_contents ?k =
        map (\<lambda>i. (keyboard_buffer k)[?h := c] ! ((?t + i) mod 256)) ([0 ..< pending k] @ [pending k])"
      unfolding kb_contents_def p by (simp add: k)
    also have "\<dots> = kb_contents k @ [c]"
      using b by (simp only: map_append prefix) (simp add: last)
    finally show ?thesis using True by (simp add: kb_contents_def)
  qed
qed

lemma dequeue_contents:
  assumes "kb_ok k" and c: "kb_contents k = y # ys"
  shows "fst (dequeue_char k) = y \<and> kb_contents (snd (dequeue_char k)) = ys"
proof -
  let ?t = "tail_ix k" and ?k = "snd (dequeue_char k)"
  have b: "head_ix k < 256" "?t < 256" using assms(1) by (auto simp: kb_ok_def)
  have "pending k \<noteq> 0" using c by (intro notI) (simp add: kb_contents_def)
  then obtain n where n: "pending k = Suc n" by (cases "pending k") auto
  have ups: "[0 ..< Suc n] = 0 # map Suc [0 ..< n]"
    by (simp only: map_Suc_upt upt_conv_Cons [OF zero_less_Suc])
  have pn: "pending ?k = n"
    using n b by (auto simp: dequeue_char_def pending_def ring_distance ring_succ split: if_splits)
  have "kb_contents k =
      keyboard_buffer k ! ?t # map (\<lambda>i. keyboard_buffer k ! ((?t + Suc i) mod 256)) [0 ..< n]"
    using b by (simp add: kb_contents_def n ups comp_def del: upt_Suc)
  moreover have "kb_contents ?k =
      map (\<lambda>i. keyboard_buffer k ! ((?t + Suc i) mod 256)) [0 ..< n]"
    unfolding kb_contents_def pn by (simp add: dequeue_char_def mod_simps)
  ultimately show ?thesis using c by (simp add: dequeue_char_def)
qed

interpretation kb: bounded_queue kb_ok kb_contents enqueue_char dequeue_char 255
proof
  fix k :: keyboard
  show "length (kb_contents k) \<le> 255"
    using pending_bound [of k] by (simp add: kb_contents_def del: pending_bound)
qed (simp_all add: enqueue_ok dequeue_ok enqueue_contents dequeue_contents)

section \<open>Interrupts and readers\<close>

text \<open>The character a scan code stands for; key releases and unmapped keys have none.\<close>

definition typed :: "u8 \<Rightarrow> u8 option" where
  "typed sc = (if sc AND 0x80 = 0 \<and> kbdus ! unat sc \<noteq> 0 then Some (kbdus ! unat sc) else None)"

lemma handle_scancode_typed:
  "handle_scancode sc k = (case typed sc of None \<Rightarrow> k | Some c \<Rightarrow> enqueue_char c k)"
  by (simp add: handle_scancode_def typed_def Let_def)

lemma handle_scancode_ok [inv_intros]: "kb_ok k \<Longrightarrow> kb_ok (handle_scancode sc k)"
  by (simp add: handle_scancode_typed enqueue_ok split: option.splits)

text \<open>
  A session is a sequence of keyboard interrupts (Some scancode) and of reads
  (None), which take a character only when one is there, as the loop of
  keyboard_get_char does.
\<close>

primrec kb_session :: "u8 option list \<Rightarrow> keyboard \<Rightarrow> u8 list \<times> keyboard" where
  "kb_session [] k = ([], k)"
| "kb_session (e # es) k =
     (case e of
        Some sc \<Rightarrow> kb_session es (handle_scancode sc k)
      | None \<Rightarrow> if head_ix k \<noteq> tail_ix k
                then (let (c, k1) = dequeue_char k; (cs, k2) = kb_session es k1 in (c # cs, k2))
                else kb_session es k)"

text \<open>The same session as arrivals and reads of characters.\<close>

primrec char_events :: "u8 option list \<Rightarrow> u8 option list" where
  "char_events [] = []"
| "char_events (e # es) =
     (case e of None \<Rightarrow> [None] | Some sc \<Rightarrow> (case typed sc of None \<Rightarrow> [] | Some c \<Rightarrow> [Some c]))
     @ char_events es"

definition typed_chars :: "u8 option list \<Rightarrow> u8 list" where
  "typed_chars es = List.map_filter (\<lambda>e. case e of None \<Rightarrow> None | Some sc \<Rightarrow> typed sc) es"

lemma typed_chars_events: "arrivals (char_events es) = typed_chars es"
  by (induction es) (simp_all add: typed_chars_def map_filter_simps split: option.split)

lemma kb_session_run: "kb_ok k \<Longrightarrow> kb_session es k = kb.run (char_events es) k"
proof (induction es arbitrary: k)
  case Nil
  then show ?case by simp
next
  case (Cons e es)
  have step: "kb_session es (snd (dequeue_char k)) = kb.run (char_events es) (snd (dequeue_char k))"
    by (rule Cons.IH) (rule dequeue_ok [OF Cons.prems])
  have "kb_contents k = [] \<longleftrightarrow> head_ix k = tail_ix k"
    using kb_contents_nonempty [OF Cons.prems] by blast
  with step Cons.IH [OF Cons.prems] Cons.IH [OF handle_scancode_ok [OF Cons.prems]]
  show ?case
    by (cases e) (simp_all add: handle_scancode_typed Let_def split_beta split: option.splits)
qed

text \<open>
  C11: The ring buffer between the keyboard interrupt and the readers is a
  first-in first-out queue whatever the interleaving of interrupts and reads:
  what the readers get, followed by what is still buffered, is a subsequence
  of the characters typed, in order and without duplicates or inventions; and
  as long as no more than 255 characters are outstanding nothing is lost.
\<close>

theorem keyboard_fifo:
  assumes "kb_ok k" and "kb_session es k = (out, k')"
  shows "kb_ok k'
    \<and> subseq (out @ kb_contents k') (kb_contents k @ typed_chars es)
    \<and> (length (kb_contents k) + length (typed_chars es) \<le> 255 \<longrightarrow>
         out @ kb_contents k' = kb_contents k @ typed_chars es)"
  using kb.run_subseq [OF assms(1), of "char_events es"]
    kb.run_lossless [OF assms(1), of "char_events es"] assms(2)
  by (simp add: kb_session_run [OF assms(1)] typed_chars_events)

lemma kb_static_ok: "kb_ok keyboard_static"
  by (simp add: kb_ok_def keyboard_static_def)

lemma kb_static_contents: "kb_contents keyboard_static = []"
  by (simp add: kb_contents_def pending_def keyboard_static_def)

lemma keyboard_fifo_witness:
  "let (out, k') = kb_session [Some 0x23, Some 0xA3, None, Some 0x17, Some 0x1C] keyboard_static in
     out = cs ''h'' \<and> kb_contents k' = cs ''i'' @ [10]"
proof -
  let ?es = "[Some 0x23, Some 0xA3, None, Some 0x17, Some 0x1C]"
  obtain out k' where r: "kb_session ?es keyboard_static = (out, k')"
    by (cases "kb_session ?es keyboard_static") auto
  have t: "typed_chars ?es = cs ''hi'' @ [10]" by code_simp
  have o: "out = cs ''h''"
  proof -
    have "fst (kb_session ?es keyboard_static) = cs ''h''" by code_simp
    with r show ?thesis by simp
  qed
  from keyboard_fifo [OF kb_static_ok r] t
  have "out @ kb_contents k' = cs ''hi'' @ [10]" by (simp add: kb_static_contents cs_def)
  with o r show ?thesis by (simp add: cs_def)
qed

lemma kb_session_burst:
  "kb_ok k \<Longrightarrow> kb_session (map Some scs) k = ([], kb.put_all (typed_chars (map Some scs)) k)"
proof (induction scs arbitrary: k)
  case Nil
  then show ?case by (simp add: typed_chars_def map_filter_simps)
next
  case (Cons sc scs)
  from Cons.IH [OF handle_scancode_ok [OF Cons.prems, of sc]] show ?case
    by (simp add: typed_chars_def map_filter_simps handle_scancode_typed split: option.splits)
qed

text \<open>
  A burst of key interrupts with no reader in between appends the typed
  characters until 255 are buffered and drops the rest: characters already
  waiting are never overwritten, and the oldest ones survive.
\<close>

theorem keyboard_overflow_drops_newest:
  assumes "kb_ok k"
  shows "kb_contents (snd (kb_session (map Some scs) k))
    = take 255 (kb_contents k @ typed_chars (map Some scs))"
proof -
  have "length (kb_contents k) \<le> 255" by (rule kb.within [OF assms])
  then show ?thesis
    by (simp add: kb_session_burst [OF assms] kb.put_all_contents [OF assms])
qed

lemma keyboard_overflow_drops_newest_witness:
  "kb_contents (snd (kb_session (map Some (replicate 256 0x1E @ [0x30])) keyboard_static))
    = replicate 255 97"
proof -
  have t: "typed 0x1E = Some 97" "typed 0x30 = Some 98" by code_simp+
  have rep: "typed_chars (map Some (replicate n 0x1E @ [0x30])) = replicate n 97 @ [98]" for n
    by (induction n) (simp_all add: typed_chars_def map_filter_simps t)
  show ?thesis
    using keyboard_overflow_drops_newest [OF kb_static_ok, of "replicate 256 0x1E @ [0x30]"]
    unfolding rep kb_static_contents by simp
qed

section \<open>Waiting for a key\<close>

text \<open>
  One round of the waiting loop on an empty buffer: it only counts until the
  100000th round, which looks at the controller.
\<close>

lemma has_char_counts:
  assumes "poll_counter k + 1 < POLL_INTERVAL"
  shows "keyboard_has_char hw (k, d)
    = (head_ix k \<noteq> tail_ix k, k\<lparr>poll_counter := poll_counter k + 1\<rparr>, d)"
proof -
  have "\<not> POLL_INTERVAL \<le> poll_counter k + 1" using assms by (simp only: not_le)
  then show ?thesis by (simp add: keyboard_has_char_def keyboard_poll_def Let_def)
qed

lemma await_char_step:
  "keyboard_has_char hw s = (True, s') \<Longrightarrow> await_char hw s = Some s'"
  "keyboard_has_char hw s = (False, s') \<Longrightarrow> await_char hw s = await_char hw s'"
  by (subst await_char.simps; simp)+

lemma counter_below:
  assumes "unat p + 1 < 100000"
  shows "p + 1 < POLL_INTERVAL" and "unat (p + 1) = unat p + 1"
proof -
  have "p + 1 = of_nat (unat p + 1)" by simp
  moreover have "unat (of_nat (unat p + 1) :: u32) = unat p + 1"
    by (rule unat_of_nat_less) (use assms in simp)
  ultimately show u: "unat (p + 1) = unat p + 1" by (simp only:)
  with assms show "p + 1 < POLL_INTERVAL" by (simp add: word_less_nat_alt POLL_INTERVAL_def)
qed

lemma counter_plus: "p + of_nat n = (of_nat (unat p + n) :: u32)"
  by simp

lemma await_char_counts:
  assumes "head_ix k = tail_ix k" and "unat (poll_counter k) + n < 100000"
  shows "await_char hw (k, d) = await_char hw (k\<lparr>poll_counter := poll_counter k + of_nat n\<rparr>, d)"
  using assms(2)
proof (induction n)
  case 0
  then show ?case by simp
next
  case (Suc n)
  let ?k = "k\<lparr>poll_counter := poll_counter k + of_nat n\<rparr>"
  have "poll_counter ?k + 1 < POLL_INTERVAL"
  proof (rule counter_below(1))
    have "unat (of_nat (unat (poll_counter k) + n) :: u32) = unat (poll_counter k) + n"
      by (rule unat_of_nat_less) (use Suc.prems in simp)
    with Suc.prems show "unat (poll_counter ?k) + 1 < 100000"
      by simp
  qed
  from has_char_counts [OF this, of hw d] assms(1)
  have "keyboard_has_char hw (?k, d)
      = (False, k\<lparr>poll_counter := poll_counter k + of_nat (Suc n)\<rparr>, d)"
    by (simp add: ac_simps)
  from await_char_step(2) [OF this] Suc show ?case by simp
qed

text \<open>The polling round itself: the counter wraps and the controller is asked.\<close>

lemma await_char_poll:
  assumes "head_ix k = tail_ix k" and "unat (poll_counter k) < 100000"
  shows "await_char hw (k, d) = await_char hw (k\<lparr>poll_counter := 99999\<rparr>, d)"
proof -
  let ?n = "99999 - unat (poll_counter k)"
  have "unat (poll_counter k) + ?n = 99999" using assms(2) by simp
  then have "poll_counter k + of_nat ?n = 99999" by (simp only: counter_plus) simp
  moreover have "unat (poll_counter k) + ?n < 100000" using assms(2) by simp
  ultimately show ?thesis using await_char_counts [OF assms(1), of ?n hw d] by simp
qed

lemma has_char_polls:
  "keyboard_has_char hw (k\<lparr>poll_counter := 99999\<rparr>, d) =
     (case in8 hw KEYBOARD_STATUS_PORT d of (status, d1) \<Rightarrow>
        case (if status AND 1 \<noteq> 0 then keyboard_handler hw (k\<lparr>poll_counter := 0\<rparr>, d1)
              else (k\<lparr>poll_counter := 0\<rparr>, d1)) of (k, d) \<Rightarrow> (head_ix k \<noteq> tail_ix k, k, d))"
  by (simp add: keyboard_has_char_def keyboard_poll_def Let_def POLL_INTERVAL_def split_beta)

lemma kb_ok_counter [simp]: "kb_ok (k\<lparr>poll_counter := c\<rparr>) = kb_ok k"
  by (simp add: kb_ok_def)

lemma kb_contents_counter [simp]: "kb_contents (k\<lparr>poll_counter := c\<rparr>) = kb_contents k"
  by (simp add: kb_contents_def pending_def)

text \<open>With characters buffered the oldest one is returned without asking the controller.\<close>

lemma get_char_buffered:
  assumes "kb_ok k" and "unat (poll_counter k) < 99999" and c: "kb_contents k = c # rest"
  shows "\<exists>k'. keyboard_get_char hw (k, d) = Some (c, k', d) \<and> kb_ok k' \<and> kb_contents k' = rest
    \<and> poll_counter k' = poll_counter k + 1"
proof -
  from c have ne: "head_ix k \<noteq> tail_ix k" using kb_contents_nonempty [OF assms(1)] by simp
  let ?k = "k\<lparr>poll_counter := poll_counter k + 1\<rparr>"
  have "poll_counter k + 1 < POLL_INTERVAL"
    by (rule counter_below(1)) (use assms(2) in simp)
  from has_char_counts [OF this, of hw d] ne
  have a: "await_char hw (k, d) = Some (?k, d)" by (intro await_char_step(1)) simp
  have c': "kb_contents ?k = c # rest" and ok: "kb_ok ?k" using c assms(1) by simp_all
  show ?thesis
    using dequeue_contents [OF ok c'] dequeue_ok [OF ok]
    by (auto simp: keyboard_get_char_def a split_beta dequeue_char_def)
qed

text \<open>
  C33: keyboard_get_char with characters buffered returns the oldest one at
  once; with an empty buffer it waits until its poll counter reaches 100000,
  and when the controller then reports a byte (status bit 0) whose scan code
  is a key, it returns that key, leaving the buffer empty and the counter 0.
\<close>

theorem keyboard_get_char_returns:
  assumes "kb_ok k" and "unat (poll_counter k) < 99999"
  shows "(\<forall>c cs. kb_contents k = c # cs \<longrightarrow>
            (\<exists>k'. keyboard_get_char hw (k, d) = Some (c, k', d) \<and> kb_ok k' \<and> kb_contents k' = cs
              \<and> poll_counter k' = poll_counter k + 1))
    \<and> (kb_contents k = [] \<and> in8 hw KEYBOARD_STATUS_PORT d = (status, d') \<and> status AND 1 \<noteq> 0
        \<and> in8 hw KEYBOARD_DATA_PORT d' = (sc, d'') \<and> typed sc = Some c \<longrightarrow>
          (\<exists>k'. keyboard_get_char hw (k, d) = Some (c, k', d'') \<and> kb_ok k' \<and> kb_contents k' = []
            \<and> poll_counter k' = 0))"
proof (intro conjI allI impI)
  fix c cs
  assume c: "kb_contents k = c # cs"
  then show "\<exists>k'. keyboard_get_char hw (k, d) = Some (c, k', d) \<and> kb_ok k' \<and> kb_contents k' = cs
      \<and> poll_counter k' = poll_counter k + 1"
    by (rule get_char_buffered [OF assms])
next
  assume as: "kb_contents k = [] \<and> in8 hw KEYBOARD_STATUS_PORT d = (status, d') \<and> status AND 1 \<noteq> 0
        \<and> in8 hw KEYBOARD_DATA_PORT d' = (sc, d'') \<and> typed sc = Some c"
  let ?k = "enqueue_char c (k\<lparr>poll_counter := 0\<rparr>)"
  have ok: "kb_ok ?k" using assms(1) by (intro enqueue_ok) simp
  have e: "kb_contents ?k = [c]"
    using enqueue_contents [of "k\<lparr>poll_counter := 0\<rparr>" c] assms(1) as by simp
  then have ne: "head_ix ?k \<noteq> tail_ix ?k" using kb_contents_nonempty [OF ok] by simp
  have eq: "head_ix k = tail_ix k" using kb_contents_nonempty [OF assms(1)] as by blast
  have "keyboard_has_char hw (k\<lparr>poll_counter := 99999\<rparr>, d) = (True, ?k, d'')"
    using as ne by (simp add: has_char_polls keyboard_handler_def handle_scancode_typed)
  from await_char_step(1) [OF this] await_char_poll [OF eq, of hw d] assms(2)
  have a: "await_char hw (k, d) = Some (?k, d'')" by simp
  have "poll_counter ?k = 0" by (simp add: enqueue_char_def Let_def)
  then show "\<exists>k'. keyboard_get_char hw (k, d) = Some (c, k', d'') \<and> kb_ok k' \<and> kb_contents k' = []
      \<and> poll_counter k' = 0"
    using dequeue_contents [OF ok e] dequeue_ok [OF ok]
    by (auto simp: keyboard_get_char_def a split_beta dequeue_char_def)
qed

lemma keyboard_get_char_returns_witness:
  "map_option fst (keyboard_get_char tape_device (keyboard_static, [1, 0x1E])) = Some 97"
proof -
  have "typed 0x1E = Some 97" by code_simp
  moreover have "poll_counter keyboard_static = 0" by (simp add: keyboard_static_def)
  ultimately show ?thesis
    using keyboard_get_char_returns [OF kb_static_ok, where hw = tape_device and d = "[1, 0x1E]"
      and status = 1 and d' = "[0x1E]" and sc = "0x1E" and d'' = "[]" and c = 97]
    by (auto simp: kb_static_contents)
qed

text \<open>
  With an empty buffer keyboard_get_char returns only what the controller
  delivers to its own polls: when no poll ever finds a key it never returns.
  (It runs inside the system call gate, with interrupts disabled.)
\<close>

theorem keyboard_get_char_waits:
  fixes hw :: "'d hardware"
  assumes "head_ix k = tail_ix k" and "unat (poll_counter k) < 100000"
    and "quiet d"
    and "\<And>d. quiet d \<Longrightarrow> fst (in8 hw KEYBOARD_STATUS_PORT d) AND 1 = 0
      \<and> quiet (snd (in8 hw KEYBOARD_STATUS_PORT d))"
  shows "keyboard_get_char hw (k, d) = None"
proof -
  let ?idle = "\<lambda>s :: keyboard \<times> 'd. head_ix (fst s) = tail_ix (fst s) \<and> unat (poll_counter (fst s)) < 100000 \<and> quiet (snd s)"
  have never: "hw' = hw \<longrightarrow> \<not> ?idle s" if "await_char hw' s = Some r" for hw' s r
    using that
  proof (rule await_char.raw_induct [where P = "\<lambda>hw' s r. hw' = hw \<longrightarrow> \<not> ?idle s", rotated])
    fix aw hw' s r
    assume 1: "\<And>hw' s y. aw hw' s = Some y \<Longrightarrow> hw' = hw \<longrightarrow> \<not> ?idle s"
      and 2: "(case keyboard_has_char hw' s of (ready, s) \<Rightarrow> if ready then Some s else aw hw' s) = Some r"
    show "hw' = hw \<longrightarrow> \<not> ?idle s"
    proof (intro impI notI)
      assume [simp]: "hw' = hw" and st: "?idle s"
      obtain k d where s: "s = (k, d)" by (cases s)
      let ?k = "k\<lparr>poll_counter := poll_counter k + 1\<rparr>"
      show False
      proof (cases "poll_counter k + 1 < POLL_INTERVAL")
        case True
        from has_char_counts [OF this, of hw d] st s
        have h: "keyboard_has_char hw s = (False, ?k, d)" by simp
        with 2 have "aw hw (?k, d) = Some r" by simp
        from 1 [OF this] st s True show False
          by (simp add: word_less_nat_alt POLL_INTERVAL_def)
      next
        case False
        then have ge: "POLL_INTERVAL \<le> poll_counter k + 1" by simp
        let ?k0 = "k\<lparr>poll_counter := 0\<rparr>" and ?d = "snd (in8 hw KEYBOARD_STATUS_PORT d)"
        have h: "keyboard_has_char hw s = (False, ?k0, ?d)"
          using st s assms(4) [of d] ge
          by (simp add: keyboard_has_char_def keyboard_poll_def Let_def split_beta)
        with 2 have "aw hw (?k0, ?d) = Some r" by simp
        from 1 [OF this] st s assms(4) [of d] show False by simp
      qed
    qed
  qed
  from never [of hw "(k, d)"] assms(1,2,3) have "await_char hw (k, d) = None"
    by (cases "await_char hw (k, d)") auto
  then show ?thesis by (simp add: keyboard_get_char_def)
qed

lemma keyboard_get_char_waits_witness:
  "keyboard_get_char (log_device (\<lambda>p. 0)) (keyboard_static, []) = None"
  by (rule keyboard_get_char_waits [where quiet = "\<lambda>d. True"]) (simp_all add: keyboard_static_def)

text \<open>
  The scan code table puts the keypad characters at the wrong codes: the
  keypad minus key (0x4A) and plus key (0x4E) are ignored, while the keypad 5
  (0x4C) types a minus and the down arrow (0x50) types a plus. The letter and
  digit rows are those of a US set 1 keyboard.
\<close>

theorem kbdus_keypad_shifted:
  "handle_scancode 0x4A k = k \<and> handle_scancode 0x4E k = k
   \<and> handle_scancode 0x4C k = enqueue_char (hd (cs ''-'')) k
   \<and> handle_scancode 0x50 k = enqueue_char (hd (cs ''+'')) k
   \<and> take 10 (drop 0x02 kbdus) = cs ''1234567890'' \<and> take 10 (drop 0x10 kbdus) = cs ''qwertyuiop''
   \<and> take 9 (drop 0x1E kbdus) = cs ''asdfghjkl'' \<and> take 7 (drop 0x2C kbdus) = cs ''zxcvbnm''
   \<and> length kbdus = 128"
proof -
  have t: "typed 0x4A = None" "typed 0x4E = None" "typed 0x4C = Some (hd (cs ''-''))"
    "typed 0x50 = Some (hd (cs ''+''))"
    by code_simp+
  have r: "take 10 (drop 0x02 kbdus) = cs ''1234567890''" "take 10 (drop 0x10 kbdus) = cs ''qwertyuiop''"
    "take 9 (drop 0x1E kbdus) = cs ''asdfghjkl''" "take 7 (drop 0x2C kbdus) = cs ''zxcvbnm''"
    "length kbdus = 128"
    by code_simp+
  show ?thesis by (simp only: handle_scancode_typed t r option.case simp_thms)
qed

end
