(* ===== verification/Console.thy ===== *)
theory Console
  imports PortIO
begin

text \<open>
  The kernel console: the COM1 driver kernel/core/serial.c and the text screen
  kernel/core/vga.c. A C string is the list of its bytes; the functions stop
  at a NUL byte or at the end of the list. The screen is specified by an
  unbounded log of lines of which the 25 rows of video memory show the end.
\<close>

section \<open>Serial line\<close>

definition COM1 :: u16 where "COM1 = 0x3F8"

definition serial_init :: "'d hardware \<Rightarrow> 'd \<Rightarrow> 'd" where
  "serial_init hw d =
     (let d = out8 hw (COM1 + 1) 0x00 d;
          d = out8 hw (COM1 + 3) 0x80 d;
          d = out8 hw (COM1 + 0) 0x03 d;
          d = out8 hw (COM1 + 1) 0x00 d;
          d = out8 hw (COM1 + 3) 0x03 d;
          d = out8 hw (COM1 + 2) 0xC7 d;
          d = out8 hw (COM1 + 4) 0x0B d
      in d)"

definition is_transmit_empty :: "'d hardware \<Rightarrow> 'd \<Rightarrow> bool \<times> 'd" where
  "is_transmit_empty hw d = (case in8 hw (COM1 + 5) d of (b, d) \<Rightarrow> (b AND 0x20 \<noteq> 0, d))"

text \<open>The wait for the transmitter: None when it never becomes ready.\<close>

partial_function (option) serial_wait :: "'d hardware \<Rightarrow> 'd \<Rightarrow> 'd option" where
  "serial_wait hw d =
     (case is_transmit_empty hw d of (ready, d) \<Rightarrow> if ready then Some d else serial_wait hw d)"

definition serial_write :: "'d hardware \<Rightarrow> u8 \<Rightarrow> 'd \<Rightarrow> 'd option" where
  "serial_write hw c d = map_option (out8 hw COM1 c) (serial_wait hw d)"

fun serial_printf :: "'d hardware \<Rightarrow> u8 list \<Rightarrow> 'd \<Rightarrow> 'd option" where
  "serial_printf hw [] d = Some d"
| "serial_printf hw (c # str) d =
     (if c = 0 then Some d
      else Option.bind (if c = 10 then serial_write hw 13 d else Some d)
             (\<lambda>d. Option.bind (serial_write hw c d) (serial_printf hw str)))"

section \<open>Video memory\<close>

text \<open>The 2000 cells at 0xB8000 and the cursor as an index into them.\<close>

record vga =
  cells :: "u16 list"
  cursor :: nat

definition color :: u8 where "color = 0x0F"

definition glyph :: "u8 \<Rightarrow> u16" where
  "glyph c = push_bit 8 (ucast color) OR ucast c"

definition scroll_up :: "u16 list \<Rightarrow> u16 list" where
  "scroll_up v = fold (\<lambda>i v. v[i := v ! (i + 80)]) [0 ..< 24 * 80] v"

definition clear_cells :: "nat \<Rightarrow> nat \<Rightarrow> u16 list \<Rightarrow> u16 list" where
  "clear_cells a b v = fold (\<lambda>i v. v[i := glyph 32]) [a ..< b] v"

definition scroll :: "vga \<Rightarrow> vga" where
  "scroll s = s\<lparr>cells := clear_cells (24 * 80) (25 * 80) (scroll_up (cells s)), cursor := 24 * 80\<rparr>"

definition kcls :: "vga \<Rightarrow> vga" where
  "kcls s = s\<lparr>cells := clear_cells 0 (80 * 25) (cells s), cursor := 0\<rparr>"

definition tty_char :: "u8 \<Rightarrow> vga \<Rightarrow> vga" where
  "tty_char c s =
     (if c = 10 then
        (let row = cursor s div 80 in
         if row \<ge> 24 then scroll s else s\<lparr>cursor := (row + 1) * 80\<rparr>)
      else
        (let s = s\<lparr>cells := (cells s)[cursor s := glyph c], cursor := cursor s + 1\<rparr> in
         if cursor s \<ge> 25 * 80 then scroll s else s))"

fun tty_chars :: "u8 list \<Rightarrow> vga \<Rightarrow> vga" where
  "tty_chars [] s = s"
| "tty_chars (c # str) s = (if c = 0 then s else tty_chars str (tty_char c s))"

definition tty_write :: "'d hardware \<Rightarrow> u8 list \<Rightarrow> vga \<times> 'd \<Rightarrow> (vga \<times> 'd) option" where
  "tty_write hw str = (\<lambda>(s, d). map_option (Pair (tty_chars str s)) (serial_printf hw str d))"

definition kprintf :: "'d hardware \<Rightarrow> u8 list \<Rightarrow> vga \<times> 'd \<Rightarrow> (vga \<times> 'd) option" where
  "kprintf hw str s = tty_write hw str s"

section \<open>The bytes on the wire\<close>

text \<open>The string up to its terminator.\<close>

abbreviation cstr :: "u8 list \<Rightarrow> u8 list" where
  "cstr str \<equiv> takeWhile (\<lambda>c. c \<noteq> 0) str"

text \<open>Newlines leave as carriage return and line feed.\<close>

definition crlf :: "u8 list \<Rightarrow> u8 list" where
  "crlf str = concat (map (\<lambda>c. if c = 10 then [13, c] else [c]) str)"

lemma serial_wait_ready:
  "is_transmit_empty hw d = (True, d') \<Longrightarrow> serial_wait hw d = Some d'"
  by (subst serial_wait.simps) simp

lemma serial_wait_busy:
  "is_transmit_empty hw d = (False, d') \<Longrightarrow> serial_wait hw d = serial_wait hw d'"
  by (subst serial_wait.simps) simp

text \<open>
  The transmitter may be busy for any number of status reads, bounded by a
  measure of the device; the wait then still ends.
\<close>

lemma serial_wait_returns:
  assumes "\<And>d b d'. live d \<Longrightarrow> is_transmit_empty hw d = (b, d') \<Longrightarrow>
      live d' \<and> sent d' = sent d \<and> (\<not> b \<longrightarrow> busy d' < (busy d :: nat))"
    and "live d"
  shows "\<exists>d'. serial_wait hw d = Some d' \<and> live d' \<and> sent d' = sent d"
  using assms(2)
proof (induction "busy d" arbitrary: d rule: less_induct)
  case less
  obtain b d' where e: "is_transmit_empty hw d = (b, d')" by (cases "is_transmit_empty hw d")
  from assms(1) [OF less.prems e] less.hyps [of d']
  show ?case
    by (cases b) (auto simp: serial_wait_ready [of hw d d'] serial_wait_busy [of hw d d'] e)
qed

text \<open>
  On a UART that becomes ready after finitely many status reads,
  serial_printf returns and transmits exactly the string up to its NUL, with
  a carriage return before every line feed and nothing else.
\<close>

theorem serial_printf_transmits:
  assumes wait: "\<And>d b d'. live d \<Longrightarrow> is_transmit_empty hw d = (b, d') \<Longrightarrow>
      live d' \<and> sent d' = sent d \<and> (\<not> b \<longrightarrow> busy d' < (busy d :: nat))"
    and out: "\<And>d c. live d \<Longrightarrow> live (out8 hw COM1 c d) \<and> sent (out8 hw COM1 c d) = sent d @ [c]"
    and "live d"
  shows "\<exists>d'. serial_printf hw str d = Some d' \<and> live d' \<and> sent d' = sent d @ crlf (cstr str)"
  using assms(3)
proof (induction str arbitrary: d)
  case Nil
  then show ?case by (simp add: crlf_def)
next
  case (Cons c str)
  have put: "\<exists>d'. serial_write hw x d = Some d' \<and> live d' \<and> sent d' = sent d @ [x]"
    if "live d" for x d
    using serial_wait_returns [where live = live and hw = hw and sent = sent and busy = busy,
        OF wait that] out
    by (fastforce simp: serial_write_def)
  obtain d1 where d1: "(if c = 10 then serial_write hw 13 d else Some d) = Some d1" "live d1"
      "sent d1 = sent d @ (if c = 10 then [13] else [])"
    using put [OF Cons.prems, of 13] Cons.prems by (cases "c = 10") auto
  obtain d2 where d2: "serial_write hw c d1 = Some d2" "live d2" "sent d2 = sent d1 @ [c]"
    using put [OF d1(2)] by blast
  from Cons.IH [OF d2(2)] d1 d2 Cons.prems show ?case by (auto simp: crlf_def)
qed

lemma serial_printf_transmits_witness:
  "\<exists>d'. serial_printf (log_device (\<lambda>p. 0x20)) (cs ''a'' @ [10, 0] @ cs ''b'') [] = Some d'
     \<and> concat (map (\<lambda>e. case e of Out8 p b \<Rightarrow> [b] | Out16 p w \<Rightarrow> []) d') = [97, 13, 10]"
proof -
  let ?sent = "\<lambda>d. concat (map (\<lambda>e. case e of Out8 p b \<Rightarrow> [b] | Out16 p w \<Rightarrow> []) d)"
  have "\<exists>d'. serial_printf (log_device (\<lambda>p. 0x20)) (cs ''a'' @ [10, 0] @ cs ''b'') [] = Some d'
      \<and> True \<and> ?sent d' = ?sent [] @ crlf (cstr (cs ''a'' @ [10, 0] @ cs ''b''))"
    by (rule serial_printf_transmits [where live = "\<lambda>d. True" and busy = "\<lambda>d. 0"])
      (auto simp: is_transmit_empty_def)
  then show ?thesis by (simp add: crlf_def cs_def)
qed

section \<open>The screen as a window on a log\<close>

text \<open>
  The log: completed lines of at most 80 characters and the line being
  written. A line is completed by a newline or by its 80th character.
\<close>

record log =
  done_lines :: "u8 list list"
  current :: "u8 list"

definition log_char :: "u8 \<Rightarrow> log \<Rightarrow> log" where
  "log_char c l =
     (let line = (if c = 10 then current l else current l @ [c]) in
      if c = 10 \<or> length line = 80 then \<lparr>done_lines = done_lines l @ [line], current = []\<rparr>
      else l\<lparr>current := line\<rparr>)"

definition log_write :: "u8 list \<Rightarrow> log \<Rightarrow> log" where
  "log_write str l = fold log_char (cstr str) l"

definition empty_log :: log where "empty_log = \<lparr>done_lines = [], current = []\<rparr>"

definition pad_row :: "u8 list \<Rightarrow> u16 list" where
  "pad_row line = map glyph line @ replicate (80 - length line) (glyph 32)"

text \<open>The last 24 completed lines, the current one, blank rows below.\<close>

definition window :: "log \<Rightarrow> u16 list" where
  "window l =
     (let rows = drop (length (done_lines l) - 24) (done_lines l) in
      concat (map pad_row (rows @ [current l])) @ replicate ((24 - length rows) * 80) (glyph 32))"

definition log_ok :: "log \<Rightarrow> bool" where
  "log_ok l \<longleftrightarrow> (\<forall>line \<in> set (done_lines l). length line \<le> 80) \<and> length (current l) < 80"

definition shows_log :: "vga \<Rightarrow> log \<Rightarrow> bool" where
  "shows_log s l \<longleftrightarrow> log_ok l \<and> cells s = window l
     \<and> cursor s = min 24 (length (done_lines l)) * 80 + length (current l)"

lemma length_pad_row [simp]: "length line \<le> 80 \<Longrightarrow> length (pad_row line) = 80"
  by (simp add: pad_row_def)

lemma length_rows: "\<forall>line \<in> set ls. length line \<le> 80 \<Longrightarrow> length (concat (map pad_row ls)) = length ls * 80"
  by (induction ls) simp_all

lemma clear_cells_eq:
  "a \<le> b \<Longrightarrow> b \<le> length v \<Longrightarrow>
     clear_cells a b v = take a v @ replicate (b - a) (glyph 32) @ drop b v"
proof (induction b)
  case 0
  then show ?case by (simp add: clear_cells_def)
next
  case (Suc b)
  show ?case
  proof (cases "a = Suc b")
    case True
    then show ?thesis by (simp add: clear_cells_def)
  next
    case False
    with Suc.prems have le: "a \<le> b" by simp
    have "clear_cells a (Suc b) v = (clear_cells a b v)[b := glyph 32]"
      using le by (simp add: clear_cells_def)
    also have "\<dots> = (take a v @ replicate (b - a) (glyph 32) @ drop b v)[b := glyph 32]"
      using Suc le by simp
    also have "\<dots> = take a v @ replicate (b - a) (glyph 32) @ glyph 32 # drop (Suc b) v"
      using Suc.prems le by (simp add: list_update_append Cons_nth_drop_Suc [symmetric])
    also have "\<dots> = take a v @ replicate (Suc b - a) (glyph 32) @ drop (Suc b) v"
      using le by (simp add: Suc_diff_le replicate_append_same)
    finally show ?thesis .
  qed
qed

lemma shift_loop:
  "n + k \<le> length v \<Longrightarrow>
     fold (\<lambda>i v. v[i := v ! (i + k)]) [0 ..< n] v = take n (drop k v) @ drop n v"
proof (induction n)
  case 0
  then show ?case by simp
next
  case (Suc n)
  then have ih: "fold (\<lambda>i v. v[i := v ! (i + k)]) [0 ..< n] v = take n (drop k v) @ drop n v"
    and len: "n + k < length v" by simp_all
  have l: "length (take n (drop k v)) = n" using len by simp
  have src: "(take n (drop k v) @ drop n v) ! (n + k) = v ! (n + k)"
    using len by (simp add: nth_append)
  have "fold (\<lambda>i v. v[i := v ! (i + k)]) [0 ..< Suc n] v =
      (take n (drop k v) @ drop n v)[n := v ! (n + k)]"
    by (simp add: ih src)
  also have "\<dots> = take n (drop k v) @ v ! (n + k) # drop (Suc n) v"
    using len l by (simp add: list_update_append Cons_nth_drop_Suc [symmetric])
  also have "\<dots> = take (Suc n) (drop k v) @ drop (Suc n) v"
    using len by (simp add: take_Suc_conv_app_nth add.commute)
  finally show ?case .
qed

lemma scroll_eq:
  assumes "length (cells s) = 2000"
  shows "cells (scroll s) = drop 80 (cells s) @ replicate 80 (glyph 32)" "cursor (scroll s) = 1920"
proof -
  have "scroll_up (cells s) = take 1920 (drop 80 (cells s)) @ drop 1920 (cells s)"
    using shift_loop [of 1920 80 "cells s"] assms by (simp add: scroll_up_def)
  then show "cells (scroll s) = drop 80 (cells s) @ replicate 80 (glyph 32)"
    using assms by (simp add: scroll_def clear_cells_eq)
qed (simp add: scroll_def)

lemma length_window:
  assumes "log_ok l"
  shows "length (window l) = 2000"
proof -
  let ?rows = "drop (length (done_lines l) - 24) (done_lines l)"
  have n: "length ?rows \<le> 24" by simp
  have "\<forall>line \<in> set (?rows @ [current l]). length line \<le> 80"
    using assms by (auto simp: log_ok_def dest: in_set_dropD)
  from length_rows [OF this] n show ?thesis
    by (simp add: window_def Let_def del: length_drop map_append concat_append)
qed

text \<open>Completing a line when rows are left below, and when the screen scrolls.\<close>

lemma window_next_row:
  assumes "length (done_lines l) < 24"
  shows "window \<lparr>done_lines = done_lines l @ [current l], current = []\<rparr> = window l"
proof -
  have e: "(24 - length (done_lines l)) * 80 = 80 + (24 - Suc (length (done_lines l))) * 80"
    using assms by simp
  have "replicate ((24 - length (done_lines l)) * 80) (glyph 32)
      = pad_row [] @ replicate ((24 - Suc (length (done_lines l))) * 80) (glyph 32)"
    unfolding e replicate_add by (simp add: pad_row_def)
  with assms show ?thesis by (simp add: window_def Let_def)
qed

lemma window_scrolled:
  assumes "\<forall>line \<in> set (done_lines l). length line \<le> 80" "length (done_lines l) \<ge> 24"
  shows "window \<lparr>done_lines = done_lines l @ [current l], current = []\<rparr>
    = drop 80 (window l) @ replicate 80 (glyph 32)"
proof -
  let ?n = "length (done_lines l) - 24"
  have d: "drop ?n (done_lines l) = done_lines l ! ?n # drop (Suc ?n) (done_lines l)"
    using assms(2) by (simp add: Cons_nth_drop_Suc)
  have s: "Suc (length (done_lines l)) - 24 = Suc ?n" using assms(2) by simp
  have "length (done_lines l ! ?n) \<le> 80"
    using assms by simp
  then have "drop 80 (window l)
      = concat (map pad_row (drop (Suc ?n) (done_lines l))) @ pad_row (current l)"
    using assms(2) d by (simp add: window_def)
  moreover have "window \<lparr>done_lines = done_lines l @ [current l], current = []\<rparr>
      = concat (map pad_row (drop (Suc ?n) (done_lines l))) @ pad_row (current l) @ pad_row []"
    using assms(2) s by (simp add: window_def)
  ultimately show ?thesis by (simp add: pad_row_def)
qed

lemma pad_row_put:
  "length line < 80 \<Longrightarrow> (pad_row line)[length line := glyph c] = pad_row (line @ [c])"
  using Cons_replicate_eq [of _ _ "80 - length line" "glyph 32"]
  by (cases "80 - length line") (auto simp: pad_row_def list_update_append)

lemma window_put:
  assumes "log_ok l"
  shows "(window l)[min 24 (length (done_lines l)) * 80 + length (current l) := glyph c]
    = window (l\<lparr>current := current l @ [c]\<rparr>)"
proof -
  let ?rows = "drop (length (done_lines l) - 24) (done_lines l)"
  have "\<forall>line \<in> set ?rows. length line \<le> 80"
    using assms by (auto simp: log_ok_def dest: in_set_dropD)
  from length_rows [OF this]
  have len: "length (concat (map pad_row ?rows)) = min 24 (length (done_lines l)) * 80"
    by (simp add: min_def del: map_append)
  have cur: "length (current l) < 80" using assms by (simp add: log_ok_def)
  show ?thesis
    using cur by (simp add: window_def Let_def list_update_append len pad_row_put)
qed

text \<open>One character of the code is one character of the log.\<close>

lemma tty_char_log:
  assumes "shows_log s l"
  shows "shows_log (tty_char c s) (log_char c l)"
proof -
  let ?n = "length (done_lines l)" and ?line = "current l @ [c]"
  have ok: "log_ok l" and c: "cells s = window l" and cur: "cursor s = min 24 ?n * 80 + length (current l)"
    using assms by (auto simp: shows_log_def)
  have lt: "length (current l) < 80" and bounded: "\<forall>line \<in> set (done_lines l). length line \<le> 80"
    using ok by (simp_all add: log_ok_def)
  have w: "length (window l) = 2000" by (rule length_window [OF ok])
  have row: "cursor s div 80 = min 24 ?n" using lt by (simp add: cur)
  show ?thesis
  proof (cases "c = 10")
    case True
    let ?l = "\<lparr>done_lines = done_lines l @ [current l], current = []\<rparr>"
    have l: "log_char c l = ?l" by (simp add: log_char_def True)
    have ok': "log_ok ?l" using ok by (auto simp: log_ok_def)
    show ?thesis
    proof (cases "?n < 24")
      case less: True
      then have "tty_char c s = s\<lparr>cursor := (?n + 1) * 80\<rparr>"
        by (simp add: tty_char_def True row)
      with less ok' show ?thesis
        by (simp add: shows_log_def l c window_next_row)
    next
      case False
      then have "tty_char c s = scroll s" by (simp add: tty_char_def True row)
      with False ok' show ?thesis
        by (simp add: shows_log_def l scroll_eq c w window_scrolled [OF bounded])
    qed
  next
    case False
    let ?s = "s\<lparr>cells := (cells s)[cursor s := glyph c], cursor := cursor s + 1\<rparr>"
    have t: "tty_char c s = (if cursor s + 1 \<ge> 2000 then scroll ?s else ?s)"
      by (simp add: tty_char_def False)
    have put: "cells ?s = window (l\<lparr>current := ?line\<rparr>)"
      using window_put [OF ok] by (simp add: c cur)
    have w': "length (cells ?s) = 2000" by (simp add: c w)
    show ?thesis
    proof (cases "length ?line = 80")
      case short: False
      then have l: "log_char c l = l\<lparr>current := ?line\<rparr>" by (simp add: log_char_def False)
      have "length ?line < 80" using lt short by simp
      then have "log_ok (log_char c l)" and "cursor s + 1 < 2000"
        using ok by (auto simp: l log_ok_def cur min_def)
      then show ?thesis using put by (simp add: shows_log_def l t cur)
    next
      case full: True
      let ?l = "\<lparr>done_lines = done_lines l @ [?line], current = []\<rparr>"
      have l: "log_char c l = ?l" using full by (simp add: log_char_def False)
      have ok': "log_ok ?l" using ok full by (auto simp: log_ok_def)
      let ?m = "l\<lparr>current := ?line\<rparr>"
      have cur1: "cursor s + 1 = (min 24 ?n + 1) * 80" using full by (simp add: cur)
      show ?thesis
      proof (cases "?n < 24")
        case True
        then have "cursor s + 1 < 2000" unfolding cur1 by simp
        with True ok' put window_next_row [of ?m] cur1 show ?thesis
          by (simp add: shows_log_def l t)
      next
        case False
        have "window ?l = drop 80 (window ?m) @ replicate 80 (glyph 32)"
        proof -
          have "window \<lparr>done_lines = done_lines l @ [?line], current = []\<rparr>
              = drop 80 (window ?m) @ replicate 80 (glyph 32)"
            using window_scrolled [of ?m] False bounded by simp
          then show ?thesis .
        qed
        with False ok' put w' cur1 show ?thesis
          by (simp add: shows_log_def l t scroll_eq)
      qed
    qed
  qed
qed

lemma tty_chars_log: "shows_log s l \<Longrightarrow> shows_log (tty_chars str s) (log_write str l)"
proof (induction str arbitrary: s l)
  case Nil
  then show ?case by (simp add: log_write_def)
next
  case (Cons c str)
  from Cons.IH [OF tty_char_log [OF Cons.prems, of c]] Cons.prems show ?case
    by (simp add: log_write_def)
qed

lemma kcls_log:
  assumes "length (cells s) = 2000"
  shows "shows_log (kcls s) empty_log"
proof -
  have "window empty_log = pad_row [] @ replicate (24 * 80) (glyph 32)"
    by (simp add: window_def empty_log_def)
  also have "\<dots> = replicate (80 + 24 * 80) (glyph 32)"
    by (simp only: pad_row_def replicate_add) simp
  finally have "window empty_log = replicate 2000 (glyph 32)" by simp
  with assms show ?thesis
    by (simp add: shows_log_def kcls_def clear_cells_eq log_ok_def) (simp add: empty_log_def)
qed

text \<open>
  C13: The screen refines an unbounded log: when video memory shows the last
  25 lines of a log with the cursor after its last character, tty_write makes
  it show the log extended by the string, scrolling as often as needed; the
  cursor stays inside the 2000 cells, so no write leaves video memory. The
  same string goes out on the serial line, and kcls starts a fresh log.
\<close>

theorem tty_write_refines_log:
  assumes "shows_log s l" and "tty_write hw str (s, d) = Some (s', d')"
  shows "shows_log s' (log_write str l) \<and> cursor s' < 2000 \<and> length (cells s') = 2000
    \<and> serial_printf hw str d = Some d' \<and> shows_log (kcls s') empty_log"
proof -
  have s': "s' = tty_chars str s" and d': "serial_printf hw str d = Some d'"
    using assms(2) by (auto simp: tty_write_def)
  have sh: "shows_log s' (log_write str l)" unfolding s' by (rule tty_chars_log [OF assms(1)])
  then have len: "length (cells s') = 2000" by (simp add: shows_log_def length_window)
  have "cursor s' < 2000"
    using sh by (auto simp: shows_log_def log_ok_def min_def)
  with sh len d' kcls_log [OF len] show ?thesis by simp
qed

definition demo_vga :: vga where
  "demo_vga = \<lparr>cells = replicate 2000 0, cursor = 0\<rparr>"

lemma tty_write_refines_log_witness:
  "\<exists>s' d'. tty_write (log_device (\<lambda>p. 0x20)) (cs ''hi'' @ [10]) (kcls demo_vga, []) = Some (s', d')
     \<and> shows_log s' \<lparr>done_lines = [cs ''hi''], current = []\<rparr>"
proof -
  have k: "shows_log (kcls demo_vga) empty_log" by (rule kcls_log) (simp add: demo_vga_def)
  have "serial_wait (log_device (\<lambda>p. 0x20)) d = Some d" for d
    by (rule serial_wait_ready) (simp add: is_transmit_empty_def)
  then obtain d' where "serial_printf (log_device (\<lambda>p. 0x20)) (cs ''hi'' @ [10]) [] = Some d'"
    by (simp add: cs_def serial_write_def)
  then have t: "tty_write (log_device (\<lambda>p. 0x20)) (cs ''hi'' @ [10]) (kcls demo_vga, [])
      = Some (tty_chars (cs ''hi'' @ [10]) (kcls demo_vga), d')"
    by (simp add: tty_write_def)
  have "log_write (cs ''hi'' @ [10]) empty_log = \<lparr>done_lines = [cs ''hi''], current = []\<rparr>"
    by code_simp
  with tty_write_refines_log [OF k t] t show ?thesis by auto
qed

text \<open>
  The screen does not interpret backspace: the erase sequence backspace,
  space, backspace, which the system call layer prints when a character is
  deleted, leaves the deleted character on the screen and moves the cursor
  three cells to the right.
\<close>

theorem tty_backspace_prints:
  assumes "cursor s + 3 < 2000" and "length (cells s) = 2000"
  shows "let s' = tty_chars [8, 32, 8] s in
    cursor s' = cursor s + 3
    \<and> cells s' = take (cursor s) (cells s) @ [glyph 8, glyph 32, glyph 8] @ drop (cursor s + 3) (cells s)"
proof -
  let ?v = "cells s" and ?n = "cursor s"
  have c: "tty_char c t = t\<lparr>cells := (cells t)[cursor t := glyph c], cursor := cursor t + 1\<rparr>"
    if "c \<noteq> 10" "cursor t + 1 < 2000" for c t
    using that by (simp add: tty_char_def)
  have "?v[?n := a, ?n + 1 := b, ?n + 2 := e] = take ?n ?v @ [a, b, e] @ drop (?n + 3) ?v" for a b e
  proof -
    have "?v = take ?n ?v @ drop ?n ?v" by simp
    also have "drop ?n ?v = ?v ! ?n # ?v ! (?n + 1) # ?v ! (?n + 2) # drop (?n + 3) ?v"
      using Cons_nth_drop_Suc [of ?n ?v] Cons_nth_drop_Suc [of "Suc ?n" ?v]
        Cons_nth_drop_Suc [of "Suc (Suc ?n)" ?v] assms by (simp add: numeral_3_eq_3)
    finally have "?v[?n := a, ?n + 1 := b, ?n + 2 := e]
        = (take ?n ?v @ ?v ! ?n # ?v ! (?n + 1) # ?v ! (?n + 2) # drop (?n + 3) ?v)
            [?n := a, ?n + 1 := b, ?n + 2 := e]" by simp
    also have "\<dots> = take ?n ?v @ [a, b, e] @ drop (?n + 3) ?v"
      using assms by (simp add: list_update_append)
    finally show ?thesis .
  qed
  with assms show ?thesis by (simp add: c)
qed

lemma tty_backspace_prints_witness:
  "cursor (tty_chars [8, 32, 8] demo_vga) = 3
   \<and> take 3 (cells (tty_chars [8, 32, 8] demo_vga)) = [glyph 8, glyph 32, glyph 8]"
  using tty_backspace_prints [of demo_vga] by (simp add: demo_vga_def Let_def)

end
