(* ===== verification/Scheduler.thy ===== *)
theory Scheduler
  imports Console
begin

text \<open>
  The task table and the round-robin scheduler, kernel/core/scheduler.c, with
  the interrupt frame that task_create_user builds and irq0_stub
  (kernel/i386/irq.s, kernel/x64/irq.s) pops, and the decimal printer
  print_pid. The machine word is a type variable: 32 bits for i386, 64 for x86_64.
\<close>

section \<open>Tasks\<close>

text \<open>
  The scalar fields of task_t; its two stacks are memory, at fixed offsets
  from the task's slot in the table, which starts at an address the linker
  chooses. The fields of the records are not part of the bytes of memory: the
  functions here never store to them through a pointer. A user program can;
  what that means for the system is described in Calls and Multitasking.
\<close>

record 'w task =
  stack_pointer :: 'w
  pid :: u32
  active :: u32

record 'w sched =
  tasks :: "'w task list"
  task_count :: nat
  current_task :: int
  memory :: "'w \<Rightarrow> u8"
  tss_stack :: 'w

definition MAX_TASKS :: nat where "MAX_TASKS = 10"

definition SIZEOF_TASK :: nat where "SIZEOF_TASK = 8224"
definition OFFSET_KERNEL_STACK :: nat where "OFFSET_KERNEL_STACK = 16"
definition OFFSET_USER_STACK :: nat where "OFFSET_USER_STACK = 4112"

text \<open>First byte and end of the stacks of task i, for the table at address base.\<close>

definition kernel_stack :: "'a::len word \<Rightarrow> nat \<Rightarrow> 'a word" where
  "kernel_stack base i = base + of_nat (i * SIZEOF_TASK + OFFSET_KERNEL_STACK)"

definition user_stack :: "'a::len word \<Rightarrow> nat \<Rightarrow> 'a word" where
  "user_stack base i = base + of_nat (i * SIZEOF_TASK + OFFSET_USER_STACK)"

definition kernel_stack_end :: "'a::len word \<Rightarrow> nat \<Rightarrow> 'a word" where
  "kernel_stack_end base i = kernel_stack base i + 4096"

definition user_stack_end :: "'a::len word \<Rightarrow> nat \<Rightarrow> 'a word" where
  "user_stack_end base i = user_stack base i + 4096"

text \<open>set_kernel_stack writes the stack field of the task state segment.\<close>

definition set_kernel_stack :: "'a::len word \<Rightarrow> 'a word sched \<Rightarrow> 'a word sched" where
  "set_kernel_stack stack s = s\<lparr>tss_stack := stack\<rparr>"

definition scheduler_init :: "'w sched \<Rightarrow> 'w sched" where
  "scheduler_init s =
     s\<lparr>task_count := 0, current_task := -1,
       tasks := fold (\<lambda>i ts. ts[i := (ts ! i)\<lparr>active := 0\<rparr>]) [0 ..< MAX_TASKS] (tasks s)\<rparr>"

text \<open>The statement \<open>*--kstack = w\<close> on a pointer to machine words.\<close>

definition push_word :: "'a::len word \<Rightarrow> 'a memory \<times> 'a word \<Rightarrow> 'a memory \<times> 'a word" where
  "push_word w = (\<lambda>(m, sp).
     let sp = sp - of_nat (LENGTH('a) div 8) in (write_bytes m sp (bytes_le (LENGTH('a) div 8) w), sp))"

text \<open>General registers in the frame: popa on i386, fifteen pops on x86_64.\<close>

definition frame_regs :: "'a::len itself \<Rightarrow> nat" where
  "frame_regs t = (if LENGTH('a) = 64 then 15 else 8)"

definition task_create_user :: "'a::len word \<Rightarrow> 'a word \<Rightarrow> 'a word sched \<Rightarrow> 'a word sched" where
  "task_create_user base entry_point s =
     (if task_count s \<ge> MAX_TASKS then s
      else
        let n = task_count s;
            ustack = user_stack_end base n;
            (m, kstack) = fold push_word
              ([0x23, ustack, 0x202, 0x1B, entry_point] @ replicate (frame_regs TYPE('a)) 0)
              (memory s, kernel_stack_end base n)
        in s\<lparr>tasks := (tasks s)[n := \<lparr>stack_pointer = kstack, pid = of_nat (n + 1), active = 1\<rparr>],
             task_count := n + 1, memory := m\<rparr>)"

definition mark_exited :: "'w sched \<Rightarrow> 'w sched" where
  "mark_exited s =
     (if current_task s \<noteq> -1
      then s\<lparr>tasks := (tasks s)[nat (current_task s) := (tasks s ! nat (current_task s))\<lparr>active := 0\<rparr>]\<rparr>
      else s)"

text \<open>
  The search loop of schedule: from next_task, at most n more candidates. C
  computes \<open>(next_task + 1) % task_count\<close> on ints; next_task is never below -1.
\<close>

fun next_active :: "'w task list \<Rightarrow> nat \<Rightarrow> int \<Rightarrow> nat \<Rightarrow> int option" where
  "next_active ts count next_task 0 = None"
| "next_active ts count next_task (Suc n) =
     (let next_task = (next_task + 1) mod int count in
      if active (ts ! nat next_task) \<noteq> 0 then Some next_task
      else next_active ts count next_task n)"

definition schedule :: "'a::len word \<Rightarrow> 'a word \<Rightarrow> 'a word sched \<Rightarrow> 'a word \<times> 'a word sched" where
  "schedule base sp s =
     (if task_count s = 0 then (sp, s)
      else
        let s = (if current_task s \<noteq> -1
                 then s\<lparr>tasks := (tasks s)[nat (current_task s) :=
                        (tasks s ! nat (current_task s))\<lparr>stack_pointer := sp\<rparr>]\<rparr>
                 else s)
        in case next_active (tasks s) (task_count s) (current_task s) (task_count s) of
             Some next_task \<Rightarrow>
               let s = set_kernel_stack (kernel_stack_end base (nat next_task)) (s\<lparr>current_task := next_task\<rparr>)
               in (stack_pointer (tasks s ! nat next_task), s)
           | None \<Rightarrow> (sp, s))"

text \<open>
  task_exit raises interrupt 32, whose stub calls schedule on the stack
  pointer sp of the exiting task's kernel stack.
\<close>

definition task_exit :: "'a::len word \<Rightarrow> 'a word \<Rightarrow> 'a word sched \<Rightarrow> 'a word \<times> 'a word sched" where
  "task_exit base sp s = schedule base sp (mark_exited s)"

definition get_current_pid :: "'w sched \<Rightarrow> u32" where
  "get_current_pid s = (if current_task s = -1 then 0 else pid (tasks s ! nat (current_task s)))"

section \<open>Invariant and the abstract machine\<close>

definition sched_ok :: "'w sched \<Rightarrow> bool" where
  "sched_ok s \<longleftrightarrow> length (tasks s) = MAX_TASKS \<and> task_count s \<le> MAX_TASKS
     \<and> -1 \<le> current_task s \<and> current_task s < int (task_count s)
     \<and> (\<forall>i < task_count s. pid (tasks s ! i) = of_nat (i + 1))"

definition is_active :: "'w sched \<Rightarrow> nat \<Rightarrow> bool" where
  "is_active s i \<longleftrightarrow> i < task_count s \<and> active (tasks s ! i) \<noteq> 0"

text \<open>Cyclic distance from the current task to task i: 1 for the next one, up to the task count.\<close>

definition distance :: "nat \<Rightarrow> int \<Rightarrow> nat \<Rightarrow> nat" where
  "distance count cur i = (if int i > cur then nat (int i - cur) else nat (int i - cur + int count))"

lemma length_deactivate [simp]:
  "length (fold (\<lambda>i ts. ts[i := (ts ! i)\<lparr>active := 0\<rparr>]) is ts) = length ts"
  by (induction "is" arbitrary: ts) simp_all

lemma scheduler_init_ok: "length (tasks s) = MAX_TASKS \<Longrightarrow> sched_ok (scheduler_init s)"
  by (simp add: sched_ok_def scheduler_init_def)

text \<open>
  next_active finds the first active task after the current one in cyclic
  order, and nothing only when no task is active.
\<close>

lemma cyclic_succ:
  fixes cur :: int
  assumes "-1 \<le> cur" "cur < int count"
  shows "(cur + 1) mod int count = (if cur + 1 = int count then 0 else cur + 1)"
  using assms by (simp add: mod_pos_pos_trivial)

lemma distance_bounds: "i < count \<Longrightarrow> -1 \<le> cur \<Longrightarrow> cur < int count \<Longrightarrow> 0 < distance count cur i \<and> (0 \<le> cur \<longrightarrow> distance count cur i \<le> count)"
  by (auto simp: distance_def)

lemma next_active_spec:
  assumes "0 < count" "-1 \<le> cur" "cur < int count"
  shows "case next_active ts count cur n of
      Some j \<Rightarrow> 0 \<le> j \<and> nat j < count \<and> active (ts ! nat j) \<noteq> 0 \<and> distance count cur (nat j) \<le> n
        \<and> (\<forall>i < count. active (ts ! i) \<noteq> 0 \<longrightarrow> distance count cur (nat j) \<le> distance count cur i)
    | None \<Rightarrow> \<forall>i < count. distance count cur i \<le> n \<longrightarrow> active (ts ! i) = 0"
  using assms
proof (induction n arbitrary: cur)
  case 0
  then show ?case by (auto simp: distance_def)
next
  case (Suc n)
  let ?c = "(cur + 1) mod int count"
  have c: "?c = (if cur + 1 = int count then 0 else cur + 1)"
    by (rule cyclic_succ [OF Suc.prems(2,3)])
  have b: "0 \<le> ?c" "?c < int count" "-1 \<le> ?c" using Suc.prems unfolding c by auto
  have one: "distance count cur (nat ?c) = 1"
    using Suc.prems unfolding c by (auto simp: distance_def)
  have step: "distance count cur i = (if i = nat ?c then 1 else distance count ?c i + 1)"
    if "i < count" for i
    using that Suc.prems unfolding c by (auto simp: distance_def split: if_splits)
  show ?case
  proof (cases "active (ts ! nat ?c) = 0")
    case False
    have "distance count cur i \<ge> 1" if "i < count" for i
      using distance_bounds [OF that Suc.prems(2,3)] by simp
    with False b one show ?thesis by (auto simp: Let_def nat_less_iff)
  next
    case True
    have next_eq: "next_active ts count cur (Suc n) = next_active ts count ?c n"
      using True by (simp add: Let_def)
    show ?thesis
    proof (cases "next_active ts count ?c n")
      case None
      with Suc.IH [OF Suc.prems(1) b(3,2)] True show ?thesis
        by (auto simp: next_eq step split: if_splits)
    next
      case (Some j)
      with Suc.IH [OF Suc.prems(1) b(3,2)] True show ?thesis
        by (auto simp: next_eq step split: if_splits)
    qed
  qed
qed

lemma next_active_Some:
  assumes "0 < count" "-1 \<le> cur" "cur < int count" "next_active ts count cur count = Some j"
  shows "0 \<le> j" "nat j < count" "active (ts ! nat j) \<noteq> 0"
    "\<forall>i < count. active (ts ! i) \<noteq> 0 \<longrightarrow> distance count cur (nat j) \<le> distance count cur i"
  using next_active_spec [OF assms(1-3), where ts = ts and n = count] assms(4) by simp_all

lemma next_active_exists:
  assumes "-1 \<le> cur" "cur < int count" "i < count" "active (ts ! i) \<noteq> 0"
  obtains j where "next_active ts count cur count = Some j"
proof (cases "cur = -1")
  case True
  then have "distance count cur i \<le> Suc i" by (simp add: distance_def)
  with assms next_active_spec [where count = count and cur = cur and ts = ts and n = count] that show ?thesis
    by (cases "next_active ts count cur count") auto
next
  case False
  with distance_bounds [OF assms(3,1,2)] assms(1) have "distance count cur i \<le> count" by simp
  with assms next_active_spec [where count = count and cur = cur and ts = ts and n = count] that show ?thesis
    by (cases "next_active ts count cur count") auto
qed

lemma next_active_None:
  assumes "-1 \<le> cur" "cur < int count" "next_active ts count cur count = None" "i < count"
  shows "active (ts ! i) = 0"
  by (rule ccontr) (use next_active_exists [OF assms(1,2,4), of ts] assms(3) in auto)

text \<open>The table after schedule saved the interrupted stack pointer.\<close>

definition save_sp :: "'w \<Rightarrow> 'w sched \<Rightarrow> 'w task list" where
  "save_sp sp s = (if current_task s \<noteq> -1
     then (tasks s)[nat (current_task s) := (tasks s ! nat (current_task s))\<lparr>stack_pointer := sp\<rparr>]
     else tasks s)"

lemma save_sp_simps [simp]:
  "length (save_sp sp s) = length (tasks s)"
  "active (save_sp sp s ! i) = active (tasks s ! i)"
  "pid (save_sp sp s ! i) = pid (tasks s ! i)"
  by (cases "nat (current_task s) < length (tasks s)"; cases "i = nat (current_task s)";
      simp add: save_sp_def list_update_beyond)+

lemma save_sp_stack:
  assumes "sched_ok s" "i < task_count s"
  shows "stack_pointer (save_sp sp s ! i) =
    (if int i = current_task s then sp else stack_pointer (tasks s ! i))"
  using assms by (auto simp: save_sp_def sched_ok_def nth_list_update)

lemma schedule_unfold:
  "schedule base sp s =
    (if task_count s = 0 then (sp, s)
     else case next_active (save_sp sp s) (task_count s) (current_task s) (task_count s) of
       Some j \<Rightarrow> (stack_pointer (save_sp sp s ! nat j),
          s\<lparr>tasks := save_sp sp s, current_task := j, tss_stack := kernel_stack_end base (nat j)\<rparr>)
     | None \<Rightarrow> (sp, s\<lparr>tasks := save_sp sp s\<rparr>))"
  by (simp add: schedule_def save_sp_def set_kernel_stack_def Let_def split: option.split)

lemma schedule_ok [inv_intros]:
  assumes "sched_ok s"
  shows "sched_ok (snd (schedule base sp s))"
proof (cases "task_count s = 0")
  case True
  with assms show ?thesis by (simp add: schedule_unfold)
next
  case False
  have b: "-1 \<le> current_task s" "current_task s < int (task_count s)"
    using assms by (auto simp: sched_ok_def)
  show ?thesis
  proof (cases "next_active (save_sp sp s) (task_count s) (current_task s) (task_count s)")
    case None
    with assms show ?thesis by (simp add: schedule_unfold sched_ok_def)
  next
    case (Some j)
    from next_active_Some [OF _ b Some] False
    have "0 \<le> j" "nat j < task_count s" by simp_all
    with Some assms show ?thesis by (simp add: schedule_unfold sched_ok_def nat_less_iff)
  qed
qed

lemma mark_exited_ok [inv_intros]: "sched_ok s \<Longrightarrow> sched_ok (mark_exited s)"
  by (auto simp: sched_ok_def mark_exited_def nth_list_update)

lemma schedule_spec:
  assumes "sched_ok s" and "schedule base sp s = (sp', s')"
  shows "sched_ok s' \<and> task_count s' = task_count s
    \<and> (\<forall>i < task_count s. active (tasks s' ! i) = active (tasks s ! i)
         \<and> stack_pointer (tasks s' ! i) =
             (if int i = current_task s then sp else stack_pointer (tasks s ! i)))
    \<and> (if \<exists>i. is_active s i
       then \<exists>j. current_task s' = int j \<and> is_active s j
         \<and> (\<forall>i. is_active s i \<longrightarrow>
              distance (task_count s) (current_task s) j \<le> distance (task_count s) (current_task s) i)
         \<and> sp' = (if int j = current_task s then sp else stack_pointer (tasks s ! j))
         \<and> tss_stack s' = kernel_stack_end base j
       else sp' = sp \<and> current_task s' = current_task s \<and> tss_stack s' = tss_stack s)"
proof -
  have b: "-1 \<le> current_task s" "current_task s < int (task_count s)"
    using assms(1) by (auto simp: sched_ok_def)
  have ok': "sched_ok s'" using schedule_ok [OF assms(1), of base sp] assms(2) by simp
  let ?na = "next_active (save_sp sp s) (task_count s) (current_task s) (task_count s)"
  show ?thesis
  proof (cases "\<exists>i. is_active s i")
    case True
    then obtain i where i: "i < task_count s" "active (save_sp sp s ! i) \<noteq> 0"
      by (auto simp: is_active_def)
    from next_active_exists [OF b i] obtain j where j: "?na = Some j" .
    from i(1) have pos: "0 < task_count s" by simp
    note n = next_active_Some [OF pos b j]
    have s': "s' = s\<lparr>tasks := save_sp sp s, current_task := j, tss_stack := kernel_stack_end base (nat j)\<rparr>"
      and sp': "sp' = stack_pointer (save_sp sp s ! nat j)"
      using assms(2) j pos by (auto simp: schedule_unfold)
    have "\<exists>j. current_task s' = int j \<and> is_active s j
         \<and> (\<forall>i. is_active s i \<longrightarrow>
              distance (task_count s) (current_task s) j \<le> distance (task_count s) (current_task s) i)
         \<and> sp' = (if int j = current_task s then sp else stack_pointer (tasks s ! j))
         \<and> tss_stack s' = kernel_stack_end base j"
      using n by (intro exI [of _ "nat j"])
        (auto simp: s' sp' is_active_def save_sp_stack [OF assms(1)])
    with True ok' show ?thesis by (simp add: s' save_sp_stack [OF assms(1)])
  next
    case False
    then have none: "task_count s = 0 \<or> ?na = None"
      using next_active_Some [OF _ b, of "save_sp sp s"]
      by (cases ?na) (auto simp: is_active_def)
    have eq: "sp' = sp" "current_task s' = current_task s" "tss_stack s' = tss_stack s"
      "task_count s' = task_count s" "task_count s \<noteq> 0 \<Longrightarrow> tasks s' = save_sp sp s"
      using none assms(2) by (auto simp: schedule_unfold split: if_splits)
    have "tasks s' = save_sp sp s" if "i < task_count s" for i using eq(5) that by simp
    with False ok' eq(1-4) show ?thesis by (simp add: save_sp_stack [OF assms(1)])
  qed
qed

text \<open>
  C8: schedule is a round robin over the active tasks that loses no stack
  pointer: it saves the interrupted one in the slot of the current task only,
  selects the first active task after the current one in cyclic order (the
  current one itself only if no other is active), makes the task state segment
  point to the top of that task's kernel stack and returns the stack pointer
  last saved for it. Without an active task it returns its argument.
\<close>

theorem schedule_round_robin:
  assumes "sched_ok s" and "schedule base sp s = (sp', s')"
  shows "sched_ok s' \<and> task_count s' = task_count s
    \<and> (\<forall>i < task_count s. active (tasks s' ! i) = active (tasks s ! i)
         \<and> stack_pointer (tasks s' ! i) =
             (if int i = current_task s then sp else stack_pointer (tasks s ! i)))
    \<and> (if \<exists>i. is_active s i
       then \<exists>j. current_task s' = int j \<and> is_active s j
         \<and> (\<forall>i. is_active s i \<longrightarrow>
              distance (task_count s) (current_task s) j \<le> distance (task_count s) (current_task s) i)
         \<and> sp' = (if int j = current_task s then sp else stack_pointer (tasks s ! j))
         \<and> tss_stack s' = kernel_stack_end base j
       else sp' = sp \<and> current_task s' = current_task s \<and> tss_stack s' = tss_stack s)"
  by (rule schedule_spec [OF assms])

section \<open>Interrupt frames\<close>

primrec pop_words :: "nat \<Rightarrow> ('a::len) memory \<Rightarrow> 'a word \<Rightarrow> 'a word list" where
  "pop_words 0 m sp = []"
| "pop_words (Suc n) m sp =
     word_le (read_bytes m sp (LENGTH('a) div 8)) # pop_words n m (sp + of_nat (LENGTH('a) div 8))"

text \<open>The exit path of irq0_stub: the general registers, then the words iret pops.\<close>

definition irq0_return :: "('a::len) memory \<Rightarrow> 'a word \<Rightarrow> 'a word list \<times> 'a word list" where
  "irq0_return m sp = (pop_words (frame_regs TYPE('a)) m sp,
     pop_words 5 m (sp + of_nat (frame_regs TYPE('a) * (LENGTH('a) div 8))))"

lemma pop_words_append:
  fixes m :: "'a::len memory"
  shows "pop_words (n + k) m sp = pop_words n m sp @ pop_words k m (sp + of_nat (n * (LENGTH('a) div 8)))"
  by (induction n arbitrary: sp) (simp_all add: algebra_simps)

lemma region_adjacent:
  fixes a :: "'a::len word"
  assumes "k + n \<le> 2 ^ LENGTH('a)"
  shows "region a k \<inter> region (a + of_nat k) n = {}"
proof -
  have False if "x \<in> region a k" "x \<in> region (a + of_nat k) n" for x
  proof -
    from in_region_nat [OF that(1)] obtain i where i: "i < k" "x = a + of_nat i" by blast
    from in_region_nat [OF that(2)] obtain j where j: "j < n" "x = a + of_nat k + of_nat j" by blast
    from i j have "of_nat i = (of_nat (k + j) :: 'a word)" by simp
    then have "unat (of_nat i :: 'a word) = unat (of_nat (k + j) :: 'a word)" by (simp only:)
    then have "i = k + j"
      using i(1) j(1) assms by (simp add: unat_of_nat_less del: of_nat_add)
    with i(1) show False by simp
  qed
  then show ?thesis by blast
qed

lemma pop_words_cong:
  fixes sp :: "'a::len word"
  shows "n * (LENGTH('a) div 8) \<le> 2 ^ LENGTH('a) \<Longrightarrow>
    (\<And>x. x \<in> region sp (n * (LENGTH('a) div 8)) \<Longrightarrow> m x = m' x) \<Longrightarrow> pop_words n m sp = pop_words n m' sp"
proof (induction n arbitrary: sp)
  case 0
  then show ?case by simp
next
  case (Suc n)
  let ?k = "LENGTH('a) div 8"
  have "read_bytes m sp ?k = read_bytes m' sp ?k"
    by (intro read_bytes_cong Suc.prems(2)) (simp add: nat_in_region)
  moreover have "pop_words n m (sp + of_nat ?k) = pop_words n m' (sp + of_nat ?k)"
  proof (rule Suc.IH)
    fix x
    assume "x \<in> region (sp + of_nat ?k) (n * ?k)"
    moreover have "region (sp + of_nat ?k) (n * ?k) \<subseteq> region sp (Suc n * ?k)"
      by (rule region_offset) (use Suc.prems(1) in simp_all)
    ultimately show "m x = m' x" using Suc.prems(2) by blast
  qed (use Suc.prems(1) in simp)
  ultimately show ?case by simp
qed

lemma push_words_spec:
  fixes sp :: "'a::len word"
  defines "k \<equiv> LENGTH('a) div 8"
  assumes "8 * k = LENGTH('a)" "length ws * k \<le> 2 ^ LENGTH('a)"
  shows "snd (fold push_word ws (m, sp)) = sp - of_nat (length ws * k)"
    and "pop_words (length ws) (fst (fold push_word ws (m, sp))) (sp - of_nat (length ws * k)) = rev ws"
    and "x \<notin> region (sp - of_nat (length ws * k)) (length ws * k) \<Longrightarrow>
           fst (fold push_word ws (m, sp)) x = m x"
proof -
  have "snd (fold push_word ws (m, sp)) = sp - of_nat (length ws * k)
    \<and> pop_words (length ws) (fst (fold push_word ws (m, sp))) (sp - of_nat (length ws * k)) = rev ws
    \<and> (\<forall>x. x \<notin> region (sp - of_nat (length ws * k)) (length ws * k) \<longrightarrow>
           fst (fold push_word ws (m, sp)) x = m x)"
    using assms(3)
  proof (induction ws rule: rev_induct)
    case Nil
    then show ?case by simp
  next
    case (snoc w ws)
    let ?n = "length ws" and ?r = "fold push_word ws (m, sp)"
    let ?sp1 = "sp - of_nat (?n * k)" and ?sp2 = "sp - of_nat (Suc ?n * k)"
    have bound: "k + ?n * k \<le> 2 ^ LENGTH('a)" using snoc.prems by simp
    have ih: "snd ?r = ?sp1" "pop_words ?n (fst ?r) ?sp1 = rev ws"
      "\<And>x. x \<notin> region ?sp1 (?n * k) \<Longrightarrow> fst ?r x = m x"
      using snoc.IH bound by auto
    have sp2: "?sp1 - of_nat k = ?sp2" "?sp2 + of_nat k = ?sp1" by (simp_all add: algebra_simps)
    obtain a where r: "?r = (a, ?sp1)" using ih(1) by (cases ?r) simp
    have "fold push_word (ws @ [w]) (m, sp) = push_word w (a, ?sp1)" by (simp only: fold_append o_apply r fold_simps)
    also have "\<dots> = (write_bytes a (?sp1 - of_nat k) (bytes_le k w), ?sp1 - of_nat k)"
      by (simp only: push_word_def Let_def k_def prod.case)
    finally have push: "fold push_word (ws @ [w]) (m, sp) = (write_bytes (fst ?r) ?sp2 (bytes_le k w), ?sp2)"
      unfolding sp2(1) by (simp add: r)
    have kb: "k \<le> 2 ^ LENGTH('a)" using bound by simp
    have disj: "region ?sp2 k \<inter> region ?sp1 (?n * k) = {}"
      using region_adjacent [OF bound, of ?sp2] by (simp only: sp2(2))
    have top: "word_le (read_bytes (write_bytes (fst ?r) ?sp2 (bytes_le k w)) ?sp2 k) = w"
      using assms(2) kb by (simp add: read_write_bytes_same)
    have rest: "pop_words ?n (write_bytes (fst ?r) ?sp2 (bytes_le k w)) ?sp1 = rev ws"
    proof -
      have "pop_words ?n (write_bytes (fst ?r) ?sp2 (bytes_le k w)) ?sp1 = pop_words ?n (fst ?r) ?sp1"
      proof (rule pop_words_cong)
        fix x
        assume "x \<in> region ?sp1 (?n * (LENGTH('a) div 8))"
        then have "x \<notin> region ?sp2 k" using disj by (auto simp: k_def)
        then show "write_bytes (fst ?r) ?sp2 (bytes_le k w) x = fst ?r x"
          using kb by (simp add: write_bytes_outside)
      qed (use bound in \<open>simp add: k_def\<close>)
      then show ?thesis using ih(2) by simp
    qed
    have out: "write_bytes (fst ?r) ?sp2 (bytes_le k w) x = m x" if "x \<notin> region ?sp2 (Suc ?n * k)" for x
    proof -
      have "region ?sp2 k \<subseteq> region ?sp2 (Suc ?n * k)" by (rule region_mono) simp
      moreover have "region (?sp2 + of_nat k) (?n * k) \<subseteq> region ?sp2 (Suc ?n * k)"
        by (rule region_offset) (use bound in simp_all)
      ultimately have "x \<notin> region ?sp2 k" "x \<notin> region ?sp1 (?n * k)"
        using that by (auto simp only: sp2(2))
      then show ?thesis using kb ih(3) by (simp add: write_bytes_outside)
    qed
    show ?case
      unfolding push using top rest out sp2(2) by (simp add: k_def)
  qed
  then show "snd (fold push_word ws (m, sp)) = sp - of_nat (length ws * k)"
    and "pop_words (length ws) (fst (fold push_word ws (m, sp))) (sp - of_nat (length ws * k)) = rev ws"
    and "x \<notin> region (sp - of_nat (length ws * k)) (length ws * k) \<Longrightarrow>
           fst (fold push_word ws (m, sp)) x = m x"
    by auto
qed

definition start_frame :: "'a::len word \<Rightarrow> 'a word \<Rightarrow> nat \<Rightarrow> 'a word list" where
  "start_frame base entry_point n =
     [0x23, user_stack_end base n, 0x202, 0x1B, entry_point] @ replicate (frame_regs TYPE('a)) 0"

lemma task_create_user_full: "task_count s \<ge> 10 \<Longrightarrow> task_create_user base entry_point s = s"
  by (simp add: task_create_user_def MAX_TASKS_def)

lemma task_create_user_fields:
  fixes base entry_point :: "'a::len word"
  assumes "task_count s < 10"
  defines "r \<equiv> fold push_word (start_frame base entry_point (task_count s))
      (sched.memory s, kernel_stack_end base (task_count s))"
  shows "task_create_user base entry_point s =
    s\<lparr>tasks := (tasks s)[task_count s := \<lparr>stack_pointer = snd r, pid = of_nat (task_count s + 1), active = 1\<rparr>],
      task_count := task_count s + 1, memory := fst r\<rparr>"
  using assms(1)
  by (simp add: task_create_user_def MAX_TASKS_def Let_def split_beta r_def start_frame_def)

lemma task_create_user_ok [inv_intros]: "sched_ok s \<Longrightarrow> sched_ok (task_create_user base entry_point s)"
  by (cases "task_count s < 10")
    (auto simp: task_create_user_fields task_create_user_full sched_ok_def MAX_TASKS_def nth_list_update
      less_Suc_eq)

lemma user_frame_spec:
  fixes base :: "'a::len word"
  assumes arch: "LENGTH('a) = 32 \<or> LENGTH('a) = 64"
    and ok: "sched_ok s" and room: "task_count s < 10"
    and s': "s' = task_create_user base entry_point s" and n: "n = task_count s"
  shows "irq0_return (sched.memory s') (stack_pointer (tasks s' ! n))
      = (replicate (frame_regs TYPE('a)) 0, [entry_point, 0x1B, 0x202, user_stack_end base n, 0x23])"
    and "x \<notin> region (kernel_stack base n) 4096 \<Longrightarrow> sched.memory s' x = sched.memory s x"
proof -
  let ?k = "LENGTH('a) div 8" and ?ws = "start_frame base entry_point n"
  let ?sp = "kernel_stack_end base n"
  have k: "8 * ?k = LENGTH('a)" using arch by auto
  have big: "4096 \<le> (2 :: nat) ^ LENGTH('a)" using arch by auto
  have sz: "length ?ws * ?k \<le> 4096"
    using arch by (auto simp: start_frame_def frame_regs_def)
  have len: "length ?ws = frame_regs TYPE('a) + 5" by (simp add: start_frame_def)
  from sz big have fits: "length ?ws * ?k \<le> 2 ^ LENGTH('a)" by simp
  note push = push_words_spec [OF k fits, where m = "sched.memory s" and sp = ?sp]
  have t: "stack_pointer (tasks s' ! n) = ?sp - of_nat (length ?ws * ?k)"
    and m: "sched.memory s' = fst (fold push_word ?ws (sched.memory s, ?sp))"
    using ok room push(1) by (simp_all add: s' n task_create_user_fields sched_ok_def MAX_TASKS_def)
  have "rev ?ws = replicate (frame_regs TYPE('a)) 0
      @ [entry_point, 0x1B, 0x202, user_stack_end base n, 0x23]"
    by (simp add: start_frame_def)
  with push(2) have "pop_words (frame_regs TYPE('a)) (sched.memory s') (stack_pointer (tasks s' ! n))
      @ pop_words 5 (sched.memory s')
          (stack_pointer (tasks s' ! n) + of_nat (frame_regs TYPE('a) * ?k))
    = replicate (frame_regs TYPE('a)) 0
      @ [entry_point, 0x1B, 0x202, user_stack_end base n, 0x23]"
    unfolding t m len pop_words_append by simp
  moreover have "length (pop_words j mm a) = j" for j and mm :: "'a memory" and a
    by (induction j arbitrary: a) simp_all
  ultimately show "irq0_return (sched.memory s') (stack_pointer (tasks s' ! n))
      = (replicate (frame_regs TYPE('a)) 0, [entry_point, 0x1B, 0x202, user_stack_end base n, 0x23])"
    by (simp add: irq0_return_def append_eq_append_conv del: replicate.simps)
  show "sched.memory s' x = sched.memory s x" if "x \<notin> region (kernel_stack base n) 4096"
  proof -
    have "?sp - of_nat (length ?ws * ?k) = kernel_stack base n + of_nat (4096 - length ?ws * ?k)"
      using sz by (simp add: kernel_stack_end_def of_nat_diff algebra_simps)
    moreover have "region (kernel_stack base n + of_nat (4096 - length ?ws * ?k)) (length ?ws * ?k)
        \<subseteq> region (kernel_stack base n) 4096"
      by (rule region_offset) (use sz big in simp_all)
    ultimately have "x \<notin> region (?sp - of_nat (length ?ws * ?k)) (length ?ws * ?k)"
      using that by auto
    then show ?thesis unfolding m by (rule push(3))
  qed
qed

text \<open>
  C22: A new task starts in user mode at its entry point: popping the stack
  pointer that task_create_user stored, the way irq0_stub does, gives zeroed
  general registers and an interrupt frame with the user code and data
  selectors, interrupts enabled, and the top of the task's own user stack.
  Only the task's own kernel stack is written; the eleventh task is ignored.
\<close>

theorem task_starts_in_user_mode:
  fixes base :: "'a::len word"
  assumes "LENGTH('a) = 32 \<or> LENGTH('a) = 64" and "sched_ok s"
    and "s' = task_create_user base entry_point s" and "n = task_count s"
  shows "if n < 10
    then sched_ok s' \<and> is_active s' n \<and> task_count s' = n + 1 \<and> pid (tasks s' ! n) = of_nat (n + 1)
      \<and> irq0_return (sched.memory s') (stack_pointer (tasks s' ! n))
        = (replicate (frame_regs TYPE('a)) 0, [entry_point, 0x1B, 0x202, user_stack_end base n, 0x23])
      \<and> (\<forall>x. x \<notin> region (kernel_stack base n) 4096 \<longrightarrow> sched.memory s' x = sched.memory s x)
      \<and> (\<forall>i < n. tasks s' ! i = tasks s ! i)
    else s' = s"
proof (cases "n < 10")
  case True
  then have room: "task_count s < 10" using assms(4) by simp
  from room assms(2-4) have
    "is_active s' n" "task_count s' = n + 1" "pid (tasks s' ! n) = of_nat (n + 1)"
    "\<forall>i < n. tasks s' ! i = tasks s ! i"
    by (simp_all add: task_create_user_fields is_active_def sched_ok_def MAX_TASKS_def)
  with True user_frame_spec [OF assms(1,2) room assms(3,4)] task_create_user_ok [OF assms(2)] assms(3)
  show ?thesis by simp
next
  case False
  with assms(3,4) show ?thesis by (simp add: task_create_user_full)
qed

definition blank_sched :: "'a::len word sched" where
  "blank_sched = \<lparr>tasks = replicate 10 \<lparr>stack_pointer = 0, pid = 0, active = 0\<rparr>, task_count = 5,
     current_task = 3, memory = (\<lambda>a. 0), tss_stack = 0\<rparr>"

lemma blank_sched_ok: "sched_ok (scheduler_init blank_sched)"
  by (rule scheduler_init_ok) (simp add: blank_sched_def MAX_TASKS_def)

lemma blank_sched_fields [simp]:
  "task_count (scheduler_init s) = 0" "current_task (scheduler_init s) = -1"
  by (simp_all add: scheduler_init_def)

lemma task_starts_in_user_mode_witness:
  "is_active (task_create_user 0x110000 0x800020 (scheduler_init blank_sched) :: 32 word sched) 0
   \<and> snd (irq0_return
        (sched.memory (task_create_user 0x110000 0x800020 (scheduler_init blank_sched) :: 32 word sched))
        (stack_pointer (tasks (task_create_user 0x110000 0x800020 (scheduler_init blank_sched)) ! 0)))
      = [0x800020, 0x1B, 0x202, 0x112010, 0x23]"
  using task_starts_in_user_mode [OF _ blank_sched_ok refl, where 'a = 32 and n = 0
      and base = "0x110000" and entry_point = "0x800020"]
  by (simp add: user_stack_end_def user_stack_def OFFSET_USER_STACK_def)

text \<open>Two user tasks on i386, the table at 0x110000.\<close>

definition two_tasks :: "32 word sched" where
  "two_tasks = task_create_user 0x110000 0x900000 (task_create_user 0x110000 0x800020 (scheduler_init blank_sched))"

lemma two_tasks_ok: "sched_ok two_tasks"
  unfolding two_tasks_def by (intro task_create_user_ok blank_sched_ok)

lemma two_tasks_fields: "task_count two_tasks = 2" "current_task two_tasks = -1"
  "is_active two_tasks 0" "is_active two_tasks 1"
proof -
  have l: "length (tasks (scheduler_init blank_sched :: 32 word sched)) = 10"
    using blank_sched_ok [where 'a = 32] by (simp add: sched_ok_def MAX_TASKS_def)
  show "task_count two_tasks = 2" "current_task two_tasks = -1"
    "is_active two_tasks 0" "is_active two_tasks 1"
    by (simp_all add: two_tasks_def task_create_user_fields is_active_def l)
qed

lemma first_in_line: "distance 2 (-1) j \<le> distance 2 (-1) 0 \<Longrightarrow> j = 0"
  by (simp add: distance_def)

lemma schedule_round_robin_witness:
  "current_task (snd (schedule 0x110000 0x9000 two_tasks)) = 0"
proof -
  obtain sp' s' where e: "schedule 0x110000 0x9000 two_tasks = (sp', s')"
    by (cases "schedule 0x110000 0x9000 two_tasks")
  from schedule_round_robin [OF two_tasks_ok e] two_tasks_fields
  obtain j where j: "current_task s' = int j" "\<forall>i. is_active two_tasks i \<longrightarrow> distance 2 (-1) j \<le> distance 2 (-1) i"
    by (auto split: if_splits)
  from j(2) two_tasks_fields(3) have "distance 2 (-1) j \<le> distance 2 (-1) 0" by blast
  then have "j = 0" by (rule first_in_line)
  with j e show ?thesis by simp
qed

section \<open>Fairness\<close>

text \<open>A run of timer interrupts: the stack pointers of the interrupted tasks.\<close>

definition run_ticks :: "'a::len word \<Rightarrow> 'a word list \<Rightarrow> 'a word sched \<Rightarrow> 'a word sched" where
  "run_ticks base sps s = fold (\<lambda>sp s. snd (schedule base sp s)) sps s"

lemma distance_progress:
  "i < count \<Longrightarrow> j < count \<Longrightarrow> -1 \<le> cur \<Longrightarrow> cur < int count \<Longrightarrow> i \<noteq> j \<Longrightarrow>
     distance count cur j \<le> distance count cur i \<Longrightarrow>
     distance count (int j) i < distance count cur i"
  by (auto simp: distance_def split: if_splits)

lemma schedule_active: "sched_ok s \<Longrightarrow> is_active (snd (schedule base sp s)) i = is_active s i"
  using schedule_spec [of s base sp "fst (schedule base sp s)" "snd (schedule base sp s)"]
  by (auto simp: is_active_def)

lemma fairness:
  assumes "sched_ok s" "is_active s i" "distance (task_count s) (current_task s) i \<le> length sps"
  shows "\<exists>k. 0 < k \<and> k \<le> distance (task_count s) (current_task s) i
    \<and> current_task (run_ticks base (take k sps) s) = int i"
  using assms
proof (induction sps arbitrary: s)
  case Nil
  then show ?case
    using distance_bounds [of i "task_count s" "current_task s"]
    by (auto simp: sched_ok_def is_active_def)
next
  case (Cons sp sps)
  let ?s = "snd (schedule base sp s)" and ?d = "distance (task_count s) (current_task s)"
  have b: "-1 \<le> current_task s" "current_task s < int (task_count s)" "i < task_count s"
    using Cons.prems(1,2) by (auto simp: sched_ok_def is_active_def)
  have d: "0 < ?d i" using distance_bounds [OF b(3,1,2)] by simp
  from schedule_spec [OF Cons.prems(1), of base sp "fst (schedule base sp s)" ?s] Cons.prems(2)
  obtain j where j: "current_task ?s = int j" "is_active s j" "?d j \<le> ?d i"
    and ok: "sched_ok ?s" and count: "task_count ?s = task_count s"
    by (auto split: if_splits)
  have jc: "j < task_count s" using j(2) by (simp add: is_active_def)
  show ?case
  proof (cases "j = i")
    case True
    with j d show ?thesis by (intro exI [of _ 1]) (simp add: run_ticks_def)
  next
    case False
    have less: "distance (task_count ?s) (current_task ?s) i < ?d i"
      unfolding count j(1) by (rule distance_progress [OF b(3) jc b(1,2)]) (use False j(3) in auto)
    with Cons.prems(3) have "distance (task_count ?s) (current_task ?s) i \<le> length sps" by simp
    moreover have "is_active ?s i" using Cons.prems(1,2) by (simp add: schedule_active)
    ultimately obtain k where k: "0 < k" "k \<le> distance (task_count ?s) (current_task ?s) i"
      "current_task (run_ticks base (take k sps) ?s) = int i"
      using Cons.IH [OF ok] by blast
    with less show ?thesis
      by (intro exI [of _ "Suc k"]) (simp add: run_ticks_def)
  qed
qed

text \<open>
  C28: No active task starves: among the next task_count timer interrupts there
  is one after which any given active task runs.
\<close>

theorem schedule_fair:
  assumes "sched_ok s" "is_active s i" "length sps = task_count s"
  shows "\<exists>k. 0 < k \<and> k \<le> task_count s \<and> current_task (run_ticks base (take k sps) s) = int i"
proof -
  have b: "-1 \<le> current_task s" "current_task s < int (task_count s)" "i < task_count s"
    using assms(1,2) by (auto simp: sched_ok_def is_active_def)
  have "distance (task_count s) (current_task s) i \<le> task_count s"
    using b by (auto simp: distance_def)
  with fairness [OF assms(1,2), of sps base] assms(3) show ?thesis
    by (auto intro: order_trans)
qed

lemma schedule_fair_witness:
  "\<exists>k. 0 < k \<and> k \<le> 2 \<and> current_task (run_ticks 0x110000 (take k [0x9000, 0x111ff0]) two_tasks) = 1"
  using schedule_fair [OF two_tasks_ok two_tasks_fields(4), of "[0x9000, 0x111ff0]" "0x110000"]
  by (simp add: two_tasks_fields)

text \<open>
  C36: task_exit deactivates the current task and switches to another active
  task when there is one; when there is none, the switch returns the exiting
  task's own stack pointer, so the exited task resumes and stays current.
\<close>

theorem task_exit_switches:
  assumes "sched_ok s" and "current_task s = int c" and "task_exit base sp s = (sp', s')"
  shows "\<not> is_active s' c
    \<and> (if \<exists>i. i \<noteq> c \<and> is_active s i
       then \<exists>j. j \<noteq> c \<and> is_active s j \<and> current_task s' = int j \<and> sp' = stack_pointer (tasks s ! j)
       else sp' = sp \<and> current_task s' = int c)"
proof -
  let ?m = "mark_exited s"
  have ok: "sched_ok ?m" by (rule mark_exited_ok [OF assms(1)])
  have c: "c < task_count s" "c < length (tasks s)" "task_count s \<le> length (tasks s)"
    using assms(1,2) by (auto simp: sched_ok_def)
  have m: "task_count ?m = task_count s" "current_task ?m = int c"
    "\<And>i. is_active ?m i \<longleftrightarrow> i \<noteq> c \<and> is_active s i"
    "\<And>i. stack_pointer (tasks ?m ! i) = stack_pointer (tasks s ! i)"
    using assms(2) c by (auto simp: mark_exited_def is_active_def nth_list_update)
  from assms(3) have e: "schedule base sp ?m = (sp', s')" by (simp add: task_exit_def)
  have act: "is_active s' i = is_active ?m i" for i
    using schedule_active [OF ok, of base sp i] e by simp
  from schedule_spec [OF ok e] show ?thesis by (auto simp: m act split: if_splits)
qed

definition running_tasks :: "32 word sched" where
  "running_tasks = snd (schedule 0x110000 0x9000 two_tasks)"

lemma running_tasks_facts: "sched_ok running_tasks" "current_task running_tasks = 0"
  "is_active running_tasks 0" "is_active running_tasks 1"
proof -
  obtain sp' where e: "schedule 0x110000 0x9000 two_tasks = (sp', running_tasks)"
    by (cases "schedule 0x110000 0x9000 two_tasks") (simp add: running_tasks_def)
  from schedule_spec [OF two_tasks_ok e] two_tasks_fields
  obtain j where j: "current_task running_tasks = int j"
      "\<forall>i. is_active two_tasks i \<longrightarrow> distance 2 (-1) j \<le> distance 2 (-1) i"
    by (auto split: if_splits)
  from j(2) two_tasks_fields(3) have "distance 2 (-1) j \<le> distance 2 (-1) 0" by blast
  then have "j = 0" by (rule first_in_line)
  with j show "current_task running_tasks = 0" by simp
  show "sched_ok running_tasks" "is_active running_tasks 0" "is_active running_tasks 1"
    using two_tasks_fields two_tasks_ok
    by (simp_all add: running_tasks_def schedule_ok schedule_active)
qed

lemma task_exit_switches_witness:
  "\<exists>j. j \<noteq> 0 \<and> is_active running_tasks j \<and> current_task (snd (task_exit 0x110000 0x111f00 running_tasks)) = int j"
proof -
  obtain sp' s' where e: "task_exit 0x110000 0x111f00 running_tasks = (sp', s')"
    by (cases "task_exit 0x110000 0x111f00 running_tasks")
  have c: "current_task running_tasks = int 0" by (simp add: running_tasks_facts)
  have "\<exists>i. i \<noteq> 0 \<and> is_active running_tasks i"
    using running_tasks_facts(4) by (intro exI [of _ 1]) simp
  with task_exit_switches [OF running_tasks_facts(1) c e] e show ?thesis by auto
qed

section \<open>Printing a process id\<close>

text \<open>The digits, least significant first, and the number of buffer bytes used.\<close>

fun pid_digits :: "nat \<Rightarrow> u8 list \<Rightarrow> nat \<Rightarrow> u8 list \<times> nat" where
  "pid_digits n buf i =
     (if n > 0 then pid_digits (n div 10) (buf[i := of_nat (n mod 10) + 48]) (i + 1) else (buf, i))"

declare pid_digits.simps [simp del]

definition swap_bytes :: "nat \<Rightarrow> u8 list \<Rightarrow> nat \<Rightarrow> u8 list" where
  "swap_bytes n buf j = (let tmp = buf ! j in (buf[j := buf ! (n - j - 1)])[n - j - 1 := tmp])"

text \<open>The buffer print_pid fills, starting from the 16 bytes junk found on the stack.\<close>

definition pid_buffer :: "u8 list \<Rightarrow> u32 \<Rightarrow> u8 list" where
  "pid_buffer junk p =
     (let (buf, i) = (if p = 0 then (junk[0 := 48], 1) else pid_digits (unat p) junk 0);
          buf = buf[i := 0]
      in fold (\<lambda>j buf. swap_bytes i buf j) [0 ..< i div 2] buf)"

definition print_pid :: "'d hardware \<Rightarrow> u8 list \<Rightarrow> u32 \<Rightarrow> vga \<times> 'd \<Rightarrow> (vga \<times> 'd) option" where
  "print_pid hw junk p s = Option.bind (kprintf hw (pid_buffer junk p) s) (kprintf hw [32])"

fun decimal :: "nat \<Rightarrow> nat list" where
  "decimal n = (if n < 10 then [n] else decimal (n div 10) @ [n mod 10])"

declare decimal.simps [simp del]

lemma decimal_length: "n < 10 ^ k \<Longrightarrow> 0 < k \<Longrightarrow> length (decimal n) \<le> k"
proof (induction n arbitrary: k rule: decimal.induct)
  case (1 n)
  show ?case
  proof (cases "n < 10")
    case True
    with 1 show ?thesis by (simp add: decimal.simps [of n])
  next
    case False
    from 1(2,3) False obtain j where j: "k = Suc j" "0 < j"
      by (cases k; cases "k - 1") auto
    with 1(2) have "n div 10 < 10 ^ j" by (simp add: less_mult_imp_div_less mult.commute)
    from 1(1) [OF False this j(2)] False j show ?thesis by (simp add: decimal.simps [of n])
  qed
qed

lemma decimal_value: "foldl (\<lambda>v d. 10 * v + d) 0 (decimal n) = n"
proof (induction n rule: decimal.induct)
  case (1 n)
  then show ?case by (cases "n < 10") (simp_all add: decimal.simps [of n])
qed

lemma decimal_digits: "d \<in> set (decimal n) \<Longrightarrow> d < 10"
proof (induction n rule: decimal.induct)
  case (1 n)
  then show ?case by (cases "n < 10") (auto simp: decimal.simps [of n])
qed

lemma decimal_ne [simp]: "decimal n \<noteq> []"
  by (simp add: decimal.simps [of n])

lemma decimal_hd: "0 < n \<Longrightarrow> hd (decimal n) \<noteq> 0"
proof (induction n rule: decimal.induct)
  case (1 n)
  then show ?case by (cases "n < 10") (auto simp: decimal.simps [of n])
qed

lemma pid_digits_decimal:
  "0 < n \<Longrightarrow> i + length (decimal n) \<le> length buf \<Longrightarrow>
     pid_digits n buf i = (take i buf @ rev (map (\<lambda>d. of_nat d + 48) (decimal n))
        @ drop (i + length (decimal n)) buf, i + length (decimal n))"
proof (induction n arbitrary: buf i rule: decimal.induct)
  case (1 n)
  show ?case
  proof (cases "n < 10")
    case True
    then have "decimal n = [n]" by (simp add: decimal.simps [of n])
    moreover have "pid_digits n buf i = (buf[i := of_nat n + 48], i + 1)"
      using 1(2) True by (simp add: pid_digits.simps [of n] pid_digits.simps [of 0])
    ultimately show ?thesis using 1(3) by (simp add: upd_conv_take_nth_drop)
  next
    case False
    let ?m = "n div 10" and ?b = "of_nat (n mod 10) + 48 :: u8"
    have d: "decimal n = decimal ?m @ [n mod 10]" using False by (simp add: decimal.simps [of n])
    have m: "0 < ?m" using False by simp
    have bound: "Suc i + length (decimal ?m) \<le> length (buf[i := ?b])" using 1(3) d by simp
    from 1(1) [OF False m bound]
    have "pid_digits n buf i = (take (Suc i) (buf[i := ?b])
        @ rev (map (\<lambda>d. of_nat d + 48) (decimal ?m)) @ drop (Suc i + length (decimal ?m)) (buf[i := ?b]),
        Suc i + length (decimal ?m))"
      using 1(2) by (simp add: pid_digits.simps [of n])
    moreover have "take (Suc i) (buf[i := ?b]) = take i buf @ [?b]"
      using bound by (simp add: take_Suc_conv_app_nth)
    moreover have "drop (Suc i + length (decimal ?m)) (buf[i := ?b]) = drop (Suc i + length (decimal ?m)) buf"
      by simp
    ultimately show ?thesis by (simp add: d)
  qed
qed

lemma length_swaps [simp]: "length (fold (\<lambda>j buf. swap_bytes n buf j) is buf) = length buf"
  by (induction "is" arbitrary: buf) (simp_all add: swap_bytes_def Let_def)

lemma swap_bytes_nth:
  "j < length buf \<Longrightarrow> n - j - 1 < length buf \<Longrightarrow> swap_bytes n buf j ! k =
    (if k = n - j - 1 then buf ! j else if k = j then buf ! (n - j - 1) else buf ! k)"
  by (auto simp: swap_bytes_def Let_def nth_list_update)

lemma swap_loop_nth:
  assumes "n \<le> length buf" "j \<le> n div 2" "k < length buf"
  shows "fold (\<lambda>j buf. swap_bytes n buf j) [0 ..< j] buf ! k =
    (if k < n \<and> (k < j \<or> n - 1 - k < j) then buf ! (n - 1 - k) else buf ! k)"
  using assms(2,3)
proof (induction j arbitrary: k)
  case 0
  then show ?case by simp
next
  case (Suc j)
  let ?b = "fold (\<lambda>j buf. swap_bytes n buf j) [0 ..< j] buf"
  have j: "j < n div 2" "j < length buf" "n - j - 1 < length buf" "j < n - j - 1"
    using Suc.prems(1) assms(1) by linarith+
  have ih: "?b ! k = (if k < n \<and> (k < j \<or> n - 1 - k < j) then buf ! (n - 1 - k) else buf ! k)"
    if "k < length buf" for k
    using Suc.IH [OF _ that] j(1) by simp
  have at: "?b ! j = buf ! j" "?b ! (n - j - 1) = buf ! (n - j - 1)"
    using ih j by auto
  have "fold (\<lambda>j buf. swap_bytes n buf j) [0 ..< Suc j] buf ! k = swap_bytes n ?b j ! k" by simp
  also have "\<dots> = (if k = n - j - 1 then buf ! j else if k = j then buf ! (n - j - 1) else ?b ! k)"
    using j at by (subst swap_bytes_nth) simp_all
  also have "\<dots> = (if k < n \<and> (k < Suc j \<or> n - 1 - k < Suc j) then buf ! (n - 1 - k) else buf ! k)"
  proof (cases "k = n - j - 1 \<or> k = j")
    case True
    then show ?thesis using j by auto
  next
    case False
    then have "n - 1 - k < Suc j \<longleftrightarrow> n - 1 - k < j" if "k < n" using that j by linarith
    with False ih [OF Suc.prems(2)] show ?thesis by (auto simp: less_Suc_eq)
  qed
  finally show ?case .
qed

lemma swap_loop_rev:
  assumes "n \<le> length buf"
  shows "fold (\<lambda>j buf. swap_bytes n buf j) [0 ..< n div 2] buf = rev (take n buf) @ drop n buf"
proof (rule nth_equalityI)
  show "length (fold (\<lambda>j buf. swap_bytes n buf j) [0 ..< n div 2] buf) = length (rev (take n buf) @ drop n buf)"
    using assms by simp
  fix k
  assume "k < length (fold (\<lambda>j buf. swap_bytes n buf j) [0 ..< n div 2] buf)"
  then have k: "k < length buf" by simp
  have mid: "buf ! (n - 1 - k) = buf ! k" if "k < n" "\<not> k < n div 2" "\<not> n - 1 - k < n div 2"
  proof -
    from that have "n - 1 - k = k" by linarith
    then show ?thesis by simp
  qed
  have r: "(rev (take n buf) @ drop n buf) ! k = (if k < n then buf ! (n - 1 - k) else buf ! k)"
    using assms k by (auto simp: nth_append rev_nth min_def)
  show "fold (\<lambda>j buf. swap_bytes n buf j) [0 ..< n div 2] buf ! k = (rev (take n buf) @ drop n buf) ! k"
    unfolding r swap_loop_nth [OF assms order_refl k] using mid by auto
qed

text \<open>
  print_pid writes the decimal numeral of the process id: its buffer holds
  a NUL-terminated string of ASCII digits without superfluous leading zero,
  whose value is the pid, inside the 16 bytes reserved for it.
\<close>

theorem print_pid_decimal:
  assumes "length junk = 16"
  shows "\<exists>ds. takeWhile (\<lambda>c. c \<noteq> 0) (pid_buffer junk p) = map (\<lambda>d. of_nat d + 48) ds
    \<and> foldl (\<lambda>v d. 10 * v + d) 0 ds = unat p \<and> (\<forall>d \<in> set ds. d < 10)
    \<and> (ds = [0] \<or> hd ds \<noteq> 0) \<and> length ds \<le> 10 \<and> length (pid_buffer junk p) = 16
    \<and> pid_buffer junk p ! length ds = 0"
proof (rule exI [of _ "decimal (unat p)"])
  let ?ds = "decimal (unat p)" and ?s = "map (\<lambda>d. of_nat d + 48 :: u8) (decimal (unat p))"
  have "unat p < 2 ^ 32" using unsigned_less [of p] by simp
  then have len: "length ?ds \<le> 10" by (intro decimal_length) simp_all
  have filled: "(if p = 0 then (junk[0 := 48], 1) else pid_digits (unat p) junk 0)
      = (rev ?s @ drop (length ?ds) junk, length ?ds)"
  proof (cases "p = 0")
    case True
    then have "?ds = [0]" by (simp add: decimal.simps [of 0])
    with True assms show ?thesis by (cases junk) simp_all
  next
    case False
    then have "0 < unat p" by (simp add: unat_gt_0)
    with pid_digits_decimal [of "unat p" 0 junk] False len assms show ?thesis by simp
  qed
  have stop: "(rev ?s @ drop (length ?ds) junk)[length ?ds := 0] = rev ?s @ 0 # drop (Suc (length ?ds)) junk"
    using len assms Cons_nth_drop_Suc [of "length ?ds" junk, symmetric] by (simp add: list_update_append)
  have buf: "pid_buffer junk p = ?s @ 0 # drop (Suc (length ?ds)) junk"
    unfolding pid_buffer_def filled prod.case Let_def stop
    using len assms by (subst swap_loop_rev) simp_all
  have nz: "(of_nat d + 48 :: u8) \<noteq> 0" if "d < 10" for d :: nat
  proof -
    have "of_nat d + 48 = (of_nat (d + 48) :: u8)" by simp
    moreover have "unat (of_nat (d + 48) :: u8) = d + 48" by (rule unat_of_nat_less) (use that in simp)
    ultimately show ?thesis by (metis add_is_0 unsigned_0 zero_neq_numeral)
  qed
  have str: "takeWhile (\<lambda>c. c \<noteq> 0) (pid_buffer junk p) = ?s"
    unfolding buf using nz decimal_digits by (subst takeWhile_append2) auto
  have lead: "?ds = [0] \<or> hd ?ds \<noteq> 0"
    using decimal_hd [of "unat p"] by (cases "unat p = 0") (simp_all add: decimal.simps [of 0])
  show "takeWhile (\<lambda>c. c \<noteq> 0) (pid_buffer junk p) = ?s
    \<and> foldl (\<lambda>v d. 10 * v + d) 0 ?ds = unat p \<and> (\<forall>d \<in> set ?ds. d < 10)
    \<and> (?ds = [0] \<or> hd ?ds \<noteq> 0) \<and> length ?ds \<le> 10 \<and> length (pid_buffer junk p) = 16
    \<and> pid_buffer junk p ! length ?ds = 0"
    using str lead len assms decimal_value [of "unat p"] decimal_digits
    by (simp add: buf nth_append)
qed

lemma print_pid_decimal_witness:
  "\<exists>ds. takeWhile (\<lambda>c. c \<noteq> 0) (pid_buffer (replicate 16 7) 1024) = map (\<lambda>d. of_nat d + 48) ds
    \<and> foldl (\<lambda>v d. 10 * v + d) 0 ds = 1024"
  using print_pid_decimal [of "replicate 16 7" 1024] by auto

end
