(* ===== verification/Vfs.thy ===== *)
theory Vfs
  imports Prelude
begin

text \<open>
  The virtual file system layer, kernel/fs/vfs.c and the types of vfs.h:
  nodes, path resolution, and the mount table. A node's function pointers are
  slots that name the driver whose function was stored there; the functions
  behind the slots are the record drivers, which the file systems (Tar, Ext2)
  fill in. Character arrays that hold C strings are the lists of their bytes
  up to the NUL; writing past the end of a 128-byte array is the error value
  Overflow.
\<close>

section \<open>Types of vfs.h\<close>

definition VFS_FILE :: u32 where "VFS_FILE = 1"
definition VFS_DIRECTORY :: u32 where "VFS_DIRECTORY = 2"
definition VFS_SYMLINK :: u32 where "VFS_SYMLINK = 3"

record dirent =
  dname :: "u8 list"
  ino :: u32
  dtype :: u8

text \<open>
  Which file system's function a slot holds, and the nodes that exist: the
  array tar_nodes and the two static nodes of ext2.c.
\<close>

datatype fs_driver = Tar | Ext2

datatype node_ptr = TarNode nat | Ext2Root | Ext2Target

record vfs_node =
  name :: "u8 list"
  mask :: u32
  uid :: u32
  gid :: u32
  flags :: u32
  inode :: u32
  node_length :: u32
  impl :: u32
  read_slot :: "fs_driver option"
  write_slot :: "fs_driver option"
  open_slot :: "fs_driver option"
  close_slot :: "fs_driver option"
  readdir_slot :: "fs_driver option"
  finddir_slot :: "fs_driver option"
  mkdir_slot :: "fs_driver option"
  create_slot :: "fs_driver option"
  link_slot :: "fs_driver option"
  unlink_slot :: "fs_driver option"

text \<open>A node as static storage has it: all zero.\<close>

definition null_node :: vfs_node where
  "null_node = \<lparr>name = [], mask = 0, uid = 0, gid = 0, flags = 0, inode = 0, node_length = 0, impl = 0,
     read_slot = None, write_slot = None, open_slot = None, close_slot = None, readdir_slot = None,
     finddir_slot = None, mkdir_slot = None, create_slot = None, link_slot = None, unlink_slot = None\<rparr>"

text \<open>
  The functions behind the slots, over the state 'st of the file systems
  (which includes the memory their buffers lie in and the node storage). A
  driver that does not return is None.
\<close>

record 'st drivers =
  node_at :: "'st \<Rightarrow> node_ptr \<Rightarrow> vfs_node"
  read_call :: "fs_driver \<Rightarrow> node_ptr \<Rightarrow> u32 \<Rightarrow> u32 \<Rightarrow> u32 \<Rightarrow> 'st \<Rightarrow> (u32 \<times> 'st) option"
  write_call :: "fs_driver \<Rightarrow> node_ptr \<Rightarrow> u32 \<Rightarrow> u32 \<Rightarrow> u32 \<Rightarrow> 'st \<Rightarrow> (u32 \<times> 'st) option"
  open_call :: "fs_driver \<Rightarrow> node_ptr \<Rightarrow> 'st \<Rightarrow> 'st option"
  close_call :: "fs_driver \<Rightarrow> node_ptr \<Rightarrow> 'st \<Rightarrow> 'st option"
  readdir_call :: "fs_driver \<Rightarrow> node_ptr \<Rightarrow> u32 \<Rightarrow> 'st \<Rightarrow> (dirent option \<times> 'st) option"
  finddir_call :: "fs_driver \<Rightarrow> node_ptr \<Rightarrow> u8 list \<Rightarrow> 'st \<Rightarrow> (node_ptr option \<times> 'st) option"
  mkdir_call :: "fs_driver \<Rightarrow> node_ptr \<Rightarrow> u8 list \<Rightarrow> u16 \<Rightarrow> 'st \<Rightarrow> (int \<times> 'st) option"
  create_call :: "fs_driver \<Rightarrow> node_ptr \<Rightarrow> u8 list \<Rightarrow> u16 \<Rightarrow> 'st \<Rightarrow> (int \<times> 'st) option"
  link_call :: "fs_driver \<Rightarrow> node_ptr \<Rightarrow> node_ptr \<Rightarrow> u8 list \<Rightarrow> 'st \<Rightarrow> (int \<times> 'st) option"
  unlink_call :: "fs_driver \<Rightarrow> node_ptr \<Rightarrow> u8 list \<Rightarrow> 'st \<Rightarrow> (int \<times> 'st) option"

section \<open>Strings\<close>

fun string_compare :: "u8 list \<Rightarrow> u8 list \<Rightarrow> int" where
  "string_compare [] [] = 0"
| "string_compare [] (y # ys) = - uint y"
| "string_compare (x # xs) [] = uint x"
| "string_compare (x # xs) (y # ys) = (if x = y then string_compare xs ys else uint x - uint y)"

text \<open>string_copy into an array of 128 bytes, NUL included.\<close>

datatype vfs_error = Overflow

definition string_copy :: "u8 list \<Rightarrow> vfs_error + u8 list" where
  "string_copy src = (if length src < 128 then Inr src else Inl Overflow)"

section \<open>Node operations\<close>

text \<open>A null pointer is None; the node operations return 0 or null for it.\<close>

definition vfs_read :: "'st drivers \<Rightarrow> node_ptr option \<Rightarrow> u32 \<Rightarrow> u32 \<Rightarrow> u32 \<Rightarrow> 'st \<Rightarrow> (u32 \<times> 'st) option" where
  "vfs_read drv node offset sz buffer st =
     (case node of None \<Rightarrow> Some (0, st)
      | Some p \<Rightarrow> (case read_slot (node_at drv st p) of None \<Rightarrow> Some (0, st)
          | Some d \<Rightarrow> read_call drv d p offset sz buffer st))"

definition vfs_write :: "'st drivers \<Rightarrow> node_ptr option \<Rightarrow> u32 \<Rightarrow> u32 \<Rightarrow> u32 \<Rightarrow> 'st \<Rightarrow> (u32 \<times> 'st) option" where
  "vfs_write drv node offset sz buffer st =
     (case node of None \<Rightarrow> Some (0, st)
      | Some p \<Rightarrow> (case write_slot (node_at drv st p) of None \<Rightarrow> Some (0, st)
          | Some d \<Rightarrow> write_call drv d p offset sz buffer st))"

definition vfs_open :: "'st drivers \<Rightarrow> node_ptr option \<Rightarrow> 'st \<Rightarrow> 'st option" where
  "vfs_open drv node st =
     (case node of None \<Rightarrow> Some st
      | Some p \<Rightarrow> (case open_slot (node_at drv st p) of None \<Rightarrow> Some st | Some d \<Rightarrow> open_call drv d p st))"

definition vfs_close :: "'st drivers \<Rightarrow> node_ptr option \<Rightarrow> 'st \<Rightarrow> 'st option" where
  "vfs_close drv node st =
     (case node of None \<Rightarrow> Some st
      | Some p \<Rightarrow> (case close_slot (node_at drv st p) of None \<Rightarrow> Some st | Some d \<Rightarrow> close_call drv d p st))"

definition vfs_readdir :: "'st drivers \<Rightarrow> node_ptr option \<Rightarrow> u32 \<Rightarrow> 'st \<Rightarrow> (dirent option \<times> 'st) option" where
  "vfs_readdir drv node index st =
     (case node of None \<Rightarrow> Some (None, st)
      | Some p \<Rightarrow>
          (let n = node_at drv st p in
           if flags n AND VFS_DIRECTORY \<noteq> 0
           then (case readdir_slot n of None \<Rightarrow> Some (None, st) | Some d \<Rightarrow> readdir_call drv d p index st)
           else Some (None, st)))"

definition vfs_finddir :: "'st drivers \<Rightarrow> node_ptr option \<Rightarrow> u8 list \<Rightarrow> 'st \<Rightarrow> (node_ptr option \<times> 'st) option" where
  "vfs_finddir drv node nm st =
     (case node of None \<Rightarrow> Some (None, st)
      | Some p \<Rightarrow>
          (let n = node_at drv st p in
           if flags n AND VFS_DIRECTORY \<noteq> 0
           then (case finddir_slot n of None \<Rightarrow> Some (None, st) | Some d \<Rightarrow> finddir_call drv d p nm st)
           else Some (None, st)))"

section \<open>The mount table\<close>

record mount_point =
  mpath :: "u8 list"
  mnode :: "node_ptr option"

definition MAX_MOUNTS :: nat where "MAX_MOUNTS = 8"

record vfs =
  root_node :: "node_ptr option"
  mounts :: "mount_point list"
  mount_count :: nat

definition vfs_init :: "vfs \<Rightarrow> vfs" where
  "vfs_init v = v\<lparr>mount_count := 0, root_node := None\<rparr>"

definition vfs_root :: "vfs \<Rightarrow> node_ptr option" where
  "vfs_root v = root_node v"

definition slash :: u8 where "slash = 47"

definition vfs_mount :: "u8 list \<Rightarrow> node_ptr option \<Rightarrow> vfs \<Rightarrow> vfs_error + int \<times> vfs" where
  "vfs_mount path local_root v =
     (if string_compare path [slash] = 0 then
        Inr (0, v\<lparr>root_node := local_root,
                  mounts := (mounts v)[0 := \<lparr>mpath = [slash], mnode = local_root\<rparr>],
                  mount_count := (if mount_count v = 0 then 1 else mount_count v)\<rparr>)
      else if mount_count v < MAX_MOUNTS then
        (case string_copy path of Inl e \<Rightarrow> Inl e
         | Inr s \<Rightarrow> Inr (0, v\<lparr>mounts := (mounts v)[mount_count v := \<lparr>mpath = s, mnode = local_root\<rparr>],
                             mount_count := mount_count v + 1\<rparr>))
      else Inr (-1, v))"

text \<open>The inner loop of vfs_umount, entry j + 1 over entry j for j from i.\<close>

definition shift_mounts :: "nat \<Rightarrow> nat \<Rightarrow> mount_point list \<Rightarrow> mount_point list" where
  "shift_mounts i count ms = fold (\<lambda>j ms. ms[j := ms ! (j + 1)]) [i ..< count - 1] ms"

fun umount_from :: "nat \<Rightarrow> nat \<Rightarrow> u8 list \<Rightarrow> vfs \<Rightarrow> int \<times> vfs" where
  "umount_from i 0 path v = (-1, v)"
| "umount_from i (Suc n) path v =
     (if string_compare (mpath (mounts v ! i)) path = 0
      then (0, v\<lparr>mounts := shift_mounts i (mount_count v) (mounts v), mount_count := mount_count v - 1\<rparr>)
      else umount_from (i + 1) n path v)"

definition vfs_umount :: "u8 list \<Rightarrow> vfs \<Rightarrow> int \<times> vfs" where
  "vfs_umount path v = umount_from 0 (mount_count v) path v"

section \<open>Path resolution\<close>

text \<open>
  The inner loop copies one component into token, at index j, up to a slash or
  the end of the path; token has 128 bytes, so the NUL needs j at most 127.
  It returns the component and the rest of the path, past the slash.
\<close>

fun read_token :: "nat \<Rightarrow> u8 list \<Rightarrow> vfs_error + u8 list \<times> u8 list" where
  "read_token j [] = (if j < 128 then Inr ([], []) else Inl Overflow)"
| "read_token j (c # path) =
     (if c = slash then (if j < 128 then Inr ([], path) else Inl Overflow)
      else if j < 128
      then (case read_token (j + 1) path of Inl e \<Rightarrow> Inl e | Inr (t, rest) \<Rightarrow> Inr (c # t, rest))
      else Inl Overflow)"

lemma read_token_shorter: "read_token j path = Inr (t, rest) \<Longrightarrow> path \<noteq> [] \<Longrightarrow> length rest < length path"
proof (induction j path arbitrary: t rest rule: read_token.induct)
  case (2 j c path)
  then show ?case
    by (cases path) (auto split: if_splits sum.splits prod.splits)
qed simp

text \<open>The outer loop, on the part of the path not yet read.\<close>

function resolve_from ::
  "'st drivers \<Rightarrow> node_ptr \<Rightarrow> u8 list \<Rightarrow> 'st \<Rightarrow> (vfs_error + node_ptr option \<times> 'st) option" where
  "resolve_from drv current path st =
     (if path = [] then Some (Inr (Some current, st))
      else case read_token 0 path of Inl e \<Rightarrow> Some (Inl e)
        | Inr (token, rest) \<Rightarrow>
            if token \<noteq> []
            then (case vfs_finddir drv (Some current) token st of None \<Rightarrow> None
              | Some (None, st) \<Rightarrow> Some (Inr (None, st))
              | Some (Some n, st) \<Rightarrow> resolve_from drv n rest st)
            else resolve_from drv current rest st)"
  by pat_completeness auto
termination
  by (relation "measure (\<lambda>(drv, current, path, st). length path)") (auto dest: read_token_shorter)

definition vfs_resolve_path ::
  "'st drivers \<Rightarrow> u8 list option \<Rightarrow> vfs \<Rightarrow> 'st \<Rightarrow> (vfs_error + node_ptr option \<times> 'st) option" where
  "vfs_resolve_path drv path v st =
     (case path of None \<Rightarrow> Some (Inr (None, st))
      | Some [] \<Rightarrow> Some (Inr (None, st))
      | Some (c # rest) \<Rightarrow>
          if c \<noteq> slash then Some (Inr (None, st))
          else (case root_node v of None \<Rightarrow> Some (Inr (None, st))
            | Some r \<Rightarrow> if rest = [] then Some (Inr (Some r, st)) else resolve_from drv r rest st))"

definition vfs_mkdir :: "'st drivers \<Rightarrow> u8 list \<Rightarrow> u16 \<Rightarrow> vfs \<Rightarrow> 'st \<Rightarrow> (int \<times> 'st) option" where
  "vfs_mkdir drv path permission v st =
     (case root_node v of None \<Rightarrow> Some (-1, st)
      | Some parent \<Rightarrow> (case mkdir_slot (node_at drv st parent) of None \<Rightarrow> Some (-1, st)
          | Some d \<Rightarrow> mkdir_call drv d parent path permission st))"

definition vfs_create :: "'st drivers \<Rightarrow> u8 list \<Rightarrow> u16 \<Rightarrow> vfs \<Rightarrow> 'st \<Rightarrow> (int \<times> 'st) option" where
  "vfs_create drv path permission v st =
     (case root_node v of None \<Rightarrow> Some (-1, st)
      | Some parent \<Rightarrow> (case create_slot (node_at drv st parent) of None \<Rightarrow> Some (-1, st)
          | Some d \<Rightarrow> create_call drv d parent path permission st))"

definition vfs_link :: "'st drivers \<Rightarrow> u8 list option \<Rightarrow> u8 list \<Rightarrow> vfs \<Rightarrow> 'st \<Rightarrow> (vfs_error + int \<times> 'st) option" where
  "vfs_link drv oldpath newpath v st =
     (case vfs_resolve_path drv oldpath v st of None \<Rightarrow> None
      | Some (Inl e) \<Rightarrow> Some (Inl e)
      | Some (Inr (None, st)) \<Rightarrow> Some (Inr (-1, st))
      | Some (Inr (Some old, st)) \<Rightarrow>
          (case link_slot (node_at drv st old) of None \<Rightarrow> Some (Inr (-1, st))
           | Some d \<Rightarrow> map_option Inr (link_call drv d old old newpath st)))"

definition vfs_unlink :: "'st drivers \<Rightarrow> u8 list option \<Rightarrow> vfs \<Rightarrow> 'st \<Rightarrow> (vfs_error + int \<times> 'st) option" where
  "vfs_unlink drv path v st =
     (case vfs_resolve_path drv path v st of None \<Rightarrow> None
      | Some (Inl e) \<Rightarrow> Some (Inl e)
      | Some (Inr (None, st)) \<Rightarrow> Some (Inr (-1, st))
      | Some (Inr (Some n, st)) \<Rightarrow>
          (case unlink_slot (node_at drv st n) of None \<Rightarrow> Some (Inr (-1, st))
           | Some d \<Rightarrow> map_option Inr (unlink_call drv d n (the path) st)))"

declare resolve_from.simps [simp del]

section \<open>Paths as lists of components\<close>

fun split_path :: "u8 list \<Rightarrow> u8 list list" where
  "split_path [] = [[]]"
| "split_path (c # rest) =
     (if c = slash then [] # split_path rest
      else (c # hd (split_path rest)) # tl (split_path rest))"

text \<open>Empty components, from double or final slashes, do not count.\<close>

definition components :: "u8 list \<Rightarrow> u8 list list" where
  "components path = filter (\<lambda>t. t \<noteq> []) (split_path path)"

text \<open>Following components from a node, one directory lookup each.\<close>

fun walk :: "'st drivers \<Rightarrow> node_ptr \<Rightarrow> u8 list list \<Rightarrow> 'st \<Rightarrow> (node_ptr option \<times> 'st) option" where
  "walk drv n [] st = Some (Some n, st)"
| "walk drv n (t # ts) st =
     (case vfs_finddir drv (Some n) t st of None \<Rightarrow> None
      | Some (None, st) \<Rightarrow> Some (None, st)
      | Some (Some n, st) \<Rightarrow> walk drv n ts st)"

abbreviation first_part :: "u8 list \<Rightarrow> u8 list" where
  "first_part path \<equiv> takeWhile (\<lambda>c. c \<noteq> slash) path"

abbreviation other_parts :: "u8 list \<Rightarrow> u8 list" where
  "other_parts path \<equiv> drop (Suc (length (first_part path))) path"

lemma read_token_spec:
  "j \<le> 128 \<Longrightarrow> read_token j path =
    (if j + length (first_part path) < 128 then Inr (first_part path, other_parts path) else Inl Overflow)"
proof (induction j path rule: read_token.induct)
  case (2 j c path)
  show ?case
  proof (cases "c = slash \<or> j = 128")
    case True
    with 2(2) show ?thesis by auto
  next
    case False
    with 2 show ?thesis by simp
  qed
qed simp

lemma split_path_ne [simp]: "split_path path \<noteq> []"
  by (cases path) auto

lemma split_path_unfold:
  "split_path path = first_part path # (if slash \<in> set path then split_path (other_parts path) else [])"
proof (induction path)
  case Nil
  then show ?case by simp
next
  case (Cons c rest)
  show ?case
  proof (cases "c = slash")
    case True
    then show ?thesis by simp
  next
    case False
    have e: "split_path (c # rest) = (c # hd (split_path rest)) # tl (split_path rest)" using False by simp
    show ?thesis unfolding e Cons.IH using False by simp
  qed
qed

lemma components_Nil [simp]: "components [] = []"
  by (simp add: components_def)

lemma components_step:
  "components path =
    (if first_part path = [] then [] else [first_part path]) @ components (other_parts path)"
proof (cases "slash \<in> set path")
  case True
  then show ?thesis
    by (simp add: components_def split_path_unfold [of path])
next
  case False
  then have all: "first_part path = path" by (auto simp: takeWhile_eq_all_conv)
  then have "length (first_part path) = length path" by (simp only:)
  then have "other_parts path = []" by simp
  with False all show ?thesis by (simp add: components_def split_path_unfold [of path])
qed

lemma resolve_from_step:
  assumes "path \<noteq> []" "length (first_part path) < 128"
  shows "resolve_from drv n path st =
    (if first_part path = [] then resolve_from drv n (other_parts path) st
     else case vfs_finddir drv (Some n) (first_part path) st of None \<Rightarrow> None
       | Some (None, st) \<Rightarrow> Some (Inr (None, st))
       | Some (Some m, st) \<Rightarrow> resolve_from drv m (other_parts path) st)"
  using assms by (simp add: resolve_from.simps [of drv n path st] read_token_spec split: option.split)

lemma resolve_from_walk:
  "\<forall>t \<in> set (components path). length t < 128 \<Longrightarrow>
     resolve_from drv n path st = map_option Inr (walk drv n (components path) st)"
proof (induction "length path" arbitrary: path n st rule: less_induct)
  case less
  show ?case
  proof (cases "path = []")
    case True
    then show ?thesis by (simp add: resolve_from.simps)
  next
    case False
    have short: "length (first_part path) < 128"
      using less.prems components_step [of path] by (cases "first_part path = []") auto
    have smaller: "length (other_parts path) < length path" using False by simp
    have rest: "\<forall>t \<in> set (components (other_parts path)). length t < 128"
      using less.prems components_step [of path] by auto
    note IH = less.hyps [OF smaller rest]
    show ?thesis
    proof (cases "first_part path = []")
      case True
      then show ?thesis
        using resolve_from_step [OF False short, of drv n st] IH components_step [of path] by simp
    next
      case ne: False
      have c: "components path = first_part path # components (other_parts path)"
        using components_step [of path] ne by simp
      show ?thesis
        unfolding c resolve_from_step [OF False short]
        using ne IH by (simp split: option.split prod.split)
    qed
  qed
qed

lemma components_single:
  "nm \<noteq> [] \<Longrightarrow> slash \<notin> set nm \<Longrightarrow> components nm = [nm]"
proof -
  assume "nm \<noteq> []" "slash \<notin> set nm"
  then have f: "first_part nm = nm" by (auto simp: takeWhile_eq_all_conv)
  then have "length (first_part nm) = length nm" by (simp only:)
  then have "other_parts nm = []" by simp
  with components_step [of nm] \<open>nm \<noteq> []\<close> f show ?thesis by simp
qed

lemma resolve_from_overflow:
  "components path = ts @ t # us \<Longrightarrow> \<forall>t \<in> set ts. length t < 128 \<Longrightarrow> 128 \<le> length t \<Longrightarrow>
     walk drv n ts st = Some (Some m, st') \<Longrightarrow> resolve_from drv n path st = Some (Inl Overflow)"
proof (induction "length path" arbitrary: path ts n st rule: less_induct)
  case less
  have ne: "path \<noteq> []" using less.prems(1) by auto
  have smaller: "length (other_parts path) < length path" using ne by simp
  show ?case
  proof (cases "first_part path = []")
    case True
    then have "components (other_parts path) = ts @ t # us"
      using less.prems(1) components_step [of path] by simp
    from less.hyps [OF smaller this less.prems(2,3,4)] show ?thesis
      using resolve_from_step [OF ne, of drv n st] True by simp
  next
    case False
    then have c: "components path = first_part path # components (other_parts path)"
      using components_step [of path] by simp
    show ?thesis
    proof (cases ts)
      case Nil
      then have "first_part path = t" using c less.prems(1) by simp
      then show ?thesis
        using ne less.prems(3) by (simp add: resolve_from.simps [of drv n path st] read_token_spec)
    next
      case (Cons t1 ts1)
      then have t1: "first_part path = t1" and rest: "components (other_parts path) = ts1 @ t # us"
        using c less.prems(1) by simp_all
      from less.prems(4) Cons obtain m1 st1
        where f: "vfs_finddir drv (Some n) t1 st = Some (Some m1, st1)" and w: "walk drv m1 ts1 st1 = Some (Some m, st')"
        by (auto split: option.splits prod.splits)
      have short: "length (first_part path) < 128" using less.prems(2) Cons t1 by simp
      have "resolve_from drv m1 (other_parts path) st1 = Some (Inl Overflow)"
        by (rule less.hyps [OF smaller rest _ less.prems(3) w]) (use less.prems(2) Cons in simp)
      then show ?thesis
        unfolding resolve_from_step [OF ne short] using False f t1 by simp
    qed
  qed
qed

text \<open>
  C30: vfs_resolve_path follows the components of an absolute path from the
  root with one directory lookup each, ignoring empty components, when every
  component has at most 127 bytes; a longer component is written past the end
  of the 128-byte token buffer as soon as it is reached.
\<close>

theorem vfs_resolve_path_walks:
  assumes "root_node v = Some r"
  shows "((\<forall>t \<in> set (components path). length t < 128) \<longrightarrow>
      vfs_resolve_path drv (Some (slash # path)) v st = map_option Inr (walk drv r (components path) st))
    \<and> (components path = ts @ t # us \<and> (\<forall>t \<in> set ts. length t < 128) \<and> 128 \<le> length t
        \<and> walk drv r ts st = Some (Some m, st') \<longrightarrow>
      vfs_resolve_path drv (Some (slash # path)) v st = Some (Inl Overflow))"
proof (intro conjI impI)
  have e: "vfs_resolve_path drv (Some (slash # path)) v st = resolve_from drv r path st"
    using assms by (simp add: vfs_resolve_path_def resolve_from.simps [of drv r "[]"])
  show "vfs_resolve_path drv (Some (slash # path)) v st = map_option Inr (walk drv r (components path) st)"
    if "\<forall>t \<in> set (components path). length t < 128"
    unfolding e by (rule resolve_from_walk [OF that])
  show "vfs_resolve_path drv (Some (slash # path)) v st = Some (Inl Overflow)"
    if "components path = ts @ t # us \<and> (\<forall>t \<in> set ts. length t < 128) \<and> 128 \<le> length t
        \<and> walk drv r ts st = Some (Some m, st')"
    unfolding e using that by (elim conjE) (rule resolve_from_overflow)
qed

section \<open>The mount table as an association list\<close>

definition table :: "vfs \<Rightarrow> (u8 list \<times> node_ptr option) list" where
  "table v = map (\<lambda>m. (mpath m, mnode m)) (take (mount_count v) (mounts v))"

definition vfs_ok :: "vfs \<Rightarrow> bool" where
  "vfs_ok v \<longleftrightarrow> length (mounts v) = MAX_MOUNTS \<and> mount_count v \<le> MAX_MOUNTS"

text \<open>Removing the first entry for a path.\<close>

fun remove_mount :: "u8 list \<Rightarrow> (u8 list \<times> 'n) list \<Rightarrow> (u8 list \<times> 'n) list" where
  "remove_mount p [] = []"
| "remove_mount p (e # es) = (if fst e = p then es else e # remove_mount p es)"

lemma remove_mount_snoc: "p \<notin> fst ` set es \<Longrightarrow> remove_mount p (es @ [(p, n)]) = es"
  by (induction es) auto

text \<open>C strings hold no NUL, so string_compare decides equality.\<close>

lemma string_compare_eq:
  "0 \<notin> set xs \<Longrightarrow> 0 \<notin> set ys \<Longrightarrow> string_compare xs ys = 0 \<longleftrightarrow> xs = ys"
proof (induction xs ys rule: string_compare.induct)
  case (2 y ys)
  then have "uint y \<noteq> 0" by (simp add: unsigned_eq_0_iff)
  then show ?case by simp
next
  case (3 x xs)
  then have "uint x \<noteq> 0" by (simp add: unsigned_eq_0_iff)
  then show ?case by simp
next
  case (4 x xs y ys)
  have "x \<noteq> y \<Longrightarrow> uint x - uint y \<noteq> 0" by (simp add: word_uint_eq_iff)
  with 4 show ?case by auto
qed simp

definition no_nul :: "vfs \<Rightarrow> bool" where
  "no_nul v \<longleftrightarrow> (\<forall>e \<in> set (table v). 0 \<notin> set (fst e))"

lemma shift_mounts_eq:
  assumes "i < count" "count \<le> length ms"
  shows "take (count - 1) (shift_mounts i count ms) = take i ms @ drop (Suc i) (take count ms)
    \<and> length (shift_mounts i count ms) = length ms"
proof -
  have "\<lbrakk>i \<le> k; k < count\<rbrakk> \<Longrightarrow>
      fold (\<lambda>j ms. ms[j := ms ! (j + 1)]) [i ..< k] ms = take i ms @ drop (Suc i) (take (Suc k) ms) @ drop k ms" for k
  proof (induction k)
    case 0
    then show ?case by simp
  next
    case (Suc k)
    show ?case
    proof (cases "i = Suc k")
      case True
      then show ?thesis by simp
    next
      case False
      with Suc.prems have ik: "i \<le> k" "k < count" by simp_all
      let ?r = "take i ms @ drop (Suc i) (take (Suc k) ms) @ drop k ms"
      have k1: "Suc k < length ms" using Suc.prems assms(2) by simp
      have pre: "length (take i ms @ drop (Suc i) (take (Suc k) ms)) = k"
        using k1 ik by simp
      have src: "?r ! Suc k = ms ! Suc k"
        using k1 pre by (simp add: nth_append)
      have dk: "drop k ms = ms ! k # drop (Suc k) ms"
        using k1 by (simp add: Cons_nth_drop_Suc)
      have "?r[k := ms ! Suc k] = take i ms @ drop (Suc i) (take (Suc k) ms) @ ms ! Suc k # drop (Suc k) ms"
        using list_update_length [of "take i ms @ drop (Suc i) (take (Suc k) ms)" "ms ! k" "drop (Suc k) ms" "ms ! Suc k"]
        unfolding pre by (simp only: dk append_assoc)
      also have "drop (Suc i) (take (Suc k) ms) @ ms ! Suc k # drop (Suc k) ms
          = drop (Suc i) (take (Suc (Suc k)) ms) @ drop (Suc k) ms"
        using k1 ik by (simp add: take_Suc_conv_app_nth [of "Suc k"])
      finally show ?thesis using Suc.IH [OF ik] src ik(1) by simp
    qed
  qed
  from this [of "count - 1"] assms
  have e: "shift_mounts i count ms = take i ms @ drop (Suc i) (take count ms) @ drop (count - 1) ms"
    by (simp add: shift_mounts_def)
  have l: "length (take i ms @ drop (Suc i) (take count ms)) = count - 1" using assms by simp
  show ?thesis
    unfolding e using l assms by simp
qed

lemma umount_from_spec:
  assumes "vfs_ok v" "no_nul v" "0 \<notin> set path" "i + n = mount_count v"
  shows "umount_from i n path v =
    (if path \<in> fst ` set (drop i (table v))
     then (0, snd (umount_from i n path v)) else (-1, v))
    \<and> table (snd (umount_from i n path v)) = take i (table v) @ remove_mount path (drop i (table v))
    \<and> vfs_ok (snd (umount_from i n path v))
    \<and> root_node (snd (umount_from i n path v)) = root_node v"
  using assms(4)
proof (induction n arbitrary: i)
  case 0
  have "length (table v) = mount_count v" using assms(1) by (simp add: table_def vfs_ok_def)
  with 0 assms(1) show ?case by simp
next
  case (Suc n)
  have len: "length (table v) = mount_count v" "mount_count v \<le> length (mounts v)"
    using assms(1) by (simp_all add: table_def vfs_ok_def)
  have i: "i < length (table v)" using Suc.prems len by simp
  have at: "table v ! i = (mpath (mounts v ! i), mnode (mounts v ! i))"
    using i len by (simp add: table_def)
  have d: "drop i (table v) = table v ! i # drop (Suc i) (table v)"
    using i by (simp add: Cons_nth_drop_Suc)
  have "0 \<notin> set (mpath (mounts v ! i))"
    using assms(2) i at nth_mem [OF i] by (auto simp: no_nul_def)
  then have cmp: "string_compare (mpath (mounts v ! i)) path = 0 \<longleftrightarrow> mpath (mounts v ! i) = path"
    using assms(3) by (rule string_compare_eq)
  show ?case
  proof (cases "mpath (mounts v ! i) = path")
    case True
    let ?v = "v\<lparr>mounts := shift_mounts i (mount_count v) (mounts v), mount_count := mount_count v - 1\<rparr>"
    have u: "umount_from i (Suc n) path v = (0, ?v)" using True cmp by simp
    have sh: "take (mount_count v - 1) (shift_mounts i (mount_count v) (mounts v))
        = take i (mounts v) @ drop (Suc i) (take (mount_count v) (mounts v))"
      and l: "length (shift_mounts i (mount_count v) (mounts v)) = length (mounts v)"
      using shift_mounts_eq [of i "mount_count v" "mounts v"] i len by simp_all
    have "table ?v = take i (table v) @ drop (Suc i) (table v)"
      using i len sh by (simp add: table_def drop_map take_map min_def)
    moreover have "vfs_ok ?v" using assms(1) l by (auto simp: vfs_ok_def)
    ultimately show ?thesis unfolding u using True by (simp add: d at)
  next
    case False
    then have u: "umount_from i (Suc n) path v = umount_from (Suc i) n path v" using cmp by simp
    have ih: "umount_from (Suc i) n path v =
        (if path \<in> fst ` set (drop (Suc i) (table v))
         then (0, snd (umount_from (Suc i) n path v)) else (-1, v))"
      "table (snd (umount_from (Suc i) n path v)) = take (Suc i) (table v) @ remove_mount path (drop (Suc i) (table v))"
      "vfs_ok (snd (umount_from (Suc i) n path v))"
      "root_node (snd (umount_from (Suc i) n path v)) = root_node v"
      using Suc.IH [of "Suc i"] Suc.prems by simp_all
    have mem: "path \<in> fst ` set (drop i (table v)) \<longleftrightarrow> path \<in> fst ` set (drop (Suc i) (table v))"
      using False by (simp add: d at)
    have "take (Suc i) (table v) @ remove_mount path (drop (Suc i) (table v))
        = take i (table v) @ remove_mount path (drop i (table v))"
      using False i by (simp add: d at take_Suc_conv_app_nth)
    with ih show ?thesis unfolding u mem by simp
  qed
qed

lemma vfs_umount_spec:
  assumes "vfs_ok v" "no_nul v" "0 \<notin> set path" "vfs_umount path v = (ret, v')"
  shows "ret = (if path \<in> fst ` set (table v) then 0 else -1)"
    and "table v' = remove_mount path (table v)" and "vfs_ok v'" and "root_node v' = root_node v"
proof -
  from assms(4) have e: "umount_from 0 (mount_count v) path v = (ret, v')" by (simp add: vfs_umount_def)
  note sp = umount_from_spec [OF assms(1,2,3), of 0 "mount_count v"]
  show "ret = (if path \<in> fst ` set (table v) then 0 else -1)"
    using sp e by (cases "path \<in> fst ` set (table v)") simp_all
  show "table v' = remove_mount path (table v)" "vfs_ok v'" "root_node v' = root_node v"
    using sp e by simp_all
qed

lemma slash_no_nul: "0 \<notin> set [slash]"
  by (simp add: slash_def)

lemma vfs_mount_root:
  "vfs_mount [slash] n v = Inr (0, v\<lparr>root_node := n,
     mounts := (mounts v)[0 := \<lparr>mpath = [slash], mnode = n\<rparr>],
     mount_count := (if mount_count v = 0 then 1 else mount_count v)\<rparr>)"
  by (simp add: vfs_mount_def)

text \<open>
  C37: Below the root the mount table is an association list: mounting a path
  of at most 127 bytes appends an entry while there are fewer than eight and
  fails with -1 afterwards, a longer path overflows its slot; unmounting
  removes the first entry for the path and fails with -1 when there is none.
  The root node is not touched, so these mounts never show up in a lookup,
  and unmounting what was just mounted on a fresh path restores the table.
\<close>

theorem vfs_mount_table:
  assumes "vfs_ok v" "no_nul v" "0 \<notin> set path" "path \<noteq> [slash]"
  shows "(case vfs_mount path n v of
      Inl e \<Rightarrow> mount_count v < 8 \<and> 128 \<le> length path
    | Inr (ret, v') \<Rightarrow> root_node v' = root_node v \<and> vfs_ok v'
        \<and> (if mount_count v < 8 then ret = 0 \<and> length path < 128 \<and> table v' = table v @ [(path, n)]
           else ret = -1 \<and> v' = v))
    \<and> (case vfs_umount path v of
      (ret, v') \<Rightarrow> root_node v' = root_node v \<and> vfs_ok v'
        \<and> ret = (if path \<in> fst ` set (table v) then 0 else -1)
        \<and> table v' = remove_mount path (table v))
    \<and> (path \<notin> fst ` set (table v) \<longrightarrow> remove_mount path (table v @ [(path, n)]) = table v)"
proof (intro conjI impI)
  have ne: "string_compare path [slash] \<noteq> 0"
    using string_compare_eq [OF assms(3) slash_no_nul] assms(4) by simp
  have len: "mount_count v \<le> length (mounts v)" "length (mounts v) = 8"
    using assms(1) by (simp_all add: vfs_ok_def MAX_MOUNTS_def)
  show "case vfs_mount path n v of
      Inl e \<Rightarrow> mount_count v < 8 \<and> 128 \<le> length path
    | Inr (ret, v') \<Rightarrow> root_node v' = root_node v \<and> vfs_ok v'
        \<and> (if mount_count v < 8 then ret = 0 \<and> length path < 128 \<and> table v' = table v @ [(path, n)]
           else ret = -1 \<and> v' = v)"
  proof (cases "mount_count v < 8 \<and> length path < 128")
    case True
    let ?v = "v\<lparr>mounts := (mounts v)[mount_count v := \<lparr>mpath = path, mnode = n\<rparr>],
        mount_count := mount_count v + 1\<rparr>"
    have "vfs_mount path n v = Inr (0, ?v)"
      using True ne by (simp add: vfs_mount_def string_copy_def MAX_MOUNTS_def)
    moreover have "table ?v = table v @ [(path, n)]"
      using True len by (simp add: table_def take_Suc_conv_app_nth)
    moreover have "vfs_ok ?v" using True len by (simp add: vfs_ok_def MAX_MOUNTS_def)
    ultimately show ?thesis using True by simp
  next
    case False
    with ne assms(1) show ?thesis
      by (auto simp: vfs_mount_def string_copy_def MAX_MOUNTS_def)
  qed
  show "case vfs_umount path v of
      (ret, v') \<Rightarrow> root_node v' = root_node v \<and> vfs_ok v'
        \<and> ret = (if path \<in> fst ` set (table v) then 0 else -1)
        \<and> table v' = remove_mount path (table v)"
  proof (cases "vfs_umount path v")
    case (Pair ret v')
    note u = vfs_umount_spec [OF assms(1,2,3) Pair]
    show ?thesis unfolding Pair prod.case using u by blast
  qed
  show "remove_mount path (table v @ [(path, n)]) = table v" if "path \<notin> fst ` set (table v)"
    using that by (rule remove_mount_snoc)
qed

definition demo_vfs :: vfs where
  "demo_vfs = \<lparr>root_node = Some (TarNode 0),
     mounts = \<lparr>mpath = [slash], mnode = Some (TarNode 0)\<rparr> # replicate 7 \<lparr>mpath = [], mnode = None\<rparr>,
     mount_count = 1\<rparr>"

lemma demo_vfs_ok: "vfs_ok demo_vfs" "no_nul demo_vfs" "table demo_vfs = [([slash], Some (TarNode 0))]"
  by (simp_all add: vfs_ok_def demo_vfs_def MAX_MOUNTS_def no_nul_def table_def slash_def)

lemma vfs_resolve_path_walks_witness:
  "\<forall>drv st. vfs_resolve_path drv (Some (slash # [slash])) demo_vfs st = Some (Inr (Some (TarNode 0), st))
     \<and> vfs_resolve_path drv (Some (slash # replicate 128 97)) demo_vfs st = Some (Inl Overflow)"
proof (intro allI conjI)
  fix drv and st :: 's
  have r: "root_node demo_vfs = Some (TarNode 0)" by (simp add: demo_vfs_def)
  have e: "components [slash] = []" by (simp add: components_def)
  show "vfs_resolve_path drv (Some (slash # [slash])) demo_vfs st = Some (Inr (Some (TarNode 0), st))"
    using vfs_resolve_path_walks [OF r, where drv = drv and path = "[slash]" and st = st] by (simp add: e)
  have w: "first_part (replicate 128 97) = replicate 128 97"
    by (simp add: takeWhile_eq_all_conv slash_def)
  have c: "components (replicate 128 97) = [] @ replicate 128 97 # []"
    using components_step [of "replicate 128 97"] unfolding w by simp
  show "vfs_resolve_path drv (Some (slash # replicate 128 97)) demo_vfs st = Some (Inl Overflow)"
    using vfs_resolve_path_walks [OF r, where drv = drv and path = "replicate 128 97" and st = st
        and ts = "[]" and t = "replicate 128 97" and us = "[]" and m = "TarNode 0" and st' = st]
    by (simp only: c) simp
qed

lemma vfs_mount_table_witness:
  "fst (vfs_umount (cs ''/mnt'') demo_vfs) = -1
   \<and> remove_mount (cs ''/mnt'') (table demo_vfs @ [(cs ''/mnt'', None)]) = table demo_vfs"
proof -
  have p: "0 \<notin> set (cs ''/mnt'')" "cs ''/mnt'' \<noteq> [slash]"
    by (simp_all add: cs_def slash_def)
  have f: "cs ''/mnt'' \<notin> fst ` set (table demo_vfs)" using p(2) by (simp add: demo_vfs_ok)
  from vfs_mount_table [OF demo_vfs_ok(1,2) p, of None] f show ?thesis
    by (simp add: split_beta)
qed

text \<open>
  Mounting a second file system on the root replaces the first entry of
  the mount table whatever it was, and unmounting the root removes that entry
  and returns 0 but leaves the root node in place: lookups still reach it.
\<close>

theorem vfs_root_mount_asymmetric:
  assumes "vfs_ok v" "no_nul v"
  shows "\<exists>v'. vfs_mount [slash] n v = Inr (0, v') \<and> root_node v' = n
    \<and> table v' = ([slash], n) # tl (table v)
    \<and> (\<exists>v''. vfs_umount [slash] v' = (0, v'') \<and> table v'' = tl (table v) \<and> vfs_root v'' = n)"
proof -
  let ?v = "v\<lparr>root_node := n, mounts := (mounts v)[0 := \<lparr>mpath = [slash], mnode = n\<rparr>],
     mount_count := (if mount_count v = 0 then 1 else mount_count v)\<rparr>"
  have len: "length (mounts v) = 8" "mount_count v \<le> 8"
    using assms(1) by (simp_all add: vfs_ok_def MAX_MOUNTS_def)
  obtain m ms where ms: "mounts v = m # ms" using len by (cases "mounts v") auto
  have t: "table ?v = ([slash], n) # tl (table v)"
    using len ms by (cases "mount_count v") (simp_all add: table_def)
  have ok: "vfs_ok ?v" using assms(1) by (simp add: vfs_ok_def MAX_MOUNTS_def)
  have "e \<in> set (table v)" if "e \<in> set (tl (table v))" for e
    using that by (cases "table v") auto
  then have nn: "no_nul ?v"
    unfolding no_nul_def t using assms(2) by (auto simp: slash_def no_nul_def)
  obtain ret v'' where u: "vfs_umount [slash] ?v = (ret, v'')" by (cases "vfs_umount [slash] ?v")
  note sp = vfs_umount_spec [OF ok nn slash_no_nul u]
  have "ret = 0" "table v'' = tl (table v)" "vfs_root v'' = n"
    using sp by (simp_all add: t vfs_root_def)
  with u t show ?thesis
    unfolding vfs_mount_root by (intro exI [of _ ?v]) simp
qed

lemma vfs_root_mount_asymmetric_witness:
  "\<exists>v'. vfs_mount [slash] (Some Ext2Root) demo_vfs = Inr (0, v')
     \<and> (\<exists>v''. vfs_umount [slash] v' = (0, v'') \<and> vfs_root v'' = Some Ext2Root)"
  using vfs_root_mount_asymmetric [OF demo_vfs_ok(1,2), of "Some Ext2Root"] by blast

section \<open>What a file system promises\<close>

text \<open>
  The directory operations of a file system keep its state well formed, and
  the entries it returns have names that fit their array of 128 bytes.
\<close>

locale fs_contract =
  fixes drv :: "'st drivers" and fs_ok :: "'st \<Rightarrow> bool"
  assumes readdir_keeps: "readdir_call drv d p i st = Some (r, st') \<Longrightarrow> fs_ok st \<Longrightarrow>
      fs_ok st' \<and> (\<forall>de. r = Some de \<longrightarrow> length (dname de) < 128)"
    and finddir_keeps: "finddir_call drv d p nm st = Some (found, st') \<Longrightarrow> fs_ok st \<Longrightarrow> fs_ok st'"
    and mkdir_keeps: "mkdir_call drv d p nm perm st = Some (ret, st') \<Longrightarrow> fs_ok st \<Longrightarrow> fs_ok st'"
    and link_keeps: "link_call drv d p target nm st = Some (ret, st') \<Longrightarrow> fs_ok st \<Longrightarrow> fs_ok st'"
    and unlink_keeps: "unlink_call drv d p nm st = Some (ret, st') \<Longrightarrow> fs_ok st \<Longrightarrow> fs_ok st'"
begin

lemma vfs_readdir_keeps:
  "vfs_readdir drv node i st = Some (r, st') \<Longrightarrow> fs_ok st \<Longrightarrow>
    fs_ok st' \<and> (\<forall>de. r = Some de \<longrightarrow> length (dname de) < 128)"
  by (auto simp: vfs_readdir_def Let_def split: option.splits if_splits dest: readdir_keeps)

lemma vfs_finddir_keeps: "vfs_finddir drv node nm st = Some (r, st') \<Longrightarrow> fs_ok st \<Longrightarrow> fs_ok st'"
  by (auto simp: vfs_finddir_def Let_def split: option.splits if_splits dest: finddir_keeps)

lemma vfs_mkdir_keeps: "vfs_mkdir drv path perm v st = Some (r, st') \<Longrightarrow> fs_ok st \<Longrightarrow> fs_ok st'"
  by (auto simp: vfs_mkdir_def split: option.splits dest: mkdir_keeps)

lemma resolve_from_keeps:
  "resolve_from d n path st = Some (Inr (r, st')) \<Longrightarrow> d = drv \<Longrightarrow> fs_ok st \<Longrightarrow> fs_ok st'"
proof (induction d n path st rule: resolve_from.induct)
  case (1 d n path st)
  note run = 1(3) [unfolded resolve_from.simps [of d n path st]]
  show ?case
  proof (cases "path = []")
    case True
    with run 1(5) show ?thesis by simp
  next
    case path: False
    with run obtain tok rest where t: "read_token 0 path = Inr (tok, rest)" by (auto split: sum.splits)
    show ?thesis
    proof (cases "tok = []")
      case True
      with run path t have "resolve_from d n rest st = Some (Inr (r, st'))" by simp
      from 1(2) [OF path t refl _ this 1(4,5)] True show ?thesis by simp
    next
      case False
      with run path t obtain found st1 where f: "vfs_finddir d (Some n) tok st = Some (found, st1)"
        by (auto split: option.splits)
      with 1(4,5) have ok: "fs_ok st1" using vfs_finddir_keeps by blast
      show ?thesis
      proof (cases found)
        case None
        with run path t False f ok show ?thesis by simp
      next
        case (Some k)
        with run path t False f have "resolve_from d k rest st1 = Some (Inr (r, st'))" by simp
        from 1(1) [OF path t refl False f refl Some this 1(4) ok] show ?thesis .
      qed
    qed
  qed
qed

lemma vfs_resolve_keeps: "vfs_resolve_path drv path v st = Some (Inr (r, st')) \<Longrightarrow> fs_ok st \<Longrightarrow> fs_ok st'"
  by (auto simp: vfs_resolve_path_def split: option.splits list.splits if_splits dest: resolve_from_keeps)

lemma vfs_link_keeps: "vfs_link drv oldp newp v st = Some (Inr (r, st')) \<Longrightarrow> fs_ok st \<Longrightarrow> fs_ok st'"
  by (auto simp: vfs_link_def split: option.splits sum.splits dest!: vfs_resolve_keeps link_keeps)

lemma vfs_unlink_keeps: "vfs_unlink drv path v st = Some (Inr (r, st')) \<Longrightarrow> fs_ok st \<Longrightarrow> fs_ok st'"
  by (auto simp: vfs_unlink_def split: option.splits sum.splits dest!: vfs_resolve_keeps unlink_keeps)

end

text \<open>
  A file system whose directories are small besides: from 64 entries on,
  readdir finds nothing more. ext2 gives no such bound, since a directory
  entry of length zero is found again and again.
\<close>

locale small_fs = fs_contract drv fs_ok
  for drv :: "'st drivers" and fs_ok :: "'st \<Rightarrow> bool" +
  assumes readdir_small: "readdir_call drv d p i st = Some (Some de, st') \<Longrightarrow> fs_ok st \<Longrightarrow> unat i < 64"
begin

lemma vfs_readdir_small: "vfs_readdir drv node i st = Some (Some de, st') \<Longrightarrow> fs_ok st \<Longrightarrow> unat i < 64"
  by (auto simp: vfs_readdir_def Let_def split: option.splits if_splits dest: readdir_small)

end

end
