(* ===== verification/Tar.thy ===== *)
theory Tar
  imports Vfs
begin

text \<open>
  The initial RAM disk, kernel/fs/tar.c: tar_parse builds a table of at most
  32 files from the ustar archive the boot loader left in memory, and the node
  operations read, write and list them in place. Addresses are 32-bit, as
  tar_parse takes them. The archive format is specified by tar_image, and the
  round-trip theorems relate the two.
\<close>

section \<open>State\<close>

definition MAX_TAR_FILES :: nat where "MAX_TAR_FILES = 32"

record tar_file_entry =
  fname :: "u8 list"
  faddress :: u32
  fsize :: u32
  ftype :: u8

record tar_fs =
  file_entries :: "tar_file_entry list"
  file_count :: nat
  tar_nodes :: "vfs_node list"
  tar_dirents :: "dirent list"
  ram :: "32 memory"

definition tar_ok :: "tar_fs \<Rightarrow> bool" where
  "tar_ok s \<longleftrightarrow> length (file_entries s) = MAX_TAR_FILES \<and> file_count s \<le> MAX_TAR_FILES
     \<and> length (tar_nodes s) = MAX_TAR_FILES + 1 \<and> length (tar_dirents s) = MAX_TAR_FILES + 1"

section \<open>Parsing\<close>

text \<open>Offsets of the fields of struct tar_header.\<close>

definition OFFSET_SIZE :: u32 where "OFFSET_SIZE = 124"
definition OFFSET_TYPEFLAG :: u32 where "OFFSET_TYPEFLAG = 156"

text \<open>
  parse_octal from position a with n bytes left; chars are compared as signed
  bytes, so bytes from 128 on are below the digit zero.
\<close>

fun octal_loop :: "32 memory \<Rightarrow> u32 \<Rightarrow> nat \<Rightarrow> u32 \<Rightarrow> u32" where
  "octal_loop m a 0 acc = acc"
| "octal_loop m a (Suc n) acc =
     (if 48 \<le> m a \<and> m a \<le> 55 then octal_loop m (a + 1) n (acc * 8 + (ucast (m a) - 48)) else acc)"

definition parse_octal :: "32 memory \<Rightarrow> u32 \<Rightarrow> nat \<Rightarrow> u32" where
  "parse_octal m val n = octal_loop m val n 0"

text \<open>The name loop: bytes up to a NUL, at most 127 of them.\<close>

definition header_name :: "32 memory \<Rightarrow> u32 \<Rightarrow> u8 list" where
  "header_name m header = takeWhile (\<lambda>c. c \<noteq> 0) (read_bytes m header 127)"

definition header_entry :: "32 memory \<Rightarrow> u32 \<Rightarrow> tar_file_entry" where
  "header_entry m header =
     \<lparr>fname = header_name m header, faddress = header + 512,
      fsize = parse_octal m (header + OFFSET_SIZE) 11, ftype = m (header + OFFSET_TYPEFLAG)\<rparr>"

text \<open>
  The loop over the headers ends at a header whose name is empty; an archive
  whose sizes lead around the address space for ever is the value None.
\<close>

partial_function (option) parse_headers ::
  "32 memory \<Rightarrow> u32 \<Rightarrow> tar_file_entry list \<times> nat \<Rightarrow> (tar_file_entry list \<times> nat) option" where
  "parse_headers m current_address tab =
     (if m current_address = 0 then Some tab
      else
        (let sz = parse_octal m (current_address + OFFSET_SIZE) 11 in
         parse_headers m (current_address + ((sz + 511) div 512 + 1) * 512)
           (case tab of (es, n) \<Rightarrow>
              if n < MAX_TAR_FILES then (es[n := header_entry m current_address], n + 1) else (es, n))))"

definition root_tar_node :: "vfs_node \<Rightarrow> vfs_node" where
  "root_tar_node n = n\<lparr>inode := 0, flags := VFS_DIRECTORY, mask := 0x1ED,
     read_slot := None, write_slot := None, readdir_slot := Some Tar, finddir_slot := Some Tar,
     mkdir_slot := Some Tar, create_slot := Some Tar, link_slot := Some Tar, unlink_slot := Some Tar\<rparr>"

definition file_tar_node :: "nat \<Rightarrow> u32 \<Rightarrow> vfs_node \<Rightarrow> vfs_node" where
  "file_tar_node i sz n = n\<lparr>inode := of_nat i, flags := VFS_FILE, mask := 0x1A4, node_length := sz,
     read_slot := Some Tar, write_slot := Some Tar, readdir_slot := None, finddir_slot := None,
     mkdir_slot := Some Tar, create_slot := Some Tar, link_slot := Some Tar, unlink_slot := Some Tar\<rparr>"

text \<open>One round of the final loop; an empty name leaves the old one in the dirent.\<close>

definition install_file :: "nat \<Rightarrow> tar_fs \<Rightarrow> tar_fs" where
  "install_file i s =
     (let e = file_entries s ! i; d = tar_dirents s ! i in
      s\<lparr>tar_nodes := (tar_nodes s)[i + 1 := file_tar_node i (fsize e) (tar_nodes s ! (i + 1))],
        tar_dirents := (tar_dirents s)[i :=
          \<lparr>dname = (if fname e = [] then dname d else fname e), ino = of_nat (i + 1), dtype = ucast VFS_FILE\<rparr>]\<rparr>)"

definition tar_parse :: "u32 \<Rightarrow> tar_fs \<Rightarrow> (node_ptr \<times> tar_fs) option" where
  "tar_parse address s =
     (case parse_headers (ram s) address (file_entries s, 0) of None \<Rightarrow> None
      | Some (es, n) \<Rightarrow>
          let s = s\<lparr>file_entries := es, file_count := n,
                     tar_nodes := (tar_nodes s)[0 := root_tar_node (tar_nodes s ! 0)]\<rparr>
          in Some (TarNode 0, fold install_file [0 ..< n] s))"

section \<open>Node operations\<close>

definition tar_node_at :: "tar_fs \<Rightarrow> node_ptr \<Rightarrow> vfs_node" where
  "tar_node_at s p = (case p of TarNode i \<Rightarrow> tar_nodes s ! i | _ \<Rightarrow> null_node)"

definition tar_read :: "node_ptr \<Rightarrow> u32 \<Rightarrow> u32 \<Rightarrow> u32 \<Rightarrow> tar_fs \<Rightarrow> u32 \<times> tar_fs" where
  "tar_read node offset sz buffer s =
     (let file_idx = inode (tar_node_at s node) in
      if unat file_idx \<ge> file_count s then (0, s)
      else
        let e = file_entries s ! unat file_idx; file_size = fsize e in
        if offset \<ge> file_size then (0, s)
        else
          let sz = (if offset + sz > file_size then file_size - offset else sz)
          in (sz, s\<lparr>ram := mem_copy (ram s) buffer (faddress e + offset) (unat sz)\<rparr>))"

definition tar_write :: "node_ptr \<Rightarrow> u32 \<Rightarrow> u32 \<Rightarrow> u32 \<Rightarrow> tar_fs \<Rightarrow> u32 \<times> tar_fs" where
  "tar_write node offset sz buffer s =
     (let file_idx = inode (tar_node_at s node) in
      if unat file_idx \<ge> file_count s then (0, s)
      else
        let e = file_entries s ! unat file_idx
        in (sz, s\<lparr>ram := mem_copy (ram s) (faddress e + offset) buffer (unat sz)\<rparr>))"

definition tar_readdir :: "node_ptr \<Rightarrow> u32 \<Rightarrow> tar_fs \<Rightarrow> dirent option" where
  "tar_readdir node index s =
     (if unat index \<ge> file_count s then None else Some (tar_dirents s ! unat index))"

text \<open>
  The comparison loop of tar_finddir on two strings: it stops at the end of
  either, or at a difference, and the names match when both ended.
\<close>

fun names_match :: "u8 list \<Rightarrow> u8 list \<Rightarrow> bool" where
  "names_match (f # fs) (n # ns) = (if f \<noteq> n then False else names_match fs ns)"
| "names_match fs ns = (fs = [] \<and> ns = [])"

fun finddir_from :: "tar_fs \<Rightarrow> nat \<Rightarrow> nat \<Rightarrow> u8 list \<Rightarrow> node_ptr option" where
  "finddir_from s i 0 nm = None"
| "finddir_from s i (Suc k) nm =
     (if names_match (fname (file_entries s ! i)) nm then Some (TarNode (i + 1))
      else finddir_from s (i + 1) k nm)"

definition tar_finddir :: "node_ptr \<Rightarrow> u8 list \<Rightarrow> tar_fs \<Rightarrow> node_ptr option" where
  "tar_finddir node nm s = finddir_from s 0 (file_count s) nm"

definition tar_mkdir :: "node_ptr \<Rightarrow> u8 list \<Rightarrow> u16 \<Rightarrow> int" where
  "tar_mkdir node nm permission = 0"

definition tar_create :: "node_ptr \<Rightarrow> u8 list \<Rightarrow> u16 \<Rightarrow> int" where
  "tar_create node nm permission = 0"

definition tar_link :: "node_ptr \<Rightarrow> node_ptr \<Rightarrow> u8 list \<Rightarrow> int" where
  "tar_link node target nm = 0"

definition tar_unlink :: "node_ptr \<Rightarrow> u8 list \<Rightarrow> int" where
  "tar_unlink node nm = 0"

text \<open>
  The slots filled with the functions of this file. Nothing stores an Ext2
  function in a tar node; calling one is the value None.
\<close>

definition tar_drivers :: "tar_fs drivers" where
  "tar_drivers =
     \<lparr>node_at = tar_node_at,
      read_call = (\<lambda>d n off sz buf s. if d = Tar then Some (tar_read n off sz buf s) else None),
      write_call = (\<lambda>d n off sz buf s. if d = Tar then Some (tar_write n off sz buf s) else None),
      open_call = (\<lambda>d n s. None), close_call = (\<lambda>d n s. None),
      readdir_call = (\<lambda>d n i s. if d = Tar then Some (tar_readdir n i s, s) else None),
      finddir_call = (\<lambda>d n nm s. if d = Tar then Some (tar_finddir n nm s, s) else None),
      mkdir_call = (\<lambda>d n nm p s. if d = Tar then Some (tar_mkdir n nm p, s) else None),
      create_call = (\<lambda>d n nm p s. if d = Tar then Some (tar_create n nm p, s) else None),
      link_call = (\<lambda>d n t nm s. if d = Tar then Some (tar_link n t nm, s) else None),
      unlink_call = (\<lambda>d n nm s. if d = Tar then Some (tar_unlink n nm, s) else None)\<rparr>"

section \<open>Names\<close>

lemma names_match_eq: "names_match fs ns \<longleftrightarrow> fs = ns"
  by (induction fs ns rule: names_match.induct) auto

lemma finddir_from_spec:
  "case finddir_from s i k nm of
     None \<Rightarrow> \<forall>j. i \<le> j \<and> j < i + k \<longrightarrow> fname (file_entries s ! j) \<noteq> nm
   | Some p \<Rightarrow> \<exists>j. p = TarNode (Suc j) \<and> i \<le> j \<and> j < i + k \<and> fname (file_entries s ! j) = nm
       \<and> (\<forall>l. i \<le> l \<and> l < j \<longrightarrow> fname (file_entries s ! l) \<noteq> nm)"
proof (induction k arbitrary: i)
  case 0
  then show ?case by auto
next
  case (Suc k)
  show ?case
  proof (cases "fname (file_entries s ! i) = nm")
    case True
    then show ?thesis by (auto simp: names_match_eq)
  next
    case False
    have f: "finddir_from s i (Suc k) nm = finddir_from s (Suc i) k nm"
      using False by (simp add: names_match_eq)
    show ?thesis
    proof (cases "finddir_from s (Suc i) k nm")
      case None
      with Suc.IH [of "Suc i"] have "\<forall>j. Suc i \<le> j \<and> j < Suc i + k \<longrightarrow> fname (file_entries s ! j) \<noteq> nm"
        by simp
      with False have "\<forall>j. i \<le> j \<and> j < i + Suc k \<longrightarrow> fname (file_entries s ! j) \<noteq> nm"
        by (metis add_Suc_right add_Suc_shift le_neq_implies_less not_less_eq_eq linorder_not_le)
      then show ?thesis unfolding f None by simp
    next
      case (Some p)
      with Suc.IH [of "Suc i"] obtain j where j: "p = TarNode (Suc j)" "Suc i \<le> j" "j < Suc i + k"
          "fname (file_entries s ! j) = nm" "\<forall>l. Suc i \<le> l \<and> l < j \<longrightarrow> fname (file_entries s ! l) \<noteq> nm"
        by auto
      have "fname (file_entries s ! l) \<noteq> nm" if "i \<le> l" "l < j" for l
        using that j(5) False by (cases "l = i") auto
      with j show ?thesis unfolding f Some by auto
    qed
  qed
qed

section \<open>The archive format\<close>

text \<open>
  A member of a ustar archive: the fields tar_parse reads, and the bytes of
  the other header fields (mode and owners, time and checksum, the rest).
\<close>

record tar_member =
  tname :: "u8 list"
  tdata :: "u8 list"
  tflag :: u8
  tmode :: "u8 list"
  ttime :: "u8 list"
  trest :: "u8 list"

definition member_ok :: "tar_member \<Rightarrow> bool" where
  "member_ok t \<longleftrightarrow> tname t \<noteq> [] \<and> length (tname t) \<le> 99 \<and> 0 \<notin> set (tname t)
     \<and> length (tdata t) + 1024 \<le> 2 ^ 32
     \<and> length (tmode t) = 24 \<and> length (ttime t) = 20 \<and> length (trest t) = 355"

primrec octal :: "nat \<Rightarrow> nat \<Rightarrow> u8 list" where
  "octal 0 n = []"
| "octal (Suc k) n = octal k (n div 8) @ [48 + of_nat (n mod 8)]"

definition member_header :: "tar_member \<Rightarrow> u8 list" where
  "member_header t = tname t @ replicate (100 - length (tname t)) 0 @ tmode t
     @ octal 11 (length (tdata t)) @ [0] @ ttime t @ [tflag t] @ trest t"

definition blocks :: "nat \<Rightarrow> nat" where
  "blocks n = (n + 511) div 512"

definition member_image :: "tar_member \<Rightarrow> u8 list" where
  "member_image t = member_header t @ tdata t @ replicate (blocks (length (tdata t)) * 512 - length (tdata t)) 0"

definition tar_image :: "tar_member list \<Rightarrow> u8 list" where
  "tar_image ts = concat (map member_image ts) @ replicate 1024 0"

text \<open>Memory holds a byte string at an address.\<close>

definition holds :: "32 memory \<Rightarrow> u32 \<Rightarrow> u8 list \<Rightarrow> bool" where
  "holds m a bs \<longleftrightarrow> read_bytes m a (length bs) = bs"

lemma holds_append: "holds m a (xs @ ys) \<longleftrightarrow> holds m a xs \<and> holds m (a + of_nat (length xs)) ys"
  by (simp add: holds_def read_bytes_append append_eq_append_conv)

lemma holds_nth: "holds m a bs \<Longrightarrow> i < length bs \<Longrightarrow> m (a + of_nat i) = bs ! i"
  by (metis holds_def nth_read_bytes)

lemma length_octal [simp]: "length (octal k n) = k"
  by (induction k arbitrary: n) simp_all

lemma length_member_header [simp]: "member_ok t \<Longrightarrow> length (member_header t) = 512"
  by (simp add: member_header_def member_ok_def)

lemma blocks_ge: "n \<le> blocks n * 512"
  unfolding blocks_def by linarith

lemma blocks_le: "blocks n * 512 \<le> n + 511"
  unfolding blocks_def by linarith

lemma length_member_image: "member_ok t \<Longrightarrow> length (member_image t) = (blocks (length (tdata t)) + 1) * 512"
  using blocks_ge [of "length (tdata t)"] by (simp add: member_image_def)

subsection \<open>Octal sizes\<close>

fun octal_list :: "u8 list \<Rightarrow> u32 \<Rightarrow> u32" where
  "octal_list [] acc = acc"
| "octal_list (b # bs) acc = (if 48 \<le> b \<and> b \<le> 55 then octal_list bs (acc * 8 + (ucast b - 48)) else acc)"

lemma octal_loop_list: "octal_loop m a n acc = octal_list (read_bytes m a n) acc"
  by (induction n arbitrary: a acc) simp_all

lemma octal_digit:
  assumes "d < 8"
  shows "48 \<le> (48 + of_nat d :: u8)" "(48 + of_nat d :: u8) \<le> 55"
    "ucast (48 + of_nat d :: u8) - 48 = (of_nat d :: u32)"
proof -
  have "d \<in> {0, 1, 2, 3, 4, 5, 6, 7}" using assms by auto
  then show "48 \<le> (48 + of_nat d :: u8)" "(48 + of_nat d :: u8) \<le> 55"
    "ucast (48 + of_nat d :: u8) - 48 = (of_nat d :: u32)"
    by auto
qed

lemma octal_list_octal:
  "octal_list (octal k n @ rest) acc = octal_list rest (acc * 8 ^ k + of_nat (n mod 8 ^ k))"
proof (induction k arbitrary: n rest)
  case 0
  then show ?case by simp
next
  case (Suc k)
  have m: "n mod 8 ^ Suc k = 8 * (n div 8 mod 8 ^ k) + n mod 8"
    by (simp add: mod_mult2_eq)
  have "octal_list (octal (Suc k) n @ rest) acc
      = octal_list rest ((acc * 8 ^ k + of_nat (n div 8 mod 8 ^ k)) * 8 + of_nat (n mod 8))"
    using octal_digit [of "n mod 8"] by (simp add: Suc.IH)
  also have "(acc * 8 ^ k + of_nat (n div 8 mod 8 ^ k)) * 8 + of_nat (n mod 8)
      = acc * 8 ^ Suc k + of_nat (n mod 8 ^ Suc k)"
    unfolding m by (simp add: algebra_simps)
  finally show ?case .
qed

lemma parse_octal_holds:
  assumes "holds m a (octal 11 n)" "n < 2 ^ 32"
  shows "parse_octal m a 11 = of_nat n"
proof -
  have "n < 8 ^ 11" using assms(2) by simp
  then have "octal_list (octal 11 n) 0 = of_nat n"
    using octal_list_octal [of 11 n "[]" 0] by simp
  with assms(1) show ?thesis by (simp add: parse_octal_def octal_loop_list holds_def)
qed

subsection \<open>Parsing an image\<close>

text \<open>The table entries an image at address a stands for.\<close>

fun image_entries :: "u32 \<Rightarrow> tar_member list \<Rightarrow> tar_file_entry list" where
  "image_entries a [] = []"
| "image_entries a (t # ts) =
     \<lparr>fname = tname t, faddress = a + 512, fsize = of_nat (length (tdata t)), ftype = tflag t\<rparr>
     # image_entries (a + of_nat (length (member_image t))) ts"

definition add_entry :: "tar_file_entry \<Rightarrow> tar_file_entry list \<times> nat \<Rightarrow> tar_file_entry list \<times> nat" where
  "add_entry e tab = (case tab of (es, n) \<Rightarrow>
     if n < MAX_TAR_FILES then (es[n := e], n + 1) else (es, n))"

lemma length_image_entries [simp]: "length (image_entries a ts) = length ts"
  by (induction ts arbitrary: a) simp_all

lemma member_fields:
  assumes "holds m a (member_image t)" "member_ok t"
  shows "header_entry m a = \<lparr>fname = tname t, faddress = a + 512, fsize = of_nat (length (tdata t)), ftype = tflag t\<rparr>"
    and "parse_octal m (a + OFFSET_SIZE) 11 = of_nat (length (tdata t))"
    and "m a \<noteq> 0" and "holds m (a + 512) (tdata t)"
proof -
  let ?l = "length (tname t)"
  have ok: "tname t \<noteq> []" "?l \<le> 99" "0 \<notin> set (tname t)" "length (tmode t) = 24" "length (ttime t) = 20"
    "length (trest t) = 355" "length (tdata t) < 2 ^ 32"
    using assms(2) by (simp_all add: member_ok_def)
  have hd: "holds m a (member_header t)" and data: "holds m (a + 512) (tdata t)"
    using assms by (simp_all add: member_image_def holds_append)
  show "holds m (a + 512) (tdata t)" by (rule data)
  have name: "holds m a (tname t @ replicate (100 - ?l) 0)"
    and oct: "holds m (a + 124) (octal 11 (length (tdata t)))"
    using hd ok(2,4,5,6) unfolding member_header_def
    by (simp_all add: holds_append add.assoc of_nat_diff)
  let ?pre = "tname t @ replicate (100 - ?l) 0 @ tmode t @ octal 11 (length (tdata t)) @ [0] @ ttime t"
  have split: "member_header t = ?pre @ ([tflag t] @ trest t)"
    by (simp add: member_header_def)
  have pre: "length ?pre = 156" using ok by simp
  have "holds m (a + of_nat (length ?pre)) ([tflag t] @ trest t)"
    using hd holds_append [of m a ?pre "[tflag t] @ trest t"] unfolding split by blast
  then have "holds m (a + of_nat 156) [tflag t]"
    unfolding pre holds_append [of m "a + of_nat 156" "[tflag t]" "trest t"] by (rule conjunct1)
  then have flag: "holds m (a + 156) [tflag t]" by (simp only: of_nat_numeral)
  show sz: "parse_octal m (a + OFFSET_SIZE) 11 = of_nat (length (tdata t))"
    unfolding OFFSET_SIZE_def by (rule parse_octal_holds [OF oct ok(7)])
  have zero: "100 - ?l = Suc (99 - ?l)" using ok(2) by simp
  have "read_bytes m a 127 = (tname t @ replicate (100 - ?l) 0) @ read_bytes m (a + 100) 27"
    using read_bytes_append [of m a 100 27] name ok(2) by (simp add: holds_def)
  also have "\<dots> = tname t @ 0 # replicate (99 - ?l) 0 @ read_bytes m (a + 100) 27"
    unfolding zero by simp
  finally have "header_name m a = tname t"
    using takeWhile_nul [OF ok(3)] by (simp add: header_name_def)
  moreover have "m (a + 156) = tflag t" using flag by (simp add: holds_def)
  ultimately show "header_entry m a = \<lparr>fname = tname t, faddress = a + 512,
      fsize = of_nat (length (tdata t)), ftype = tflag t\<rparr>"
    using sz by (simp add: header_entry_def OFFSET_TYPEFLAG_def)
  have "m (a + of_nat 0) = (tname t @ replicate (100 - ?l) 0) ! 0"
    by (rule holds_nth [OF name]) (use ok(1) in simp)
  with ok(1,3) show "m a \<noteq> 0" by (cases "tname t") auto
qed

lemma of_nat_div_u32:
  assumes "n < 2 ^ 32"
  shows "(of_nat n :: u32) div 512 = of_nat (n div 512)"
proof (rule unsigned_word_eqI)
  have "n div 512 < 2 ^ 32" using assms by linarith
  then show "unat ((of_nat n :: u32) div 512) = unat (of_nat (n div 512) :: u32)"
    using assms by (simp add: unat_div unat_of_nat_less)
qed

lemma next_header:
  fixes a :: u32
  assumes "member_ok t"
  shows "a + ((of_nat (length (tdata t)) + 511) div 512 + 1) * 512 = a + of_nat (length (member_image t))"
proof -
  let ?n = "length (tdata t)"
  have lt: "?n + 511 < 2 ^ 32" using assms by (simp add: member_ok_def)
  have "(of_nat ?n + 511 :: u32) = of_nat (?n + 511)" by simp
  then have "(of_nat ?n + 511 :: u32) div 512 = of_nat (blocks ?n)"
    by (simp only: of_nat_div_u32 [OF lt] blocks_def)
  then show ?thesis by (simp add: length_member_image [OF assms] algebra_simps)
qed

lemma parse_headers_image:
  "holds m a (tar_image ts) \<Longrightarrow> \<forall>t \<in> set ts. member_ok t \<Longrightarrow>
     parse_headers m a tab = Some (fold add_entry (image_entries a ts) tab)"
proof (induction ts arbitrary: a tab)
  case Nil
  then have "m (a + of_nat 0) = replicate 1024 0 ! 0"
    by (intro holds_nth [of _ _ "replicate 1024 0"]) (simp_all add: tar_image_def)
  then show ?case by (subst parse_headers.simps) simp
next
  case (Cons t ts)
  have ok: "member_ok t" using Cons.prems(2) by simp
  have img: "holds m a (member_image t)"
    and rest: "holds m (a + of_nat (length (member_image t))) (tar_image ts)"
    using Cons.prems(1) by (simp_all add: tar_image_def holds_append)
  note f = member_fields [OF img ok]
  have "parse_headers m a tab = parse_headers m (a + of_nat (length (member_image t)))
      (add_entry (header_entry m a) tab)"
    by (subst parse_headers.simps)
      (simp only: f(2,3) if_False Let_def next_header [OF ok] add_entry_def)
  with Cons.IH [OF rest] Cons.prems(2) show ?case by (simp add: f(1))
qed

lemma add_entries:
  "length es = 32 \<Longrightarrow> n \<le> 32 \<Longrightarrow>
     fold add_entry E (es, n) = (take n es @ take (32 - n) E @ drop (n + length E) es, min 32 (n + length E))"
proof (induction E arbitrary: es n)
  case Nil
  then show ?case by simp
next
  case (Cons e E)
  show ?case
  proof (cases "n < 32")
    case True
    then have "32 - n = Suc (32 - Suc n)" by simp
    with Cons True show ?thesis
      by (simp add: add_entry_def MAX_TAR_FILES_def take_Suc_conv_app_nth)
  next
    case False
    then have "n = 32" using Cons.prems(2) by simp
    have "fold add_entry E (es, 32) = (take 32 es @ take 0 E @ drop (32 + length E) es, 32)"
      using Cons.IH [of es 32] Cons.prems(1) by simp
    moreover have "add_entry e (es, 32) = (es, 32)" by (simp add: add_entry_def MAX_TAR_FILES_def)
    ultimately show ?thesis using \<open>n = 32\<close> Cons.prems(1) by simp
  qed
qed

subsection \<open>The mounted RAM disk\<close>

text \<open>
  What tar_parse establishes: the first 32 members are in the table, each with
  a file node and a directory entry, and node 0 is the directory.
\<close>

definition ramdisk :: "tar_member list \<Rightarrow> u32 \<Rightarrow> tar_fs \<Rightarrow> bool" where
  "ramdisk ts a s \<longleftrightarrow> tar_ok s \<and> file_count s = min 32 (length ts)
     \<and> flags (tar_nodes s ! 0) = VFS_DIRECTORY
     \<and> readdir_slot (tar_nodes s ! 0) = Some Tar \<and> finddir_slot (tar_nodes s ! 0) = Some Tar
     \<and> (\<forall>i < file_count s.
          file_entries s ! i = image_entries a ts ! i
          \<and> inode (tar_nodes s ! (i + 1)) = of_nat i \<and> flags (tar_nodes s ! (i + 1)) = VFS_FILE
          \<and> node_length (tar_nodes s ! (i + 1)) = of_nat (length (tdata (ts ! i)))
          \<and> read_slot (tar_nodes s ! (i + 1)) = Some Tar \<and> write_slot (tar_nodes s ! (i + 1)) = Some Tar
          \<and> tar_dirents s ! i = \<lparr>dname = tname (ts ! i), ino = of_nat (i + 1), dtype = 1\<rparr>)"

lemma install_files:
  "tar_ok s \<Longrightarrow> k \<le> 32 \<Longrightarrow> fold install_file [0 ..< k] s = r \<Longrightarrow>
     tar_ok r \<and> file_count r = file_count s \<and> file_entries r = file_entries s \<and> ram r = ram s
     \<and> tar_nodes r ! 0 = tar_nodes s ! 0
     \<and> (\<forall>i < k. tar_nodes r ! (i + 1) = file_tar_node i (fsize (file_entries s ! i)) (tar_nodes s ! (i + 1))
         \<and> tar_dirents r ! i = \<lparr>dname = (if fname (file_entries s ! i) = [] then dname (tar_dirents s ! i)
              else fname (file_entries s ! i)), ino = of_nat (i + 1), dtype = ucast VFS_FILE\<rparr>)
     \<and> (\<forall>i \<ge> k. tar_nodes r ! (i + 1) = tar_nodes s ! (i + 1) \<and> tar_dirents r ! i = tar_dirents s ! i)"
proof (induction k arbitrary: r)
  case 0
  then show ?case by auto
next
  case (Suc k)
  let ?q = "fold install_file [0 ..< k] s"
  from Suc.IH [OF Suc.prems(1) _ refl] Suc.prems(2)
  have q: "tar_ok ?q" "file_count ?q = file_count s" "file_entries ?q = file_entries s" "ram ?q = ram s"
    "tar_nodes ?q ! 0 = tar_nodes s ! 0"
    "\<And>i. i < k \<Longrightarrow> tar_nodes ?q ! Suc i = file_tar_node i (fsize (file_entries s ! i)) (tar_nodes s ! Suc i)"
    "\<And>i. i < k \<Longrightarrow> tar_dirents ?q ! i = \<lparr>dname = (if fname (file_entries s ! i) = [] then dname (tar_dirents s ! i)
              else fname (file_entries s ! i)), ino = of_nat (i + 1), dtype = ucast VFS_FILE\<rparr>"
    "\<And>i. i \<ge> k \<Longrightarrow> tar_nodes ?q ! Suc i = tar_nodes s ! Suc i"
    "\<And>i. i \<ge> k \<Longrightarrow> tar_dirents ?q ! i = tar_dirents s ! i"
    by auto
  have r: "r = install_file k ?q" using Suc.prems(3) by simp
  have len: "Suc k < length (tar_nodes ?q)" "k < length (tar_dirents ?q)"
    using q(1) Suc.prems(2) by (simp_all add: tar_ok_def MAX_TAR_FILES_def)
  have ok: "tar_ok r" using q(1) by (simp add: r install_file_def Let_def tar_ok_def)
  have nodes: "tar_nodes r = (tar_nodes ?q)[Suc k := file_tar_node k (fsize (file_entries s ! k)) (tar_nodes s ! Suc k)]"
    and dirs: "tar_dirents r = (tar_dirents ?q)[k := \<lparr>dname = (if fname (file_entries s ! k) = [] then dname (tar_dirents s ! k)
              else fname (file_entries s ! k)), ino = of_nat (k + 1), dtype = ucast VFS_FILE\<rparr>]"
    by (simp_all add: r install_file_def Let_def q(3) q(8) q(9))
  have rest: "file_count r = file_count s" "file_entries r = file_entries s" "ram r = ram s"
    by (simp_all add: r install_file_def Let_def q(2,3,4))
  have n0: "tar_nodes r ! 0 = tar_nodes s ! 0" by (simp add: nodes q(5))
  have new: "tar_nodes r ! (i + 1) = file_tar_node i (fsize (file_entries s ! i)) (tar_nodes s ! (i + 1))
         \<and> tar_dirents r ! i = \<lparr>dname = (if fname (file_entries s ! i) = [] then dname (tar_dirents s ! i)
              else fname (file_entries s ! i)), ino = of_nat (i + 1), dtype = ucast VFS_FILE\<rparr>" if "i < Suc k" for i
    using that len q(6,7) by (cases "i = k") (simp_all add: nodes dirs)
  have old: "tar_nodes r ! (i + 1) = tar_nodes s ! (i + 1) \<and> tar_dirents r ! i = tar_dirents s ! i"
    if "i \<ge> Suc k" for i
    using that q(8,9) by (simp add: nodes dirs)
  show ?case using ok rest n0 new old by blast
qed

lemma image_entries_nth:
  "i < length ts \<Longrightarrow> fname (image_entries a ts ! i) = tname (ts ! i)
     \<and> fsize (image_entries a ts ! i) = of_nat (length (tdata (ts ! i)))"
proof (induction ts arbitrary: a i)
  case (Cons t ts)
  then show ?case by (cases i) simp_all
qed simp

lemma image_entries_data:
  "holds m a (tar_image ts) \<Longrightarrow> \<forall>t \<in> set ts. member_ok t \<Longrightarrow> i < length ts \<Longrightarrow>
     holds m (faddress (image_entries a ts ! i)) (tdata (ts ! i))"
proof (induction ts arbitrary: a i)
  case (Cons t ts)
  have img: "holds m a (member_image t)"
    and rest: "holds m (a + of_nat (length (member_image t))) (tar_image ts)"
    using Cons.prems(1) by (simp_all add: tar_image_def holds_append)
  show ?case
  proof (cases i)
    case 0
    with member_fields(4) [OF img] Cons.prems(2) show ?thesis by simp
  next
    case (Suc j)
    with Cons.IH [OF rest, of j] Cons.prems(2,3) show ?thesis by simp
  qed
qed simp

lemma tar_parse_ramdisk:
  assumes "tar_ok s" "holds (ram s) a (tar_image ts)" "\<forall>t \<in> set ts. member_ok t"
  shows "\<exists>s'. tar_parse a s = Some (TarNode 0, s') \<and> ramdisk ts a s' \<and> ram s' = ram s"
proof -
  let ?E = "image_entries a ts" and ?es = "file_entries s" and ?n = "min 32 (length ts)"
  have len: "length ?es = 32" "length (tar_nodes s) = 33" "length (tar_dirents s) = 33"
    using assms(1) by (simp_all add: tar_ok_def MAX_TAR_FILES_def)
  have ph: "parse_headers (ram s) a (?es, 0) = Some (take 32 ?E @ drop (length ts) ?es, ?n)"
    using parse_headers_image [OF assms(2,3), of "(?es, 0)"] add_entries [OF len(1), of 0 ?E] by simp
  let ?s = "s\<lparr>file_entries := take 32 ?E @ drop (length ts) ?es, file_count := ?n,
     tar_nodes := (tar_nodes s)[0 := root_tar_node (tar_nodes s ! 0)]\<rparr>"
  obtain r where r: "fold install_file [0 ..< ?n] ?s = r" by blast
  have ok: "tar_ok ?s" using len by (simp add: tar_ok_def MAX_TAR_FILES_def)
  have n: "?n \<le> 32" by simp
  have parse: "tar_parse a s = Some (TarNode 0, r)" by (simp add: tar_parse_def ph r)
  note inst = install_files [OF ok n r]
  have ent: "file_entries r ! i = ?E ! i" if "i < ?n" for i
    using inst that by (simp add: nth_append)
  have dn: "\<And>i. i < ?n \<Longrightarrow> tname (ts ! i) \<noteq> []"
    using assms(3) by (auto simp: member_ok_def)
  have node: "tar_nodes r ! (i + 1) = file_tar_node i (fsize (?E ! i)) (tar_nodes s ! (i + 1))"
    and dir: "tar_dirents r ! i = \<lparr>dname = tname (ts ! i), ino = of_nat (i + 1), dtype = 1\<rparr>" if "i < ?n" for i
  proof -
    have e: "file_entries ?s ! i = ?E ! i" using that by (simp add: nth_append)
    from inst that have "tar_nodes r ! (i + 1) = file_tar_node i (fsize (file_entries ?s ! i)) (tar_nodes ?s ! (i + 1))"
      by blast
    then show "tar_nodes r ! (i + 1) = file_tar_node i (fsize (?E ! i)) (tar_nodes s ! (i + 1))"
      unfolding e by simp
    from inst that have "tar_dirents r ! i = \<lparr>dname = (if fname (file_entries ?s ! i) = [] then dname (tar_dirents ?s ! i)
              else fname (file_entries ?s ! i)), ino = of_nat (i + 1), dtype = ucast VFS_FILE\<rparr>"
      by blast
    then show "tar_dirents r ! i = \<lparr>dname = tname (ts ! i), ino = of_nat (i + 1), dtype = 1\<rparr>"
      unfolding e using image_entries_nth [of i ts a] dn [OF that] that by (simp add: VFS_FILE_def)
  qed
  have root: "tar_nodes r ! 0 = root_tar_node (tar_nodes s ! 0)"
    using inst len by simp
  have fields: "tar_ok r" "file_count r = ?n" "ram r = ram s" using inst by simp_all
  have "ramdisk ts a r"
    unfolding ramdisk_def fields(2) using fields(1) ent node dir image_entries_nth [where ts = ts and a = a]
    by (auto simp: root root_tar_node_def file_tar_node_def)
  with parse fields(3) show ?thesis by blast
qed

section \<open>Lookup and reading\<close>

lemma image_entries_region:
  "\<forall>t \<in> set ts. member_ok t \<Longrightarrow> i < length ts \<Longrightarrow>
     \<exists>k. faddress (image_entries a ts ! i) = a + of_nat k
       \<and> k + length (tdata (ts ! i)) \<le> length (tar_image ts)"
proof (induction ts arbitrary: a i)
  case (Cons t ts)
  have len: "length (tdata t) + 512 \<le> length (member_image t)"
    using length_member_image [of t] blocks_ge [of "length (tdata t)"] Cons.prems(1) by simp
  show ?case
  proof (cases i)
    case 0
    with len show ?thesis by (intro exI [of _ 512]) (simp add: tar_image_def)
  next
    case (Suc j)
    from Cons.IH [of j "a + of_nat (length (member_image t))"] Cons.prems Suc
    obtain k where "faddress (image_entries (a + of_nat (length (member_image t))) ts ! j)
        = a + of_nat (length (member_image t)) + of_nat k"
      "k + length (tdata (ts ! j)) \<le> length (tar_image ts)"
      by auto
    with Suc show ?thesis
      by (intro exI [of _ "length (member_image t) + k"]) (simp add: tar_image_def add.assoc)
  qed
qed simp

lemma finddir_ramdisk:
  assumes "ramdisk ts a s" "i < length ts" "i < 32" "\<forall>j < i. tname (ts ! j) \<noteq> tname (ts ! i)"
  shows "tar_finddir n (tname (ts ! i)) s = Some (TarNode (i + 1))"
proof -
  have count: "file_count s = min 32 (length ts)" using assms(1) by (simp add: ramdisk_def)
  have nm: "fname (file_entries s ! j) = tname (ts ! j)" if "j < min 32 (length ts)" for j
    using assms(1) that image_entries_nth [of j ts a] by (simp add: ramdisk_def)
  note sp = finddir_from_spec [where s = s and i = 0 and k = "file_count s" and nm = "tname (ts ! i)"]
  show ?thesis
  proof (cases "finddir_from s 0 (file_count s) (tname (ts ! i))")
    case None
    with sp nm [of i] assms(2,3) show ?thesis by (auto simp: count)
  next
    case (Some p)
    with sp obtain j where j: "p = TarNode (Suc j)" "j < file_count s" "fname (file_entries s ! j) = tname (ts ! i)"
        "\<forall>l < j. fname (file_entries s ! l) \<noteq> tname (ts ! i)"
      by auto
    have "j = i"
    proof (cases j i rule: linorder_cases)
      case less
      then show ?thesis using j(2,3) nm [of j] assms(4) by (auto simp: count)
    next
      case greater
      then show ?thesis using j(4) nm [of i] assms(2,3) by auto
    qed
    with Some j(1) show ?thesis by (simp add: tar_finddir_def)
  qed
qed

lemma resolve_ramdisk:
  assumes "ramdisk ts a s" "i < length ts" "i < 32" "\<forall>j < i. tname (ts ! j) \<noteq> tname (ts ! i)"
    and "member_ok (ts ! i)" "slash \<notin> set (tname (ts ! i))" "root_node v = Some (TarNode 0)"
  shows "vfs_resolve_path tar_drivers (Some (slash # tname (ts ! i))) v s = Some (Inr (Some (TarNode (i + 1)), s))"
proof -
  let ?nm = "tname (ts ! i)"
  have ne: "?nm \<noteq> []" and len: "length ?nm < 128" using assms(5) by (auto simp: member_ok_def)
  have f: "vfs_finddir tar_drivers (Some (TarNode 0)) ?nm s = Some (Some (TarNode (i + 1)), s)"
    using assms(1) finddir_ramdisk [OF assms(1-4)]
    by (simp add: vfs_finddir_def tar_drivers_def tar_node_at_def ramdisk_def VFS_DIRECTORY_def)
  have "resolve_from tar_drivers (TarNode 0) ?nm s = map_option Inr (walk tar_drivers (TarNode 0) (components ?nm) s)"
    by (rule resolve_from_walk) (simp add: components_single [OF ne assms(6)] len)
  then show ?thesis
    using f ne by (simp add: vfs_resolve_path_def assms(7) components_single [OF ne assms(6)])
qed

lemma region_disjoint_sub:
  "A \<inter> B = {} \<Longrightarrow> C \<subseteq> A \<Longrightarrow> D \<subseteq> B \<Longrightarrow> C \<inter> D = {}"
  by blast

lemma holds_drop_read:
  assumes "holds m a bs" "off + n \<le> length bs"
  shows "read_bytes m (a + of_nat off) n = take n (drop off bs)"
proof (rule nth_equalityI)
  fix i
  assume "i < length (read_bytes m (a + of_nat off) n)"
  then have i: "i < n" by simp
  have "m (a + of_nat (off + i)) = bs ! (off + i)" by (rule holds_nth [OF assms(1)]) (use i assms(2) in simp)
  with i assms(2) show "read_bytes m (a + of_nat off) n ! i = take n (drop off bs) ! i"
    by (simp add: add.assoc)
qed (use assms(2) in simp)

text \<open>tar_read with no wrap-around, on a file whose bytes are in memory.\<close>

lemma tar_read_data:
  assumes "ramdisk ts a s" "i < length ts" "i < 32" "holds (ram s) (faddress (file_entries s ! i)) (tdata (ts ! i))"
    and "length (tdata (ts ! i)) < 2 ^ 32" "unat offset + unat sz < 2 ^ 32"
    and "n = min (unat sz) (length (tdata (ts ! i)) - unat offset)"
    and "region buffer n \<inter> region (faddress (file_entries s ! i) + offset) n = {}"
  shows "\<exists>s'. tar_read (TarNode (i + 1)) offset sz buffer s = (of_nat n, s')
    \<and> read_bytes (ram s') buffer n = take (unat sz) (drop (unat offset) (tdata (ts ! i)))
    \<and> (\<forall>x. x \<notin> region buffer n \<longrightarrow> ram s' x = ram s x)"
proof -
  let ?e = "file_entries s ! i" and ?d = "tdata (ts ! i)"
  have i: "i < file_count s" using assms(1,2,3) by (simp add: ramdisk_def)
  have ino: "inode (tar_node_at s (TarNode (Suc i))) = of_nat i" and sz_e: "fsize ?e = of_nat (length ?d)"
    using assms(1) i image_entries_nth [OF assms(2), of a] by (simp_all add: ramdisk_def tar_node_at_def)
  have iu: "unat (of_nat i :: u32) = i" by (rule unat_of_nat_less) (use assms(3) in simp)
  have fs: "unat (fsize ?e) = length ?d" unfolding sz_e by (rule unat_of_nat_less) (use assms(5) in simp)
  have nlt: "n \<le> 2 ^ 32" using assms(6,7) by simp
  have small: "n < 2 ^ 32" using assms(5,7) by simp
  show ?thesis
  proof (cases "length ?d \<le> unat offset")
    case True
    then have "n = 0" using assms(7) by simp
    moreover have "offset \<ge> fsize ?e" using True by (simp add: word_le_nat_alt fs)
    ultimately show ?thesis using i iu ino True by (simp add: tar_read_def Let_def)
  next
    case False
    have lt: "\<not> offset \<ge> fsize ?e" using False by (simp add: word_le_nat_alt fs)
    have sum: "unat (offset + sz) = unat offset + unat sz"
      using assms(6) by (simp add: unat_word_ariths)
    have clip: "(if offset + sz > fsize ?e then fsize ?e - offset else sz) = of_nat n"
    proof (cases "offset + sz > fsize ?e")
      case True
      then have "length ?d < unat offset + unat sz" by (simp add: word_less_nat_alt fs sum)
      then have "n = length ?d - unat offset" using assms(7) by simp
      moreover have "unat (fsize ?e - offset) = length ?d - unat offset"
        using False by (simp add: unat_sub fs word_le_nat_alt)
      ultimately have "unat (fsize ?e - offset) = n" by simp
      then have "fsize ?e - offset = of_nat n" by (rule word_of_unat)
      with True show ?thesis by simp
    next
      case nclip: False
      then have "unat offset + unat sz \<le> length ?d" by (simp add: word_less_nat_alt fs sum)
      then have "n = unat sz" using assms(7) by simp
      with nclip show ?thesis by simp
    qed
    have un: "unat (of_nat n :: u32) = n" by (rule unat_of_nat_less) (use small in simp)
    have "tar_read (TarNode (i + 1)) offset sz buffer s
        = (of_nat n, s\<lparr>ram := mem_copy (ram s) buffer (faddress ?e + offset) n\<rparr>)"
      using i lt clip un by (simp add: tar_read_def ino iu Let_def)
    moreover have "mem_copy (ram s) buffer (faddress ?e + offset) n
        = write_bytes (ram s) buffer (read_bytes (ram s) (faddress ?e + offset) n)"
      by (rule mem_copy_write) (use nlt assms(8) in simp_all)
    moreover have "read_bytes (ram s) (faddress ?e + offset) n = take (unat sz) (drop (unat offset) ?d)"
    proof -
      have "read_bytes (ram s) (faddress ?e + of_nat (unat offset)) n = take n (drop (unat offset) ?d)"
        by (rule holds_drop_read [OF assms(4)]) (use assms(7) False in simp)
      moreover have "take n (drop (unat offset) ?d) = take (unat sz) (drop (unat offset) ?d)"
        unfolding assms(7) by (cases "unat sz \<le> length ?d - unat offset") simp_all
      ultimately show ?thesis by simp
    qed
    moreover have "length (take (unat sz) (drop (unat offset) ?d)) = n" using assms(7) by (simp add: min.commute)
    ultimately show ?thesis
      using nlt by (simp add: read_write_bytes_same write_bytes_outside)
  qed
qed

section \<open>Properties\<close>

lemma vfs_read_tar:
  "ramdisk ts a s \<Longrightarrow> i < length ts \<Longrightarrow> i < 32 \<Longrightarrow>
     vfs_read tar_drivers (Some (TarNode (i + 1))) offset sz buffer s
     = Some (tar_read (TarNode (i + 1)) offset sz buffer s)"
  by (simp add: vfs_read_def tar_drivers_def tar_node_at_def ramdisk_def)

text \<open>
  C5: A file of the initial RAM disk reads back as it was archived: when
  memory holds a ustar image, tar_parse mounts it (its first 32 members),
  vfs_resolve_path finds each member by its absolute path (the first one, for
  duplicate names) and vfs_read returns and stores exactly the bytes of the
  member at the requested offset, clipped to the file, touching nothing but
  the buffer. The request must not wrap around and the buffer must lie outside
  the image.
\<close>

theorem initrd_file_reads_back:
  assumes "tar_ok s" "holds (ram s) a (tar_image ts)" "\<forall>t \<in> set ts. member_ok t"
    and "length (tar_image ts) \<le> 2 ^ 32"
    and "i < length ts" "i < 32" "\<forall>j < i. tname (ts ! j) \<noteq> tname (ts ! i)" "slash \<notin> set (tname (ts ! i))"
    and "root_node v = Some (TarNode 0)"
    and "unat offset + unat sz < 2 ^ 32"
    and "region buffer (unat sz) \<inter> region a (length (tar_image ts)) = {}"
    and "n = min (unat sz) (length (tdata (ts ! i)) - unat offset)"
  shows "\<exists>s' s''. tar_parse a s = Some (TarNode 0, s')
    \<and> vfs_resolve_path tar_drivers (Some (slash # tname (ts ! i))) v s' = Some (Inr (Some (TarNode (i + 1)), s'))
    \<and> vfs_read tar_drivers (Some (TarNode (i + 1))) offset sz buffer s' = Some (of_nat n, s'')
    \<and> read_bytes (ram s'') buffer n = take (unat sz) (drop (unat offset) (tdata (ts ! i)))
    \<and> (\<forall>x. x \<notin> region buffer n \<longrightarrow> ram s'' x = ram s x)"
proof -
  let ?d = "tdata (ts ! i)"
  from tar_parse_ramdisk [OF assms(1,2,3)] obtain s'
    where parse: "tar_parse a s = Some (TarNode 0, s')" and rd: "ramdisk ts a s'" and ram: "ram s' = ram s"
    by blast
  have ok: "member_ok (ts ! i)" using assms(3,5) by simp
  then have dlen: "length ?d < 2 ^ 32" by (simp add: member_ok_def)
  have e: "file_entries s' ! i = image_entries a ts ! i"
    using rd assms(5,6) by (simp add: ramdisk_def)
  have data: "holds (ram s') (faddress (file_entries s' ! i)) ?d"
    unfolding e ram by (rule image_entries_data [OF assms(2,3,5)])
  obtain k where k: "faddress (image_entries a ts ! i) = a + of_nat k" "k + length ?d \<le> length (tar_image ts)"
    using image_entries_region [OF assms(3,5), of a] by blast
  have disj: "region buffer n \<inter> region (faddress (file_entries s' ! i) + offset) n = {}"
  proof (cases "n = 0")
    case True
    then show ?thesis by simp
  next
    case False
    with assms(12) have "n \<le> length ?d - unat offset" "unat offset < length ?d" by simp_all
    with k(2) have "k + unat offset + n \<le> length (tar_image ts)" by linarith
    then have "region (a + of_nat (k + unat offset)) n \<subseteq> region a (length (tar_image ts))"
      by (rule region_offset) (use assms(4) in simp)
    moreover have "a + of_nat (k + unat offset) = faddress (file_entries s' ! i) + offset"
      by (simp add: e k(1) add.assoc)
    moreover have "region buffer n \<subseteq> region buffer (unat sz)" by (rule region_mono) (simp add: assms(12))
    ultimately show ?thesis using region_disjoint_sub [OF assms(11)] by metis
  qed
  from tar_read_data [OF rd assms(5,6) data dlen assms(10,12) disj] obtain s''
    where r: "tar_read (TarNode (i + 1)) offset sz buffer s' = (of_nat n, s'')"
      "read_bytes (ram s'') buffer n = take (unat sz) (drop (unat offset) ?d)"
      "\<forall>x. x \<notin> region buffer n \<longrightarrow> ram s'' x = ram s' x"
    by blast
  show ?thesis
    using parse resolve_ramdisk [OF rd assms(5,6,7) ok assms(8,9)]
      vfs_read_tar [OF rd assms(5,6), of offset sz buffer] r ram by auto
qed

text \<open>An archive of two files, at 0x100000.\<close>

definition demo_member :: "u8 list \<Rightarrow> u8 list \<Rightarrow> tar_member" where
  "demo_member nm dat = \<lparr>tname = nm, tdata = dat, tflag = 48, tmode = replicate 24 48,
     ttime = replicate 20 48, trest = replicate 355 0\<rparr>"

definition demo_archive :: "tar_member list" where
  "demo_archive = [demo_member (cs ''init'') (cs ''ELF''), demo_member (cs ''motd'') (cs ''hello'')]"

definition demo_tar :: tar_fs where
  "demo_tar = \<lparr>file_entries = replicate 32 \<lparr>fname = [], faddress = 0, fsize = 0, ftype = 0\<rparr>,
     file_count = 0, tar_nodes = replicate 33 null_node,
     tar_dirents = replicate 33 \<lparr>dname = [], ino = 0, dtype = 0\<rparr>,
     ram = write_bytes (\<lambda>x. 0) 0x100000 (tar_image demo_archive)\<rparr>"

lemma demo_archive_ok: "\<forall>t \<in> set demo_archive. member_ok t"
  by (simp add: demo_archive_def demo_member_def member_ok_def cs_def)

lemma demo_archive_length: "length (tar_image demo_archive) = 3072"
proof -
  have "length (member_image t) = 1024" if "t \<in> set demo_archive" for t
  proof -
    have "blocks (length (tdata t)) = 1"
      using that by (auto simp: demo_archive_def demo_member_def cs_def blocks_def)
    with length_member_image [of t] demo_archive_ok that show ?thesis by simp
  qed
  then show ?thesis by (simp add: tar_image_def demo_archive_def)
qed

lemma demo_tar_ok: "tar_ok demo_tar"
  by (simp add: tar_ok_def demo_tar_def MAX_TAR_FILES_def)

lemma demo_tar_holds: "holds (ram demo_tar) 0x100000 (tar_image demo_archive)"
  unfolding holds_def demo_tar_def
  by (simp add: read_write_bytes_same demo_archive_length)

lemma initrd_file_reads_back_witness:
  "\<exists>s' s''. tar_parse 0x100000 demo_tar = Some (TarNode 0, s')
    \<and> vfs_read tar_drivers (Some (TarNode 2)) 1 100 0x400000 s' = Some (4, s'')
    \<and> read_bytes (ram s'') 0x400000 4 = cs ''ello''"
proof -
  have len: "length demo_archive = 2" and d1: "tdata (demo_archive ! 1) = cs ''hello''"
    and n1: "tname (demo_archive ! 1) = cs ''motd''" and n0: "tname (demo_archive ! 0) = cs ''init''"
    by (simp_all add: demo_archive_def demo_member_def)
  have "\<not> (unat (x - 0x400000) < 100 \<and> unat (x - 0x100000) < 3072)" for x :: u32
  proof
    assume a: "unat (x - 0x400000) < 100 \<and> unat (x - 0x100000) < 3072"
    have "x - 0x100000 = (x - 0x400000) + of_nat 0x300000" by simp
    moreover have "unat ((x - 0x400000) + of_nat 0x300000) = unat (x - 0x400000) + 0x300000"
      by (rule unat_add_of_nat) (use a in simp)
    ultimately show False using a by simp
  qed
  then have disj: "region (0x400000 :: u32) (unat (100 :: u32)) \<inter> region 0x100000 (length (tar_image demo_archive)) = {}"
    unfolding demo_archive_length by (auto simp: region_def)
  have "\<exists>s' s''. tar_parse 0x100000 demo_tar = Some (TarNode 0, s')
    \<and> vfs_resolve_path tar_drivers (Some (slash # tname (demo_archive ! 1))) demo_vfs s' = Some (Inr (Some (TarNode (1 + 1)), s'))
    \<and> vfs_read tar_drivers (Some (TarNode (1 + 1))) 1 100 0x400000 s' = Some (of_nat 4, s'')
    \<and> read_bytes (ram s'') 0x400000 4 = take (unat (100 :: u32)) (drop (unat (1 :: u32)) (tdata (demo_archive ! 1)))
    \<and> (\<forall>x. x \<notin> region 0x400000 4 \<longrightarrow> ram s'' x = ram demo_tar x)"
  proof (rule initrd_file_reads_back [OF demo_tar_ok demo_tar_holds demo_archive_ok])
    show "\<forall>j < 1. tname (demo_archive ! j) \<noteq> tname (demo_archive ! 1)"
      by (simp add: n0 n1 [unfolded One_nat_def] cs_def)
    show "slash \<notin> set (tname (demo_archive ! 1))" by (simp add: n1 [unfolded One_nat_def] cs_def slash_def)
    show "root_node demo_vfs = Some (TarNode 0)" by (simp add: demo_vfs_def)
    show "4 = min (unat (100 :: u32)) (length (tdata (demo_archive ! 1)) - unat (1 :: u32))"
      by (simp add: d1 [unfolded One_nat_def] cs_def)
  qed (use disj len in \<open>simp_all add: demo_archive_length\<close>)
  then have "\<exists>s' s''. tar_parse 0x100000 demo_tar = Some (TarNode 0, s')
    \<and> vfs_read tar_drivers (Some (TarNode 2)) 1 100 0x400000 s' = Some (of_nat 4, s'')
    \<and> read_bytes (ram s'') 0x400000 4 = take (unat (100 :: u32)) (drop (unat (1 :: u32)) (cs ''hello''))"
    unfolding d1 one_add_one by blast
  then show ?thesis by (simp add: cs_def)
qed

text \<open>
  The length check of tar_read is on a 32-bit sum: for an offset inside
  the file and a size that makes the sum wrap around to at most the file size,
  the request is not clipped, and more bytes are copied than the file has left.
\<close>

theorem tar_read_wraps:
  assumes "unat (inode (tar_node_at s node)) < file_count s"
    and "e = file_entries s ! unat (inode (tar_node_at s node))"
    and "offset < fsize e" "2 ^ 32 \<le> unat offset + unat sz" "unat offset + unat sz - 2 ^ 32 \<le> unat (fsize e)"
  shows "fst (tar_read node offset sz buffer s) = sz \<and> unat (fsize e) - unat offset < unat sz
    \<and> ram (snd (tar_read node offset sz buffer s)) = mem_copy (ram s) buffer (faddress e + offset) (unat sz)"
proof -
  have o: "unat offset < 2 ^ 32" "unat sz < 2 ^ 32" "unat (fsize e) < 2 ^ 32"
    using unsigned_less [of offset] unsigned_less [of sz] unsigned_less [of "fsize e"] by simp_all
  then have "(unat offset + unat sz) mod 2 ^ 32 = unat offset + unat sz - 2 ^ 32"
    using assms(4) by (simp add: mod_if)
  then have "unat (offset + sz) = unat offset + unat sz - 2 ^ 32"
    by (simp add: unat_word_ariths)
  with assms(5) have c: "\<not> offset + sz > fsize e" by (simp add: word_less_nat_alt)
  have l: "\<not> offset \<ge> fsize e" using assms(3) by simp
  have idx: "\<not> unat (inode (tar_node_at s node)) \<ge> file_count s" using assms(1) by simp
  have "unat (fsize e) - unat offset < unat sz" using assms(4) o by linarith
  with c l idx show ?thesis by (simp add: tar_read_def Let_def assms(2) del: not_less not_le)
qed

definition one_file :: "u32 \<Rightarrow> tar_fs" where
  "one_file sz = demo_tar\<lparr>file_count := 1,
     file_entries := [\<lparr>fname = [97], faddress = 0x100200, fsize = sz, ftype = 48\<rparr>]\<rparr>"

lemma one_file_facts [simp]:
  "inode (tar_node_at (one_file sz) (TarNode (Suc 0))) = 0" "file_count (one_file sz) = 1"
  "file_entries (one_file sz) = [\<lparr>fname = [97], faddress = 0x100200, fsize = sz, ftype = 48\<rparr>]"
  by (simp_all add: one_file_def tar_node_at_def demo_tar_def null_node_def)

lemma tar_read_wraps_witness:
  "fst (tar_read (TarNode 1) 4 0xFFFFFFFC 0x400000 (one_file 8)) = 0xFFFFFFFC"
  using tar_read_wraps [where node = "TarNode 1" and s = "one_file 8" and offset = 4 and sz = "0xFFFFFFFC"
      and buffer = "0x400000" and e = "file_entries (one_file 8) ! 0"]
  by simp

text \<open>
  tar_write has no bound at all: for any file of the table it stores the
  whole request at the file's address plus the offset and reports it written,
  even past the end of the file, where the next header of the archive lies.
  What was written inside the file reads back.
\<close>

theorem tar_write_unbounded:
  assumes "unat (inode (tar_node_at s node)) < file_count s"
    and "e = file_entries s ! unat (inode (tar_node_at s node))"
    and "region (faddress e + offset) (unat sz) \<inter> region buffer (unat sz) = {}"
  shows "\<exists>s'. tar_write node offset sz buffer s = (sz, s')
    \<and> read_bytes (ram s') (faddress e + offset) (unat sz) = read_bytes (ram s) buffer (unat sz)
    \<and> file_entries s' = file_entries s
    \<and> (unat offset + unat sz \<le> unat (fsize e) \<and> sz \<noteq> 0
         \<and> region dest (unat sz) \<inter> region (faddress e + offset) (unat sz) = {} \<longrightarrow>
       (\<exists>s''. tar_read node offset sz dest s' = (sz, s'')
         \<and> read_bytes (ram s'') dest (unat sz) = read_bytes (ram s) buffer (unat sz)))"
proof -
  have big: "unat sz \<le> 2 ^ LENGTH(32)" by (rule less_imp_le [OF unsigned_less])
  let ?m = "write_bytes (ram s) (faddress e + offset) (read_bytes (ram s) buffer (unat sz))"
  let ?s = "s\<lparr>ram := ?m\<rparr>"
  have idx: "\<not> file_count s \<le> unat (inode (tar_node_at s node))" using assms(1) by simp
  have w: "tar_write node offset sz buffer s = (sz, ?s)"
    using idx mem_copy_write [OF big assms(3), of "ram s"]
    by (simp add: tar_write_def Let_def assms(2) [symmetric] del: not_le)
  have stored: "read_bytes ?m (faddress e + offset) (unat sz) = read_bytes (ram s) buffer (unat sz)"
    using big by (simp add: read_write_bytes_same)
  have "\<exists>s''. tar_read node offset sz dest ?s = (sz, s'')
      \<and> read_bytes (ram s'') dest (unat sz) = read_bytes (ram s) buffer (unat sz)"
    if fit: "unat offset + unat sz \<le> unat (fsize e)" and nz: "sz \<noteq> 0"
      and disj: "region dest (unat sz) \<inter> region (faddress e + offset) (unat sz) = {}"
  proof -
    have pos: "0 < unat sz" using nz by (simp add: unat_gt_0)
    have sum: "unat (offset + sz) = unat offset + unat sz"
      using fit unat_u32 [of "fsize e"] by (simp add: unat_word_ariths)
    have c: "\<not> offset + sz > fsize e" using fit by (simp add: word_less_nat_alt sum)
    have l: "\<not> offset \<ge> fsize e" using fit pos by (simp add: word_le_nat_alt)
    have n: "tar_node_at ?s node = tar_node_at s node" by (simp add: tar_node_at_def split: node_ptr.split)
    have "tar_read node offset sz dest ?s = (sz, ?s\<lparr>ram := mem_copy ?m dest (faddress e + offset) (unat sz)\<rparr>)"
      using idx c l by (simp add: tar_read_def Let_def n assms(2) [symmetric] del: not_le not_less)
    then show ?thesis
      using mem_copy_write [OF big disj, of ?m] stored big by (simp add: read_write_bytes_same)
  qed
  with w stored show ?thesis by (intro exI [of _ ?s]) simp
qed

lemma tar_write_unbounded_witness:
  "\<exists>s'. tar_write (TarNode 1) 0 600 0x400000 (one_file 3) = (600, s')
    \<and> read_bytes (ram s') 0x100200 600 = read_bytes (ram (one_file 3)) 0x400000 600"
proof -
  have "\<not> (unat (x - 0x400000) < 600 \<and> unat (x - 0x100200) < 600)" for x :: u32
  proof
    assume a: "unat (x - 0x400000) < 600 \<and> unat (x - 0x100200) < 600"
    have "x - 0x100200 = (x - 0x400000) + of_nat 0x2FFE00" by simp
    moreover have "unat ((x - 0x400000) + of_nat 0x2FFE00) = unat (x - 0x400000) + 0x2FFE00"
      by (rule unat_add_of_nat) (use a in simp)
    ultimately show False using a by simp
  qed
  then have "region (0x100200 :: u32) 600 \<inter> region 0x400000 600 = {}"
    by (auto simp: region_def)
  then show ?thesis
    using tar_write_unbounded [where node = "TarNode 1" and s = "one_file 3" and offset = 0 and sz = 600
        and buffer = "0x400000" and e = "file_entries (one_file 3) ! 0"]
    by auto
qed

text \<open>
  Reading the root directory of the RAM disk lists the first 32 members in
  archive order with inode numbers from 1, although the file nodes themselves
  are numbered from 0, and ends after them; names that no member has are not
  found, and a member whose name contains a slash cannot be opened by path.
\<close>

theorem initrd_listing:
  assumes "ramdisk ts a s"
  shows "vfs_readdir tar_drivers (Some (TarNode 0)) index s =
      Some (if unat index < min 32 (length ts)
        then Some \<lparr>dname = tname (ts ! unat index), ino = index + 1, dtype = 1\<rparr> else None, s)
    \<and> (\<forall>i < min 32 (length ts). inode (tar_node_at s (TarNode (i + 1))) = of_nat i)
    \<and> (components path = t # us \<and> t \<notin> tname ` set ts \<and> (\<forall>t \<in> set (components path). length t < 128)
        \<and> root_node v = Some (TarNode 0) \<longrightarrow>
       vfs_resolve_path tar_drivers (Some (slash # path)) v s = Some (Inr (None, s)))"
proof (intro conjI impI)
  have count: "file_count s = min 32 (length ts)" using assms by (simp add: ramdisk_def)
  have "tar_dirents s ! unat index = \<lparr>dname = tname (ts ! unat index), ino = index + 1, dtype = 1\<rparr>"
    if "unat index < min 32 (length ts)"
    using assms that by (simp add: ramdisk_def)
  with assms count show "vfs_readdir tar_drivers (Some (TarNode 0)) index s =
      Some (if unat index < min 32 (length ts)
        then Some \<lparr>dname = tname (ts ! unat index), ino = index + 1, dtype = 1\<rparr> else None, s)"
    by (auto simp: vfs_readdir_def tar_drivers_def tar_node_at_def ramdisk_def VFS_DIRECTORY_def
        tar_readdir_def)
  show "\<forall>i < min 32 (length ts). inode (tar_node_at s (TarNode (i + 1))) = of_nat i"
    using assms count by (simp add: ramdisk_def tar_node_at_def)
  assume h: "components path = t # us \<and> t \<notin> tname ` set ts \<and> (\<forall>t \<in> set (components path). length t < 128)
        \<and> root_node v = Some (TarNode 0)"
  have nm: "fname (file_entries s ! j) = tname (ts ! j)" if "j < min 32 (length ts)" for j
    using assms that image_entries_nth [of j ts a] by (simp add: ramdisk_def)
  have "tar_finddir (TarNode 0) t s = None"
  proof (cases "finddir_from s 0 (file_count s) t")
    case None
    then show ?thesis by (simp add: tar_finddir_def)
  next
    case (Some p)
    with finddir_from_spec [where s = s and i = 0 and k = "file_count s" and nm = t]
    obtain j where "j < file_count s" "fname (file_entries s ! j) = t" by auto
    with nm [of j] count h have False by (auto simp: image_iff)
    then show ?thesis ..
  qed
  then have f: "vfs_finddir tar_drivers (Some (TarNode 0)) t s = Some (None, s)"
    using assms by (simp add: vfs_finddir_def tar_drivers_def tar_node_at_def ramdisk_def VFS_DIRECTORY_def)
  have "resolve_from tar_drivers (TarNode 0) path s
      = map_option Inr (walk tar_drivers (TarNode 0) (components path) s)"
    by (rule resolve_from_walk) (use h in blast)
  moreover have "path \<noteq> []" using h by auto
  ultimately show "vfs_resolve_path tar_drivers (Some (slash # path)) v s = Some (Inr (None, s))"
    using h f by (simp add: vfs_resolve_path_def)
qed

lemma demo_ramdisk: "\<exists>s. tar_parse 0x100000 demo_tar = Some (TarNode 0, s) \<and> ramdisk demo_archive 0x100000 s"
  using tar_parse_ramdisk [OF demo_tar_ok demo_tar_holds demo_archive_ok] by blast

lemma initrd_listing_witness:
  "\<exists>s. tar_parse 0x100000 demo_tar = Some (TarNode 0, s)
    \<and> vfs_readdir tar_drivers (Some (TarNode 0)) 1 s = Some (Some \<lparr>dname = cs ''motd'', ino = 2, dtype = 1\<rparr>, s)
    \<and> vfs_resolve_path tar_drivers (Some (cs ''/etc/motd'')) demo_vfs s = Some (Inr (None, s))"
proof -
  obtain s where p: "tar_parse 0x100000 demo_tar = Some (TarNode 0, s)" and r: "ramdisk demo_archive 0x100000 s"
    using demo_ramdisk by blast
  have c: "components (cs ''etc/motd'') = [cs ''etc'', cs ''motd'']"
    by code_simp
  have path: "cs ''/etc/motd'' = slash # cs ''etc/motd''" by (simp add: cs_def slash_def)
  have t: "cs ''etc'' \<notin> tname ` set demo_archive" "length demo_archive = 2"
    "tname (demo_archive ! Suc 0) = cs ''motd''"
    by (simp_all add: demo_archive_def demo_member_def cs_def)
  from initrd_listing [OF r, where index = 1 and path = "cs ''etc/motd''" and t = "cs ''etc''"
      and us = "[cs ''motd'']" and v = demo_vfs] p t
  show ?thesis
    unfolding path c by (auto simp: demo_vfs_def cs_def)
qed

text \<open>
  A header name that fills all 100 bytes, which the archive format allows,
  has no NUL of its own: tar_parse goes on into the mode field, so the file is
  entered under its name followed by its mode digits.
\<close>

theorem tar_full_name_runs_on:
  assumes "holds m header (nm @ mode)" "length nm = 100" "0 \<notin> set nm" "length mode = 8"
    "0 \<in> set mode"
  shows "header_name m header = nm @ takeWhile (\<lambda>c. c \<noteq> 0) mode"
proof -
  have "read_bytes m header 127 = nm @ mode @ read_bytes m (header + 108) 19"
    using assms(1,2,4) read_bytes_append [of m header 108 19] by (simp add: holds_def)
  moreover have "takeWhile (\<lambda>c. c \<noteq> 0) (nm @ mode @ rest) = nm @ takeWhile (\<lambda>c. c \<noteq> 0) mode" for rest
  proof -
    have "\<forall>c \<in> set nm. c \<noteq> 0" using assms(3) by auto
    then show ?thesis using assms(5) by (simp add: takeWhile_append2 takeWhile_append1)
  qed
  ultimately show ?thesis by (simp add: header_name_def)
qed

lemma tar_full_name_runs_on_witness:
  "header_name (write_bytes (\<lambda>x. 0) 0 (replicate 100 97 @ cs ''0000644'' @ [0])) 0
    = replicate 100 97 @ cs ''0000644''"
proof -
  have "holds (write_bytes (\<lambda>x. 0) 0 (replicate 100 97 @ cs ''0000644'' @ [0])) 0
      (replicate 100 97 @ (cs ''0000644'' @ [0]))"
    by (simp add: holds_def read_write_bytes_same cs_def)
  from tar_full_name_runs_on [OF this] show ?thesis by (simp add: cs_def)
qed

section \<open>The contract of the directory operations\<close>

text \<open>
  The directory operations leave the RAM disk as it is, and the names of the
  entries of a well-formed archive fit their array.
\<close>

definition tar_names_ok :: "tar_fs \<Rightarrow> bool" where
  "tar_names_ok s \<longleftrightarrow> file_count s \<le> MAX_TAR_FILES \<and> (\<forall>i < file_count s. length (dname (tar_dirents s ! i)) < 128)"

interpretation tarfs: small_fs tar_drivers tar_names_ok
  by unfold_locales (auto simp: tar_drivers_def tar_readdir_def tar_names_ok_def MAX_TAR_FILES_def split: if_splits)

lemma ramdisk_names:
  assumes r: "ramdisk ts a s" and ok: "\<forall>t \<in> set ts. member_ok t"
  shows "tar_names_ok s"
  unfolding tar_names_ok_def
proof (intro conjI allI impI)
  show "file_count s \<le> MAX_TAR_FILES" using r by (simp add: ramdisk_def MAX_TAR_FILES_def)
  fix i
  assume i: "i < file_count s"
  with r have "dname (tar_dirents s ! i) = tname (ts ! i)" "ts ! i \<in> set ts" by (simp_all add: ramdisk_def)
  with ok show "length (dname (tar_dirents s ! i)) < 128" by (auto simp: member_ok_def)
qed

end
