(* ===== verification/Elf.thy ===== *)
theory Elf
  imports Prelude
begin

text \<open>
  The ELF loaders kernel/i386/elf.c and kernel/x64/elf.c. Both walk the program
  headers of an image in memory and copy each loadable segment byte by byte to
  its virtual address, then zero it up to its memory size. The C code reads
  the header fields again in every loop test; so does the model, and the
  correctness theorem shows that this makes no difference when no segment
  overwrites the image.
\<close>

section \<open>The byte loops\<close>

text \<open>
  The loops \<open>for (j = start; j < limit; j++)\<close>, with the limit read from
  memory in every round; j has the width of the limit, so it cannot wrap.
\<close>

function copy_loop ::
  "('a::len memory \<Rightarrow> 'b::len word) \<Rightarrow> 'a word \<Rightarrow> 'a word \<Rightarrow> 'b word \<Rightarrow> 'a memory \<Rightarrow> 'a memory" where
  "copy_loop limit dest src j m =
     (if j < limit m
      then copy_loop limit dest src (j + 1) (m(dest + of_nat (unat j) := m (src + of_nat (unat j))))
      else m)"
  by pat_completeness auto

lemma loop_index_grows:
  assumes "j < (l :: 'b::len word)"
  shows "unat (j + 1) = Suc (unat j)"
proof -
  have "unat j < unat l" using assms by (simp add: word_less_nat_alt)
  moreover have "unat l < 2 ^ LENGTH('b)" by (rule unsigned_less)
  ultimately have "unat j + 1 < 2 ^ LENGTH('b)" by linarith
  then show ?thesis using unat_add_of_nat [of j 1] by simp
qed

termination copy_loop
proof (relation "measure (\<lambda>(limit, dest, src, j, m). 2 ^ LENGTH('b) - unat j)")
  fix limit :: "'a memory \<Rightarrow> 'b word" and dest src :: "'a word" and j :: "'b word" and m :: "'a memory"
  assume "j < limit m"
  then show "((limit, dest, src, j + 1, m(dest + of_nat (unat j) := m (src + of_nat (unat j)))),
      limit, dest, src, j, m) \<in> measure (\<lambda>(limit, dest, src, j, m). 2 ^ LENGTH('b) - unat j)"
    by (simp add: loop_index_grows diff_less_mono2 [OF lessI])
qed simp

function zero_loop :: "('a::len memory \<Rightarrow> 'b::len word) \<Rightarrow> 'a word \<Rightarrow> 'b word \<Rightarrow> 'a memory \<Rightarrow> 'a memory" where
  "zero_loop limit dest j m =
     (if j < limit m then zero_loop limit dest (j + 1) (m(dest + of_nat (unat j) := 0)) else m)"
  by pat_completeness auto

termination zero_loop
proof (relation "measure (\<lambda>(limit, dest, j, m). 2 ^ LENGTH('b) - unat j)")
  fix limit :: "'a memory \<Rightarrow> 'b word" and dest :: "'a word" and j :: "'b word" and m :: "'a memory"
  assume "j < limit m"
  then show "((limit, dest, j + 1, m(dest + of_nat (unat j) := 0)), limit, dest, j, m)
      \<in> measure (\<lambda>(limit, dest, j, m). 2 ^ LENGTH('b) - unat j)"
    by (simp add: loop_index_grows diff_less_mono2 [OF lessI])
qed simp

declare copy_loop.simps [simp del] zero_loop.simps [simp del]

section \<open>Headers and the segment loop\<close>

definition ELF_MAGIC :: u32 where "ELF_MAGIC = 0x464C457F"

text \<open>
  The header fields the loaders read; elf32_hdr and elf64_hdr name them alike
  and give addresses and sizes the width of the machine, as do the program
  headers.
\<close>

record 'w elf_hdr =
  e_ident :: u32
  e_class :: u8
  e_machine :: u16
  e_entry :: 'w
  e_phoff :: 'w
  e_phnum :: u16

record 'w elf_phdr =
  p_type :: u32
  p_offset :: 'w
  p_vaddr :: 'w
  p_filesz :: 'w
  p_memsz :: 'w

text \<open>
  The body of the loop and the loop over the program headers, for a given way
  of reading headers; psize is the size of a program header.
\<close>

definition load_segment ::
  "('a::len memory \<Rightarrow> 'a word \<Rightarrow> 'a word elf_phdr) \<Rightarrow> 'a word \<Rightarrow> 'a word \<Rightarrow> 'a memory \<Rightarrow> 'a memory" where
  "load_segment read_phdr elf_data ph m =
     (if p_type (read_phdr m ph) = 1 then
        (let dest = p_vaddr (read_phdr m ph);
             src = elf_data + p_offset (read_phdr m ph);
             m = copy_loop (\<lambda>m. p_filesz (read_phdr m ph)) dest src 0 m
         in zero_loop (\<lambda>m. p_memsz (read_phdr m ph)) dest (p_filesz (read_phdr m ph)) m)
      else m)"

function load_segments ::
  "('a::len memory \<Rightarrow> 'a word \<Rightarrow> 'a word elf_hdr) \<Rightarrow> ('a memory \<Rightarrow> 'a word \<Rightarrow> 'a word elf_phdr) \<Rightarrow> nat \<Rightarrow>
   'a word \<Rightarrow> 'a word \<Rightarrow> nat \<Rightarrow> 'a memory \<Rightarrow> 'a memory" where
  "load_segments read_hdr read_phdr psize elf_data phdr i m =
     (if i < unat (e_phnum (read_hdr m elf_data))
      then load_segments read_hdr read_phdr psize elf_data phdr (i + 1)
             (load_segment read_phdr elf_data (phdr + of_nat (i * psize)) m)
      else m)"
  by pat_completeness auto
termination
proof (relation "measure (\<lambda>(read_hdr, read_phdr, psize, elf_data, phdr, i, m). 2 ^ 16 - i)")
  fix read_hdr :: "'a memory \<Rightarrow> 'a word \<Rightarrow> 'a word elf_hdr" and read_phdr :: "'a memory \<Rightarrow> 'a word \<Rightarrow> 'a word elf_phdr"
    and elf_data phdr :: "'a word" and psize i :: nat and m
  assume "i < unat (e_phnum (read_hdr m elf_data))"
  moreover have "unat (e_phnum (read_hdr m elf_data)) < 2 ^ LENGTH(16)" by (rule unsigned_less)
  ultimately show "((read_hdr, read_phdr, psize, elf_data, phdr, i + 1,
        load_segment read_phdr elf_data (phdr + of_nat (i * psize)) m),
      read_hdr, read_phdr, psize, elf_data, phdr, i, m)
      \<in> measure (\<lambda>(read_hdr, read_phdr, psize, elf_data, phdr, i, m). 2 ^ 16 - i)"
    by simp
qed simp

declare load_segments.simps [simp del]

section \<open>i386\<close>

text \<open>struct elf32_hdr and elf32_phdr at their offsets.\<close>

definition read_elf32_hdr :: "32 memory \<Rightarrow> u32 \<Rightarrow> u32 elf_hdr" where
  "read_elf32_hdr m a = \<lparr>e_ident = read32 m a, e_class = m (a + 4), e_machine = read16 m (a + 18),
     e_entry = read32 m (a + 24), e_phoff = read32 m (a + 28), e_phnum = read16 m (a + 44)\<rparr>"

definition read_elf32_phdr :: "32 memory \<Rightarrow> u32 \<Rightarrow> u32 elf_phdr" where
  "read_elf32_phdr m a = \<lparr>p_type = read32 m a, p_offset = read32 m (a + 4), p_vaddr = read32 m (a + 8),
     p_filesz = read32 m (a + 16), p_memsz = read32 m (a + 20)\<rparr>"

definition elf_load32 :: "u32 \<Rightarrow> 32 memory \<Rightarrow> u32 \<times> 32 memory" where
  "elf_load32 elf_data m =
     (if e_ident (read_elf32_hdr m elf_data) \<noteq> ELF_MAGIC then (0, m)
      else
        (let phdr = elf_data + e_phoff (read_elf32_hdr m elf_data);
             m = load_segments read_elf32_hdr read_elf32_phdr 32 elf_data phdr 0 m
         in (e_entry (read_elf32_hdr m elf_data), m)))"

section \<open>x86_64\<close>

definition read_elf64_hdr :: "64 memory \<Rightarrow> u64 \<Rightarrow> u64 elf_hdr" where
  "read_elf64_hdr m a = \<lparr>e_ident = read32 m a, e_class = m (a + 4), e_machine = read16 m (a + 18),
     e_entry = read64 m (a + 24), e_phoff = read64 m (a + 32), e_phnum = read16 m (a + 56)\<rparr>"

definition read_elf64_phdr :: "64 memory \<Rightarrow> u64 \<Rightarrow> u64 elf_phdr" where
  "read_elf64_phdr m a = \<lparr>p_type = read32 m a, p_offset = read64 m (a + 8), p_vaddr = read64 m (a + 16),
     p_filesz = read64 m (a + 32), p_memsz = read64 m (a + 40)\<rparr>"

definition elf_load64 :: "u64 \<Rightarrow> 64 memory \<Rightarrow> u64 \<times> 64 memory" where
  "elf_load64 elf_data m =
     (let header = read_elf64_hdr m elf_data in
      if e_ident header \<noteq> ELF_MAGIC \<or> e_class header \<noteq> 2 \<or> e_machine header \<noteq> 0x3E then (0, m)
      else
        (let phdr = elf_data + e_phoff header;
             m = load_segments read_elf64_hdr read_elf64_phdr 56 elf_data phdr 0 m
         in (e_entry (read_elf64_hdr m elf_data), m)))"

section \<open>What the loops do\<close>

text \<open>
  The loops write inside dest's region of n bytes; as long as the limit reads
  the same after such writes, they are one block write.
\<close>

lemma copy_loop_write:
  fixes dest :: "'a::len word" and n :: "'b::len word"
  assumes n: "unat n \<le> 2 ^ LENGTH('a)"
    and lim: "\<And>m'. (\<And>x. x \<notin> region dest (unat n) \<Longrightarrow> m' x = m0 x) \<Longrightarrow> limit m' = n"
    and src: "region dest (unat n) \<inter> region src (unat n) = {}"
    and m: "\<And>x. x \<notin> region dest (unat n) \<Longrightarrow> m x = m0 x"
    and j: "j \<le> n"
  shows "copy_loop limit dest src j m
    = write_bytes m (dest + of_nat (unat j)) (read_bytes m0 (src + of_nat (unat j)) (unat n - unat j))"
  using m j
proof (induction "unat n - unat j" arbitrary: j m)
  case 0
  then have "unat j = unat n" by (simp add: word_le_nat_alt)
  then have "j = n" by (rule unsigned_word_eqI)
  moreover have "limit m = n" by (rule lim) (rule 0(2))
  ultimately show ?case by (subst copy_loop.simps) simp
next
  case (Suc k)
  have lt: "unat j < unat n" using Suc.hyps(2) by simp
  have l: "limit m = n" by (rule lim) (rule Suc.prems(1))
  have jn: "j < n" using lt by (simp add: word_less_nat_alt)
  have j1: "unat (j + 1) = Suc (unat j)" by (rule loop_index_grows [OF jn])
  let ?d = "dest + of_nat (unat j)" and ?s = "src + of_nat (unat j)"
  let ?m = "m(?d := m ?s)"
  have inside: "?d \<in> region dest (unat n)" and sin: "?s \<in> region src (unat n)"
    by (rule nat_in_region [OF lt])+
  have same: "m ?s = m0 ?s" using sin src Suc.prems(1) by blast
  have m': "?m x = m0 x" if "x \<notin> region dest (unat n)" for x
    using that inside Suc.prems(1) by (auto simp: fun_upd_def)
  have ih: "copy_loop limit dest src (j + 1) ?m
      = write_bytes ?m (dest + of_nat (unat (j + 1))) (read_bytes m0 (src + of_nat (unat (j + 1))) (unat n - unat (j + 1)))"
    by (rule Suc.hyps(1)) (use Suc.hyps(2) m' lt j1 in \<open>simp_all add: word_le_nat_alt\<close>)
  have k: "unat n - unat j = Suc k" "unat n - unat (j + 1) = k" using Suc.hyps(2) j1 by simp_all
  have "copy_loop limit dest src j m = copy_loop limit dest src (j + 1) ?m"
    by (subst copy_loop.simps) (simp only: l jn if_True)
  moreover have "dest + of_nat (unat (j + 1)) = ?d + 1" "src + of_nat (unat (j + 1)) = ?s + 1"
    unfolding j1 of_nat_Suc by (simp_all only: ac_simps)
  ultimately show ?case
    unfolding ih k by (simp only: read_bytes.simps write_bytes.simps same)
qed

lemma zero_loop_write:
  fixes dest :: "'a::len word" and n :: "'b::len word"
  assumes lim: "\<And>m'. (\<And>x. x \<notin> region dest (unat n) \<Longrightarrow> m' x = m0 x) \<Longrightarrow> limit m' = n"
    and m: "\<And>x. x \<notin> region dest (unat n) \<Longrightarrow> m x = m0 x"
  shows "zero_loop limit dest j m = write_bytes m (dest + of_nat (unat j)) (replicate (unat n - unat j) 0)"
  using m
proof (induction "unat n - unat j" arbitrary: j m)
  case 0
  have "limit m = n" by (rule lim) (rule 0(2))
  moreover have "\<not> j < n" using 0(1) by (simp add: word_less_nat_alt)
  ultimately show ?case using 0(1) by (subst zero_loop.simps) simp
next
  case (Suc k)
  have lt: "unat j < unat n" using Suc.hyps(2) by simp
  have l: "limit m = n" by (rule lim) (rule Suc.prems)
  have jn: "j < n" using lt by (simp add: word_less_nat_alt)
  have j1: "unat (j + 1) = Suc (unat j)" by (rule loop_index_grows [OF jn])
  let ?d = "dest + of_nat (unat j)"
  let ?m = "m(?d := 0)"
  have inside: "?d \<in> region dest (unat n)" by (rule nat_in_region [OF lt])
  have m': "?m x = m0 x" if "x \<notin> region dest (unat n)" for x
    using that inside Suc.prems by (auto simp: fun_upd_def)
  have ih: "zero_loop limit dest (j + 1) ?m
      = write_bytes ?m (dest + of_nat (unat (j + 1))) (replicate (unat n - unat (j + 1)) 0)"
    by (rule Suc.hyps(1)) (use Suc.hyps(2) m' j1 in simp_all)
  have k: "unat n - unat j = Suc k" "unat n - unat (j + 1) = k" using Suc.hyps(2) j1 by simp_all
  have "zero_loop limit dest j m = zero_loop limit dest (j + 1) ?m"
    by (subst zero_loop.simps) (simp only: l jn if_True)
  moreover have "dest + of_nat (unat (j + 1)) = ?d + 1"
    unfolding j1 of_nat_Suc by (simp only: ac_simps)
  ultimately show ?case unfolding ih k by (simp only: replicate.simps write_bytes.simps)
qed

lemma agree_read_bytes:
  fixes a :: "'a::len word"
  assumes "\<And>x. x \<in> R \<Longrightarrow> m' x = m x" "region a n \<subseteq> R"
  shows "read_bytes m' a n = read_bytes m a n"
  by (rule read_bytes_cong) (use assms nat_in_region in blast)

text \<open>
  One segment: when the image region R holds the header fields and the source
  bytes and the destination does not meet R, the two loops are one block write
  of the file bytes followed by zeros, and R is unchanged.
\<close>

lemma segment_write:
  fixes dest :: "'a::len word" and fs ms :: "'b::len word"
  assumes flim: "\<And>m'. (\<And>x. x \<in> R \<Longrightarrow> m' x = m x) \<Longrightarrow> flim m' = fs"
    and mlim: "\<And>m'. (\<And>x. x \<in> R \<Longrightarrow> m' x = m x) \<Longrightarrow> mlim m' = ms"
    and disj: "region dest (max (unat fs) (unat ms)) \<inter> R = {}"
    and src: "region src (unat fs) \<subseteq> R"
    and fits: "unat fs \<le> 2 ^ LENGTH('a)" "unat ms \<le> 2 ^ LENGTH('a)"
  defines "m1 \<equiv> copy_loop flim dest src 0 m"
  defines "r \<equiv> write_bytes m dest (read_bytes m src (unat fs) @ replicate (unat ms - unat fs) 0)"
  shows "zero_loop mlim dest (flim m1) m1 = r" and "x \<in> R \<Longrightarrow> r x = m x"
proof -
  have sub: "region dest (unat fs) \<subseteq> region dest (max (unat fs) (unat ms))"
    "region dest (unat ms) \<subseteq> region dest (max (unat fs) (unat ms))"
    by (rule region_mono; simp)+
  have m1: "m1 = write_bytes m dest (read_bytes m src (unat fs))"
  proof -
    have "m1 = write_bytes m (dest + of_nat (unat (0 :: 'b word)))
        (read_bytes m (src + of_nat (unat (0 :: 'b word))) (unat fs - unat (0 :: 'b word)))"
      unfolding m1_def
    proof (rule copy_loop_write [OF fits(1), where m0 = m])
      show "flim m' = fs" if "\<And>x. x \<notin> region dest (unat fs) \<Longrightarrow> m' x = m x" for m'
        by (rule flim, rule that) (use disj sub in blast)
      show "region dest (unat fs) \<inter> region src (unat fs) = {}" using disj sub src by blast
    qed simp_all
    then show ?thesis by simp
  qed
  have m1R: "m1 x = m x" if "x \<in> R" for x
    unfolding m1 by (rule write_bytes_outside) (use fits disj sub that in auto)
  have f1: "flim m1 = fs" by (rule flim) (rule m1R)
  have "zero_loop mlim dest fs m1 = write_bytes m1 (dest + of_nat (unat fs)) (replicate (unat ms - unat fs) 0)"
  proof (rule zero_loop_write [where m0 = m1])
    show "mlim m' = ms" if "\<And>x. x \<notin> region dest (unat ms) \<Longrightarrow> m' x = m1 x" for m'
    proof (rule mlim)
      fix x
      assume x: "x \<in> R"
      then have "m' x = m1 x" by (intro that) (use disj sub in blast)
      with m1R [OF x] show "m' x = m x" by simp
    qed
  qed simp
  then show "zero_loop mlim dest (flim m1) m1 = r"
    unfolding f1 unfolding r_def m1 write_bytes_append by simp
  have e: "unat fs + (unat ms - unat fs) = max (unat fs) (unat ms)" by simp
  show "r x = m x" if "x \<in> R"
    unfolding r_def by (rule write_bytes_outside) (use fits disj that in \<open>auto simp: e\<close>)
qed

lemma region_in_image:
  fixes a :: "'a::len word"
  assumes "i + n \<le> len" "len \<le> 2 ^ LENGTH('a)"
  shows "region (a + of_nat i) n \<subseteq> region a len"
  using region_offset [OF assms] .

section \<open>Images and what loading them should do\<close>

text \<open>The program headers of the image at a.\<close>

definition image_phdrs ::
  "('a::len memory \<Rightarrow> 'a word \<Rightarrow> 'a word elf_hdr) \<Rightarrow> ('a memory \<Rightarrow> 'a word \<Rightarrow> 'a word elf_phdr) \<Rightarrow> nat \<Rightarrow>
   'a memory \<Rightarrow> 'a word \<Rightarrow> 'a word elf_phdr list" where
  "image_phdrs read_hdr read_phdr psize m a =
     map (\<lambda>i. read_phdr m (a + e_phoff (read_hdr m a) + of_nat (i * psize))) [0 ..< unat (e_phnum (read_hdr m a))]"

text \<open>What a program header asks for, with the file bytes of the image in m0.\<close>

definition put_segment :: "'a::len memory \<Rightarrow> 'a word \<Rightarrow> 'a word elf_phdr \<Rightarrow> 'a memory \<Rightarrow> 'a memory" where
  "put_segment m0 a p m =
     (if p_type p = 1
      then write_bytes m (p_vaddr p) (read_bytes m0 (a + p_offset p) (unat (p_filesz p))
             @ replicate (unat (p_memsz p) - unat (p_filesz p)) 0)
      else m)"

text \<open>
  An image of len bytes at a: the header, the program headers and the file
  bytes of the loadable segments lie inside, and no loadable segment is loaded
  onto it.
\<close>

definition elf_image ::
  "('a::len memory \<Rightarrow> 'a word \<Rightarrow> 'a word elf_hdr) \<Rightarrow> ('a memory \<Rightarrow> 'a word \<Rightarrow> 'a word elf_phdr) \<Rightarrow> nat \<Rightarrow>
   nat \<Rightarrow> 'a memory \<Rightarrow> 'a word \<Rightarrow> nat \<Rightarrow> bool" where
  "elf_image read_hdr read_phdr hsize psize m a len \<longleftrightarrow> hsize \<le> len \<and> len \<le> 2 ^ LENGTH('a)
     \<and> unat (e_phoff (read_hdr m a)) + unat (e_phnum (read_hdr m a)) * psize \<le> len
     \<and> (\<forall>p \<in> set (image_phdrs read_hdr read_phdr psize m a). p_type p = 1 \<longrightarrow>
          unat (p_offset p) + unat (p_filesz p) \<le> len
          \<and> region (p_vaddr p) (max (unat (p_filesz p)) (unat (p_memsz p))) \<inter> region a len = {})"

text \<open>The addresses a program header asks to be written.\<close>

definition segment_region :: "'a::len word elf_phdr \<Rightarrow> 'a word set" where
  "segment_region p = (if p_type p = 1
     then region (p_vaddr p) (max (unat (p_filesz p)) (unat (p_memsz p))) else {})"

lemma put_segment_outside:
  fixes m :: "'a::len memory"
  assumes "x \<notin> segment_region p"
  shows "put_segment m0 a p m x = m x"
proof -
  have e: "unat (p_filesz p) + (unat (p_memsz p) - unat (p_filesz p)) = max (unat (p_filesz p)) (unat (p_memsz p))"
    by simp
  have "max (unat (p_filesz p)) (unat (p_memsz p)) \<le> 2 ^ LENGTH('a)"
    using unsigned_less [of "p_filesz p"] unsigned_less [of "p_memsz p"] by (simp add: less_imp_le)
  with assms show ?thesis
    by (auto simp: put_segment_def segment_region_def e intro!: write_bytes_outside)
qed

lemma put_segments_outside:
  "\<forall>p \<in> set ps. x \<notin> segment_region p \<Longrightarrow> fold (put_segment m0 a) ps m x = m x"
  by (induction ps arbitrary: m) (auto simp: put_segment_outside)

text \<open>
  What the loop relies on: a header of hsize bytes and program headers of
  psize bytes read the same in memories that agree on them.
\<close>

locale elf_layout =
  fixes read_hdr :: "'a::len memory \<Rightarrow> 'a word \<Rightarrow> 'a word elf_hdr"
    and read_phdr :: "'a memory \<Rightarrow> 'a word \<Rightarrow> 'a word elf_phdr"
    and hsize psize :: nat
  assumes hdr_agree: "(\<And>x. x \<in> region a hsize \<Longrightarrow> m' x = m x) \<Longrightarrow> read_hdr m' a = read_hdr m a"
    and phdr_agree: "(\<And>x. x \<in> region ph psize \<Longrightarrow> m' x = m x) \<Longrightarrow> read_phdr m' ph = read_phdr m ph"
begin

lemma image_hdr:
  assumes "elf_image read_hdr read_phdr hsize psize m0 a len" "\<And>x. x \<in> region a len \<Longrightarrow> m x = m0 x"
  shows "read_hdr m a = read_hdr m0 a"
proof (rule hdr_agree)
  fix x
  assume "x \<in> region a hsize"
  moreover have "region a hsize \<subseteq> region a len"
    by (rule region_mono) (use assms(1) in \<open>simp add: elf_image_def\<close>)
  ultimately show "m x = m0 x" using assms(2) by blast
qed

lemma load_segment_put:
  assumes im: "elf_image read_hdr read_phdr hsize psize m0 a len"
    and i: "i < unat (e_phnum (read_hdr m0 a))"
    and agree: "\<And>x. x \<in> region a len \<Longrightarrow> m x = m0 x"
    and ph: "ph = a + e_phoff (read_hdr m0 a) + of_nat (i * psize)"
    and p: "p = image_phdrs read_hdr read_phdr psize m0 a ! i"
  shows "load_segment read_phdr a ph m = put_segment m0 a p m"
    and "x \<in> region a len \<Longrightarrow> put_segment m0 a p m x = m0 x"
proof -
  let ?off = "unat (e_phoff (read_hdr m0 a))"
  have len: "len \<le> 2 ^ LENGTH('a)" "?off + unat (e_phnum (read_hdr m0 a)) * psize \<le> len"
    using im by (simp_all add: elf_image_def)
  have pe: "p = read_phdr m0 ph" and mem: "p \<in> set (image_phdrs read_hdr read_phdr psize m0 a)"
    using i by (simp_all add: image_phdrs_def ph p)
  have "Suc i * psize \<le> unat (e_phnum (read_hdr m0 a)) * psize" by (rule mult_le_mono1) (use i in simp)
  with len(2) have "?off + i * psize + psize \<le> len" by simp
  moreover have "a + of_nat (?off + i * psize) = ph" by (simp add: ph add.assoc)
  ultimately have phR: "region ph psize \<subseteq> region a len"
    using region_in_image [of "?off + i * psize" psize len a] len(1) by simp
  have same: "read_phdr m' ph = p" if "\<And>x. x \<in> region a len \<Longrightarrow> m' x = m x" for m'
    unfolding pe by (rule phdr_agree) (use that agree phR in auto)
  have now: "read_phdr m ph = p" by (rule same) simp
  let ?dest = "p_vaddr p" and ?src = "a + p_offset p" and ?fs = "p_filesz p" and ?ms = "p_memsz p"
  have "load_segment read_phdr a ph m = put_segment m0 a p m
      \<and> (x \<in> region a len \<longrightarrow> put_segment m0 a p m x = m0 x)"
  proof (cases "p_type p = 1")
    case False
    then show ?thesis using agree by (simp add: load_segment_def put_segment_def now)
  next
    case True
    have seg: "unat (p_offset p) + unat ?fs \<le> len"
      "region ?dest (max (unat ?fs) (unat ?ms)) \<inter> region a len = {}"
      using im mem True by (auto simp: elf_image_def)
    have src: "region ?src (unat ?fs) \<subseteq> region a len"
      using region_in_image [OF seg(1), of a] len(1) by simp
    have data: "read_bytes m ?src (unat ?fs) = read_bytes m0 ?src (unat ?fs)"
      by (rule agree_read_bytes [OF agree src])
    have fits: "unat ?fs \<le> 2 ^ LENGTH('a)" "unat ?ms \<le> 2 ^ LENGTH('a)"
      by (rule less_imp_le [OF unsigned_less])+
    have fl: "p_filesz (read_phdr m' ph) = ?fs" and ml: "p_memsz (read_phdr m' ph) = ?ms"
      if "\<And>x. x \<in> region a len \<Longrightarrow> m' x = m x" for m'
      using same [OF that] by simp_all
    have z: "zero_loop (\<lambda>m. p_memsz (read_phdr m ph)) ?dest
        (p_filesz (read_phdr (copy_loop (\<lambda>m. p_filesz (read_phdr m ph)) ?dest ?src 0 m) ph))
        (copy_loop (\<lambda>m. p_filesz (read_phdr m ph)) ?dest ?src 0 m)
      = write_bytes m ?dest (read_bytes m ?src (unat ?fs) @ replicate (unat ?ms - unat ?fs) 0)"
      by (rule segment_write(1) [where R = "region a len" and fs = ?fs and ms = ?ms])
        (use fl ml seg(2) src fits in blast)+
    have w: "write_bytes m ?dest (read_bytes m ?src (unat ?fs) @ replicate (unat ?ms - unat ?fs) 0) x = m x"
      if "x \<in> region a len"
      by (rule segment_write(2) [where R = "region a len" and fs = ?fs and ms = ?ms
            and flim = "\<lambda>m. p_filesz (read_phdr m ph)" and mlim = "\<lambda>m. p_memsz (read_phdr m ph)"])
        (use fl ml seg(2) src fits that in blast)+
    have "load_segment read_phdr a ph m
        = write_bytes m ?dest (read_bytes m ?src (unat ?fs) @ replicate (unat ?ms - unat ?fs) 0)"
      by (simp only: load_segment_def now True Let_def z refl if_True)
    with w agree True show ?thesis by (simp add: put_segment_def data)
  qed
  then show "load_segment read_phdr a ph m = put_segment m0 a p m"
    and "x \<in> region a len \<Longrightarrow> put_segment m0 a p m x = m0 x"
    by blast+
qed

lemma load_segments_fold:
  assumes im: "elf_image read_hdr read_phdr hsize psize m0 a len"
    and agree: "\<And>x. x \<in> region a len \<Longrightarrow> m x = m0 x"
    and i: "i \<le> unat (e_phnum (read_hdr m0 a))"
  shows "load_segments read_hdr read_phdr psize a (a + e_phoff (read_hdr m0 a)) i m
      = fold (put_segment m0 a) (drop i (image_phdrs read_hdr read_phdr psize m0 a)) m
    \<and> (\<forall>x \<in> region a len. fold (put_segment m0 a) (drop i (image_phdrs read_hdr read_phdr psize m0 a)) m x = m0 x)"
  using agree i
proof (induction "unat (e_phnum (read_hdr m0 a)) - i" arbitrary: i m)
  case 0
  have "read_hdr m a = read_hdr m0 a" by (rule image_hdr [OF im 0(2)])
  with 0 show ?case by (subst load_segments.simps) (simp add: image_phdrs_def)
next
  case (Suc k)
  let ?n = "unat (e_phnum (read_hdr m0 a))" and ?ph = "a + e_phoff (read_hdr m0 a)"
    and ?ps = "image_phdrs read_hdr read_phdr psize m0 a"
  have lt: "i < ?n" using Suc.hyps(2) by simp
  have h: "read_hdr m a = read_hdr m0 a" by (rule image_hdr [OF im Suc.prems(1)])
  let ?m = "put_segment m0 a (?ps ! i) m"
  note ls = load_segment_put [OF im lt Suc.prems(1) refl refl]
  have step: "load_segments read_hdr read_phdr psize a ?ph i m = load_segments read_hdr read_phdr psize a ?ph (i + 1) ?m"
    by (subst load_segments.simps) (simp only: h lt if_True ls(1))
  have "i < length ?ps" using lt by (simp add: image_phdrs_def)
  then have d: "drop i ?ps = ?ps ! i # drop (Suc i) ?ps" by (simp add: Cons_nth_drop_Suc)
  have "load_segments read_hdr read_phdr psize a ?ph (i + 1) ?m = fold (put_segment m0 a) (drop (i + 1) ?ps) ?m
      \<and> (\<forall>x \<in> region a len. fold (put_segment m0 a) (drop (i + 1) ?ps) ?m x = m0 x)"
    by (rule Suc.hyps(1)) (use Suc.hyps(2) ls(2) lt in simp_all)
  then show ?case unfolding step d by simp
qed

lemma load_all:
  assumes "elf_image read_hdr read_phdr hsize psize m a len"
  shows "load_segments read_hdr read_phdr psize a (a + e_phoff (read_hdr m a)) 0 m
      = fold (put_segment m a) (image_phdrs read_hdr read_phdr psize m a) m"
    and "read_hdr (fold (put_segment m a) (image_phdrs read_hdr read_phdr psize m a) m) a = read_hdr m a"
proof -
  have f: "load_segments read_hdr read_phdr psize a (a + e_phoff (read_hdr m a)) 0 m
      = fold (put_segment m a) (image_phdrs read_hdr read_phdr psize m a) m"
    "\<forall>x \<in> region a len. fold (put_segment m a) (image_phdrs read_hdr read_phdr psize m a) m x = m x"
    using load_segments_fold [OF assms, of m 0] by simp_all
  then show "load_segments read_hdr read_phdr psize a (a + e_phoff (read_hdr m a)) 0 m
      = fold (put_segment m a) (image_phdrs read_hdr read_phdr psize m a) m" by simp
  show "read_hdr (fold (put_segment m a) (image_phdrs read_hdr read_phdr psize m a) m) a = read_hdr m a"
    by (rule image_hdr [OF assms]) (use f(2) in blast)
qed

lemma image_agree:
  assumes im: "elf_image read_hdr read_phdr hsize psize m0 a len"
    and agree: "\<And>x. x \<in> region a len \<Longrightarrow> m x = m0 x"
  shows "image_phdrs read_hdr read_phdr psize m a = image_phdrs read_hdr read_phdr psize m0 a"
    and "elf_image read_hdr read_phdr hsize psize m a len"
proof -
  have h: "read_hdr m a = read_hdr m0 a" by (rule image_hdr [OF im agree])
  let ?off = "unat (e_phoff (read_hdr m0 a))" and ?n = "unat (e_phnum (read_hdr m0 a))"
  have len: "len \<le> 2 ^ LENGTH('a)" "?off + ?n * psize \<le> len" using im by (simp_all add: elf_image_def)
  have "read_phdr m (a + e_phoff (read_hdr m0 a) + of_nat (i * psize)) =
      read_phdr m0 (a + e_phoff (read_hdr m0 a) + of_nat (i * psize))" if "i < ?n" for i
  proof (rule phdr_agree)
    fix x
    assume x: "x \<in> region (a + e_phoff (read_hdr m0 a) + of_nat (i * psize)) psize"
    have "Suc i * psize \<le> ?n * psize" by (rule mult_le_mono1) (use that in simp)
    with len(2) have "?off + i * psize + psize \<le> len" by simp
    with x show "m x = m0 x"
      using region_in_image [of "?off + i * psize" psize len a] len(1) agree by (auto simp: add.assoc)
  qed
  then show p: "image_phdrs read_hdr read_phdr psize m a = image_phdrs read_hdr read_phdr psize m0 a"
    by (simp add: image_phdrs_def h)
  show "elf_image read_hdr read_phdr hsize psize m a len"
    using im unfolding elf_image_def p h .
qed

end

text \<open>Fields inside a header that memories agree on.\<close>

lemma agree_field:
  fixes a :: "'a::len word"
  assumes "\<And>x. x \<in> region a k \<Longrightarrow> m' x = m x" "i + n \<le> k" "k \<le> 2 ^ LENGTH('a)"
  shows "read_bytes m' (a + of_nat i) n = read_bytes m (a + of_nat i) n"
  by (rule agree_read_bytes [OF assms(1) region_in_image [OF assms(2,3)]])

interpretation elf32: elf_layout read_elf32_hdr read_elf32_phdr 52 32
proof
  fix a :: u32 and m' m :: "32 memory"
  assume "\<And>x. x \<in> region a 52 \<Longrightarrow> m' x = m x"
  then have f: "read_bytes m' (a + of_nat i) n = read_bytes m (a + of_nat i) n" if "i + n \<le> 52" for i n
    by (rule agree_field [OF _ that]) simp_all
  show "read_elf32_hdr m' a = read_elf32_hdr m a"
    using f [of 0 4] f [of 4 1] f [of 18 2] f [of 24 4] f [of 28 4] f [of 44 2]
    by (simp add: read_elf32_hdr_def read32_def read16_def)
next
  fix a :: u32 and m' m :: "32 memory"
  assume "\<And>x. x \<in> region a 32 \<Longrightarrow> m' x = m x"
  then have f: "read_bytes m' (a + of_nat i) n = read_bytes m (a + of_nat i) n" if "i + n \<le> 32" for i n
    by (rule agree_field [OF _ that]) simp_all
  show "read_elf32_phdr m' a = read_elf32_phdr m a"
    using f [of 0 4] f [of 4 4] f [of 8 4] f [of 16 4] f [of 20 4]
    by (simp add: read_elf32_phdr_def read32_def)
qed

interpretation elf64: elf_layout read_elf64_hdr read_elf64_phdr 64 56
proof
  fix a :: u64 and m' m :: "64 memory"
  assume "\<And>x. x \<in> region a 64 \<Longrightarrow> m' x = m x"
  then have f: "read_bytes m' (a + of_nat i) n = read_bytes m (a + of_nat i) n" if "i + n \<le> 64" for i n
    by (rule agree_field [OF _ that]) simp_all
  show "read_elf64_hdr m' a = read_elf64_hdr m a"
    using f [of 0 4] f [of 4 1] f [of 18 2] f [of 24 8] f [of 32 8] f [of 56 2]
    by (simp add: read_elf64_hdr_def read32_def read16_def read64_def)
next
  fix a :: u64 and m' m :: "64 memory"
  assume "\<And>x. x \<in> region a 56 \<Longrightarrow> m' x = m x"
  then have f: "read_bytes m' (a + of_nat i) n = read_bytes m (a + of_nat i) n" if "i + n \<le> 56" for i n
    by (rule agree_field [OF _ that]) simp_all
  show "read_elf64_phdr m' a = read_elf64_phdr m a"
    using f [of 0 4] f [of 8 8] f [of 16 8] f [of 32 8] f [of 40 8]
    by (simp add: read_elf64_phdr_def read32_def read64_def)
qed

section \<open>Properties\<close>

text \<open>
  C14: elf_load on i386 refuses an image without the ELF magic number, leaving
  memory alone. Of an image with it whose header, program headers and file
  bytes lie within the len bytes at a, and none of whose loadable segments
  goes to an address within these len bytes, it returns the entry point and
  leaves, for every loadable program header in order, its file bytes followed
  by zeros up to the memory size at its virtual address, and nothing else
  changed: under this condition reading the headers again in every round makes
  no difference. The code does not check the condition. A segment that is
  loaded onto the image (kmain puts it at 0x400000) changes the headers and
  bytes that later rounds read, and of such an image the theorem says nothing.
\<close>

theorem elf_load32_loads_segments:
  "(e_ident (read_elf32_hdr m a) \<noteq> ELF_MAGIC \<longrightarrow> elf_load32 a m = (0, m))
    \<and> (e_ident (read_elf32_hdr m a) = ELF_MAGIC \<and> elf_image read_elf32_hdr read_elf32_phdr 52 32 m a len \<longrightarrow>
         elf_load32 a m = (e_entry (read_elf32_hdr m a),
           fold (put_segment m a) (image_phdrs read_elf32_hdr read_elf32_phdr 32 m a) m))"
  using elf32.load_all [of m a len] by (simp add: elf_load32_def Let_def)

text \<open>A program of four bytes, loaded at 0x800000 with four zeros after it.\<close>

definition demo_elf32 :: "u8 list" where
  "demo_elf32 = [0x7F] @ cs ''ELF'' @ replicate 20 0 @ bytes_le 4 (0x800000 :: u32) @ bytes_le 4 (52 :: u32)
     @ replicate 12 0 @ [1, 0] @ replicate 6 0
     @ bytes_le 4 (1 :: u32) @ bytes_le 4 (84 :: u32) @ bytes_le 4 (0x800000 :: u32) @ replicate 4 0
     @ bytes_le 4 (4 :: u32) @ bytes_le 4 (8 :: u32) @ replicate 8 0 @ [0xEB, 0xFE, 0x90, 0x90]"

definition demo_elf_memory :: "32 memory" where
  "demo_elf_memory = write_bytes (\<lambda>x. 0xCC) 0x400000 demo_elf32"

lemma demo_elf_hdr:
  "read_elf32_hdr demo_elf_memory 0x400000 = \<lparr>e_ident = ELF_MAGIC, e_class = 0, e_machine = 0,
     e_entry = 0x800000, e_phoff = 52, e_phnum = 1\<rparr>"
proof -
  have "read32 demo_elf_memory 0x400000 = ELF_MAGIC" by code_simp
  moreover have "demo_elf_memory 0x400004 = 0" by code_simp
  moreover have "read16 demo_elf_memory 0x400012 = 0" by code_simp
  moreover have "read32 demo_elf_memory 0x400018 = 0x800000" by code_simp
  moreover have "read32 demo_elf_memory 0x40001C = 52" by code_simp
  moreover have "read16 demo_elf_memory 0x40002C = 1" by code_simp
  ultimately show ?thesis by (simp add: read_elf32_hdr_def)
qed

lemma demo_elf_phdr:
  "read_elf32_phdr demo_elf_memory 0x400034
    = \<lparr>p_type = 1, p_offset = 84, p_vaddr = 0x800000, p_filesz = 4, p_memsz = 8\<rparr>"
proof -
  have "read32 demo_elf_memory 0x400034 = 1" by code_simp
  moreover have "read32 demo_elf_memory 0x400038 = 84" by code_simp
  moreover have "read32 demo_elf_memory 0x40003C = 0x800000" by code_simp
  moreover have "read32 demo_elf_memory 0x400044 = 4" by code_simp
  moreover have "read32 demo_elf_memory 0x400048 = 8" by code_simp
  ultimately show ?thesis by (simp add: read_elf32_phdr_def)
qed

lemma demo_elf_header: "image_phdrs read_elf32_hdr read_elf32_phdr 32 demo_elf_memory 0x400000
    = [\<lparr>p_type = 1, p_offset = 84, p_vaddr = 0x800000, p_filesz = 4, p_memsz = 8\<rparr>]"
  by (simp add: image_phdrs_def demo_elf_hdr demo_elf_phdr)

lemma demo_elf_image: "elf_image read_elf32_hdr read_elf32_phdr 52 32 demo_elf_memory 0x400000 88"
proof -
  have "region (0x400000 :: u32) 88 \<inter> region 0x800000 8 = {}" by (rule regions_apart) simp_all
  then show ?thesis by (simp add: elf_image_def demo_elf_header demo_elf_hdr Int_commute)
qed

lemma elf_load32_loads_segments_witness:
  "fst (elf_load32 0x400000 demo_elf_memory) = 0x800000
   \<and> read_bytes (snd (elf_load32 0x400000 demo_elf_memory)) 0x800000 9 = [0xEB, 0xFE, 0x90, 0x90, 0, 0, 0, 0, 0xCC]"
proof -
  have e: "elf_load32 0x400000 demo_elf_memory = (0x800000, fold (put_segment demo_elf_memory 0x400000)
      [\<lparr>p_type = 1, p_offset = 84, p_vaddr = 0x800000, p_filesz = 4, p_memsz = 8\<rparr>] demo_elf_memory)"
    using elf_load32_loads_segments [of demo_elf_memory "0x400000" 88] demo_elf_image by (simp add: demo_elf_header demo_elf_hdr)
  have "read_bytes (fold (put_segment demo_elf_memory 0x400000)
      [\<lparr>p_type = 1, p_offset = 84, p_vaddr = 0x800000, p_filesz = 4, p_memsz = 8\<rparr>] demo_elf_memory) 0x800000 9
    = [0xEB, 0xFE, 0x90, 0x90, 0, 0, 0, 0, 0xCC]"
    by code_simp
  with e show ?thesis by simp
qed

text \<open>
  C38: The x86_64 loader also checks the class and the machine of the image, and
  returns 0 with memory as it was when the magic number, the class or the
  machine is another. What it loads is the same function of the 64-bit
  headers, under the same condition: header, program headers and file bytes
  lie within the len bytes at a, and no loadable segment goes to an address
  within them, which the code does not check.
\<close>

theorem elf_load64_loads_segments:
  "if e_ident (read_elf64_hdr m a) = ELF_MAGIC \<and> e_class (read_elf64_hdr m a) = 2
      \<and> e_machine (read_elf64_hdr m a) = 0x3E
    then elf_image read_elf64_hdr read_elf64_phdr 64 56 m a len \<longrightarrow>
         elf_load64 a m = (e_entry (read_elf64_hdr m a),
           fold (put_segment m a) (image_phdrs read_elf64_hdr read_elf64_phdr 56 m a) m)
    else elf_load64 a m = (0, m)"
  using elf64.load_all [of m a len] by (auto simp: elf_load64_def Let_def)

definition demo_elf64 :: "u8 list" where
  "demo_elf64 = [0x7F] @ cs ''ELF'' @ [2] @ replicate 13 0 @ [0x3E, 0] @ replicate 4 0
     @ bytes_le 8 (0x800000 :: u64) @ bytes_le 8 (64 :: u64) @ replicate 16 0 @ [1, 0] @ replicate 6 0
     @ bytes_le 4 (1 :: u32) @ replicate 4 0 @ bytes_le 8 (120 :: u64) @ bytes_le 8 (0x800000 :: u64) @ replicate 8 0
     @ bytes_le 8 (2 :: u64) @ bytes_le 8 (4 :: u64) @ replicate 8 0 @ [0xEB, 0xFE]"

definition demo_elf_memory64 :: "64 memory" where
  "demo_elf_memory64 = write_bytes (\<lambda>x. 0xCC) 0x400000 demo_elf64"

lemma demo_elf64_header:
  "read_elf64_hdr demo_elf_memory64 0x400000 = \<lparr>e_ident = ELF_MAGIC, e_class = 2, e_machine = 0x3E,
     e_entry = 0x800000, e_phoff = 64, e_phnum = 1\<rparr>"
proof -
  have "read32 demo_elf_memory64 0x400000 = ELF_MAGIC" by code_simp
  moreover have "demo_elf_memory64 0x400004 = 2" by code_simp
  moreover have "read16 demo_elf_memory64 0x400012 = 0x3E" by code_simp
  moreover have "read64 demo_elf_memory64 0x400018 = 0x800000" by code_simp
  moreover have "read64 demo_elf_memory64 0x400020 = 64" by code_simp
  moreover have "read16 demo_elf_memory64 0x400038 = 1" by code_simp
  ultimately show ?thesis by (simp add: read_elf64_hdr_def)
qed

lemma demo_elf64_phdr:
  "read_elf64_phdr demo_elf_memory64 0x400040
    = \<lparr>p_type = 1, p_offset = 120, p_vaddr = 0x800000, p_filesz = 2, p_memsz = 4\<rparr>"
proof -
  have "read32 demo_elf_memory64 0x400040 = 1" by code_simp
  moreover have "read64 demo_elf_memory64 0x400048 = 120" by code_simp
  moreover have "read64 demo_elf_memory64 0x400050 = 0x800000" by code_simp
  moreover have "read64 demo_elf_memory64 0x400060 = 2" by code_simp
  moreover have "read64 demo_elf_memory64 0x400068 = 4" by code_simp
  ultimately show ?thesis by (simp add: read_elf64_phdr_def)
qed

lemma demo_elf64_phdrs:
  "image_phdrs read_elf64_hdr read_elf64_phdr 56 demo_elf_memory64 0x400000
    = [\<lparr>p_type = 1, p_offset = 120, p_vaddr = 0x800000, p_filesz = 2, p_memsz = 4\<rparr>]"
  by (simp add: image_phdrs_def demo_elf64_header demo_elf64_phdr)

lemma elf_load64_loads_segments_witness:
  "elf_load64 0x400000 demo_elf_memory64
    = (0x800000, put_segment demo_elf_memory64 0x400000
        \<lparr>p_type = 1, p_offset = 120, p_vaddr = 0x800000, p_filesz = 2, p_memsz = 4\<rparr> demo_elf_memory64)"
proof -
  have "region (0x400000 :: u64) 122 \<inter> region 0x800000 4 = {}" by (rule regions_apart) simp_all
  then have "elf_image read_elf64_hdr read_elf64_phdr 64 56 demo_elf_memory64 0x400000 122"
    by (simp add: elf_image_def demo_elf64_header demo_elf64_phdrs Int_commute)
  with elf_load64_loads_segments [of demo_elf_memory64 "0x400000" 122] show ?thesis
    by (simp add: demo_elf64_header demo_elf64_phdrs)
qed

end
