(* ===== verification/Descriptors.thy ===== *)
theory Descriptors
  imports Prelude
begin

text \<open>
  The segment and interrupt descriptor tables, kernel/i386/gdt.c, idt.c and
  kernel/x64/gdt.c, idt.c: the fields the code stores, against the reading of
  descriptors in the processor manuals (base, limit, privilege level, gate
  offset). The instructions that load the tables into the processor record
  the pointer they were given.
\<close>

section \<open>Segment descriptors\<close>

record gdt_entry =
  limit_low :: u16
  base_low :: u16
  base_middle :: u8
  access :: u8
  granularity :: u8
  base_high :: u8

definition null_gdt_entry :: gdt_entry where
  "null_gdt_entry = \<lparr>limit_low = 0, base_low = 0, base_middle = 0, access = 0, granularity = 0, base_high = 0\<rparr>"

subsection \<open>i386\<close>

record tss32 =
  prev_tss :: u32
  esp0 :: u32
  ss0 :: u32
  esp1 :: u32
  ss1 :: u32
  esp2 :: u32
  ss2 :: u32
  tss_cr3 :: u32
  tss_eip :: u32
  tss_eflags :: u32
  tss_eax :: u32
  tss_ecx :: u32
  tss_edx :: u32
  tss_ebx :: u32
  tss_esp :: u32
  tss_ebp :: u32
  tss_esi :: u32
  tss_edi :: u32
  tss_es :: u32
  tss_cs :: u32
  tss_ss :: u32
  tss_ds :: u32
  tss_fs :: u32
  tss_gs :: u32
  tss_ldt :: u32
  tss_trap :: u16
  iomap_base :: u16

definition SIZEOF_TSS32 :: nat where "SIZEOF_TSS32 = 104"

definition zero_tss32 :: tss32 where
  "zero_tss32 = \<lparr>prev_tss = 0, esp0 = 0, ss0 = 0, esp1 = 0, ss1 = 0, esp2 = 0, ss2 = 0, tss_cr3 = 0,
     tss_eip = 0, tss_eflags = 0, tss_eax = 0, tss_ecx = 0, tss_edx = 0, tss_ebx = 0, tss_esp = 0, tss_ebp = 0,
     tss_esi = 0, tss_edi = 0, tss_es = 0, tss_cs = 0, tss_ss = 0, tss_ds = 0, tss_fs = 0, tss_gs = 0,
     tss_ldt = 0, tss_trap = 0, iomap_base = 0\<rparr>"

text \<open>
  The tables, and what the processor was told: the operand of lgdt (limit and
  base) and the task register. The addresses of gdt and tss are chosen by the
  linker.
\<close>

record gdt32 =
  gdt :: "gdt_entry list"
  gdt_pointer :: "u16 \<times> u32"
  tss :: tss32
  gdtr :: "(u16 \<times> u32) option"
  task_register :: u16

definition gdt_set_gate32 :: "nat \<Rightarrow> u32 \<Rightarrow> u32 \<Rightarrow> u8 \<Rightarrow> u8 \<Rightarrow> gdt32 \<Rightarrow> gdt32" where
  "gdt_set_gate32 index base lim acc gran s = s\<lparr>gdt := (gdt s)[index :=
     \<lparr>limit_low = ucast (lim AND 0xFFFF), base_low = ucast (base AND 0xFFFF),
      base_middle = ucast (drop_bit 16 base AND 0xFF), access = acc,
      granularity = ucast (drop_bit 16 lim AND 0x0F) OR (gran AND 0xF0),
      base_high = ucast (drop_bit 24 base AND 0xFF)\<rparr>]\<rparr>"

definition write_tss32 :: "u32 \<Rightarrow> nat \<Rightarrow> u16 \<Rightarrow> u32 \<Rightarrow> gdt32 \<Rightarrow> gdt32" where
  "write_tss32 tss_addr index ss0_sel esp0_value s =
     (let base = tss_addr;
          lim = of_nat SIZEOF_TSS32 - 1;
          s = gdt_set_gate32 index base lim 0x89 0x40 s
      in s\<lparr>tss := zero_tss32\<lparr>ss0 := ucast ss0_sel, esp0 := esp0_value, tss_cs := 0x08, tss_ss := 0x10,
              tss_ds := 0x10, tss_es := 0x10, tss_fs := 0x10, tss_gs := 0x10,
              iomap_base := of_nat SIZEOF_TSS32\<rparr>\<rparr>)"

definition set_kernel_stack32 :: "u32 \<Rightarrow> gdt32 \<Rightarrow> gdt32" where
  "set_kernel_stack32 stack s = s\<lparr>tss := (tss s)\<lparr>esp0 := stack\<rparr>\<rparr>"

definition gdt_flush32 :: "gdt32 \<Rightarrow> gdt32" where
  "gdt_flush32 s = s\<lparr>gdtr := Some (gdt_pointer s)\<rparr>"

definition tss_flush32 :: "gdt32 \<Rightarrow> gdt32" where
  "tss_flush32 s = s\<lparr>task_register := 0x28\<rparr>"

definition init_gdt32 :: "u32 \<Rightarrow> u32 \<Rightarrow> gdt32 \<Rightarrow> gdt32" where
  "init_gdt32 gdt_addr tss_addr s =
     (let s = s\<lparr>gdt_pointer := (of_nat (6 * 8) - 1, gdt_addr)\<rparr>;
          s = gdt_set_gate32 0 0 0 0 0 s;
          s = gdt_set_gate32 1 0 0xFFFFFFFF 0x9A 0xCF s;
          s = gdt_set_gate32 2 0 0xFFFFFFFF 0x92 0xCF s;
          s = gdt_set_gate32 3 0 0xFFFFFFFF 0xFA 0xCF s;
          s = gdt_set_gate32 4 0 0xFFFFFFFF 0xF2 0xCF s;
          s = write_tss32 tss_addr 5 0x10 0 s;
          s = gdt_flush32 s
      in tss_flush32 s)"

subsection \<open>x86_64\<close>

record tss64 =
  reserved0 :: u32
  rsp0 :: u64
  rsp1 :: u64
  rsp2 :: u64
  reserved1 :: u64
  ist1 :: u64
  ist2 :: u64
  ist3 :: u64
  ist4 :: u64
  ist5 :: u64
  ist6 :: u64
  ist7 :: u64
  reserved2 :: u64
  reserved3 :: u16
  iomap_base64 :: u16

definition SIZEOF_TSS64 :: nat where "SIZEOF_TSS64 = 104"

definition zero_tss64 :: tss64 where
  "zero_tss64 = \<lparr>reserved0 = 0, rsp0 = 0, rsp1 = 0, rsp2 = 0, reserved1 = 0, ist1 = 0, ist2 = 0, ist3 = 0,
     ist4 = 0, ist5 = 0, ist6 = 0, ist7 = 0, reserved2 = 0, reserved3 = 0, iomap_base64 = 0\<rparr>"

record gdt64 =
  gdt6 :: "gdt_entry list"
  gdt_pointer6 :: "u16 \<times> u64"
  tss6 :: tss64
  gdtr6 :: "(u16 \<times> u64) option"
  task_register6 :: u16

definition gdt_set_gate64 :: "nat \<Rightarrow> u8 \<Rightarrow> u8 \<Rightarrow> gdt64 \<Rightarrow> gdt64" where
  "gdt_set_gate64 index acc gran s = s\<lparr>gdt6 := (gdt6 s)[index :=
     \<lparr>limit_low = 0xFFFF, base_low = 0, base_middle = 0, access = acc, granularity = gran, base_high = 0\<rparr>]\<rparr>"

definition write_tss64 :: "u64 \<Rightarrow> gdt64 \<Rightarrow> gdt64" where
  "write_tss64 tss_addr s =
     (let base = tss_addr;
          lim = of_nat SIZEOF_TSS64 - 1 :: u32;
          s = s\<lparr>tss6 := zero_tss64\<lparr>iomap_base64 := of_nat SIZEOF_TSS64\<rparr>\<rparr>;
          s = s\<lparr>gdt6 := (gdt6 s)[5 :=
            \<lparr>limit_low = ucast (lim AND 0xFFFF), base_low = ucast (base AND 0xFFFF),
             base_middle = ucast (drop_bit 16 base AND 0xFF), access = 0x89,
             granularity = ucast (drop_bit 16 lim AND 0x0F), base_high = ucast (drop_bit 24 base AND 0xFF)\<rparr>]\<rparr>
      in s\<lparr>gdt6 := (gdt6 s)[6 :=
            \<lparr>limit_low = ucast (drop_bit 32 base AND 0xFFFF), base_low = ucast (drop_bit 48 base AND 0xFFFF),
             base_middle = 0, access = 0, granularity = 0, base_high = 0\<rparr>]\<rparr>)"

definition set_kernel_stack64 :: "u64 \<Rightarrow> gdt64 \<Rightarrow> gdt64" where
  "set_kernel_stack64 stack s = s\<lparr>tss6 := (tss6 s)\<lparr>rsp0 := stack\<rparr>\<rparr>"

definition init_gdt64 :: "u64 \<Rightarrow> u64 \<Rightarrow> gdt64 \<Rightarrow> gdt64" where
  "init_gdt64 gdt_addr tss_addr s =
     (let s = gdt_set_gate64 0 0 0 s;
          s = gdt_set_gate64 1 0x9A 0xAF s;
          s = gdt_set_gate64 2 0x92 0xCF s;
          s = gdt_set_gate64 3 0xFA 0xAF s;
          s = gdt_set_gate64 4 0xF2 0xCF s;
          s = write_tss64 tss_addr s;
          s = s\<lparr>gdt_pointer6 := (of_nat (7 * 8) - 1, gdt_addr)\<rparr>;
          s = s\<lparr>gdtr6 := Some (gdt_pointer6 s)\<rparr>
      in s\<lparr>task_register6 := 0x28\<rparr>)"

section \<open>Interrupt descriptors\<close>

record idt_entry32 =
  idt_base_low :: u16
  idt_sel :: u16
  always0 :: u8
  idt_flags :: u8
  idt_base_hi :: u16

record idt32 =
  idt :: "idt_entry32 list"
  idtp :: "u16 \<times> u32"
  idtr :: "(u16 \<times> u32) option"

definition idt_set_gate32 :: "u8 \<Rightarrow> u32 \<Rightarrow> u16 \<Rightarrow> u8 \<Rightarrow> idt32 \<Rightarrow> idt32" where
  "idt_set_gate32 num base sel flg s = s\<lparr>idt := (idt s)[unat num :=
     \<lparr>idt_base_low = ucast (base AND 0xFFFF), idt_sel = sel, always0 = 0, idt_flags = flg,
      idt_base_hi = ucast (drop_bit 16 base AND 0xFFFF)\<rparr>]\<rparr>"

definition idt_install32 :: "u32 \<Rightarrow> u32 \<Rightarrow> u32 \<Rightarrow> u32 \<Rightarrow> idt32 \<Rightarrow> idt32" where
  "idt_install32 idt_addr irq0_stub irq1_stub syscall_stub s =
     (let s = s\<lparr>idtp := (of_nat (256 * 8) - 1, idt_addr)\<rparr>;
          s = fold (\<lambda>i. idt_set_gate32 (of_nat i) 0 0 0) [0 ..< 256] s;
          s = idt_set_gate32 32 irq0_stub 0x08 0x8E s;
          s = idt_set_gate32 33 irq1_stub 0x08 0x8E s;
          s = idt_set_gate32 0x80 syscall_stub 0x08 0xEE s
      in s\<lparr>idtr := Some (idtp s)\<rparr>)"

record idt_entry64 =
  offset_low :: u16
  selector :: u16
  ist :: u8
  flags64 :: u8
  offset_middle :: u16
  offset_high :: u32
  idt_zero :: u32

record idt64 =
  idt6 :: "idt_entry64 list"
  idt_pointer6 :: "u16 \<times> u64"
  idtr6 :: "(u16 \<times> u64) option"

definition idt_set_gate64 :: "u8 \<Rightarrow> u64 \<Rightarrow> u16 \<Rightarrow> u8 \<Rightarrow> idt64 \<Rightarrow> idt64" where
  "idt_set_gate64 index base sel flg s = s\<lparr>idt6 := (idt6 s)[unat index :=
     \<lparr>offset_low = ucast (base AND 0xFFFF), selector = sel, ist = 0, flags64 = flg,
      offset_middle = ucast (drop_bit 16 base AND 0xFFFF),
      offset_high = ucast (drop_bit 32 base AND 0xFFFFFFFF), idt_zero = 0\<rparr>]\<rparr>"

definition idt_install64 :: "u64 \<Rightarrow> u64 \<Rightarrow> u64 \<Rightarrow> u64 \<Rightarrow> idt64 \<Rightarrow> idt64" where
  "idt_install64 idt_addr irq0_stub irq1_stub syscall_stub s =
     (let s = fold (\<lambda>i. idt_set_gate64 (of_nat i) 0 0 0) [0 ..< 256] s;
          s = idt_set_gate64 32 irq0_stub 0x08 0x8E s;
          s = idt_set_gate64 33 irq1_stub 0x08 0x8E s;
          s = idt_set_gate64 0x80 syscall_stub 0x08 0xEE s;
          s = s\<lparr>idt_pointer6 := (of_nat (256 * 16) - 1, idt_addr)\<rparr>
      in s\<lparr>idtr6 := Some (idt_pointer6 s)\<rparr>)"

section \<open>How the processor reads descriptors\<close>

definition seg_base :: "gdt_entry \<Rightarrow> u32" where
  "seg_base e = ucast (base_low e) OR push_bit 16 (ucast (base_middle e)) OR push_bit 24 (ucast (base_high e))"

text \<open>The 20-bit limit, in units of pages when bit 7 of granularity is set.\<close>

definition seg_limit :: "gdt_entry \<Rightarrow> u32" where
  "seg_limit e = (let l = ucast (limit_low e) OR push_bit 16 (ucast (granularity e AND 0x0F)) in
     if bit (granularity e) 7 then push_bit 12 l OR 0xFFF else l)"

definition seg_present :: "gdt_entry \<Rightarrow> bool" where "seg_present e \<longleftrightarrow> bit (access e) 7"
definition seg_dpl :: "gdt_entry \<Rightarrow> u8" where "seg_dpl e = drop_bit 5 (access e) AND 3"
definition seg_code :: "gdt_entry \<Rightarrow> bool" where "seg_code e \<longleftrightarrow> bit (access e) 4 \<and> bit (access e) 3"
definition seg_writable :: "gdt_entry \<Rightarrow> bool" where
  "seg_writable e \<longleftrightarrow> bit (access e) 4 \<and> \<not> bit (access e) 3 \<and> bit (access e) 1"
definition seg_long :: "gdt_entry \<Rightarrow> bool" where "seg_long e \<longleftrightarrow> bit (granularity e) 5"

text \<open>A selector: table index and requested privilege level.\<close>

definition sel_index :: "u16 \<Rightarrow> nat" where "sel_index s = unat (drop_bit 3 s)"
definition sel_rpl :: "u16 \<Rightarrow> u8" where "sel_rpl s = ucast (s AND 3)"

definition gate_offset32 :: "idt_entry32 \<Rightarrow> u32" where
  "gate_offset32 e = ucast (idt_base_low e) OR push_bit 16 (ucast (idt_base_hi e))"

definition gate_offset64 :: "idt_entry64 \<Rightarrow> u64" where
  "gate_offset64 e = ucast (offset_low e) OR push_bit 16 (ucast (offset_middle e))
     OR push_bit 32 (ucast (offset_high e))"

text \<open>Split bases and offsets are put together again.\<close>

lemma mask_numerals:
  "(0xFF :: 'a::len word) = mask 8" "(0xFFFF :: 'a::len word) = mask 16" "(0xFFFFFFFF :: 'a::len word) = mask 32"
  by (simp_all add: mask_eq_decr_exp)

lemma add_diff_cancel_le [simp]: "24 \<le> n \<Longrightarrow> 24 + (n - 24) = (n :: nat)" "32 \<le> n \<Longrightarrow> 32 + (n - 32) = (n :: nat)"
  by simp_all

lemma join_base:
  "ucast (ucast (b AND 0xFFFF) :: u16) OR push_bit 16 (ucast (ucast (drop_bit 16 b AND 0xFF) :: u8))
     OR push_bit 24 (ucast (ucast (drop_bit 24 b AND 0xFF) :: u8)) = (b :: u32)"
proof (rule bit_word_eqI)
  fix n
  assume bound: "n < LENGTH(32)"
  show "bit (ucast (ucast (b AND 0xFFFF) :: u16) OR push_bit 16 (ucast (ucast (drop_bit 16 b AND 0xFF) :: u8))
     OR push_bit 24 (ucast (ucast (drop_bit 24 b AND 0xFF) :: u8)) :: u32) n \<longleftrightarrow> bit b n"
    using bound by (cases "n < 24") (auto simp: mask_numerals bit_simps)
qed

lemma join_base64:
  "ucast (ucast (b AND 0xFFFF) :: u16) OR push_bit 16 (ucast (ucast (drop_bit 16 b AND 0xFF) :: u8))
     OR push_bit 24 (ucast (ucast (drop_bit 24 b AND 0xFF) :: u8))
   = (ucast (b :: u64) :: u32)"
proof (rule bit_word_eqI)
  fix n
  assume bound: "n < LENGTH(32)"
  show "bit (ucast (ucast (b AND 0xFFFF) :: u16) OR push_bit 16 (ucast (ucast (drop_bit 16 b AND 0xFF) :: u8))
     OR push_bit 24 (ucast (ucast (drop_bit 24 b AND 0xFF) :: u8)) :: u32) n \<longleftrightarrow> bit (ucast (b :: u64) :: u32) n"
    using bound by (cases "n < 24") (auto simp: mask_numerals bit_simps)
qed

lemma join_offset32:
  "ucast (ucast (b AND 0xFFFF) :: u16) OR push_bit 16 (ucast (ucast (drop_bit 16 b AND 0xFFFF) :: u16)) = (b :: u32)"
  by (rule bit_eqI) (auto simp: mask_numerals bit_simps)

lemma join_offset64:
  "ucast (ucast (b AND 0xFFFF) :: u16) OR push_bit 16 (ucast (ucast (drop_bit 16 b AND 0xFFFF) :: u16))
     OR push_bit 32 (ucast (ucast (drop_bit 32 b AND 0xFFFFFFFF) :: u32)) = (b :: u64)"
proof (rule bit_word_eqI)
  fix n
  assume bound: "n < LENGTH(64)"
  show "bit (ucast (ucast (b AND 0xFFFF) :: u16) OR push_bit 16 (ucast (ucast (drop_bit 16 b AND 0xFFFF) :: u16))
     OR push_bit 32 (ucast (ucast (drop_bit 32 b AND 0xFFFFFFFF) :: u32)) :: u64) n \<longleftrightarrow> bit b n"
    using bound by (cases "n < 32") (auto simp: mask_numerals bit_simps)
qed

section \<open>What the kernel's tables mean\<close>

text \<open>
  A segment as a selector load sees it: base, limit, privilege level of the
  descriptor and of the selector, code, writable data, 64-bit code.
\<close>

definition segment :: "gdt_entry list \<Rightarrow> u16 \<Rightarrow> (u32 \<times> u32 \<times> u8 \<times> u8 \<times> bool \<times> bool \<times> bool) option" where
  "segment tab sel =
     (if sel_index sel < length tab \<and> seg_present (tab ! sel_index sel)
      then let e = tab ! sel_index sel in
        Some (seg_base e, seg_limit e, seg_dpl e, sel_rpl sel, seg_code e, seg_writable e, seg_long e)
      else None)"

text \<open>A gate as an interrupt sees it: handler, code selector, privilege level and gate type.\<close>

definition gate32 :: "idt_entry32 \<Rightarrow> (u32 \<times> u16 \<times> u8 \<times> u8) option" where
  "gate32 e = (if bit (idt_flags e) 7
     then Some (gate_offset32 e, idt_sel e, drop_bit 5 (idt_flags e) AND 3, idt_flags e AND 0x1F) else None)"

definition gate64 :: "idt_entry64 \<Rightarrow> (u64 \<times> u16 \<times> u8 \<times> u8) option" where
  "gate64 e = (if bit (flags64 e) 7
     then Some (gate_offset64 e, selector e, drop_bit 5 (flags64 e) AND 3, flags64 e AND 0x1F) else None)"

definition available_tss :: u8 where "available_tss = 0x89"
definition interrupt_gate :: u8 where "interrupt_gate = 0x0E"

text \<open>The entries as the initialisation leaves them.\<close>

lemma gdt32_table:
  assumes "length (gdt s) = 6"
  shows "gdt (init_gdt32 ga ta s) =
    [null_gdt_entry,
     \<lparr>limit_low = 0xFFFF, base_low = 0, base_middle = 0, access = 0x9A, granularity = 0xCF, base_high = 0\<rparr>,
     \<lparr>limit_low = 0xFFFF, base_low = 0, base_middle = 0, access = 0x92, granularity = 0xCF, base_high = 0\<rparr>,
     \<lparr>limit_low = 0xFFFF, base_low = 0, base_middle = 0, access = 0xFA, granularity = 0xCF, base_high = 0\<rparr>,
     \<lparr>limit_low = 0xFFFF, base_low = 0, base_middle = 0, access = 0xF2, granularity = 0xCF, base_high = 0\<rparr>,
     \<lparr>limit_low = 103, base_low = ucast (ta AND 0xFFFF), base_middle = ucast (drop_bit 16 ta AND 0xFF),
      access = 0x89, granularity = 0x40, base_high = ucast (drop_bit 24 ta AND 0xFF)\<rparr>]"
proof -
  from assms obtain a b c d e f where t: "gdt s = [a, b, c, d, e, f]"
    by (auto simp: eval_nat_numeral length_Suc_conv)
  show ?thesis
    by (simp add: init_gdt32_def gdt_set_gate32_def write_tss32_def gdt_flush32_def tss_flush32_def Let_def t
        null_gdt_entry_def SIZEOF_TSS32_def)
qed

lemma gdt64_table:
  assumes "length (gdt6 s) = 7"
  shows "gdt6 (init_gdt64 ga ta s) =
    [\<lparr>limit_low = 0xFFFF, base_low = 0, base_middle = 0, access = 0, granularity = 0, base_high = 0\<rparr>,
     \<lparr>limit_low = 0xFFFF, base_low = 0, base_middle = 0, access = 0x9A, granularity = 0xAF, base_high = 0\<rparr>,
     \<lparr>limit_low = 0xFFFF, base_low = 0, base_middle = 0, access = 0x92, granularity = 0xCF, base_high = 0\<rparr>,
     \<lparr>limit_low = 0xFFFF, base_low = 0, base_middle = 0, access = 0xFA, granularity = 0xAF, base_high = 0\<rparr>,
     \<lparr>limit_low = 0xFFFF, base_low = 0, base_middle = 0, access = 0xF2, granularity = 0xCF, base_high = 0\<rparr>,
     \<lparr>limit_low = 103, base_low = ucast (ta AND 0xFFFF), base_middle = ucast (drop_bit 16 ta AND 0xFF),
      access = 0x89, granularity = 0, base_high = ucast (drop_bit 24 ta AND 0xFF)\<rparr>,
     \<lparr>limit_low = ucast (drop_bit 32 ta AND 0xFFFF), base_low = ucast (drop_bit 48 ta AND 0xFFFF),
      base_middle = 0, access = 0, granularity = 0, base_high = 0\<rparr>]"
proof -
  from assms obtain a b c d e f g where t: "gdt6 s = [a, b, c, d, e, f, g]"
    by (auto simp: eval_nat_numeral length_Suc_conv)
  show ?thesis
    by (simp add: init_gdt64_def gdt_set_gate64_def write_tss64_def Let_def t SIZEOF_TSS64_def)
qed

lemmas segment_simps = segment_def sel_index_def sel_rpl_def seg_present_def seg_base_def seg_limit_def
  seg_dpl_def seg_code_def seg_writable_def seg_long_def null_gdt_entry_def

text \<open>The 64-bit base of a system descriptor, which takes two entries of the table.\<close>

definition system_base64 :: "gdt_entry \<Rightarrow> gdt_entry \<Rightarrow> u64" where
  "system_base64 lo hi = ucast (seg_base lo)
     OR push_bit 32 (ucast (limit_low hi)) OR push_bit 48 (ucast (base_low hi))"

lemma join_high64:
  "ucast (ucast (b :: u64) :: u32) OR push_bit 32 (ucast (ucast (drop_bit 32 b AND 0xFFFF) :: u16))
     OR push_bit 48 (ucast (ucast (drop_bit 48 b AND 0xFFFF) :: u16)) = b"
proof (rule bit_word_eqI)
  fix n
  assume bound: "n < LENGTH(64)"
  have [simp]: "48 \<le> n \<Longrightarrow> 48 + (n - 48) = n" by simp
  show "bit (ucast (ucast b :: u32) OR push_bit 32 (ucast (ucast (drop_bit 32 b AND 0xFFFF) :: u16))
     OR push_bit 48 (ucast (ucast (drop_bit 48 b AND 0xFFFF) :: u16)) :: u64) n \<longleftrightarrow> bit b n"
    using bound by (cases "n < 48") (auto simp: mask_numerals bit_simps)
qed

lemma tss_base64:
  assumes "length (gdt6 s) = 7"
  shows "system_base64 (gdt6 (init_gdt64 ga ta s) ! 5) (gdt6 (init_gdt64 ga ta s) ! 6) = ta"
  unfolding gdt64_table [OF assms]
  using join_high64 [of ta] join_base64 [of ta] by (simp add: system_base64_def seg_base_def)

text \<open>
  C31: After init_gdt, on either architecture, the selectors the kernel uses
  denote what it means them to: 0x08 and 0x10 are flat kernel code and data
  at privilege level 0, 0x1B and 0x23 (the selectors task_create_user puts
  into a frame) flat user code and data at level 3 requested at level 3, the
  code segments are 64-bit ones exactly on x86_64, the null selector is
  invalid, and the task register selects an available task state segment at
  the address of tss, 104 bytes long, whose kernel stack is what
  set_kernel_stack sets.
\<close>

theorem gdt_selectors:
  assumes "length (gdt s) = 6" and "length (gdt6 s') = 7"
    and "T = init_gdt32 ga ta s" and "T' = init_gdt64 ga' ta' s'"
  shows "map (segment (gdt T)) [0, 0x08, 0x10, 0x1B, 0x23] =
      [None, Some (0, - 1, 0, 0, True, False, False), Some (0, - 1, 0, 0, False, True, False),
       Some (0, - 1, 3, 3, True, False, False), Some (0, - 1, 3, 3, False, True, False)]
    \<and> map (segment (gdt6 T')) [0, 0x08, 0x10, 0x1B, 0x23] =
      [None, Some (0, - 1, 0, 0, True, False, True), Some (0, - 1, 0, 0, False, True, False),
       Some (0, - 1, 3, 3, True, False, True), Some (0, - 1, 3, 3, False, True, False)]
    \<and> gdtr T = Some (47, ga) \<and> gdtr6 T' = Some (55, ga')
    \<and> sel_index (task_register T) = 5 \<and> sel_index (task_register6 T') = 5
    \<and> access (gdt T ! 5) = available_tss \<and> seg_base (gdt T ! 5) = ta \<and> seg_limit (gdt T ! 5) = 103
    \<and> access (gdt6 T' ! 5) = available_tss \<and> system_base64 (gdt6 T' ! 5) (gdt6 T' ! 6) = ta'
      \<and> seg_limit (gdt6 T' ! 5) = 103
    \<and> ss0 (tss (set_kernel_stack32 stack T)) = 0x10 \<and> esp0 (tss (set_kernel_stack32 stack T)) = stack
      \<and> rsp0 (tss6 (set_kernel_stack64 stack' T')) = stack'"
proof -
  note t = gdt32_table [OF assms(1), of ga ta] and t6 = gdt64_table [OF assms(2), of ga' ta']
  have r1: "map (segment (gdt T)) [0, 0x08, 0x10, 0x1B, 0x23] =
      [None, Some (0, - 1, 0, 0, True, False, False), Some (0, - 1, 0, 0, False, True, False),
       Some (0, - 1, 3, 3, True, False, False), Some (0, - 1, 3, 3, False, True, False)]"
    unfolding assms(3) t by (simp add: segment_simps Let_def)
  have r2: "map (segment (gdt6 T')) [0, 0x08, 0x10, 0x1B, 0x23] =
      [None, Some (0, - 1, 0, 0, True, False, True), Some (0, - 1, 0, 0, False, True, False),
       Some (0, - 1, 3, 3, True, False, True), Some (0, - 1, 3, 3, False, True, False)]"
    unfolding assms(4) t6 by (simp add: segment_simps Let_def)
  have r3: "gdtr T = Some (47, ga) \<and> gdtr6 T' = Some (55, ga')"
    by (simp add: assms(3,4) init_gdt32_def init_gdt64_def gdt_flush32_def tss_flush32_def Let_def
        write_tss32_def write_tss64_def gdt_set_gate32_def gdt_set_gate64_def)
  have r4: "sel_index (task_register T) = 5 \<and> sel_index (task_register6 T') = 5"
    by (simp add: assms(3,4) init_gdt32_def init_gdt64_def tss_flush32_def Let_def sel_index_def)
  have r5: "access (gdt T ! 5) = available_tss \<and> seg_base (gdt T ! 5) = ta \<and> seg_limit (gdt T ! 5) = 103"
    unfolding assms(3) t
    using join_base [of ta] by (simp add: available_tss_def seg_base_def seg_limit_def Let_def)
  have r6: "access (gdt6 T' ! 5) = available_tss \<and> system_base64 (gdt6 T' ! 5) (gdt6 T' ! 6) = ta'
      \<and> seg_limit (gdt6 T' ! 5) = 103"
    using tss_base64 [OF assms(2), of ga' ta'] unfolding assms(4) t6
    by (simp add: available_tss_def seg_limit_def Let_def)
  have r7: "ss0 (tss (set_kernel_stack32 stack T)) = 0x10 \<and> esp0 (tss (set_kernel_stack32 stack T)) = stack
      \<and> rsp0 (tss6 (set_kernel_stack64 stack' T')) = stack'"
    by (simp add: assms(3) set_kernel_stack32_def set_kernel_stack64_def init_gdt32_def write_tss32_def
        gdt_flush32_def tss_flush32_def gdt_set_gate32_def Let_def)
  from r1 r2 r3 r4 r5 r6 r7 show ?thesis by (intro conjI) (erule conjE | assumption)+
qed

theorem gdt_selectors_witness:
  "segment (gdt (init_gdt32 0x109000 0x109040 \<lparr>gdt = replicate 6 null_gdt_entry, gdt_pointer = (0, 0),
     tss = zero_tss32, gdtr = None, task_register = 0\<rparr>)) 0x1B = Some (0, - 1, 3, 3, True, False, False)"
  using gdt_selectors [where s = "\<lparr>gdt = replicate 6 null_gdt_entry, gdt_pointer = (0, 0),
     tss = zero_tss32, gdtr = None, task_register = 0\<rparr>"
    and s' = "\<lparr>gdt6 = replicate 7 null_gdt_entry, gdt_pointer6 = (0, 0),
     tss6 = zero_tss64, gdtr6 = None, task_register6 = 0\<rparr>" and ga = "0x109000" and ta = "0x109040",
    OF _ _ refl refl] by simp

subsection \<open>Gates\<close>

lemma fold_gates:
  assumes "\<And>i s. i < n \<Longrightarrow> table (step i s) = (table s)[i := x :: 'e]" and "length (table s) = n"
  shows "table (fold step [0 ..< n] s) = replicate n x"
proof -
  have "k \<le> n \<Longrightarrow> table (fold step [0 ..< k] s) = replicate k x @ drop k (table s)" for k
  proof (induction k)
    case 0
    then show ?case by simp
  next
    case (Suc k)
    have "table s = take k (table s) @ table s ! k # drop (Suc k) (table s)"
      using Suc.prems assms(2) by (simp add: id_take_nth_drop)
    then have "drop k (table s) = table s ! k # drop (Suc k) (table s)"
      using Suc.prems assms(2) by (simp add: Cons_nth_drop_Suc)
    with Suc assms show ?case
      by (simp add: list_update_append replicate_append_same del: replicate_Suc flip: replicate_Suc)
  qed
  from this [of n] assms(2) show ?thesis by simp
qed

lemma unat_vector: "i < 256 \<Longrightarrow> unat (of_nat i :: u8) = i"
  by (simp add: unat_of_nat)

lemma idt32_table:
  assumes "length (idt s) = 256"
  shows "idt (idt_install32 ia i0 i1 sc s) =
    (replicate 256 \<lparr>idt_base_low = 0, idt_sel = 0, always0 = 0, idt_flags = 0, idt_base_hi = 0\<rparr>)
      [32 := \<lparr>idt_base_low = ucast (i0 AND 0xFFFF), idt_sel = 8, always0 = 0, idt_flags = 0x8E,
         idt_base_hi = ucast (drop_bit 16 i0 AND 0xFFFF)\<rparr>,
       33 := \<lparr>idt_base_low = ucast (i1 AND 0xFFFF), idt_sel = 8, always0 = 0, idt_flags = 0x8E,
         idt_base_hi = ucast (drop_bit 16 i1 AND 0xFFFF)\<rparr>,
       128 := \<lparr>idt_base_low = ucast (sc AND 0xFFFF), idt_sel = 8, always0 = 0, idt_flags = 0xEE,
         idt_base_hi = ucast (drop_bit 16 sc AND 0xFFFF)\<rparr>]"
proof -
  let ?s = "s\<lparr>idtp := (of_nat (256 * 8) - 1, ia)\<rparr>"
  have "idt (fold (\<lambda>i. idt_set_gate32 (of_nat i) 0 0 0) [0 ..< 256] ?s)
      = replicate 256 \<lparr>idt_base_low = 0, idt_sel = 0, always0 = 0, idt_flags = 0, idt_base_hi = 0\<rparr>"
    by (rule fold_gates) (simp_all add: idt_set_gate32_def unat_vector assms)
  then show ?thesis by (simp add: idt_install32_def Let_def idt_set_gate32_def)
qed

lemma idt64_table:
  assumes "length (idt6 s) = 256"
  shows "idt6 (idt_install64 ia i0 i1 sc s) =
    (replicate 256 \<lparr>offset_low = 0, selector = 0, ist = 0, flags64 = 0, offset_middle = 0, offset_high = 0, idt_zero = 0\<rparr>)
      [32 := \<lparr>offset_low = ucast (i0 AND 0xFFFF), selector = 8, ist = 0, flags64 = 0x8E,
         offset_middle = ucast (drop_bit 16 i0 AND 0xFFFF), offset_high = ucast (drop_bit 32 i0 AND 0xFFFFFFFF), idt_zero = 0\<rparr>,
       33 := \<lparr>offset_low = ucast (i1 AND 0xFFFF), selector = 8, ist = 0, flags64 = 0x8E,
         offset_middle = ucast (drop_bit 16 i1 AND 0xFFFF), offset_high = ucast (drop_bit 32 i1 AND 0xFFFFFFFF), idt_zero = 0\<rparr>,
       128 := \<lparr>offset_low = ucast (sc AND 0xFFFF), selector = 8, ist = 0, flags64 = 0xEE,
         offset_middle = ucast (drop_bit 16 sc AND 0xFFFF), offset_high = ucast (drop_bit 32 sc AND 0xFFFFFFFF), idt_zero = 0\<rparr>]"
proof -
  have "idt6 (fold (\<lambda>i. idt_set_gate64 (of_nat i) 0 0 0) [0 ..< 256] s)
      = replicate 256 \<lparr>offset_low = 0, selector = 0, ist = 0, flags64 = 0, offset_middle = 0, offset_high = 0, idt_zero = 0\<rparr>"
    by (rule fold_gates) (simp_all add: idt_set_gate64_def unat_vector assms)
  then show ?thesis by (simp add: idt_install64_def Let_def idt_set_gate64_def)
qed

lemma idt_gates_ok:
  assumes "length (idt s) = 256" and "length (idt6 s') = 256" and "v < 256"
  shows "gate32 (idt (idt_install32 ia hi hk ht s) ! v) =
      (if v = 32 then Some (hi, 0x08, 0, interrupt_gate)
       else if v = 33 then Some (hk, 0x08, 0, interrupt_gate)
       else if v = 0x80 then Some (ht, 0x08, 3, interrupt_gate) else None)
    \<and> gate64 (idt6 (idt_install64 ia' hi' hk' ht' s') ! v) =
      (if v = 32 then Some (hi', 0x08, 0, interrupt_gate)
       else if v = 33 then Some (hk', 0x08, 0, interrupt_gate)
       else if v = 0x80 then Some (ht', 0x08, 3, interrupt_gate) else None)
    \<and> idtr (idt_install32 ia hi hk ht s) = Some (2047, ia)
    \<and> idtr6 (idt_install64 ia' hi' hk' ht' s') = Some (4095, ia')"
proof -
  have "gate32 (idt (idt_install32 ia hi hk ht s) ! v) =
      (if v = 32 then Some (hi, 0x08, 0, interrupt_gate)
       else if v = 33 then Some (hk, 0x08, 0, interrupt_gate)
       else if v = 0x80 then Some (ht, 0x08, 3, interrupt_gate) else None)"
    using assms(3) join_offset32 [of hi] join_offset32 [of hk] join_offset32 [of ht]
    by (simp add: idt32_table [OF assms(1)] nth_list_update gate32_def gate_offset32_def interrupt_gate_def)
  moreover have "gate64 (idt6 (idt_install64 ia' hi' hk' ht' s') ! v) =
      (if v = 32 then Some (hi', 0x08, 0, interrupt_gate)
       else if v = 33 then Some (hk', 0x08, 0, interrupt_gate)
       else if v = 0x80 then Some (ht', 0x08, 3, interrupt_gate) else None)"
    using assms(3) join_offset64 [of hi'] join_offset64 [of hk'] join_offset64 [of ht']
    by (simp add: idt64_table [OF assms(2)] nth_list_update gate64_def gate_offset64_def interrupt_gate_def)
  moreover have "idtp (fold (\<lambda>i. idt_set_gate32 (of_nat i) 0 0 0) is r) = idtp r" for "is" r
    by (induction "is" arbitrary: r) (simp_all add: idt_set_gate32_def)
  ultimately show ?thesis
    by (simp add: idt_install32_def idt_install64_def Let_def idt_set_gate32_def)
qed

text \<open>
  C32: After idt_install, on either architecture, exactly the vectors 32, 33
  and 0x80 have a present gate: each goes to its stub, at the address the
  split offset reassembles to, in the kernel code segment and through an
  interrupt gate (so with interrupts off); only 0x80 can be raised from user
  mode. Every other vector, the processor's exceptions among them, has no
  gate at all.
\<close>

theorem idt_gates:
  assumes "length (idt s) = 256" and "length (idt6 s') = 256" and "v < 256"
  shows "gate32 (idt (idt_install32 ia hi hk ht s) ! v) =
      (if v = 32 then Some (hi, 0x08, 0, interrupt_gate)
       else if v = 33 then Some (hk, 0x08, 0, interrupt_gate)
       else if v = 0x80 then Some (ht, 0x08, 3, interrupt_gate) else None)
    \<and> gate64 (idt6 (idt_install64 ia' hi' hk' ht' s') ! v) =
      (if v = 32 then Some (hi', 0x08, 0, interrupt_gate)
       else if v = 33 then Some (hk', 0x08, 0, interrupt_gate)
       else if v = 0x80 then Some (ht', 0x08, 3, interrupt_gate) else None)
    \<and> idtr (idt_install32 ia hi hk ht s) = Some (2047, ia)
    \<and> idtr6 (idt_install64 ia' hi' hk' ht' s') = Some (4095, ia')"
  by (rule idt_gates_ok [OF assms])

theorem idt_gates_witness:
  "gate32 (idt (idt_install32 0x10a000 0x100040 0x100080 0x1000c0
     \<lparr>idt = replicate 256 \<lparr>idt_base_low = 0, idt_sel = 0, always0 = 0, idt_flags = 0, idt_base_hi = 0\<rparr>,
      idtp = (0, 0), idtr = None\<rparr>) ! 0x80) = Some (0x1000c0, 0x08, 3, interrupt_gate)"
  using idt_gates [where s = "\<lparr>idt = replicate 256
        \<lparr>idt_base_low = 0, idt_sel = 0, always0 = 0, idt_flags = 0, idt_base_hi = 0\<rparr>, idtp = (0, 0), idtr = None\<rparr>"
    and s' = "\<lparr>idt6 = replicate 256 \<lparr>offset_low = 0, selector = 0, ist = 0, flags64 = 0, offset_middle = 0,
        offset_high = 0, idt_zero = 0\<rparr>, idt_pointer6 = (0, 0), idtr6 = None\<rparr>"
    and v = 128 and ia = "0x10a000" and hi = "0x100040" and hk = "0x100080" and ht = "0x1000c0"]
  by simp

end
