(* ===== verification/Syscalls.thy ===== *)
theory Syscalls
  imports Keyboard Scheduler Tar
begin

text \<open>
  The system call layer, kernel/i386/syscall.c and kernel/x64/syscall.c: the
  calls reached through interrupt 0x80, over the console, the keyboard, the
  virtual file system and the scheduler. The two files differ in the width of
  the machine word and in the layout of struct linux_dirent only; the word
  width is a type variable as in the scheduler's theory. Buffers and strings
  of the caller are read and written in the memory of the scheduler's state,
  with no check of the address, as the code does. The static variables of the
  kernel are fields of the record and not bytes of this memory, so the
  definitions are the code's for buffers apart from them; Calls has the
  relation that also covers the others.
\<close>

section \<open>The machine the calls act on\<close>

record ('w, 'd, 'st) machine =
  kbd :: keyboard
  screen :: vga
  dev :: 'd
  files :: vfs
  fs :: 'st
  sched :: "'w sched"

abbreviation mem :: "('a::len word, 'd, 'st) machine \<Rightarrow> 'a memory" where
  "mem s \<equiv> memory (sched s)"

definition set_mem :: "('a::len word \<Rightarrow> u8) \<Rightarrow> ('a word, 'd, 'st) machine \<Rightarrow> ('a word, 'd, 'st) machine" where
  "set_mem m s = s\<lparr>sched := (sched s)\<lparr>memory := m\<rparr>\<rparr>"

text \<open>kprintf and keyboard_get_char on this state.\<close>

definition print :: "'d hardware \<Rightarrow> u8 list \<Rightarrow> ('w, 'd, 'st) machine \<Rightarrow> ('w, 'd, 'st) machine option" where
  "print hw str s =
     (case kprintf hw str (screen s, dev s) of None \<Rightarrow> None
      | Some (v, d) \<Rightarrow> Some (s\<lparr>screen := v, dev := d\<rparr>))"

definition fetch_char :: "'d hardware \<Rightarrow> ('w, 'd, 'st) machine \<Rightarrow> (u8 \<times> ('w, 'd, 'st) machine) option" where
  "fetch_char hw s =
     (case keyboard_get_char hw (kbd s, dev s) of None \<Rightarrow> None
      | Some (c, k, d) \<Rightarrow> Some (c, s\<lparr>kbd := k, dev := d\<rparr>))"

text \<open>The bytes of a C string argument; None when memory holds no NUL to end it.\<close>

partial_function (option) c_string :: "'a::len memory \<Rightarrow> 'a word \<Rightarrow> u8 list option" where
  "c_string m a = (if m a = 0 then Some [] else Option.bind (c_string m (a + 1)) (\<lambda>str. Some (m a # str)))"

text \<open>Continuing after a step that may not return or may overflow an array of the VFS.\<close>

definition and_then :: "('e + 'v) option \<Rightarrow> ('v \<Rightarrow> ('e + 'u) option) \<Rightarrow> ('e + 'u) option" where
  "and_then r f = (case r of None \<Rightarrow> None | Some (Inl e) \<Rightarrow> Some (Inl e) | Some (Inr v) \<Rightarrow> f v)"

section \<open>Reading and writing\<close>

text \<open>The loop of sys_write prints one byte at a time, each as a string of its own.\<close>

primrec write_chars ::
  "'d hardware \<Rightarrow> u8 list \<Rightarrow> ('w, 'd, 'st) machine \<Rightarrow> ('w, 'd, 'st) machine option" where
  "write_chars hw [] s = Some s"
| "write_chars hw (c # rest) s = Option.bind (print hw [c, 0] s) (write_chars hw rest)"

definition sys_write ::
  "'d hardware \<Rightarrow> u32 \<Rightarrow> 'a::len word \<Rightarrow> 'a word \<Rightarrow> ('a word, 'd, 'st) machine
     \<Rightarrow> ('a word \<times> ('a word, 'd, 'st) machine) option" where
  "sys_write hw fd buf len s =
     (if fd = 1 \<or> fd = 2
      then map_option (Pair len) (write_chars hw (read_bytes (mem s) buf (unat len)) s)
      else Some (-1, s))"

partial_function (option) read_loop ::
  "'d hardware \<Rightarrow> 'a::len word \<Rightarrow> 'a word \<Rightarrow> 'a word \<Rightarrow> ('a word, 'd, 'st) machine
     \<Rightarrow> ('a word \<times> ('a word, 'd, 'st) machine) option" where
  "read_loop hw buf len written s =
     (if written < len then
        Option.bind (fetch_char hw s) (\<lambda>(c, s).
          if c = 8 then
            (if written > 0
             then Option.bind (print hw [8, 32, 8, 0] s) (read_loop hw buf len (written - 1))
             else read_loop hw buf len written s)
          else if c = 10 \<or> c = 13 then
            (let s = set_mem ((mem s)(buf + written := 10)) s in
             map_option (Pair (written + 1)) (print hw [10, 0] s))
          else
            (let s = set_mem ((mem s)(buf + written := c)) s in
             Option.bind (print hw [c, 0] s) (read_loop hw buf len (written + 1))))
      else Some (written, s))"

definition sys_read ::
  "'d hardware \<Rightarrow> u32 \<Rightarrow> 'a::len word \<Rightarrow> 'a word \<Rightarrow> ('a word, 'd, 'st) machine
     \<Rightarrow> ('a word \<times> ('a word, 'd, 'st) machine) option" where
  "sys_read hw fd buf len s = (if fd \<noteq> 0 then Some (0, s) else read_loop hw buf len 0 s)"

section \<open>Files\<close>

text \<open>A path argument: the null pointer, or a string.\<close>

definition path_arg :: "'a::len memory \<Rightarrow> 'a word \<Rightarrow> u8 list option option" where
  "path_arg m a = (if a = 0 then Some None else map_option Some (c_string m a))"

definition sys_open ::
  "'st drivers \<Rightarrow> 'a::len word \<Rightarrow> u32 \<Rightarrow> u32 \<Rightarrow> ('a word, 'd, 'st) machine
     \<Rightarrow> (vfs_error + 'a word \<times> ('a word, 'd, 'st) machine) option" where
  "sys_open drv path flgs mode s =
     Option.bind (path_arg (mem s) path) (\<lambda>p.
       and_then (vfs_resolve_path drv p (files s) (fs s)) (\<lambda>(node, st).
         Some (Inr (if node = None then -1 else 3, s\<lparr>fs := st\<rparr>))))"

definition sys_close :: "u32 \<Rightarrow> ('a::len word, 'd, 'st) machine \<Rightarrow> 'a word \<times> ('a word, 'd, 'st) machine" where
  "sys_close fd s = (0, s)"

text \<open>
  struct linux_dirent: two machine words, a 16-bit record length and the
  name, with the structure's size rounded up to its alignment.
\<close>

definition word_bytes :: "'a::len itself \<Rightarrow> nat" where
  "word_bytes t = LENGTH('a) div 8"

definition SIZEOF_DIRENT :: "'a::len itself \<Rightarrow> nat" where
  "SIZEOF_DIRENT t = 3 * word_bytes t"

definition OFFSET_NAME :: "'a::len itself \<Rightarrow> nat" where
  "OFFSET_NAME t = 2 * word_bytes t + 2"

definition dirent_reclen :: "'a::len itself \<Rightarrow> u8 list \<Rightarrow> u16" where
  "dirent_reclen t nm =
     (let reclen = of_nat (SIZEOF_DIRENT t + length nm + 1); align = of_nat (word_bytes t - 1)
      in (reclen + align) AND NOT align)"

definition put_dirent :: "'a::len word \<Rightarrow> u32 \<Rightarrow> u16 \<Rightarrow> dirent \<Rightarrow> 'a memory \<Rightarrow> 'a memory" where
  "put_dirent dirp pos reclen de m =
     (let w = word_bytes TYPE('a); entry = dirp + ucast pos;
          m = write_bytes m entry (bytes_le w (ucast (ino de) :: 'a word));
          m = write_bytes m (entry + of_nat w) (bytes_le w (ucast (pos + ucast reclen) :: 'a word));
          m = write_bytes m (entry + of_nat (2 * w)) (bytes_le 2 reclen);
          m = write_bytes m (entry + of_nat (OFFSET_NAME TYPE('a))) (dname de)
      in m(entry + of_nat (OFFSET_NAME TYPE('a)) + of_nat (length (dname de)) := 0))"

partial_function (option) getdents_loop ::
  "'st drivers \<Rightarrow> node_ptr \<Rightarrow> 'a::len word \<Rightarrow> u32 \<Rightarrow> u32 \<Rightarrow> u32 \<Rightarrow> ('a word, 'd, 'st) machine
     \<Rightarrow> (u32 \<times> ('a word, 'd, 'st) machine) option" where
  "getdents_loop drv node dirp count pos index s =
     (case vfs_readdir drv (Some node) index (fs s) of
        None \<Rightarrow> None
      | Some (None, st) \<Rightarrow> Some (pos, s\<lparr>fs := st\<rparr>)
      | Some (Some de, st) \<Rightarrow>
          (let s = s\<lparr>fs := st\<rparr>; reclen = dirent_reclen TYPE('a) (dname de) in
           if pos + ucast reclen > count then Some (pos, s)
           else getdents_loop drv node dirp count (pos + ucast reclen) (index + 1)
                  (set_mem (put_dirent dirp pos reclen de (mem s)) s)))"

definition sys_getdents ::
  "'st drivers \<Rightarrow> u32 \<Rightarrow> 'a::len word \<Rightarrow> u32 \<Rightarrow> ('a word, 'd, 'st) machine
     \<Rightarrow> ('a word \<times> ('a word, 'd, 'st) machine) option" where
  "sys_getdents drv fd dirp count s =
     (case vfs_root (files s) of
        None \<Rightarrow> Some (-1, s)
      | Some node \<Rightarrow> map_option (\<lambda>(pos, s). (ucast pos, s)) (getdents_loop drv node dirp count 0 0 s))"

text \<open>The last argument of sys_mount is the node; a null pointer is None.\<close>

definition sys_mount ::
  "'a::len word \<Rightarrow> 'a word \<Rightarrow> 'a word \<Rightarrow> u32 \<Rightarrow> node_ptr option \<Rightarrow> ('a word, 'd, 'st) machine
     \<Rightarrow> (vfs_error + 'a word \<times> ('a word, 'd, 'st) machine) option" where
  "sys_mount special dir fstype flgs data s =
     Option.bind (c_string (mem s) dir) (\<lambda>path.
       case vfs_mount path data (files s) of
         Inl e \<Rightarrow> Some (Inl e)
       | Inr (r, v) \<Rightarrow> Some (Inr (of_int r, s\<lparr>files := v\<rparr>)))"

definition sys_umount ::
  "'a::len word \<Rightarrow> u32 \<Rightarrow> ('a word, 'd, 'st) machine \<Rightarrow> ('a word \<times> ('a word, 'd, 'st) machine) option" where
  "sys_umount special flgs s =
     map_option (\<lambda>path. case vfs_umount path (files s) of (r, v) \<Rightarrow> (of_int r, s\<lparr>files := v\<rparr>))
       (c_string (mem s) special)"

definition sys_mkdir ::
  "'st drivers \<Rightarrow> 'a::len word \<Rightarrow> u32 \<Rightarrow> ('a word, 'd, 'st) machine
     \<Rightarrow> ('a word \<times> ('a word, 'd, 'st) machine) option" where
  "sys_mkdir drv pathname mode s =
     Option.bind (c_string (mem s) pathname) (\<lambda>path.
       map_option (\<lambda>(r, st). (of_int r, s\<lparr>fs := st\<rparr>)) (vfs_mkdir drv path (ucast mode) (files s) (fs s)))"

definition sys_link ::
  "'st drivers \<Rightarrow> 'a::len word \<Rightarrow> 'a word \<Rightarrow> ('a word, 'd, 'st) machine
     \<Rightarrow> (vfs_error + 'a word \<times> ('a word, 'd, 'st) machine) option" where
  "sys_link drv oldpath newpath s =
     Option.bind (path_arg (mem s) oldpath) (\<lambda>old.
       Option.bind (c_string (mem s) newpath) (\<lambda>new.
         and_then (vfs_link drv old new (files s) (fs s)) (\<lambda>(r, st).
           Some (Inr (of_int r, s\<lparr>fs := st\<rparr>)))))"

definition sys_unlink ::
  "'st drivers \<Rightarrow> 'a::len word \<Rightarrow> ('a word, 'd, 'st) machine
     \<Rightarrow> (vfs_error + 'a word \<times> ('a word, 'd, 'st) machine) option" where
  "sys_unlink drv pathname s =
     Option.bind (path_arg (mem s) pathname) (\<lambda>path.
       and_then (vfs_unlink drv path (files s) (fs s)) (\<lambda>(r, st).
         Some (Inr (of_int r, s\<lparr>fs := st\<rparr>))))"

section \<open>Exit and the dispatcher\<close>

text \<open>
  sys_exit leaves on the stack that the scheduler chooses: sp is the stack
  pointer at the interrupt that task_exit raises, base the address of the
  task table.
\<close>

definition sys_exit ::
  "'a::len word \<Rightarrow> 'a word \<Rightarrow> u32 \<Rightarrow> ('a word, 'd, 'st) machine \<Rightarrow> 'a word \<times> ('a word, 'd, 'st) machine" where
  "sys_exit base sp code s = (case task_exit base sp (sched s) of (sp, sc) \<Rightarrow> (sp, s\<lparr>sched := sc\<rparr>))"

text \<open>A call gives a value for the result register, or switches stacks.\<close>

datatype 'w verdict = Value 'w | Switch 'w

definition returning ::
  "('w \<times> 's) option \<Rightarrow> (vfs_error + 'w verdict \<times> 's) option" where
  "returning r = map_option (\<lambda>(v, s). Inr (Value v, s)) r"

definition returning_or_fault ::
  "(vfs_error + 'w \<times> 's) option \<Rightarrow> (vfs_error + 'w verdict \<times> 's) option" where
  "returning_or_fault r = and_then r (\<lambda>(v, s). Some (Inr (Value v, s)))"

definition syscall_switch ::
  "'d hardware \<Rightarrow> 'st drivers \<Rightarrow> 'a::len word \<Rightarrow> 'a word \<Rightarrow> 'a word \<Rightarrow> 'a word \<Rightarrow> 'a word \<Rightarrow> 'a word
     \<Rightarrow> ('a word, 'd, 'st) machine \<Rightarrow> (vfs_error + 'a word verdict \<times> ('a word, 'd, 'st) machine) option" where
  "syscall_switch hw drv base sp nr a b c s =
     (if unat nr = 1 then (case sys_exit base sp (ucast a) s of (sp, s) \<Rightarrow> Some (Inr (Switch sp, s)))
      else if unat nr = 3 then returning (sys_read hw (ucast a) b c s)
      else if unat nr = 4 then returning (sys_write hw (ucast a) b c s)
      else if unat nr = 5 then returning_or_fault (sys_open drv a (ucast b) (ucast c) s)
      else if unat nr = 6 then returning (Some (sys_close (ucast a) s))
      else if unat nr = 9 then returning_or_fault (sys_link drv a b s)
      else if unat nr = 10 then returning_or_fault (sys_unlink drv a s)
      else if unat nr = 21 then returning_or_fault (sys_mount a b c 0 None s)
      else if unat nr = 22 then returning (sys_umount a (ucast b) s)
      else if unat nr = 39 then returning (sys_mkdir drv a (ucast b) s)
      else if unat nr = 141 then returning (sys_getdents drv (ucast a) b (ucast c) s)
      else Some (Inr (Value (-1), s)))"

text \<open>The registers on the kernel stack, and the handlers of the two files.\<close>

record regs32 =
  gs :: u32
  fs_reg :: u32
  es :: u32
  ds :: u32
  edi :: u32
  esi :: u32
  ebp :: u32
  esp_dummy :: u32
  ebx :: u32
  edx :: u32
  ecx :: u32
  eax :: u32
  int_no :: u32
  err_code :: u32
  eip :: u32
  cs_reg :: u32
  eflags :: u32
  useresp :: u32
  ss_reg :: u32

record regs64 =
  r15 :: u64
  r14 :: u64
  r13 :: u64
  r12 :: u64
  r11 :: u64
  r10 :: u64
  r9 :: u64
  r8 :: u64
  rdi :: u64
  rsi :: u64
  rbp :: u64
  rdx :: u64
  rcx :: u64
  rbx :: u64
  rax :: u64

text \<open>The saved registers afterwards, and the stack to continue on when it is another one.\<close>

definition syscall_handler32 ::
  "'d hardware \<Rightarrow> 'st drivers \<Rightarrow> u32 \<Rightarrow> u32 \<Rightarrow> regs32 \<Rightarrow> (u32, 'd, 'st) machine
     \<Rightarrow> (vfs_error + regs32 \<times> u32 option \<times> (u32, 'd, 'st) machine) option" where
  "syscall_handler32 hw drv base sp regs s =
     and_then (syscall_switch hw drv base sp (eax regs) (ebx regs) (ecx regs) (edx regs) s) (\<lambda>(v, s).
       Some (Inr (case v of Value r \<Rightarrow> (regs\<lparr>eax := r\<rparr>, None, s) | Switch sp \<Rightarrow> (regs, Some sp, s))))"

definition syscall_handler64 ::
  "'d hardware \<Rightarrow> 'st drivers \<Rightarrow> u64 \<Rightarrow> u64 \<Rightarrow> regs64 \<Rightarrow> (u64, 'd, 'st) machine
     \<Rightarrow> (vfs_error + regs64 \<times> u64 option \<times> (u64, 'd, 'st) machine) option" where
  "syscall_handler64 hw drv base sp regs s =
     and_then (syscall_switch hw drv base sp (rax regs) (rdi regs) (rsi regs) (rdx regs) s) (\<lambda>(v, s).
       Some (Inr (case v of Value r \<Rightarrow> (regs\<lparr>rax := r\<rparr>, None, s) | Switch sp \<Rightarrow> (regs, Some sp, s))))"

section \<open>The terminal the calls rely on\<close>

text \<open>
  What the calls need of keyboard and serial line: feeds input k d says that
  the successive characters keyboard_get_char will return are input; a wait
  on the serial line ends and takes no key.
\<close>

definition terminal_ok :: "'d hardware \<Rightarrow> (u8 list \<Rightarrow> keyboard \<Rightarrow> 'd \<Rightarrow> bool) \<Rightarrow> bool" where
  "terminal_ok hw feeds \<longleftrightarrow>
     (\<forall>c rest k d. feeds (c # rest) k d \<longrightarrow>
        (\<exists>k' d'. keyboard_get_char hw (k, d) = Some (c, k', d') \<and> feeds rest k' d'))
   \<and> (\<forall>input k d str. feeds input k d \<longrightarrow> (\<exists>d'. serial_printf hw str d = Some d' \<and> feeds input k d'))"

text \<open>It holds of the characters in the keyboard buffer, on a serial line that is ready.\<close>

definition buffered :: "u8 list \<Rightarrow> keyboard \<Rightarrow> 'd \<Rightarrow> bool" where
  "buffered input k d \<longleftrightarrow> kb_ok k \<and> kb_contents k = input \<and> unat (poll_counter k) + length input < 100000"

lemma terminal_buffered:
  assumes "\<And>str d. \<exists>d'. serial_printf hw str d = Some d'"
  shows "terminal_ok hw buffered"
  unfolding terminal_ok_def
proof (intro conjI allI impI)
  fix c rest k d
  assume b: "buffered (c # rest) k (d :: 'a)"
  then have k: "kb_ok k" "unat (poll_counter k) < 99999" "kb_contents k = c # rest"
    by (auto simp: buffered_def)
  from get_char_buffered [OF this, of hw d] obtain k' where k':
      "keyboard_get_char hw (k, d) = Some (c, k', d)" "kb_ok k'" "kb_contents k' = rest"
      "poll_counter k' = poll_counter k + 1" by blast
  have "unat (poll_counter k + 1) = unat (poll_counter k) + 1"
    by (rule counter_below(2)) (use k(2) in simp)
  with b k' have "buffered rest k' d" by (simp add: buffered_def)
  with k'(1) show "\<exists>k' d'. keyboard_get_char hw (k, d) = Some (c, k', d') \<and> buffered rest k' d'" by blast
next
  fix input k d str
  assume "buffered input k (d :: 'a)"
  with assms [of str d] show "\<exists>d'. serial_printf hw str d = Some d' \<and> buffered input k d'"
    by (auto simp: buffered_def)
qed

lemma ready_line: "\<exists>d'. serial_printf (log_device (\<lambda>p. 0x20)) str d = Some d'"
proof (induction str arbitrary: d)
  case Nil
  then show ?case by simp
next
  case (Cons c str)
  have "serial_wait (log_device (\<lambda>p. 0x20)) d = Some d" for d
    by (rule serial_wait_ready) (simp add: is_transmit_empty_def)
  with Cons show ?case by (simp add: serial_write_def)
qed

text \<open>Printing then only changes the screen and the device.\<close>

lemma print_ok:
  assumes "terminal_ok hw feeds" and "feeds input (kbd s) (dev s)"
  shows "\<exists>d. print hw str s = Some (s\<lparr>screen := tty_chars str (screen s), dev := d\<rparr>) \<and> feeds input (kbd s) d"
proof -
  from assms obtain d where "serial_printf hw str (dev s) = Some d" "feeds input (kbd s) d"
    unfolding terminal_ok_def by blast
  then show ?thesis by (auto simp: print_def kprintf_def tty_write_def)
qed

lemma fetch_ok:
  assumes "terminal_ok hw feeds" and "feeds (c # rest) (kbd s) (dev s)"
  shows "\<exists>k d. fetch_char hw s = Some (c, s\<lparr>kbd := k, dev := d\<rparr>) \<and> feeds rest k d"
proof -
  from assms obtain k d where "keyboard_get_char hw (kbd s, dev s) = Some (c, k, d)" "feeds rest k d"
    unfolding terminal_ok_def by blast
  then show ?thesis by (auto simp: fetch_char_def)
qed

lemma tty_chars_append_nul: "tty_chars (str @ 0 # rest) v = tty_chars str v"
  by (induction str arbitrary: v) simp_all

lemma tty_chars_append: "0 \<notin> set str \<Longrightarrow> tty_chars (str @ rest) v = tty_chars rest (tty_chars str v)"
  by (induction str arbitrary: v) auto

abbreviation visible :: "u8 list \<Rightarrow> u8 list" where
  "visible bs \<equiv> filter (\<lambda>c. c \<noteq> 0) bs"

lemma write_chars_ok:
  assumes "terminal_ok hw feeds" and "feeds input (kbd s) (dev s)"
  shows "\<exists>d. write_chars hw bs s = Some (s\<lparr>screen := tty_chars (visible bs) (screen s), dev := d\<rparr>)
    \<and> feeds input (kbd s) d"
  using assms(2)
proof (induction bs arbitrary: s)
  case Nil
  then show ?case by (intro exI [of _ "dev s"]) simp
next
  case (Cons c bs)
  from print_ok [OF assms(1) Cons.prems, of "[c, 0]"] obtain d where d:
      "print hw [c, 0] s = Some (s\<lparr>screen := tty_chars [c, 0] (screen s), dev := d\<rparr>)" "feeds input (kbd s) d"
    by blast
  from Cons.IH [of "s\<lparr>screen := tty_chars [c, 0] (screen s), dev := d\<rparr>"] d show ?case
    by (cases "c = 0") auto
qed

section \<open>sys_write\<close>

text \<open>
  On a terminal whose serial line works, sys_write to descriptor 1 or 2
  prints every byte of the buffer (a NUL prints nothing but does not end the
  output), reports the whole length written and changes nothing but screen
  and device; to any other descriptor it reports -1 and prints nothing.
\<close>

theorem sys_write_prints:
  assumes "terminal_ok hw feeds" and "feeds input (kbd s) (dev s)"
  shows "\<exists>d. sys_write hw fd buf len s =
      (if fd = 1 \<or> fd = 2
       then Some (len, s\<lparr>screen := tty_chars (visible (read_bytes (mem s) buf (unat len))) (screen s), dev := d\<rparr>)
       else Some (-1, s)) \<and> (fd = 1 \<or> fd = 2 \<longrightarrow> feeds input (kbd s) d)"
  using write_chars_ok [OF assms, of "read_bytes (mem s) buf (unat len)"] by (auto simp: sys_write_def)

section \<open>sys_read as a line editor\<close>

text \<open>
  What the loop does to a line of at most n characters: backspace deletes the
  last one, newline or carriage return ends the line with a newline. The
  result is the line, what is echoed, and the input left over; None when the
  input ends first.
\<close>

definition echoing :: "u8 list \<Rightarrow> (u8 list \<times> u8 list \<times> u8 list) option \<Rightarrow> (u8 list \<times> u8 list \<times> u8 list) option" where
  "echoing out r = map_option (\<lambda>(line, echo, rest). (line, visible out @ echo, rest)) r"

fun edit :: "nat \<Rightarrow> u8 list \<Rightarrow> u8 list \<Rightarrow> (u8 list \<times> u8 list \<times> u8 list) option" where
  "edit n line [] = (if length line < n then None else Some (line, [], []))"
| "edit n line (c # input) =
     (if length line < n then
        (if c = 8 then
           (if line \<noteq> [] then echoing [8, 32, 8] (edit n (butlast line) input) else edit n line input)
         else if c = 10 \<or> c = 13 then Some (line @ [10], [10], input)
         else echoing [c] (edit n (line @ [c]) input))
      else Some (line, [], c # input))"

lemma edit_length: "edit n line input = Some (l, e, r) \<Longrightarrow> length line \<le> n \<Longrightarrow> length l \<le> n"
  by (induction n line input arbitrary: l e r rule: edit.induct)
    (auto simp: echoing_def split: if_splits)

lemma read_bytes_snoc: "read_bytes m a (Suc n) = read_bytes m a n @ [m (a + of_nat n)]"
  using read_bytes_append [of m a n 1] by simp

lemma mem_set_mem [simp]: "mem (set_mem m s) = m"
  and kbd_set_mem [simp]: "kbd (set_mem m s) = kbd s"
  and dev_set_mem [simp]: "dev (set_mem m s) = dev s"
  and screen_set_mem [simp]: "screen (set_mem m s) = screen s"
  and fs_set_mem [simp]: "fs (set_mem m s) = fs s"
  and files_set_mem [simp]: "files (set_mem m s) = files s"
  and set_mem_set_mem [simp]: "set_mem m (set_mem m' s) = set_mem m s"
  and set_mem_mem [simp]: "set_mem (mem s) s = s"
  by (simp_all add: set_mem_def)

lemma set_mem_fields [simp]:
  "set_mem m (s\<lparr>screen := v, dev := d\<rparr>) = (set_mem m s)\<lparr>screen := v, dev := d\<rparr>"
  "set_mem m (s\<lparr>kbd := k, dev := d\<rparr>) = (set_mem m s)\<lparr>kbd := k, dev := d\<rparr>"
  "set_mem m (s\<lparr>fs := st\<rparr>) = (set_mem m s)\<lparr>fs := st\<rparr>"
  by (simp_all add: set_mem_def)

lemma poke_prefix:
  fixes buf :: "'a::len word"
  assumes "i < 2 ^ LENGTH('a)"
  shows "read_bytes (m(buf + of_nat i := c)) buf i = read_bytes m buf i"
proof (rule read_bytes_cong)
  fix j
  assume "j < i"
  with assms have "of_nat j \<noteq> (of_nat i :: 'a word)"
    by (metis less_trans nat_neq_iff unat_of_nat_less)
  then show "(m(buf + of_nat i := c)) (buf + of_nat j) = m (buf + of_nat j)" by simp
qed

lemma take_read_bytes: "n \<le> k \<Longrightarrow> take n (read_bytes m a k) = read_bytes m a n"
  by (rule nth_equalityI) simp_all

text \<open>A state that differs from s in keyboard, screen, device and memory.\<close>

definition io_update ::
  "keyboard \<Rightarrow> vga \<Rightarrow> 'd \<Rightarrow> 'a::len memory \<Rightarrow> ('a word, 'd, 'st) machine \<Rightarrow> ('a word, 'd, 'st) machine" where
  "io_update k v d m s = (set_mem m s)\<lparr>kbd := k, screen := v, dev := d\<rparr>"

lemma io_update_sel [simp]:
  "kbd (io_update k v d m s) = k" "screen (io_update k v d m s) = v" "dev (io_update k v d m s) = d"
  "mem (io_update k v d m s) = m" "files (io_update k v d m s) = files s" "fs (io_update k v d m s) = fs s"
  "io_update k v d m (io_update k' v' d' m' s) = io_update k v d m s"
  "set_mem m' (io_update k v d m s) = io_update k v d m' s"
  by (simp_all add: io_update_def set_mem_def)

lemma io_update_intro:
  "s\<lparr>screen := v, dev := d\<rparr> = io_update (kbd s) v d (mem s) s"
  "s\<lparr>kbd := k, dev := d\<rparr> = io_update k (screen s) d (mem s) s"
  "set_mem m s = io_update (kbd s) (screen s) (dev s) m s"
  by (simp_all add: io_update_def set_mem_def)

lemma tty_chars_visible: "0 \<notin> set out \<Longrightarrow> tty_chars (out @ [0]) v = tty_chars (visible out) v"
  by (induction out arbitrary: v) auto

lemma tty_chars_one: "tty_chars [c, 0] v = tty_chars (visible [c]) v"
  by simp

lemma tty_chars_then: "tty_chars (visible out @ echo) v = tty_chars echo (tty_chars (visible out) v)"
  by (rule tty_chars_append) simp

text \<open>What a run of the loop leaves: the line in the buffer, the echo on the screen.\<close>

definition line_read ::
  "(u8 list \<Rightarrow> keyboard \<Rightarrow> 'd \<Rightarrow> bool) \<Rightarrow> 'a::len word \<Rightarrow> 'a word \<Rightarrow> u8 list \<Rightarrow> u8 list \<Rightarrow> u8 list
     \<Rightarrow> ('a word, 'd, 'st) machine \<Rightarrow> ('a word \<times> ('a word, 'd, 'st) machine) option \<Rightarrow> bool" where
  "line_read feeds buf len line echo rest s r \<longleftrightarrow>
     (\<exists>k d m. r = Some (of_nat (length line), io_update k (tty_chars echo (screen s)) d m s)
        \<and> feeds rest k d \<and> read_bytes m buf (length line) = line
        \<and> (\<forall>x. x \<notin> region buf (unat len) \<longrightarrow> m x = mem s x))"

lemma line_read_after:
  assumes "line_read feeds buf len line echo rest (io_update k (tty_chars (visible out) (screen s)) d m s) r"
    and "\<And>x. x \<notin> region buf (unat len) \<Longrightarrow> m x = mem s x"
  shows "line_read feeds buf len line (visible out @ echo) rest s r"
  using assms unfolding line_read_def by (auto simp: tty_chars_then)

lemma line_read_later:
  "line_read feeds buf len line echo rest (io_update k (screen s) d (mem s) s) r
    \<Longrightarrow> line_read feeds buf len line echo rest s r"
  using line_read_after [where out = "[]" and m = "mem s" and k = k and d = d and s = s] by simp

lemma read_loop_edits:
  fixes s :: "('a::len word, 'd, 'st) machine"
  assumes "terminal_ok hw feeds"
  shows "edit (unat len) line input = Some (l, echo, rest) \<Longrightarrow> length line \<le> unat len
    \<Longrightarrow> feeds input (kbd s) (dev s) \<Longrightarrow> read_bytes (mem s) buf (length line) = line
    \<Longrightarrow> line_read feeds buf len l echo rest s (read_loop hw buf len (of_nat (length line)) s)"
proof (induction "unat len" line input arbitrary: l echo rest s rule: edit.induct)
  case (1 line)
  then have full: "length line = unat len" by (auto split: if_splits)
  have "read_loop hw buf len (of_nat (length line)) s = Some (of_nat (length line), s)"
    by (subst read_loop.simps) (simp add: full)
  with 1 show ?case unfolding line_read_def
    by (intro exI [of _ "kbd s"] exI [of _ "dev s"] exI [of _ "mem s"])
      (auto simp: io_update_def set_mem_def split: if_splits)
next
  case (2 line c input)
  let ?w = "of_nat (length line) :: 'a word"
  show ?case
  proof (cases "length line < unat len")
    case False
    with 2 have full: "length line = unat len" and r: "l = line" "echo = []" "rest = c # input" by auto
    have "read_loop hw buf len ?w s = Some (?w, s)"
      by (subst read_loop.simps) (simp add: full)
    with 2 r show ?thesis unfolding line_read_def
      by (intro exI [of _ "kbd s"] exI [of _ "dev s"] exI [of _ "mem s"])
        (auto simp: io_update_def set_mem_def)
  next
    case True
    have lim: "unat len < 2 ^ LENGTH('a)" by simp
    have uw: "unat ?w = length line" by (rule unat_of_nat_less) (rule less_trans [OF True lim])
    have lt: "?w < len" using True uw by (simp add: word_less_nat_alt)
    from fetch_ok [OF assms 2(6)] obtain k d where
      f: "fetch_char hw s = Some (c, io_update k (screen s) d (mem s) s)" and fd: "feeds input k d"
      by (auto simp: io_update_intro)
    let ?s1 = "io_update k (screen s) d (mem s) s"
    have step: "read_loop hw buf len ?w s =
        (if c = 8 then
            (if line \<noteq> []
             then Option.bind (print hw [8, 32, 8, 0] ?s1) (read_loop hw buf len (?w - 1))
             else read_loop hw buf len ?w ?s1)
          else if c = 10 \<or> c = 13 then
            map_option (Pair (?w + 1)) (print hw [10, 0] (set_mem ((mem s)(buf + ?w := 10)) ?s1))
          else Option.bind (print hw [c, 0] (set_mem ((mem s)(buf + ?w := c)) ?s1)) (read_loop hw buf len (?w + 1)))"
      using lt uw by (subst read_loop.simps) (auto simp: f word_gt_0 unat_eq_0 [symmetric] Let_def simp del: unat_eq_0)
    have kept: "read_bytes ((mem s)(buf + ?w := x)) buf (Suc (length line)) = line @ [x]" for x
      unfolding read_bytes_snoc using poke_prefix [of "length line" "mem s" buf x] less_trans [OF True lim] 2(7)
      by simp
    have inside: "x \<notin> region buf (unat len) \<Longrightarrow> ((mem s)(buf + ?w := y)) x = mem s x" for x y
      using nat_in_region [OF True, of buf] by auto
    have w1: "?w + 1 = of_nat (length (line @ [c]))" by simp
    show ?thesis
    proof (cases "c = 8")
      case bs: True
      show ?thesis
      proof (cases "line = []")
        case nil: True
        have "line_read feeds buf len l echo rest ?s1 (read_loop hw buf len ?w ?s1)"
          by (rule 2(2) [OF True bs]) (use 2(4,5,7) fd bs nil True in auto)
        then show ?thesis unfolding step using bs nil by (simp add: line_read_later)
      next
        case ne: False
        have w: "?w - 1 = of_nat (length (butlast line))" using ne by (simp add: of_nat_diff Suc_leI)
        from print_ok [OF assms, of input ?s1 "[8, 32, 8, 0]"] fd obtain d' where
          p: "print hw [8, 32, 8, 0] ?s1 = Some (io_update k (tty_chars (visible [8, 32, 8]) (screen s)) d' (mem s) s)"
            "feeds input k d'"
          by (auto simp: io_update_intro)
        have bl: "read_bytes (mem s) buf (length (butlast line)) = butlast line"
          using take_read_bytes [of "length line - 1" "length line" "mem s" buf] 2(7)
          by (simp add: butlast_conv_take)
        let ?s2 = "io_update k (tty_chars (visible [8, 32, 8]) (screen s)) d' (mem s) s"
        obtain e where e: "edit (unat len) (butlast line) input = Some (l, e, rest)" "echo = visible [8, 32, 8] @ e"
          using 2(4) True bs ne by (auto simp: echoing_def)
        have "line_read feeds buf len l e rest ?s2 (read_loop hw buf len (of_nat (length (butlast line))) ?s2)"
          by (rule 2(1) [OF True bs ne e(1)])
            (use True bl p(2) in auto)
        from line_read_after [OF this] show ?thesis
          using bs ne unfolding step w e(2) by (simp add: p(1) del: tty_chars.simps)
      qed
    next
      case nbs: False
      show ?thesis
      proof (cases "c = 10 \<or> c = 13")
        case nl: True
        let ?m = "(mem s)(buf + ?w := 10)"
        from print_ok [OF assms, of input "set_mem ?m ?s1" "[10, 0]"] fd obtain d' where
          p: "print hw [10, 0] (set_mem ?m ?s1) = Some (io_update k (tty_chars [10] (screen s)) d' ?m s)"
            "feeds input k d'"
          by (auto simp: io_update_intro)
        have "l = line @ [10]" "echo = [10]" "rest = input" using 2(4) True nbs nl by auto
        then have l: "l = line @ [10]" and e: "echo = [10]" and r: "rest = input" by simp_all
        have run: "read_loop hw buf len ?w s
            = Some (of_nat (length l), io_update k (tty_chars echo (screen s)) d' ?m s)"
          unfolding step l e using nbs nl p(1) by (auto simp: Let_def simp del: tty_chars.simps)
        show ?thesis unfolding line_read_def run r
          by (intro exI [of _ k] exI [of _ d'] exI [of _ ?m] conjI allI impI refl p(2) inside)
            (simp_all only: l kept length_append list.size One_nat_def add_Suc_right add_0_right not_False_eq_True)
      next
        case ch: False
        let ?m = "(mem s)(buf + ?w := c)"
        from print_ok [OF assms, of input "set_mem ?m ?s1" "[c, 0]"] fd obtain d' where
          p: "print hw [c, 0] (set_mem ?m ?s1) = Some (io_update k (tty_chars (visible [c]) (screen s)) d' ?m s)"
            "feeds input k d'"
          by (auto simp: io_update_intro split: if_splits)
        let ?s2 = "io_update k (tty_chars (visible [c]) (screen s)) d' ?m s"
        obtain e where e: "edit (unat len) (line @ [c]) input = Some (l, e, rest)" "echo = visible [c] @ e"
          using 2(4) True nbs ch by (auto simp: echoing_def)
        have "line_read feeds buf len l e rest ?s2 (read_loop hw buf len (of_nat (length (line @ [c]))) ?s2)"
          by (rule 2(3) [OF True nbs ch e(1)]) (use True p(2) kept [of c] in auto)
        from line_read_after [OF this, OF inside]
        have "line_read feeds buf len l echo rest s (read_loop hw buf len (of_nat (length (line @ [c]))) ?s2)"
          unfolding e(2) .
        moreover have "read_loop hw buf len ?w s
            = Option.bind (print hw [c, 0] (set_mem ?m ?s1)) (read_loop hw buf len (of_nat (length (line @ [c]))))"
          unfolding step w1 using nbs ch by (simp only: Let_def if_False simp_thms)
        ultimately show ?thesis by (simp only: p(1) Option.bind.simps)
      qed
    qed
  qed
qed

lemma sys_read_ok:
  fixes s :: "('a::len word, 'd, 'st) machine"
  assumes "terminal_ok hw feeds" and "feeds input (kbd s) (dev s)"
    and "edit (unat len) [] input = Some (line, echo, rest)"
  shows "\<exists>k d m. sys_read hw 0 buf len s
        = Some (of_nat (length line), io_update k (tty_chars echo (screen s)) d m s)
      \<and> unat (of_nat (length line) :: 'a word) = length line \<and> length line \<le> unat len
      \<and> feeds rest k d \<and> read_bytes m buf (length line) = line
      \<and> (\<forall>x. x \<notin> region buf (unat len) \<longrightarrow> m x = mem s x)"
proof -
  have le: "length line \<le> unat len" by (rule edit_length [OF assms(3)]) simp
  moreover have "unat len < 2 ^ LENGTH('a)" by simp
  ultimately have "length line < 2 ^ LENGTH('a)" by (rule le_less_trans)
  then have u: "unat (of_nat (length line) :: 'a word) = length line" by (rule unat_of_nat_less)
  have "line_read feeds buf len line echo rest s (read_loop hw buf len (of_nat (length ([] :: u8 list))) s)"
    by (rule read_loop_edits [OF assms(1,3)]) (use assms(2) in auto)
  with le u show ?thesis by (auto simp: line_read_def sys_read_def)
qed

text \<open>
  C19: sys_read on descriptor 0 is the line editor edit: when the characters to
  come make edit end a line, the call returns the length of that line, at
  most len, the line is in the buffer (newline last unless the buffer filled
  up first), nothing outside the buffer has changed, the screen shows what
  edit echoes, and the characters after the line are still to come. On any
  other descriptor it returns 0 at once.
\<close>

theorem sys_read_edits_line:
  fixes s :: "('a::len word, 'd, 'st) machine"
  assumes "terminal_ok hw feeds" and "feeds input (kbd s) (dev s)"
    and "edit (unat len) [] input = Some (line, echo, rest)"
  shows "(\<exists>k d m. sys_read hw 0 buf len s
        = Some (of_nat (length line), io_update k (tty_chars echo (screen s)) d m s)
      \<and> unat (of_nat (length line) :: 'a word) = length line \<and> length line \<le> unat len
      \<and> feeds rest k d \<and> read_bytes m buf (length line) = line
      \<and> (\<forall>x. x \<notin> region buf (unat len) \<longrightarrow> m x = mem s x))
    \<and> (fd \<noteq> 0 \<longrightarrow> sys_read hw fd buf len s = Some (0, s))"
  using sys_read_ok [OF assms] by (simp add: sys_read_def)

definition demo_machine :: "u8 list \<Rightarrow> (u32, port_event list, tar_fs) machine" where
  "demo_machine typed_ahead =
     \<lparr>kbd = fold enqueue_char typed_ahead keyboard_static, screen = demo_vga, dev = [],
      files = \<lparr>root_node = Some (TarNode 0), mounts = replicate 8 \<lparr>mpath = [], mnode = None\<rparr>, mount_count = 0\<rparr>,
      fs = \<lparr>file_entries = [], file_count = 0, tar_nodes = [], tar_dirents = [], ram = (\<lambda>a. 0)\<rparr>,
      sched = \<lparr>tasks = [], task_count = 0, current_task = -1, memory = (\<lambda>a. 0), tss_stack = 0\<rparr>\<rparr>"

lemma demo_feeds:
  assumes "length input \<le> 255"
  shows "buffered input (kbd (demo_machine input)) d"
proof -
  have "kb_ok k \<Longrightarrow> length (kb_contents k) + length input \<le> 255 \<Longrightarrow>
      kb_ok (fold enqueue_char input k) \<and> kb_contents (fold enqueue_char input k) = kb_contents k @ input
      \<and> poll_counter (fold enqueue_char input k) = poll_counter k" for k
  proof (induction input arbitrary: k)
    case Nil
    then show ?case by simp
  next
    case (Cons c input)
    have "poll_counter (enqueue_char c k) = poll_counter k" by (simp add: enqueue_char_def Let_def)
    with Cons.IH [of "enqueue_char c k"] Cons.prems show ?case
      by (auto simp: enqueue_ok enqueue_contents)
  qed
  from this [OF kb_static_ok] assms kb_static_contents
  have "kb_ok (fold enqueue_char input keyboard_static)"
    "kb_contents (fold enqueue_char input keyboard_static) = input"
    "poll_counter (fold enqueue_char input keyboard_static) = poll_counter keyboard_static"
    by simp_all
  moreover have "poll_counter keyboard_static = 0" by (simp add: keyboard_static_def)
  ultimately show ?thesis using assms by (simp add: buffered_def demo_machine_def)
qed

theorem sys_read_edits_line_witness:
  "\<exists>s'. sys_read (log_device (\<lambda>p. 0x20)) 0 0x2000 127 (demo_machine (cs ''lx'' @ [8] @ cs ''s'' @ [10]))
      = Some (3, s') \<and> read_bytes (mem s') 0x2000 3 = cs ''ls'' @ [10]"
proof -
  let ?in = "cs ''lx'' @ [8] @ cs ''s'' @ [10]"
  have e: "edit (unat (127 :: u32)) [] ?in = Some (cs ''ls'' @ [10], cs ''lx'' @ [8, 32, 8] @ cs ''s'' @ [10], [])"
    by code_simp
  have f: "buffered ?in (kbd (demo_machine ?in)) (dev (demo_machine ?in))"
    by (rule demo_feeds) (simp add: cs_def)
  have l: "length (cs ''ls'' @ [10]) = 3" by (simp add: cs_def)
  from sys_read_edits_line [OF terminal_buffered [OF ready_line] f e, where buf = "0x2000" and fd = 0]
  obtain k d m where r: "sys_read (log_device (\<lambda>p. 0x20)) 0 0x2000 127 (demo_machine ?in)
      = Some (3, io_update k (tty_chars (cs ''lx'' @ [8, 32, 8] @ cs ''s'' @ [10]) (screen (demo_machine ?in))) d m
          (demo_machine ?in))" "read_bytes m 0x2000 3 = cs ''ls'' @ [10]"
    unfolding l by auto
  then show ?thesis by (intro exI conjI) (rule r(1), simp only: io_update_sel)
qed

section \<open>Mounting through the system call\<close>

text \<open>
  The mount call always passes a null node: mounting anything on the root
  directory reports success and leaves the system without a root, after which
  every open, directory listing and mkdir fails.
\<close>

theorem mount_call_discards_root:
  assumes "c_string (mem s) dir = Some [slash]" and "unat nr = 21"
  shows "\<exists>s'. syscall_switch hw drv base sp nr special dir ty s = Some (Inr (Value 0, s'))
    \<and> mem s' = mem s \<and> vfs_root (files s') = None
    \<and> (path_arg (mem s) path = Some p \<longrightarrow> sys_open drv path flgs mode s' = Some (Inr (-1, s')))
    \<and> (c_string (mem s) path = Some q \<longrightarrow> sys_mkdir drv path mode s' = Some (-1, s'))
    \<and> sys_getdents drv fd dirp count s' = Some (-1, s')"
proof -
  obtain v where m: "vfs_mount [slash] None (files s) = Inr (0, v)" and r: "root_node v = None"
    by (auto simp: vfs_mount_def)
  let ?s = "s\<lparr>files := v\<rparr>"
  have call: "syscall_switch hw drv base sp nr special dir ty s = Some (Inr (Value 0, ?s))"
    using assms m by (simp add: syscall_switch_def sys_mount_def returning_or_fault_def and_then_def)
  have "vfs_resolve_path drv p v st = Some (Inr (None, st))" for st
    using r by (auto simp: vfs_resolve_path_def split: option.split list.split)
  with call r show ?thesis
    by (intro exI [of _ ?s]) (auto simp: vfs_root_def sys_open_def and_then_def sys_mkdir_def vfs_mkdir_def
        sys_getdents_def)
qed

theorem mount_call_discards_root_witness:
  "\<exists>s'. syscall_switch (log_device (\<lambda>p. 0)) tar_drivers 0 0 21 0 0x3000 0
        (set_mem ((\<lambda>a. 0)(0x3000 := slash)) (demo_machine [])) = Some (Inr (Value 0, s'))
      \<and> sys_getdents tar_drivers 0 0 0 s' = Some (-1, s')"
proof -
  let ?s = "set_mem ((\<lambda>a. 0)(0x3000 := slash)) (demo_machine [])"
  have "c_string (mem ?s) 0x3001 = Some []"
    by (subst c_string.simps) simp
  then have "c_string (mem ?s) 0x3000 = Some [slash]"
    by (subst c_string.simps) (simp add: slash_def)
  from mount_call_discards_root [OF this, where nr = 21 and path = 0 and p = None and q = "[]" and fd = 0 and dirp = 0 and count = 0
      and hw = "log_device (\<lambda>p. 0)" and drv = tar_drivers and base = 0 and sp = 0 and special = 0 and ty = 0]
  show ?thesis by auto
qed

section \<open>Directory records\<close>

text \<open>The record length is the size rounded up to the alignment of a machine word.\<close>

lemma and_not_bounds:
  fixes x m :: "'a::len word"
  shows "unat (x AND NOT m) \<le> unat x" "unat x \<le> unat (x AND NOT m) + unat m"
proof -
  have split: "x = (x AND m) + (x AND NOT m)"
    by (subst disjunctive_add) (auto simp: bit_simps intro!: bit_word_eqI)
  have le: "x AND m \<le> x" by (simp add: word_and_le2)
  from split have "x AND NOT m = x - (x AND m)" by (simp add: algebra_simps)
  then have "unat (x AND NOT m) = unat x - unat (x AND m)" using unat_sub [OF le] by simp
  moreover have "unat (x AND m) \<le> unat m"
    using word_and_le1 [of x m] by (simp add: word_le_nat_alt)
  ultimately show "unat (x AND NOT m) \<le> unat x" "unat x \<le> unat (x AND NOT m) + unat m" by simp_all
qed

abbreviation record_size :: "'a::len itself \<Rightarrow> u8 list \<Rightarrow> nat" where
  "record_size t nm \<equiv> SIZEOF_DIRENT t + length nm + 1"

definition arch_word :: "'a::len itself \<Rightarrow> bool" where
  "arch_word t \<longleftrightarrow> LENGTH('a) = 32 \<or> LENGTH('a) = 64"

lemma dirent_reclen_bounds:
  assumes "arch_word TYPE('a::len)" and "length nm < 128"
  shows "record_size TYPE('a) nm \<le> unat (dirent_reclen TYPE('a) nm)"
    "unat (dirent_reclen TYPE('a) nm) < record_size TYPE('a) nm + word_bytes TYPE('a)"
proof -
  let ?w = "word_bytes TYPE('a)"
  have w: "?w = 4 \<or> ?w = 8" using assms(1) by (auto simp: arch_word_def word_bytes_def)
  let ?x = "of_nat (record_size TYPE('a) nm) + of_nat (?w - 1) :: u16"
  have "?x = of_nat (record_size TYPE('a) nm + (?w - 1))" by simp
  moreover have "record_size TYPE('a) nm + (?w - 1) < 2 ^ LENGTH(16)"
    using w assms(2) by (auto simp: SIZEOF_DIRENT_def)
  ultimately have x: "unat ?x = record_size TYPE('a) nm + (?w - 1)"
    by (simp only: unat_of_nat_less)
  have a: "unat (of_nat (?w - 1) :: u16) = ?w - 1" using w by auto
  from and_not_bounds [of ?x "of_nat (?w - 1)"] w x a
  show "record_size TYPE('a) nm \<le> unat (dirent_reclen TYPE('a) nm)"
    "unat (dirent_reclen TYPE('a) nm) < record_size TYPE('a) nm + ?w"
    by (auto simp: dirent_reclen_def Let_def)
qed

definition rec_len :: "'a::len itself \<Rightarrow> dirent \<Rightarrow> nat" where
  "rec_len t de = unat (dirent_reclen t (dname de))"

text \<open>The bytes of the record of an entry at offset p of the buffer, without the padding.\<close>

definition record_bytes :: "'a::len itself \<Rightarrow> nat \<Rightarrow> dirent \<Rightarrow> u8 list" where
  "record_bytes t p de =
     bytes_le (word_bytes t) (ucast (ino de) :: 'a word)
     @ bytes_le (word_bytes t) (of_nat (p + rec_len t de) :: 'a word)
     @ bytes_le 2 (dirent_reclen t (dname de)) @ dname de @ [0]"

lemma length_record_bytes:
  "length (record_bytes TYPE('a::len) p de) = OFFSET_NAME TYPE('a) + length (dname de) + 1"
  by (simp add: record_bytes_def OFFSET_NAME_def)

lemma record_fits:
  assumes "arch_word TYPE('a::len)" and "length (dname de) < 128"
  shows "length (record_bytes TYPE('a) p de) \<le> rec_len TYPE('a) de" "rec_len TYPE('a) de < 200" "0 < rec_len TYPE('a) de"
proof -
  have "OFFSET_NAME TYPE('a) \<le> SIZEOF_DIRENT TYPE('a)" "SIZEOF_DIRENT TYPE('a) \<le> 24" "word_bytes TYPE('a) \<le> 8"
    using assms(1) by (auto simp: OFFSET_NAME_def SIZEOF_DIRENT_def arch_word_def word_bytes_def)
  with dirent_reclen_bounds [OF assms]
  show "length (record_bytes TYPE('a) p de) \<le> rec_len TYPE('a) de" "rec_len TYPE('a) de < 200" "0 < rec_len TYPE('a) de"
    using assms(2) by (auto simp: length_record_bytes rec_len_def)
qed

lemma ucast_of_nat_u32: "n < 2 ^ 32 \<Longrightarrow> ucast (of_nat n :: u32) = (of_nat n :: 'a::len word)"
proof -
  assume "n < 2 ^ 32"
  then have "unat (of_nat n :: u32) = n" by (intro unat_of_nat_less) simp
  then show ?thesis by (simp flip: unsigned_ucast_eq add: unsigned_def)
qed

lemma put_dirent_write:
  assumes "p + rec_len TYPE('a::len) de < 2 ^ 32"
  shows "put_dirent (dirp :: 'a word) (of_nat p) (dirent_reclen TYPE('a) (dname de)) de m
    = write_bytes m (dirp + of_nat p) (record_bytes TYPE('a) p de)"
proof -
  let ?r = "dirent_reclen TYPE('a) (dname de)"
  have "of_nat p + ucast ?r = (of_nat (p + rec_len TYPE('a) de) :: u32)"
    by (simp add: rec_len_def)
  then have off: "ucast (of_nat p + ucast ?r :: u32) = (of_nat (p + rec_len TYPE('a) de) :: 'a word)"
    using ucast_of_nat_u32 [OF assms] by simp
  have at: "ucast (of_nat p :: u32) = (of_nat p :: 'a word)"
    by (rule ucast_of_nat_u32) (use assms in simp)
  have two: "of_nat (word_bytes TYPE('a)) + of_nat (word_bytes TYPE('a)) = (of_nat (2 * word_bytes TYPE('a)) :: 'a word)"
    by simp
  show ?thesis
    unfolding put_dirent_def Let_def off at record_bytes_def
    by (simp add: write_bytes_append OFFSET_NAME_def algebra_simps)
qed

text \<open>The entries that fit into count bytes from offset p, where they end, and a buffer that holds them.\<close>

fun fitting :: "'a::len itself \<Rightarrow> nat \<Rightarrow> nat \<Rightarrow> dirent list \<Rightarrow> dirent list" where
  "fitting t count p [] = []"
| "fitting t count p (de # rest) =
     (if p + rec_len t de \<le> count then de # fitting t count (p + rec_len t de) rest else [])"

fun end_pos :: "'a::len itself \<Rightarrow> nat \<Rightarrow> dirent list \<Rightarrow> nat" where
  "end_pos t p [] = p"
| "end_pos t p (de # rest) = end_pos t (p + rec_len t de) rest"

fun dirents_at :: "'a::len memory \<Rightarrow> 'a word \<Rightarrow> nat \<Rightarrow> dirent list \<Rightarrow> bool" where
  "dirents_at m dirp p [] = True"
| "dirents_at m dirp p (de # rest) =
     (let bs = record_bytes TYPE('a) p de in
      read_bytes m (dirp + of_nat p) (length bs) = bs
      \<and> dirents_at m dirp (p + rec_len TYPE('a) de) rest)"

text \<open>A directory whose entries readdir lists without changing anything.\<close>

definition lists :: "'st drivers \<Rightarrow> node_ptr \<Rightarrow> 'st \<Rightarrow> dirent list \<Rightarrow> bool" where
  "lists drv node st ents \<longleftrightarrow>
     (\<forall>i < length ents. vfs_readdir drv (Some node) (of_nat i) st = Some (Some (ents ! i), st))
     \<and> vfs_readdir drv (Some node) (of_nat (length ents)) st = Some (None, st)
     \<and> (\<forall>de \<in> set ents. length (dname de) < 128)"


lemma set_fs_same: "fs s = st \<Longrightarrow> s\<lparr>fs := st\<rparr> = s"
  by (cases s) simp

lemma getdents_loop_writes:
  fixes s :: "('a::len word, 'd, 'st) machine"
  assumes arch: "arch_word TYPE('a)" and dir: "lists drv node st ents"
    and few: "length ents < 2 ^ 32" and small: "unat count < 2 ^ 31"
  shows "i \<le> length ents \<Longrightarrow> fs s = st \<Longrightarrow> p \<le> unat count \<Longrightarrow>
    \<exists>m. getdents_loop drv node dirp count (of_nat p) (of_nat i) s
        = Some (of_nat (end_pos TYPE('a) p (fitting TYPE('a) (unat count) p (drop i ents))), set_mem m s)
      \<and> dirents_at m dirp p (fitting TYPE('a) (unat count) p (drop i ents))
      \<and> (\<forall>x. x \<notin> region (dirp + of_nat p) (unat count - p) \<longrightarrow> m x = mem s x)"
proof (induction "length ents - i" arbitrary: i p s)
  case 0
  then have i: "i = length ents" by simp
  then have "vfs_readdir drv (Some node) (of_nat i) (fs s) = Some (None, st)"
    using dir 0(3) by (simp add: lists_def)
  then have "getdents_loop drv node dirp count (of_nat p) (of_nat i) s = Some (of_nat p, s)"
    using 0(3) by (subst getdents_loop.simps) (simp add: set_fs_same)
  then show ?case using i by (intro exI [of _ "mem s"]) simp
next
  case (Suc n)
  then have i: "i < length ents" by simp
  let ?de = "ents ! i"
  let ?r = "rec_len TYPE('a) ?de"
  have de: "length (dname ?de) < 128" using dir i by (auto simp: lists_def)
  note fits = record_fits [OF arch de]
  have rd: "vfs_readdir drv (Some node) (of_nat i) st = Some (Some ?de, st)"
    using dir i by (simp add: lists_def)
  have d: "drop i ents = ?de # drop (Suc i) ents" using i by (simp add: Cons_nth_drop_Suc)
  have sum: "of_nat p + ucast (dirent_reclen TYPE('a) (dname ?de)) = (of_nat (p + ?r) :: u32)"
    by (simp add: rec_len_def)
  have "p + ?r < 2 ^ LENGTH(32)" using Suc.prems(3) small fits(2) by simp
  then have u: "unat (of_nat (p + ?r) :: u32) = p + ?r" by (rule unat_of_nat_less)
  show ?case
  proof (cases "p + ?r \<le> unat count")
    case False
    then have "count < of_nat (p + ?r)" by (simp add: word_less_nat_alt u del: of_nat_add)
    then have "getdents_loop drv node dirp count (of_nat p) (of_nat i) s = Some (of_nat p, s)"
      using Suc.prems(2) by (subst getdents_loop.simps) (simp add: rd set_fs_same sum Let_def del: of_nat_add)
    then show ?thesis using False d by (intro exI [of _ "mem s"]) simp
  next
    case True
    then have le: "\<not> count < of_nat (p + ?r)" by (simp add: word_less_nat_alt u del: of_nat_add)
    let ?bs = "record_bytes TYPE('a) p ?de"
    let ?m = "write_bytes (mem s) (dirp + of_nat p) ?bs"
    have put: "put_dirent dirp (of_nat p) (dirent_reclen TYPE('a) (dname ?de)) ?de (mem s) = ?m"
      by (rule put_dirent_write) (use \<open>p + ?r < 2 ^ LENGTH(32)\<close> in simp)
    have step: "getdents_loop drv node dirp count (of_nat p) (of_nat i) s
        = getdents_loop drv node dirp count (of_nat (p + ?r)) (of_nat (Suc i)) (set_mem ?m s)"
      using Suc.prems(2) le by (subst getdents_loop.simps)
        (simp add: rd set_fs_same sum put Let_def add.commute [of _ 1] del: of_nat_add)
    have n: "n = length ents - Suc i" using Suc.hyps(2) by simp
    have big: "unat count \<le> 2 ^ LENGTH('a)" "length ?bs \<le> 2 ^ LENGTH('a)"
      using small fits(1) [of p] fits(2) arch by (auto simp: arch_word_def)
    obtain m where m: "getdents_loop drv node dirp count (of_nat (p + ?r)) (of_nat (Suc i)) (set_mem ?m s)
        = Some (of_nat (end_pos TYPE('a) (p + ?r) (fitting TYPE('a) (unat count) (p + ?r) (drop (Suc i) ents))),
            set_mem m (set_mem ?m s))"
      "dirents_at m dirp (p + ?r) (fitting TYPE('a) (unat count) (p + ?r) (drop (Suc i) ents))"
      "\<forall>x. x \<notin> region (dirp + of_nat (p + ?r)) (unat count - (p + ?r)) \<longrightarrow> m x = ?m x"
      using Suc.hyps(1) [of "Suc i" "set_mem ?m s" "p + ?r"] n Suc.prems(2) i True
      by (auto simp: Suc_leI simp del: of_nat_add of_nat_Suc)
    have apart: "region (dirp + of_nat p) (length ?bs) \<inter> region (dirp + of_nat (p + ?r)) (unat count - (p + ?r)) = {}"
      by (rule regions_apart_base) (use fits(1) True big in auto)
    have rb: "read_bytes m (dirp + of_nat p) (length ?bs) = ?bs"
    proof -
      have "read_bytes m (dirp + of_nat p) (length ?bs) = read_bytes ?m (dirp + of_nat p) (length ?bs)"
        by (rule read_bytes_cong) (use m(3) apart nat_in_region in blast)
      also have "\<dots> = ?bs" by (rule read_write_bytes_same [OF big(2) refl])
      finally show ?thesis .
    qed
    have out: "m x = mem s x" if x: "x \<notin> region (dirp + of_nat p) (unat count - p)" for x
    proof -
      have "region (dirp + of_nat p + of_nat ?r) (unat count - (p + ?r)) \<subseteq> region (dirp + of_nat p) (unat count - p)"
        by (rule region_offset) (use True big in auto)
      moreover have "region (dirp + of_nat p) (length ?bs) \<subseteq> region (dirp + of_nat p) (unat count - p)"
        by (rule region_mono) (use fits(1) [of p] True in linarith)
      ultimately show ?thesis using x m(3) write_bytes_outside [OF big(2)]
        by (metis (no_types, lifting) add.assoc of_nat_add subsetD)
    qed
    from m rb out step True d show ?thesis by (intro exI [of _ m]) (simp add: Let_def)
  qed
qed


text \<open>
  sys_getdents fills the buffer with the records of the entries that fit and
  returns where they end. The entries that do not fit are never delivered: a
  second call starts from the first entry again.
\<close>

lemma end_pos_fitting: "p \<le> c \<Longrightarrow> p \<le> end_pos t p (fitting t c p ents) \<and> end_pos t p (fitting t c p ents) \<le> c"
proof (induction ents arbitrary: p)
  case Nil
  then show ?case by simp
next
  case (Cons de ents)
  from Cons.IH [of "p + rec_len t de"] Cons.prems show ?case by auto
qed

lemma sys_getdents_ok:
  fixes s :: "('a::len word, 'd, 'st) machine"
  assumes "arch_word TYPE('a)" and "vfs_root (files s) = Some node" and "lists drv node (fs s) ents"
    and "length ents < 2 ^ 32" and "unat count < 2 ^ 31"
  shows "\<exists>m. sys_getdents drv fd dirp count s
      = Some (of_nat (end_pos TYPE('a) 0 (fitting TYPE('a) (unat count) 0 ents)), set_mem m s)
    \<and> dirents_at m dirp 0 (fitting TYPE('a) (unat count) 0 ents)
    \<and> (\<forall>x. x \<notin> region dirp (unat count) \<longrightarrow> m x = mem s x)"
proof -
  let ?e = "end_pos TYPE('a) 0 (fitting TYPE('a) (unat count) 0 ents)"
  have "?e \<le> unat count" using end_pos_fitting [of 0 "unat count"] by simp
  then have e: "ucast (of_nat ?e :: u32) = (of_nat ?e :: 'a word)"
    by (intro ucast_of_nat_u32) (use assms(5) in simp)
  from getdents_loop_writes [OF assms(1,3,4,5), where i = 0 and p = 0 and s = s and dirp = dirp]
  obtain m where "getdents_loop drv node dirp count 0 0 s = Some (of_nat ?e, set_mem m s)"
      "dirents_at m dirp 0 (fitting TYPE('a) (unat count) 0 ents)"
      "\<forall>x. x \<notin> region dirp (unat count) \<longrightarrow> m x = mem s x" by auto
  then show ?thesis using assms(2) e by (auto simp: sys_getdents_def)
qed

end
