(* ===== verification/Shell.thy ===== *)
theory Shell
  imports Syscalls
begin

text \<open>
  The user program user/init.c: the shell that the kernel starts from the RAM
  disk, running on the system call layer. Its string literals and its two
  buffers lie in memory at addresses the compiler chooses, which are
  parameters. One round of its endless loop is shell_round; the loop itself
  is run for a number of rounds.
\<close>

section \<open>The program\<close>

record 'w program =
  lit :: "u8 list \<Rightarrow> 'w"
  buf_at :: 'w
  dbuf_at :: 'w

text \<open>
  A system call from user mode: the result register of the handler. The calls
  the shell makes (read, write and getdents) neither switch stacks nor fault
  in the VFS.
\<close>

definition syscall3 ::
  "'d hardware \<Rightarrow> 'st drivers \<Rightarrow> nat \<Rightarrow> 'a::len word \<Rightarrow> 'a word \<Rightarrow> 'a word
     \<Rightarrow> ('a word, 'd, 'st) machine \<Rightarrow> ('a word \<times> ('a word, 'd, 'st) machine) option" where
  "syscall3 hw drv number a b c s =
     (case syscall_switch hw drv 0 0 (of_nat number) a b c s of
        Some (Inr (Value r, s)) \<Rightarrow> Some (r, s) | _ \<Rightarrow> None)"

definition user_write ::
  "'d hardware \<Rightarrow> 'st drivers \<Rightarrow> 'a::len word \<Rightarrow> 'a word \<Rightarrow> 'a word
     \<Rightarrow> ('a word, 'd, 'st) machine \<Rightarrow> ('a word \<times> ('a word, 'd, 'st) machine) option" where
  "user_write hw drv fd buf len s = syscall3 hw drv 4 fd buf len s"

definition user_read ::
  "'d hardware \<Rightarrow> 'st drivers \<Rightarrow> 'a::len word \<Rightarrow> 'a word \<Rightarrow> 'a word
     \<Rightarrow> ('a word, 'd, 'st) machine \<Rightarrow> ('a word \<times> ('a word, 'd, 'st) machine) option" where
  "user_read hw drv fd buf len s = syscall3 hw drv 3 fd buf len s"

definition user_getdents ::
  "'d hardware \<Rightarrow> 'st drivers \<Rightarrow> 'a::len word \<Rightarrow> 'a word \<Rightarrow> 'a word
     \<Rightarrow> ('a word, 'd, 'st) machine \<Rightarrow> ('a word \<times> ('a word, 'd, 'st) machine) option" where
  "user_getdents hw drv fd dirp count s = syscall3 hw drv 141 fd dirp count s"

definition string_length :: "'a::len memory \<Rightarrow> 'a word \<Rightarrow> nat option" where
  "string_length m a = map_option length (c_string m a)"

definition write_string ::
  "'d hardware \<Rightarrow> 'st drivers \<Rightarrow> 'a::len word \<Rightarrow> ('a word, 'd, 'st) machine
     \<Rightarrow> ('a word, 'd, 'st) machine option" where
  "write_string hw drv str s =
     Option.bind (string_length (mem s) str) (\<lambda>n. map_option snd (user_write hw drv 1 str (of_nat n) s))"

text \<open>The comparison with a literal; string_compare is the same loop as in the VFS.\<close>

definition equals_literal :: "'a::len memory \<Rightarrow> 'a word \<Rightarrow> u8 list \<Rightarrow> bool option" where
  "equals_literal m a t = map_option (\<lambda>str. string_compare str t = 0) (c_string m a)"

definition int_of :: "'a::len word \<Rightarrow> int" where
  "int_of w = sint (ucast w :: u32)"

text \<open>The loop over the records that getdents returned.\<close>

partial_function (option) ls_loop ::
  "'d hardware \<Rightarrow> 'st drivers \<Rightarrow> 'a::len word program \<Rightarrow> int \<Rightarrow> int
     \<Rightarrow> ('a word, 'd, 'st) machine \<Rightarrow> ('a word, 'd, 'st) machine option" where
  "ls_loop hw drv pg bpos nread s =
     (if bpos < nread then
        (let d = dbuf_at pg + of_int bpos in
         Option.bind (write_string hw drv (d + of_nat (OFFSET_NAME TYPE('a))) s) (\<lambda>s.
           Option.bind (write_string hw drv (lit pg [10]) s) (\<lambda>s.
             ls_loop hw drv pg (bpos + uint (read16 (mem s) (d + of_nat (2 * word_bytes TYPE('a))))) nread s)))
      else Some s)"

definition shell_ls ::
  "'d hardware \<Rightarrow> 'st drivers \<Rightarrow> 'a::len word program \<Rightarrow> ('a word, 'd, 'st) machine
     \<Rightarrow> ('a word, 'd, 'st) machine option" where
  "shell_ls hw drv pg s =
     Option.bind (user_getdents hw drv 0 (dbuf_at pg) 1024 s) (\<lambda>(nread, s). ls_loop hw drv pg 0 (int_of nread) s)"

definition banner :: "u8 list" where "banner = cs ''ZeptoOS Shell v1.0'' @ [10]"
definition prompt :: "u8 list" where "prompt = cs ''zepto> ''"
definition help_text :: "u8 list" where
  "help_text = cs ''Available commands: help, ls, hello, clear, exit'' @ [10]"
definition hello_text :: "u8 list" where "hello_text = cs ''Hello World With File System'' @ [10]"
definition clear_text :: "u8 list" where "clear_text = [27] @ cs ''[2J'' @ [27] @ cs ''[H''"
definition goodbye_text :: "u8 list" where "goodbye_text = cs ''Goodbye!'' @ [10]"
definition unknown_text :: "u8 list" where "unknown_text = cs ''Unknown command: ''"

text \<open>The chain of comparisons; the flag says that the loop is left.\<close>

definition run_command ::
  "'d hardware \<Rightarrow> 'st drivers \<Rightarrow> 'a::len word program \<Rightarrow> ('a word, 'd, 'st) machine
     \<Rightarrow> (bool \<times> ('a word, 'd, 'st) machine) option" where
  "run_command hw drv pg s =
     (let buf = buf_at pg; is = equals_literal (mem s) buf; say = (\<lambda>t. write_string hw drv (lit pg t)) in
      Option.bind (is (cs ''help'')) (\<lambda>help.
        if help then map_option (Pair False) (say help_text s)
        else Option.bind (is (cs ''ls'')) (\<lambda>ls.
          if ls then map_option (Pair False) (shell_ls hw drv pg s)
          else Option.bind (is (cs ''hello'')) (\<lambda>hello.
            if hello then map_option (Pair False) (say hello_text s)
            else Option.bind (is (cs ''clear'')) (\<lambda>clear.
              if clear then map_option (Pair False) (say clear_text s)
              else Option.bind (is (cs ''exit'')) (\<lambda>exit.
                if exit then map_option (Pair True) (say goodbye_text s)
                else if mem s buf \<noteq> 0
                then Option.bind (say unknown_text s) (\<lambda>s.
                       Option.bind (write_string hw drv buf s) (\<lambda>s. map_option (Pair False) (say [10] s)))
                else Some (False, s)))))))"

definition shell_round ::
  "'d hardware \<Rightarrow> 'st drivers \<Rightarrow> 'a::len word program \<Rightarrow> ('a word, 'd, 'st) machine
     \<Rightarrow> (bool \<times> ('a word, 'd, 'st) machine) option" where
  "shell_round hw drv pg s =
     Option.bind (write_string hw drv (lit pg prompt) s) (\<lambda>s.
       Option.bind (user_read hw drv 0 (buf_at pg) 127 s) (\<lambda>(r, s).
         let len = int_of r; buf = buf_at pg in
         if len \<le> 0 then Some (False, s)
         else
           let s = set_mem ((mem s)(buf + of_int (len - 1) := 0)) s;
               s = (if len > 1 \<and> mem s (buf + of_int (len - 2)) = 13
                    then set_mem ((mem s)(buf + of_int (len - 2) := 0)) s else s)
           in run_command hw drv pg s))"

text \<open>At most n rounds; after exit the program spins.\<close>

primrec shell_rounds ::
  "nat \<Rightarrow> 'd hardware \<Rightarrow> 'st drivers \<Rightarrow> 'a::len word program \<Rightarrow> ('a word, 'd, 'st) machine
     \<Rightarrow> (bool \<times> ('a word, 'd, 'st) machine) option" where
  "shell_rounds 0 hw drv pg s = Some (False, s)"
| "shell_rounds (Suc n) hw drv pg s =
     Option.bind (shell_round hw drv pg s) (\<lambda>(done, s).
       if done then Some (True, s) else shell_rounds n hw drv pg s)"

definition user_start ::
  "nat \<Rightarrow> 'd hardware \<Rightarrow> 'st drivers \<Rightarrow> 'a::len word program \<Rightarrow> ('a word, 'd, 'st) machine
     \<Rightarrow> (bool \<times> ('a word, 'd, 'st) machine) option" where
  "user_start n hw drv pg s =
     Option.bind (write_string hw drv (lit pg banner) s) (shell_rounds n hw drv pg)"


section \<open>Strings in memory\<close>

lemma c_string_bytes:
  "c_string m a = Some t \<Longrightarrow> 0 \<notin> set t \<and> read_bytes m a (length t) = t \<and> m (a + of_nat (length t)) = 0"
proof (induction t arbitrary: a)
  case Nil
  then show ?case by (subst (asm) c_string.simps) (auto split: if_splits Option.bind_splits)
next
  case (Cons c t)
  from Cons.prems have "m a = c" "c \<noteq> 0" "c_string m (a + 1) = Some t"
    by (subst (asm) c_string.simps; auto split: if_splits Option.bind_splits)+
  with Cons.IH [of "a + 1"] show ?case by (simp add: ac_simps)
qed

lemma c_string_held: "read_bytes m a (Suc (length t)) = t @ [0] \<Longrightarrow> 0 \<notin> set t \<Longrightarrow> c_string m a = Some t"
proof (induction t arbitrary: a)
  case Nil
  then show ?case by (subst c_string.simps) simp
next
  case (Cons c t)
  then show ?case by (subst c_string.simps) simp
qed

section \<open>The calls the shell makes\<close>

lemma arch_small: "arch_word TYPE('a::len) \<Longrightarrow> n < 2 ^ 32 \<Longrightarrow> unat (of_nat n :: 'a word) = n"
  by (rule unat_of_nat_less) (auto simp: arch_word_def)

lemma syscall3_simps:
  assumes "arch_word TYPE('a::len)"
  shows "syscall3 hw drv 3 (a :: 'a word) b c s = sys_read hw (ucast a) b c s"
    "syscall3 hw drv 4 a b c s = sys_write hw (ucast a) b c s"
    "syscall3 hw drv 141 a b c s = sys_getdents drv (ucast a) b (ucast c) s"
  using arch_small [OF assms, of 3] arch_small [OF assms, of 4] arch_small [OF assms, of 141]
  by (simp_all add: syscall3_def syscall_switch_def returning_def split: option.split)

lemma ucast_of_nat_small: "arch_word TYPE('a::len) \<Longrightarrow> n < 2 ^ 32 \<Longrightarrow> ucast (of_nat n :: 'a word) = (of_nat n :: u32)"
proof -
  assume "arch_word TYPE('a)" "n < 2 ^ 32"
  then have "n < 2 ^ LENGTH('a)" by (auto simp: arch_word_def)
  then show ?thesis by (simp add: unsigned_of_nat take_bit_nat_eq_self)
qed

lemma int_of_small: "n < 2 ^ 31 \<Longrightarrow> int_of (of_nat n :: 'a::len word) = int n" if "arch_word TYPE('a)"
proof -
  assume n: "n < 2 ^ 31"
  have "ucast (of_nat n :: 'a word) = (of_nat n :: u32)"
    by (rule ucast_of_nat_small [OF that]) (use n in simp)
  moreover have "sint (of_nat n :: u32) = int n" using n by (simp add: signed_of_nat signed_take_bit_int_eq_self)
  ultimately show ?thesis by (simp add: int_of_def)
qed

lemma write_string_ok:
  fixes s :: "('a::len word, 'd, 'st) machine"
  assumes "arch_word TYPE('a)" and "terminal_ok hw feeds" and "feeds input (kbd s) (dev s)"
    and str: "c_string (mem s) a = Some t" and "length t < 2 ^ 32"
  shows "\<exists>d. write_string hw drv a s = Some (io_update (kbd s) (tty_chars t (screen s)) d (mem s) s)
    \<and> feeds input (kbd s) d"
proof -
  note b = c_string_bytes [OF str]
  have u: "unat (of_nat (length t) :: 'a word) = length t" by (rule arch_small [OF assms(1,5)])
  have v: "visible t = t" using b by (auto simp: filter_id_conv)
  from write_chars_ok [OF assms(2,3), of t] obtain d where
    d: "write_chars hw t s = Some (io_update (kbd s) (tty_chars t (screen s)) d (mem s) s)" "feeds input (kbd s) d"
    by (auto simp: io_update_intro v)
  then show ?thesis
    by (intro exI [of _ d]) (simp add: write_string_def string_length_def str user_write_def syscall3_simps [OF assms(1)]
        sys_write_def u b)
qed

section \<open>Listing the directory\<close>

lemma read_split:
  assumes "read_bytes m a (length (xs @ ys)) = xs @ ys"
  shows "read_bytes m a (length xs) = xs" "read_bytes m (a + of_nat (length xs)) (length ys) = ys"
  using assms by (simp_all add: read_bytes_append append_eq_append_conv)

lemma record_decode:
  fixes a :: "'a::len word"
  assumes "read_bytes m a (length (record_bytes TYPE('a) p de)) = record_bytes TYPE('a) p de" and "0 \<notin> set (dname de)"
  shows "read16 m (a + of_nat (2 * word_bytes TYPE('a))) = dirent_reclen TYPE('a) (dname de)"
    "c_string m (a + of_nat (OFFSET_NAME TYPE('a))) = Some (dname de)"
proof -
  let ?w = "word_bytes TYPE('a)"
  let ?head = "bytes_le ?w (ucast (ino de) :: 'a word) @ bytes_le ?w (of_nat (p + rec_len TYPE('a) de) :: 'a word)"
  have e: "record_bytes TYPE('a) p de = ?head @ (bytes_le 2 (dirent_reclen TYPE('a) (dname de)) @ (dname de @ [0]))"
    by (simp add: record_bytes_def)
  have h: "length ?head = 2 * ?w" by simp
  note r1 = read_split(2) [OF assms(1) [unfolded e], unfolded h]
  show "read16 m (a + of_nat (2 * ?w)) = dirent_reclen TYPE('a) (dname de)"
    using read_split(1) [OF r1] by (simp add: read16_def)
  have "read_bytes m (a + of_nat (OFFSET_NAME TYPE('a))) (Suc (length (dname de))) = dname de @ [0]"
    using read_split(2) [OF r1] by (simp add: OFFSET_NAME_def ac_simps)
  then show "c_string m (a + of_nat (OFFSET_NAME TYPE('a))) = Some (dname de)"
    by (rule c_string_held [OF _ assms(2)])
qed

text \<open>What ls prints for a list of entries.\<close>

definition listing :: "dirent list \<Rightarrow> u8 list" where
  "listing ents = concat (map (\<lambda>de. dname de @ [10]) ents)"

lemma end_pos_le: "p \<le> end_pos t p ents"
proof (induction ents arbitrary: p)
  case Nil
  then show ?case by simp
next
  case (Cons de ents)
  from Cons.IH [of "p + rec_len t de"] show ?case by simp
qed

lemma ls_loop_prints:
  fixes s :: "('a::len word, 'd, 'st) machine"
  assumes arch: "arch_word TYPE('a)" and term_ok: "terminal_ok hw feeds"
    and nl: "c_string m (lit pg [10]) = Some [10]"
  shows "feeds input (kbd s) (dev s) \<Longrightarrow> mem s = m \<Longrightarrow> dirents_at m (dbuf_at pg) p ents
    \<Longrightarrow> \<forall>de \<in> set ents. length (dname de) < 128 \<and> 0 \<notin> set (dname de)
    \<Longrightarrow> \<exists>d. ls_loop hw drv pg (int p) (int (end_pos TYPE('a) p ents)) s
        = Some (io_update (kbd s) (tty_chars (listing ents) (screen s)) d m s) \<and> feeds input (kbd s) d"
proof (induction ents arbitrary: p s)
  case Nil
  have "s = io_update (kbd s) (screen s) (dev s) m s" using Nil.prems(2) by (auto simp: io_update_def)
  then show ?case using Nil.prems(1)
    by (intro exI [of _ "dev s"]) (subst ls_loop.simps, simp add: listing_def)
next
  case (Cons de ents)
  let ?a = "dbuf_at pg + of_nat p"
  let ?r = "rec_len TYPE('a) de"
  have de: "length (dname de) < 128" "0 \<notin> set (dname de)" using Cons.prems(4) by auto
  have bytes: "read_bytes m ?a (length (record_bytes TYPE('a) p de)) = record_bytes TYPE('a) p de"
    and rest: "dirents_at m (dbuf_at pg) (p + ?r) ents"
    using Cons.prems(3) by (simp_all add: Let_def)
  note dec = record_decode [OF bytes de(2)]
  have "length (dname de) < 2 ^ 32" using de(1) by simp
  from write_string_ok [OF arch term_ok Cons.prems(1) _ this, of "?a + of_nat (OFFSET_NAME TYPE('a))" drv]
  obtain d1 where d1: "write_string hw drv (?a + of_nat (OFFSET_NAME TYPE('a))) s
      = Some (io_update (kbd s) (tty_chars (dname de) (screen s)) d1 m s)" "feeds input (kbd s) d1"
    using dec(2) Cons.prems(2) by auto
  let ?s1 = "io_update (kbd s) (tty_chars (dname de) (screen s)) d1 m s"
  from write_string_ok [OF arch term_ok, of input ?s1 "lit pg [10]" "[10]" drv] d1(2) nl
  obtain d2 where d2: "write_string hw drv (lit pg [10]) ?s1
      = Some (io_update (kbd s) (tty_chars (dname de @ [10]) (screen s)) d2 m s)" "feeds input (kbd s) d2"
    by (auto simp: tty_chars_append [OF de(2)])
  let ?s2 = "io_update (kbd s) (tty_chars (dname de @ [10]) (screen s)) d2 m s"
  have pos: "0 < ?r" by (rule record_fits(3) [OF arch de(1)])
  have lt: "int p < int (end_pos TYPE('a) p (de # ents))"
    using pos end_pos_le [of "p + ?r" "TYPE('a)" ents] by simp
  have adv: "int p + uint (dirent_reclen TYPE('a) (dname de)) = int (p + ?r)"
    by (simp add: rec_len_def)
  have step: "ls_loop hw drv pg (int p) (int (end_pos TYPE('a) p (de # ents))) s
      = ls_loop hw drv pg (int (p + ?r)) (int (end_pos TYPE('a) (p + ?r) ents)) ?s2"
    using lt dec(1) adv by (subst ls_loop.simps) (simp add: d1(1) d2(1) Let_def del: of_nat_add)
  from Cons.IH [of ?s2 "p + ?r"] rest Cons.prems(4) d2(2)
  show ?case unfolding step
    by (auto simp: listing_def tty_chars_append de(2) simp flip: append_assoc)
qed

section \<open>One round of the shell\<close>

definition literals :: "u8 list list" where
  "literals = [banner, prompt, help_text, [10], hello_text, clear_text, goodbye_text, unknown_text]"

text \<open>The literals are in memory, apart from the buffers, which are apart from each other.\<close>

definition program_ok :: "'a::len word program \<Rightarrow> 'a memory \<Rightarrow> bool" where
  "program_ok pg m \<longleftrightarrow>
     (\<forall>t \<in> set literals. c_string m (lit pg t) = Some t
        \<and> region (lit pg t) (Suc (length t)) \<inter> (region (buf_at pg) 128 \<union> region (dbuf_at pg) 1024) = {})
     \<and> region (buf_at pg) 128 \<inter> region (dbuf_at pg) 1024 = {}"

lemma c_string_kept:
  assumes "c_string m a = Some t" and "\<And>x. x \<in> region a (Suc (length t)) \<Longrightarrow> m' x = m x"
  shows "c_string m' a = Some t"
proof (rule c_string_held)
  have "read_bytes m' a (Suc (length t)) = read_bytes m a (Suc (length t))"
    by (rule read_bytes_cong) (use assms(2) nat_in_region in blast)
  then show "read_bytes m' a (Suc (length t)) = t @ [0]"
    using c_string_bytes [OF assms(1)] by (simp only: read_bytes_snoc)
  show "0 \<notin> set t" using c_string_bytes [OF assms(1)] by blast
qed

lemma program_ok_kept:
  assumes "program_ok pg m"
    and "\<And>x. x \<notin> region (buf_at pg) 128 \<union> region (dbuf_at pg) 1024 \<Longrightarrow> m' x = m x"
  shows "program_ok pg m'"
  unfolding program_ok_def
proof (intro conjI ballI)
  fix t
  assume t: "t \<in> set literals"
  let ?bufs = "region (buf_at pg) 128 \<union> region (dbuf_at pg) 1024"
  from assms(1) t have c: "c_string m (lit pg t) = Some t"
    and d: "region (lit pg t) (Suc (length t)) \<inter> ?bufs = {}"
    unfolding program_ok_def by (metis (no_types))+
  show "region (lit pg t) (Suc (length t)) \<inter> ?bufs = {}" by (rule d)
  show "c_string m' (lit pg t) = Some t"
  proof (rule c_string_kept [OF c])
    fix x
    assume "x \<in> region (lit pg t) (Suc (length t))"
    with d have "x \<notin> ?bufs" by (metis disjoint_iff)
    then show "m' x = m x" by (rule assms(2))
  qed
next
  show "region (buf_at pg) 128 \<inter> region (dbuf_at pg) 1024 = {}"
    using assms(1) unfolding program_ok_def by (rule conjunct2)
qed

lemma literal_short: "t \<in> set literals \<Longrightarrow> length t < 2 ^ 32"
  by (auto simp: literals_def banner_def prompt_def help_text_def hello_text_def clear_text_def
      goodbye_text_def unknown_text_def cs_def)

lemma prompt_literal: "prompt \<in> set literals" "[10] \<in> set literals" "unknown_text \<in> set literals"
  by (simp_all add: literals_def)

lemma say_ok:
  fixes s :: "('a::len word, 'd, 'st) machine"
  assumes "arch_word TYPE('a)" and "terminal_ok hw feeds" and "feeds input (kbd s) (dev s)"
    and "program_ok pg (mem s)" and "t \<in> set literals"
  shows "\<exists>d. write_string hw drv (lit pg t) s = Some (io_update (kbd s) (tty_chars t (screen s)) d (mem s) s)
    \<and> feeds input (kbd s) d"
  by (rule write_string_ok [OF assms(1-3) _ literal_short [OF assms(5)]])
    (use assms(4,5) in \<open>simp add: program_ok_def\<close>)

lemma edit_chars:
  "edit n line input = Some (l, e, r) \<Longrightarrow> 13 \<notin> set line \<Longrightarrow> 13 \<notin> set l"
proof (induction n line input arbitrary: l e r rule: edit.induct)
  case (2 n line c input)
  have bl: "13 \<notin> set (butlast line)"
    using 2(5) by (auto dest: in_set_butlastD)
  show ?case
  proof (cases "length line < n")
    case False
    with 2 show ?thesis by simp
  next
    case True
    show ?thesis
    proof (cases "c = 8")
      case bs: True
      show ?thesis
      proof (cases "line = []")
        case ne: True
        with 2(2) [OF True bs] 2(4,5) True bs show ?thesis by simp
      next
        case ne: False
        from 2(4) True bs ne obtain e' where "edit n (butlast line) input = Some (l, e', r)"
          by (auto simp: echoing_def)
        from 2(1) [OF True bs ne this bl] show ?thesis by simp
      qed
    next
      case nbs: False
      show ?thesis
      proof (cases "c = 10 \<or> c = 13")
        case nl: True
        from 2(4) True nbs nl have "l = line @ [10]" by auto
        with 2(5) show ?thesis by simp
      next
        case ch: False
        from 2(4) True nbs ch obtain e' where "edit n (line @ [c]) input = Some (l, e', r)"
          by (auto simp: echoing_def)
        from 2(3) [OF True nbs ch this] 2(5) ch show ?thesis by simp
      qed
    qed
  qed
qed (auto split: if_splits)

lemma shell_round_reads:
  fixes s :: "('a::len word, 'd, 'st) machine"
  assumes arch: "arch_word TYPE('a)" and tm: "terminal_ok hw feeds" and fd: "feeds input (kbd s) (dev s)"
    and pg: "program_ok pg (mem s)" and e: "edit 127 [] input = Some (line, echo, rest)"
    and ne: "line \<noteq> []" and nul: "0 \<notin> set line"
  shows "\<exists>k d m. shell_round hw drv pg s
      = run_command hw drv pg (io_update k (tty_chars (prompt @ echo) (screen s)) d m s)
    \<and> feeds rest k d \<and> c_string m (buf_at pg) = Some (butlast line) \<and> program_ok pg m
    \<and> (\<forall>x. x \<notin> region (buf_at pg) 128 \<longrightarrow> m x = mem s x)"
proof -
  let ?buf = "buf_at pg" and ?n = "length line"
  obtain d0 where w: "write_string hw drv (lit pg prompt) s
      = Some (io_update (kbd s) (tty_chars prompt (screen s)) d0 (mem s) s)" "feeds input (kbd s) d0"
    using say_ok [OF arch tm fd pg prompt_literal(1)] by blast
  let ?s0 = "io_update (kbd s) (tty_chars prompt (screen s)) d0 (mem s) s"
  have u127: "unat (127 :: 'a word) = 127" using arch_small [OF arch, of 127] by simp
  have f0: "feeds input (kbd ?s0) (dev ?s0)" using w(2) by simp
  obtain k d m where r: "sys_read hw 0 ?buf 127 ?s0
        = Some (of_nat ?n, io_update k (tty_chars echo (screen ?s0)) d m ?s0)" "?n \<le> 127"
      "feeds rest k d" "read_bytes m ?buf ?n = line" "\<And>x. x \<notin> region ?buf 127 \<Longrightarrow> m x = mem s x"
    using sys_read_ok [OF tm f0, of 127 line echo rest ?buf] e unfolding u127 by auto
  have scr: "tty_chars echo (tty_chars prompt (screen s)) = tty_chars (prompt @ echo) (screen s)"
    by (rule tty_chars_append [symmetric]) (simp add: prompt_def cs_def)
  have chars: "13 \<notin> set line" "0 \<notin> set line" using edit_chars [OF e] nul by simp_all
  have n: "0 < ?n" using ne by simp
  let ?m = "m(?buf + of_nat (?n - 1) := 0)"
  let ?s1 = "io_update k (tty_chars (prompt @ echo) (screen s)) d ?m s"
  have last: "?buf + of_int (int ?n - 1) = ?buf + of_nat (?n - 1)"
    using n by (simp add: of_nat_diff Suc_leI)
  have lim: "?n - 1 < 2 ^ LENGTH('a)" using r(2) arch by (auto simp: arch_word_def)
  have cmd: "read_bytes ?m ?buf (?n - 1) = butlast line"
    using take_read_bytes [of "?n - 1" ?n m ?buf] r(4) poke_prefix [OF lim, of m ?buf 0]
    by (simp add: butlast_conv_take)
  have str: "c_string ?m ?buf = Some (butlast line)"
  proof (rule c_string_held)
    show "read_bytes ?m ?buf (Suc (length (butlast line))) = butlast line @ [0]"
      unfolding read_bytes_snoc using cmd by simp
    show "0 \<notin> set (butlast line)" using chars(2) by (auto dest: in_set_butlastD)
  qed
  have cr: "?m (?buf + of_int (int ?n - 2)) \<noteq> 13" if "1 < int ?n"
  proof -
    from that have i: "?n - 2 < ?n - 1" by linarith
    have "?buf + of_int (int ?n - 2) = ?buf + of_nat (?n - 2)"
      using that by (simp add: of_nat_diff)
    moreover have "?m (?buf + of_nat (?n - 2)) = butlast line ! (?n - 2)"
      using nth_read_bytes [OF i, of ?m ?buf] unfolding cmd by simp
    moreover have "butlast line ! (?n - 2) \<in> set line"
      using i by (intro in_set_butlastD [OF nth_mem]) simp
    ultimately show ?thesis using chars(1) by metis
  qed
  have inside: "x \<in> region ?buf 128" if "x \<in> region ?buf 127" for x
    using that by (auto simp: region_def)
  have out: "?m x = mem s x" if "x \<notin> region ?buf 128" for x
  proof -
    have "?n - 1 < 128" using r(2) by simp
    then have "?buf + of_nat (?n - 1) \<in> region ?buf 128" by (rule nat_in_region)
    with that r(5) [of x] inside [of x] show ?thesis by auto
  qed
  have i: "int_of (of_nat ?n :: 'a word) = int ?n" by (rule int_of_small [OF arch]) (use r(2) in simp)
  have rd: "user_read hw drv 0 ?buf 127 ?s0
      = Some (of_nat ?n, io_update k (tty_chars (prompt @ echo) (screen s)) d m s)"
    using r(1) by (simp add: user_read_def syscall3_simps [OF arch] scr)
  have run: "shell_round hw drv pg s = run_command hw drv pg ?s1"
  proof -
    have pos: "\<not> int ?n \<le> 0" using n by simp
    have nocr: "(1 < int ?n \<and> ?m (?buf + of_int (int ?n - 2)) = 13) = False" using cr by blast
    show ?thesis
      by (simp only: shell_round_def w(1) rd Option.bind.simps prod.case i Let_def last pos if_False
          io_update_sel nocr)
  qed
  have "program_ok pg ?m" by (rule program_ok_kept [OF pg]) (use out in blast)
  with run r(3) str out show ?thesis by blast
qed

section \<open>Commands\<close>

lemma ucast_1024: "arch_word TYPE('a::len) \<Longrightarrow> ucast (1024 :: 'a word) = (1024 :: u32)"
  using ucast_of_nat_small [of 1024] by simp


lemma equals_literal_known:
  "c_string m a = Some str \<Longrightarrow> 0 \<notin> set t \<Longrightarrow> equals_literal m a t = Some (str = t)"
  using c_string_bytes [of m a str] by (auto simp: equals_literal_def string_compare_eq)

lemma run_command_ls:
  assumes "c_string (mem s) (buf_at pg) = Some (cs ''ls'')"
  shows "run_command hw drv pg s = map_option (Pair False) (shell_ls hw drv pg s)"
proof -
  have "equals_literal (mem s) (buf_at pg) (cs ''help'') = Some (cs ''ls'' = cs ''help'')"
    "equals_literal (mem s) (buf_at pg) (cs ''ls'') = Some (cs ''ls'' = cs ''ls'')"
    by (rule equals_literal_known [OF assms], simp add: cs_def)+
  moreover have "cs ''ls'' \<noteq> cs ''help''" by (simp add: cs_def)
  ultimately show ?thesis by (simp add: run_command_def Let_def)
qed

lemma run_command_unknown:
  assumes "c_string (mem s) (buf_at pg) = Some t" and "t \<noteq> []"
    and "t \<notin> {cs ''help'', cs ''ls'', cs ''hello'', cs ''clear'', cs ''exit''}"
  shows "run_command hw drv pg s =
    Option.bind (write_string hw drv (lit pg unknown_text) s) (\<lambda>s.
      Option.bind (write_string hw drv (buf_at pg) s) (\<lambda>s.
        map_option (Pair False) (write_string hw drv (lit pg [10]) s)))"
proof -
  have "mem s (buf_at pg) \<noteq> 0" using assms(1,2) by (subst (asm) c_string.simps) auto
  moreover have "0 \<notin> set (cs ''help'')" "0 \<notin> set (cs ''ls'')" "0 \<notin> set (cs ''hello'')"
    "0 \<notin> set (cs ''clear'')" "0 \<notin> set (cs ''exit'')" by (simp_all add: cs_def)
  ultimately show ?thesis
    using assms(3) by (simp add: run_command_def Let_def equals_literal_known [OF assms(1)])
qed

text \<open>Characters that the line editor takes as they are.\<close>

definition plain :: "u8 list \<Rightarrow> bool" where
  "plain chars \<longleftrightarrow> (\<forall>c \<in> set chars. c \<notin> {0, 8, 10, 13})"

lemma edit_plain:
  "plain chars \<Longrightarrow> length line + length chars \<le> n \<Longrightarrow>
     edit n line (chars @ input) = map_option (\<lambda>(l, e, r). (l, chars @ e, r)) (edit n (line @ chars) input)"
proof (induction chars arbitrary: line)
  case Nil
  then show ?case by (cases "edit n line input") auto
next
  case (Cons c chars)
  from Cons.prems have p: "plain chars" "c \<noteq> 0" "c \<noteq> 8" "c \<noteq> 10" "c \<noteq> 13" "length line < n"
    by (auto simp: plain_def)
  then have "edit n line ((c # chars) @ input) = echoing [c] (edit n (line @ [c]) (chars @ input))" by simp
  also have "edit n (line @ [c]) (chars @ input) = map_option (\<lambda>(l, e, r). (l, chars @ e, r)) (edit n (line @ [c] @ chars) input)"
    using Cons.IH [of "line @ [c]"] p(1) Cons.prems(2) by simp
  finally show ?case using p(2) by (cases "edit n (line @ c # chars) input") (auto simp: echoing_def)
qed

text \<open>
  C18: Typing ls and return makes the shell print its prompt, the echo of the
  line, and the names of the root directory one per line, as many as fit into
  the 1024-byte buffer: the records the kernel writes are read back by the
  user program as exactly the entries readdir listed, on both word sizes. The
  rest of the directory is not shown.
\<close>

theorem shell_ls_lists_directory:
  fixes s :: "('a::len word, 'd, 'st) machine"
  assumes arch: "arch_word TYPE('a)" and tm: "terminal_ok hw feeds"
    and fd: "feeds (cs ''ls'' @ 10 # input) (kbd s) (dev s)" and pg: "program_ok pg (mem s)"
    and root: "vfs_root (files s) = Some node" and dir: "lists drv node (fs s) ents"
    and few: "length ents < 2 ^ 32" and names: "\<forall>de \<in> set ents. 0 \<notin> set (dname de)"
  shows "\<exists>k d m. shell_round hw drv pg s = Some (False, io_update k
        (tty_chars (prompt @ cs ''ls'' @ [10] @ listing (fitting TYPE('a) 1024 0 ents)) (screen s)) d m s)
      \<and> feeds input k d \<and> program_ok pg m"
proof -
  have e: "edit 127 [] (cs ''ls'' @ 10 # input) = Some (cs ''ls'' @ [10], cs ''ls'' @ [10], input)"
    by (subst edit_plain) (simp_all add: plain_def cs_def)
  obtain k d m where r: "shell_round hw drv pg s = run_command hw drv pg
        (io_update k (tty_chars (prompt @ cs ''ls'' @ [10]) (screen s)) d m s)"
      "feeds input k d" "c_string m (buf_at pg) = Some (cs ''ls'')" "program_ok pg m"
    using shell_round_reads [OF arch tm fd pg e, of drv] by (auto simp: cs_def)
  let ?s1 = "io_update k (tty_chars (prompt @ cs ''ls'' @ [10]) (screen s)) d m s"
  let ?ents = "fitting TYPE('a) 1024 0 ents"
  have u: "ucast (1024 :: 'a word) = (1024 :: u32)" "unat (1024 :: u32) = 1024"
    using ucast_1024 [OF arch] by simp_all
  have s1: "vfs_root (files ?s1) = Some node" "lists drv node (fs ?s1) ents" using root dir by simp_all
  obtain m2 where g: "sys_getdents drv 0 (dbuf_at pg) 1024 ?s1
        = Some (of_nat (end_pos TYPE('a) 0 ?ents), set_mem m2 ?s1)"
      "dirents_at m2 (dbuf_at pg) 0 ?ents" "\<And>x. x \<notin> region (dbuf_at pg) 1024 \<Longrightarrow> m2 x = m x"
    using sys_getdents_ok [OF arch s1 few, of 1024 0 "dbuf_at pg"] unfolding u(2) by auto
  have pg2: "program_ok pg m2" by (rule program_ok_kept [OF r(4)]) (use g(3) in blast)
  then have nl: "c_string m2 (lit pg [10]) = Some [10]"
    using prompt_literal(2) unfolding program_ok_def by blast
  have sub: "set (fitting TYPE('a) c p es) \<subseteq> set es" for c p es
    by (induction "TYPE('a)" c p es rule: fitting.induct) auto
  have ok: "\<forall>de \<in> set ?ents. length (dname de) < 128 \<and> 0 \<notin> set (dname de)"
    using sub [of 1024 0 ents] dir names by (auto simp: lists_def)
  have "end_pos TYPE('a) 0 ?ents \<le> 1024" using end_pos_fitting [of 0 1024] by simp
  then have i: "int_of (of_nat (end_pos TYPE('a) 0 ?ents) :: 'a word) = int (end_pos TYPE('a) 0 ?ents)"
    by (intro int_of_small [OF arch]) simp
  let ?s2 = "io_update k (tty_chars (prompt @ cs ''ls'' @ [10]) (screen s)) d m2 s"
  obtain d2 where l: "ls_loop hw drv pg 0 (int (end_pos TYPE('a) 0 ?ents)) ?s2
      = Some (io_update k (tty_chars (listing ?ents) (screen ?s2)) d2 m2 ?s2)" "feeds input k d2"
    using ls_loop_prints [OF arch tm nl, of input ?s2 0 ?ents drv] r(2) g(2) ok by auto
  have "shell_ls hw drv pg ?s1 = Some (io_update k (tty_chars (listing ?ents) (screen ?s2)) d2 m2 ?s2)"
  proof -
    have "user_getdents hw drv 0 (dbuf_at pg) 1024 ?s1 = Some (of_nat (end_pos TYPE('a) 0 ?ents), ?s2)"
      unfolding user_getdents_def syscall3_simps(3) [OF arch] u(1) using g(1)
      by (simp only: unsigned_0 io_update_sel)
    then show ?thesis unfolding shell_ls_def by (simp only: Option.bind.simps prod.case i l(1))
  qed
  moreover have "0 \<notin> set (prompt @ cs ''ls'' @ [10])" by (simp add: prompt_def cs_def)
  ultimately have "shell_round hw drv pg s = Some (False, io_update k
        (tty_chars ((prompt @ cs ''ls'' @ [10]) @ listing ?ents) (screen s)) d2 m2 s)"
    using r(1,3) by (simp add: run_command_ls tty_chars_append del: append_assoc)
  with l(2) pg2 show ?thesis by auto
qed

definition builtins :: "u8 list set" where
  "builtins = {cs ''help'', cs ''ls'', cs ''hello'', cs ''clear'', cs ''exit''}"

lemma shell_round_unknown:
  fixes s :: "('a::len word, 'd, 'st) machine"
  assumes arch: "arch_word TYPE('a)" and tm: "terminal_ok hw feeds" and fd: "feeds input (kbd s) (dev s)"
    and pg: "program_ok pg (mem s)" and e: "edit 127 [] input = Some (line, echo, rest)"
    and nul: "0 \<notin> set line" "0 \<notin> set echo" and cmd: "butlast line \<noteq> []" "butlast line \<notin> builtins"
  shows "\<exists>k d m. shell_round hw drv pg s = Some (False, io_update k
        (tty_chars (prompt @ echo @ unknown_text @ butlast line @ [10]) (screen s)) d m s)
      \<and> feeds rest k d \<and> program_ok pg m"
proof -
  have ne: "line \<noteq> []" using cmd(1) by auto
  obtain k d m where r: "shell_round hw drv pg s
        = run_command hw drv pg (io_update k (tty_chars (prompt @ echo) (screen s)) d m s)"
      "feeds rest k d" "c_string m (buf_at pg) = Some (butlast line)" "program_ok pg m"
    using shell_round_reads [OF arch tm fd pg e ne nul(1), of drv] by blast
  let ?s1 = "io_update k (tty_chars (prompt @ echo) (screen s)) d m s"
  have n0: "0 \<notin> set (prompt @ echo)" "0 \<notin> set unknown_text" "0 \<notin> set (butlast line)"
    using nul by (auto simp: prompt_def unknown_text_def cs_def dest: in_set_butlastD)
  have c1: "feeds rest (kbd ?s1) (dev ?s1)" "program_ok pg (mem ?s1)" using r(2,4) by simp_all
  obtain d1 where w1: "write_string hw drv (lit pg unknown_text) ?s1
      = Some (io_update k (tty_chars (prompt @ echo @ unknown_text) (screen s)) d1 m s)" "feeds rest k d1"
    using say_ok [OF arch tm c1 prompt_literal(3), of drv] tty_chars_append [OF n0(1), of unknown_text "screen s"]
    by auto
  let ?s2 = "io_update k (tty_chars (prompt @ echo @ unknown_text) (screen s)) d1 m s"
  have c2: "feeds rest (kbd ?s2) (dev ?s2)" "c_string (mem ?s2) (buf_at pg) = Some (butlast line)"
    using w1(2) r(3) by simp_all
  have "length (butlast line) < 2 ^ 32" using edit_length [OF e] by simp
  from write_string_ok [OF arch tm c2 this, of drv] obtain d2 where
    w2: "write_string hw drv (buf_at pg) ?s2
      = Some (io_update k (tty_chars (prompt @ echo @ unknown_text @ butlast line) (screen s)) d2 m s)" "feeds rest k d2"
    using tty_chars_append [of "prompt @ echo @ unknown_text" "butlast line" "screen s"] n0 by auto
  let ?s3 = "io_update k (tty_chars (prompt @ echo @ unknown_text @ butlast line) (screen s)) d2 m s"
  have c3: "feeds rest (kbd ?s3) (dev ?s3)" "program_ok pg (mem ?s3)" using w2(2) r(4) by simp_all
  obtain d3 where w3: "write_string hw drv (lit pg [10]) ?s3
      = Some (io_update k (tty_chars (prompt @ echo @ unknown_text @ butlast line @ [10]) (screen s)) d3 m s)"
      "feeds rest k d3"
    using say_ok [OF arch tm c3 prompt_literal(2), of drv] n0
      tty_chars_append [of "prompt @ echo @ unknown_text @ butlast line" "[10]" "screen s"] by auto
  have "run_command hw drv pg ?s1 = Some (False, io_update k
        (tty_chars (prompt @ echo @ unknown_text @ butlast line @ [10]) (screen s)) d3 m s)"
    using run_command_unknown [of ?s1 pg "butlast line" hw drv] r(3) cmd
    by (simp only: io_update_sel builtins_def w1(1) w2(1) w3(1) Option.bind.simps option.simps simp_thms)
  with r(1,4) w3(2) show ?thesis by auto
qed

lemma builtins_short: "t \<in> builtins \<Longrightarrow> length t \<le> 5"
  by (auto simp: builtins_def cs_def)

text \<open>
  C21: A line that is no command is echoed and reported as typed, provided it
  has at most 126 characters. When 127 characters arrive without a newline
  the read returns with a full buffer and no newline in it; the shell then
  replaces the last character typed by its terminator, so the command it acts
  on lacks that character, and what follows is taken as a new command.
\<close>

theorem shell_unknown_command:
  fixes s :: "('a::len word, 'd, 'st) machine"
  assumes "arch_word TYPE('a)" and "terminal_ok hw feeds" and "program_ok pg (mem s)"
    and "plain chars" and "chars \<noteq> []" and "chars \<notin> builtins"
    and "feeds (chars @ input) (kbd s) (dev s)"
  shows "(length chars \<le> 126 \<and> input = 10 # rest \<longrightarrow>
      (\<exists>k d m. shell_round hw drv pg s = Some (False, io_update k
          (tty_chars (prompt @ (chars @ [10]) @ unknown_text @ chars @ [10]) (screen s)) d m s)
        \<and> feeds rest k d \<and> program_ok pg m))
    \<and> (length chars = 127 \<longrightarrow>
      (\<exists>k d m. shell_round hw drv pg s = Some (False, io_update k
          (tty_chars (prompt @ chars @ unknown_text @ take 126 chars @ [10]) (screen s)) d m s)
        \<and> feeds input k d \<and> program_ok pg m))"
proof (intro conjI impI)
  have nul: "0 \<notin> set chars" using assms(4) by (auto simp: plain_def)
  {
    assume l: "length chars \<le> 126 \<and> input = 10 # rest"
    have "edit 127 [] (chars @ input) = Some (chars @ [10], chars @ [10], rest)"
      using l by (subst edit_plain [OF assms(4)]) simp_all
    from shell_round_unknown [OF assms(1,2,7,3) this, of drv] nul assms(5,6)
    show "\<exists>k d m. shell_round hw drv pg s = Some (False, io_update k
          (tty_chars (prompt @ (chars @ [10]) @ unknown_text @ chars @ [10]) (screen s)) d m s)
        \<and> feeds rest k d \<and> program_ok pg m"
      by simp
  }
  assume l: "length chars = 127"
  have e: "edit 127 [] (chars @ input) = Some (chars, chars, input)"
    using l by (subst edit_plain [OF assms(4)]) (cases input; simp)+
  have b: "butlast chars = take 126 chars" using l by (simp add: butlast_conv_take)
  have "take 126 chars \<notin> builtins" using builtins_short [of "take 126 chars"] l by auto
  moreover have "take 126 chars \<noteq> []" using l by auto
  ultimately show "\<exists>k d m. shell_round hw drv pg s = Some (False, io_update k
          (tty_chars (prompt @ chars @ unknown_text @ take 126 chars @ [10]) (screen s)) d m s)
        \<and> feeds input k d \<and> program_ok pg m"
    using shell_round_unknown [OF assms(1,2,7,3) e nul nul, of drv] unfolding b by blast
qed

section \<open>A loaded shell\<close>

text \<open>The literals one after the other at 0x4000, the buffers below.\<close>

definition image_of :: "u8 list list \<Rightarrow> u8 list" where
  "image_of ts = concat (map (\<lambda>t. t @ [0]) ts)"

definition demo_program :: "u32 program" where
  "demo_program = \<lparr>lit = (\<lambda>t. 0x4000 + of_nat (length (image_of (takeWhile (\<lambda>u. u \<noteq> t) literals)))),
     buf_at = 0x2000, dbuf_at = 0x3000\<rparr>"

definition demo_memory :: "32 memory" where
  "demo_memory = write_bytes (\<lambda>a. 0) 0x4000 (image_of literals)"

lemma split_at_first: "t \<in> set xs \<Longrightarrow> \<exists>post. xs = takeWhile (\<lambda>u. u \<noteq> t) xs @ t # post"
  by (induction xs) auto

lemma demo_program_ok: "program_ok demo_program demo_memory"
proof -
  have len: "length (image_of literals) = 146" by code_simp
  have all: "read_bytes demo_memory 0x4000 (length (image_of literals)) = image_of literals"
    unfolding demo_memory_def by (rule read_write_bytes_same) (simp_all add: len)
  have buf: "region (0x4000 :: u32) 146 \<inter> region 0x2000 128 = {}"
    using regions_apart [of "0x2000 :: u32" 128 "0x4000" 146] by auto
  have dbuf: "region (0x4000 :: u32) 146 \<inter> region 0x3000 1024 = {}"
    using regions_apart [of "0x3000 :: u32" 1024 "0x4000" 146] by auto
  have bufs: "region (0x2000 :: u32) 128 \<inter> region 0x3000 1024 = {}" by (rule regions_apart) simp_all
  have "c_string demo_memory (lit demo_program t) = Some t
      \<and> region (lit demo_program t) (Suc (length t)) \<subseteq> region 0x4000 146" if t: "t \<in> set literals" for t
  proof -
    let ?pre = "takeWhile (\<lambda>u. u \<noteq> t) literals"
    obtain post where s: "literals = ?pre @ t # post"
      using split_at_first [OF t] by blast
    have im: "image_of literals = image_of ?pre @ ((t @ [0]) @ image_of post)"
      by (subst s) (simp add: image_of_def)
    have nul: "0 \<notin> set t" using t
      by (auto simp: literals_def banner_def prompt_def help_text_def hello_text_def clear_text_def
          goodbye_text_def unknown_text_def cs_def)
    have "read_bytes demo_memory (lit demo_program t) (length (t @ [0])) = t @ [0]"
      using read_split(1) [OF read_split(2) [OF all [unfolded im]]] by (simp add: demo_program_def)
    then have "c_string demo_memory (lit demo_program t) = Some t"
      by (intro c_string_held nul) simp
    moreover have "length (image_of ?pre) + Suc (length t) \<le> 146"
      using arg_cong [OF im, of length] len by simp
    then have "region (0x4000 + of_nat (length (image_of ?pre))) (Suc (length t)) \<subseteq> region (0x4000 :: u32) 146"
      by (rule region_offset) simp
    ultimately show ?thesis by (simp add: demo_program_def)
  qed
  then show ?thesis
    using buf dbuf bufs unfolding program_ok_def demo_program_def by auto
qed

definition demo_shell :: "u8 list \<Rightarrow> (u32, port_event list, tar_fs) machine" where
  "demo_shell typed_ahead = set_mem demo_memory ((demo_machine typed_ahead)
     \<lparr>fs := \<lparr>file_entries = [], file_count = 1,
        tar_nodes = [root_tar_node null_node], tar_dirents = [\<lparr>dname = cs ''a.txt'', ino = 1, dtype = 1\<rparr>],
        ram = (\<lambda>a. 0)\<rparr>\<rparr>)"

lemma demo_shell_feeds: "length input \<le> 255 \<Longrightarrow> buffered input (kbd (demo_shell input)) (dev (demo_shell input))"
  using demo_feeds [of input "dev (demo_shell input)"] by (simp add: demo_shell_def)

lemma demo_shell_program: "program_ok demo_program (mem (demo_shell input))"
  using demo_program_ok by (simp add: demo_shell_def)

lemma demo_arch: "arch_word TYPE(32)"
  by (simp add: arch_word_def)

theorem shell_ls_lists_directory_witness:
  "\<exists>k d m. shell_round (log_device (\<lambda>p. 0x20)) tar_drivers demo_program (demo_shell (cs ''ls'' @ [10]))
     = Some (False, io_update k (tty_chars (prompt @ cs ''ls'' @ [10] @ cs ''a.txt'' @ [10]) demo_vga) d m
         (demo_shell (cs ''ls'' @ [10])))"
proof -
  let ?s = "demo_shell (cs ''ls'' @ [10])"
  let ?ents = "[\<lparr>dname = cs ''a.txt'', ino = 1, dtype = 1\<rparr>] :: dirent list"
  have f: "buffered (cs ''ls'' @ [10]) (kbd ?s) (dev ?s)" by (rule demo_shell_feeds) (simp add: cs_def)
  have root: "vfs_root (files ?s) = Some (TarNode 0)" by (simp add: demo_shell_def demo_machine_def vfs_root_def)
  have dir: "lists tar_drivers (TarNode 0) (fs ?s) ?ents"
    by (simp add: lists_def demo_shell_def vfs_readdir_def tar_drivers_def tar_node_at_def root_tar_node_def
        tar_readdir_def VFS_DIRECTORY_def cs_def)
  have fit: "listing (fitting TYPE(32) 1024 0 ?ents) = cs ''a.txt'' @ [10]"
    by (simp add: listing_def cs_def rec_len_def dirent_reclen_def SIZEOF_DIRENT_def word_bytes_def Let_def)
  have names: "\<forall>de \<in> set ?ents. 0 \<notin> set (dname de)" by (simp add: cs_def)
  from shell_ls_lists_directory [OF demo_arch terminal_buffered [OF ready_line] f demo_shell_program root dir _ names]
  show ?thesis unfolding fit by (auto simp: demo_shell_def demo_machine_def)
qed

theorem shell_unknown_command_witness:
  "\<exists>k d m. shell_round (log_device (\<lambda>p. 0x20)) tar_drivers demo_program (demo_shell (replicate 127 97 @ [10]))
     = Some (False, io_update k (tty_chars (prompt @ replicate 127 97 @ unknown_text @ replicate 126 97 @ [10]) demo_vga) d m
         (demo_shell (replicate 127 97 @ [10])))"
proof -
  let ?chars = "replicate 127 97 :: u8 list"
  let ?s = "demo_shell (?chars @ [10])"
  have f: "buffered (?chars @ [10]) (kbd ?s) (dev ?s)" by (rule demo_shell_feeds) simp
  have p: "plain ?chars" by (simp add: plain_def)
  have n: "?chars \<notin> builtins" using builtins_short [of ?chars] by auto
  have l: "length ?chars = 127" "?chars \<noteq> []" by simp_all
  have t: "take 126 ?chars = replicate 126 97" by simp
  have v: "screen ?s = demo_vga" by (simp add: demo_shell_def demo_machine_def)
  from shell_unknown_command [OF demo_arch terminal_buffered [OF ready_line] demo_shell_program p l(2) n f, where drv = tar_drivers and rest = "[]"]
    l(1)
  show ?thesis unfolding t v by blast
qed

end
