(* ===== verification/Vmm64.thy ===== *)
theory Vmm64
  imports Pmm
begin

text \<open>
  Four-level paging of the x86_64 build, kernel/x64/vmm.c, and the page
  tables with which kernel/x64/boot.s enters long mode. Tables live in byte
  memory; None is the panic of pmm_alloc, the address 0 the null pointer. A
  table is named by its page number, its i-th entry by slot.
\<close>

section \<open>State and operations\<close>

record vmm64 =
  ram6 :: "64 memory"
  bitmap6 :: "u8 list"
  current_pd6 :: u64
  kernel_pd6 :: u64
  cr3_6 :: u64

abbreviation (input) ADDR_MASK :: u64 where "ADDR_MASK \<equiv> 0x000FFFFFFFFFF000"

definition clear_page :: "u64 \<Rightarrow> 64 memory \<Rightarrow> 64 memory" where
  "clear_page page m = mem_fill m page 0 4096"

definition next_table :: "u64 \<Rightarrow> u64 \<Rightarrow> bool \<Rightarrow> vmm64 \<Rightarrow> (u64 \<times> vmm64) option" where
  "next_table table index create s =
     (let entry = table + 8 * index in
      if read64 (ram6 s) entry AND 1 = 0
      then if \<not> create then Some (0, s)
           else case pmm_alloc (bitmap6 s) of
                  None \<Rightarrow> None
                | Some (page, bm) \<Rightarrow>
                    let m = write64 (clear_page page (ram6 s)) entry (page OR 1 OR 2 OR 4)
                    in Some (read64 m entry AND ADDR_MASK, s\<lparr>ram6 := m, bitmap6 := bm\<rparr>)
      else Some (read64 (ram6 s) entry AND ADDR_MASK, s))"

definition page_table :: "u64 \<Rightarrow> u64 \<Rightarrow> bool \<Rightarrow> vmm64 \<Rightarrow> (u64 \<times> vmm64) option" where
  "page_table root virt create s =
     (let pml4_index = drop_bit 39 virt AND 0x1FF; pdpt_index = drop_bit 30 virt AND 0x1FF;
          pd_index = drop_bit 21 virt AND 0x1FF in
      case next_table root pml4_index create s of None \<Rightarrow> None
      | Some (pdpt, s) \<Rightarrow>
          if pdpt = 0 then Some (0, s)
          else case next_table pdpt pdpt_index create s of None \<Rightarrow> None
            | Some (pd, s) \<Rightarrow>
                if pd = 0 then Some (0, s) else next_table pd pd_index create s)"

definition init_paging64 :: "vmm64 \<Rightarrow> vmm64" where
  "init_paging64 s = (let s = s\<lparr>kernel_pd6 := cr3_6 s\<rparr> in s\<lparr>current_pd6 := kernel_pd6 s\<rparr>)"

definition copy_entries64 :: "u64 \<Rightarrow> u64 \<Rightarrow> 64 memory \<Rightarrow> 64 memory" where
  "copy_entries64 src dst m = fold (\<lambda>i m. write64 m (dst + 8 * of_nat i) (read64 m (src + 8 * of_nat i))) [0 ..< 512] m"

definition vmm_create_address_space64 :: "vmm64 \<Rightarrow> (u64 \<times> vmm64) option" where
  "vmm_create_address_space64 s =
     (case pmm_alloc (bitmap6 s) of None \<Rightarrow> None
      | Some (pd, bm) \<Rightarrow>
          Some (pd, s\<lparr>ram6 := copy_entries64 (kernel_pd6 s) pd (clear_page pd (ram6 s)), bitmap6 := bm\<rparr>))"

definition vmm_switch_to64 :: "u64 \<Rightarrow> vmm64 \<Rightarrow> vmm64" where
  "vmm_switch_to64 pd s = s\<lparr>current_pd6 := pd, cr3_6 := pd\<rparr>"

definition vmm_map_page64 :: "u64 \<Rightarrow> u64 \<Rightarrow> u64 \<Rightarrow> u64 \<Rightarrow> vmm64 \<Rightarrow> vmm64 option" where
  "vmm_map_page64 pd virt phys flags s =
     (case page_table pd virt True s of None \<Rightarrow> None
      | Some (table, s) \<Rightarrow>
          if table = 0 then Some s
          else Some (s\<lparr>ram6 := write64 (ram6 s) (table + 8 * (drop_bit 12 virt AND 0x1FF))
                 ((phys AND ADDR_MASK) OR flags OR 1)\<rparr>))"

definition vmm_unmap_page64 :: "u64 \<Rightarrow> u64 \<Rightarrow> vmm64 \<Rightarrow> vmm64 option" where
  "vmm_unmap_page64 pd virt s =
     (case page_table pd virt False s of None \<Rightarrow> None
      | Some (table, s) \<Rightarrow>
          if table = 0 then Some s
          else Some (s\<lparr>ram6 := write64 (ram6 s) (table + 8 * (drop_bit 12 virt AND 0x1FF)) 0\<rparr>))"

definition vmm_get_phys_addr64 :: "u64 \<Rightarrow> u64 \<Rightarrow> vmm64 \<Rightarrow> u64" where
  "vmm_get_phys_addr64 root virt s =
     (let pml4_index = drop_bit 39 virt AND 0x1FF; pdpt_index = drop_bit 30 virt AND 0x1FF;
          pd_index = drop_bit 21 virt AND 0x1FF; pt_index = drop_bit 12 virt AND 0x1FF;
          pml4e = read64 (ram6 s) (root + 8 * pml4_index) in
      if pml4e AND 1 = 0 then 0
      else
        let pdpte = read64 (ram6 s) ((pml4e AND ADDR_MASK) + 8 * pdpt_index) in
        if pdpte AND 1 = 0 then 0
        else
          let pde = read64 (ram6 s) ((pdpte AND ADDR_MASK) + 8 * pd_index) in
          if pde AND 1 = 0 then 0
          else if pde AND 0x80 \<noteq> 0 then (pde AND 0x000FFFFFFFE00000) OR (virt AND 0x1FFFFF)
          else
            let pte = read64 (ram6 s) ((pde AND ADDR_MASK) + 8 * pt_index) in
            if pte AND 1 = 0 then 0 else (pte AND ADDR_MASK) OR (virt AND 0xFFF))"

definition vmm_clone_address_space64 :: "u64 \<Rightarrow> u64 \<Rightarrow> vmm64 \<Rightarrow> vmm64" where
  "vmm_clone_address_space64 source destination s =
     s\<lparr>ram6 := copy_entries64 source destination (ram6 s)\<rparr>"

text \<open>
  The tables of boot.s, on zeroed memory: one entry each in the two upper
  tables, 512 pages of 2 MB in the third, stored as two 32-bit halves.
\<close>

definition setup_page_tables :: "u32 \<Rightarrow> u32 \<Rightarrow> u32 \<Rightarrow> 64 memory \<Rightarrow> 64 memory" where
  "setup_page_tables pml4_table pdpt_table pd_table m =
     (let put = (\<lambda>a v m. write32 (write32 m a v) (a + 4) 0);
          m = put (ucast pml4_table) (pdpt_table OR 7) m;
          m = put (ucast pdpt_table) (pd_table OR 7) m
      in fold (\<lambda>i. put (ucast pd_table + 8 * of_nat i) (push_bit 21 (of_nat i) OR 0x87)) [0 ..< 512] m)"

section \<open>Tables as arrays of entries\<close>

definition base6 :: "nat \<Rightarrow> u64" where "base6 q = of_nat (q * 4096)"
definition slot :: "nat \<Rightarrow> nat \<Rightarrow> u64" where "slot q i = of_nat (q * 4096 + 8 * i)"
definition entry :: "64 memory \<Rightarrow> nat \<Rightarrow> nat \<Rightarrow> u64" where "entry m q i = read64 m (slot q i)"
definition frame6 :: "u64 \<Rightarrow> nat" where "frame6 e = unat (drop_bit 12 e AND mask 40)"
definition index_at :: "nat \<Rightarrow> u64 \<Rightarrow> nat" where "index_at k virt = unat (drop_bit k virt AND 0x1FF)"

lemma frame6_bound [simp]: "frame6 e < 2 ^ 40"
proof -
  have "frame6 e = take_bit 40 (unat (drop_bit 12 e))"
    by (simp add: frame6_def unsigned_take_bit_eq flip: take_bit_eq_mask)
  then show ?thesis by (simp only: take_bit_nat_less_exp)
qed

lemma frame6_below [simp]: "frame6 e < 1099511627776"
  using frame6_bound [of e] by simp

lemma index_at_bound [simp]: "index_at k virt < 512"
proof -
  have "drop_bit k virt AND 0x1FF \<le> 0x1FF" by (rule word_and_le1)
  then show ?thesis by (simp add: index_at_def word_le_nat_alt)
qed

lemma addr_mask: "e AND ADDR_MASK = base6 (frame6 e)"
proof -
  have m: "ADDR_MASK = push_bit 12 (mask 40)" by (simp add: mask_eq_decr_exp)
  have "e AND ADDR_MASK = push_bit 12 (drop_bit 12 e AND mask 40)"
    unfolding m by (rule bit_word_eqI) (auto simp: bit_simps)
  also have "\<dots> = base6 (frame6 e)"
    by (simp add: push_bit_eq_mult frame6_def base6_def)
  finally show ?thesis .
qed

lemma slot_address: "base6 q + 8 * (drop_bit k virt AND 0x1FF) = slot q (index_at k virt)"
  by (simp add: base6_def slot_def index_at_def)

lemma unat_slot: "q < 2 ^ 40 \<Longrightarrow> i < 512 \<Longrightarrow> unat (slot q i) = q * 4096 + 8 * i"
  unfolding slot_def by (rule unat_of_nat_less) simp

lemma unat_base6: "q < 2 ^ 40 \<Longrightarrow> unat (base6 q) = q * 4096"
  unfolding base6_def by (rule unat_of_nat_less) simp

lemma slot_regions:
  assumes "q < 2 ^ 40" "i < 512" "r < 2 ^ 40" "j < 512" "\<not> (q = r \<and> i = j)"
  shows "region (slot q i) 8 \<inter> region (slot r j) 8 = {}"
proof -
  have "q * 512 + i \<noteq> r * 512 + j"
  proof
    assume e: "q * 512 + i = r * 512 + j"
    have "(q * 512 + i) div 512 = q" "(r * 512 + j) div 512 = r" using assms(2,4) by simp_all
    with e have "q = r" by metis
    with e assms(5) show False by simp
  qed
  then consider "q * 512 + i < r * 512 + j" | "r * 512 + j < q * 512 + i" by linarith
  then show ?thesis
  proof cases
    case 1
    then show ?thesis using assms by (intro regions_apart) (simp_all add: unat_slot)
  next
    case 2
    then have "region (slot r j) 8 \<inter> region (slot q i) 8 = {}"
      using assms by (intro regions_apart) (simp_all add: unat_slot)
    then show ?thesis by blast
  qed
qed

lemma entry_write:
  assumes "q < 2 ^ 40" "i < 512" "r < 2 ^ 40" "j < 512"
  shows "entry (write64 m (slot q i) v) r j = (if q = r \<and> i = j then v else entry m r j)"
proof (cases "q = r \<and> i = j")
  case True
  then show ?thesis by (simp add: entry_def read64_def write64_def read_write_bytes_same)
next
  case False
  then show ?thesis using slot_regions [OF assms(1,2,3,4) False]
    by (auto simp: entry_def read64_def write64_def read_write_bytes_disjoint)
qed

lemma entry_clear:
  assumes "q < 2 ^ 40" "r < 2 ^ 40" "j < 512"
  shows "entry (clear_page (base6 q) m) r j = (if q = r then 0 else entry m r j)"
proof (cases "q = r")
  case True
  have "read_bytes (write_bytes m (base6 q) (replicate 4096 0)) (base6 q + of_nat (8 * j)) 8 = replicate 8 0"
  proof (rule nth_equalityI)
    fix i
    assume "i < length (read_bytes (write_bytes m (base6 q) (replicate 4096 0)) (base6 q + of_nat (8 * j)) 8)"
    then have i: "i < 8" by simp
    with assms(3) have l: "8 * j + i < 4096" by simp
    have "write_bytes m (base6 q) (replicate 4096 0) (base6 q + of_nat (8 * j + i)) = replicate 4096 0 ! (8 * j + i)"
      by (rule write_bytes_inside) (use l in simp_all)
    with i l show "read_bytes (write_bytes m (base6 q) (replicate 4096 0)) (base6 q + of_nat (8 * j)) 8 ! i
        = replicate 8 0 ! i"
      by (simp add: add.assoc)
  qed simp
  moreover have "base6 q + of_nat (8 * j) = slot q j" by (simp add: base6_def slot_def)
  moreover have "word_le (replicate 8 (0 :: u8)) = (0 :: u64)" by code_simp
  ultimately show ?thesis using True
    by (simp add: entry_def read64_def clear_page_def mem_fill_write del: of_nat_mult)
next
  case False
  have "region (base6 q) 4096 \<inter> region (slot r j) 8 = {}"
  proof (cases "q < r")
    case True
    then show ?thesis using assms by (intro regions_apart) (simp_all add: unat_slot unat_base6)
  next
    case F: False
    with False have "r < q" by simp
    then have "region (slot r j) 8 \<inter> region (base6 q) 4096 = {}"
      using assms by (intro regions_apart) (simp_all add: unat_slot unat_base6)
    then show ?thesis by blast
  qed
  with False show ?thesis
    by (simp add: entry_def read64_def clear_page_def mem_fill_write read_write_bytes_disjoint)
qed

section \<open>One level of the walk\<close>

abbreviation present6 :: "u64 \<Rightarrow> bool" where "present6 e \<equiv> e AND 1 \<noteq> 0"
abbreviation huge :: "u64 \<Rightarrow> bool" where "huge e \<equiv> e AND 0x80 \<noteq> 0"

lemma base6_push: "base6 f = push_bit 12 (of_nat f)"
  by (simp add: base6_def push_bit_eq_mult)

lemma link_bits:
  assumes "f < 2 ^ 40"
  shows "present6 (base6 f OR 7)" "\<not> huge (base6 f OR 7)" "frame6 (base6 f OR 7) = f"
proof -
  have b: "bit (base6 f) n \<longleftrightarrow> 12 \<le> n \<and> n < 64 \<and> bit (of_nat f :: u64) (n - 12)" for n
    by (auto simp: base6_push bit_push_bit_iff dest: bit_imp_le_length)
  have seven: "(7 :: u64) = mask 3" by (simp add: mask_eq_decr_exp)
  have "bit (base6 f OR 7) 0" unfolding seven by (simp add: bit_simps)
  then show "present6 (base6 f OR 7)" by (auto simp: bit_iff_odd and_one_eq odd_iff_mod_2_eq_one)
  have "\<not> bit (base6 f OR 7) 7" unfolding seven bit_or_iff b by (simp add: bit_simps)
  moreover have "(0x80 :: u64) = push_bit 7 1" by simp
  ultimately show "\<not> huge (base6 f OR 7)" by (simp only: and_exp_eq_0_iff_not_bit push_bit_of_1) simp
  have f: "unat (of_nat f :: u64) = f" by (rule unat_of_nat_less) (use assms in simp)
  have "drop_bit 12 (base6 f OR 7) AND mask 40 = (of_nat f :: u64)"
  proof (rule bit_word_eqI)
    fix n
    assume n: "n < LENGTH(64)"
    have hi: "\<not> bit (of_nat f :: u64) n" if "40 \<le> n"
      using bit_below [of "of_nat f :: u64" 40 n] assms that unfolding f by linarith
    show "bit (drop_bit 12 (base6 f OR 7) AND mask 40) n \<longleftrightarrow> bit (of_nat f :: u64) n"
    proof (cases "n < 40")
      case True
      then show ?thesis
        unfolding seven bit_and_iff bit_drop_bit_eq bit_or_iff b comp_def by (simp add: bit_mask_iff)
    next
      case False
      then show ?thesis using hi by (simp add: bit_and_iff bit_mask_iff)
    qed
  qed
  with f show "frame6 (base6 f OR 7) = f" by (simp add: frame6_def)
qed

text \<open>One call of next_table, on a table named by its page.\<close>

lemma next_table_present:
  "present6 (entry (ram6 s) q (index_at k virt)) \<Longrightarrow>
     next_table (base6 q) (drop_bit k virt AND 0x1FF) c s
     = Some (base6 (frame6 (entry (ram6 s) q (index_at k virt))), s)"
  by (simp add: next_table_def Let_def slot_address addr_mask entry_def)

lemma next_table_absent:
  "\<not> present6 (entry (ram6 s) q (index_at k virt)) \<Longrightarrow>
     next_table (base6 q) (drop_bit k virt AND 0x1FF) False s = Some (0, s)"
  by (simp add: next_table_def Let_def slot_address entry_def)

definition link_table :: "nat \<Rightarrow> nat \<Rightarrow> nat \<Rightarrow> 64 memory \<Rightarrow> 64 memory" where
  "link_table q i f m = write64 (clear_page (base6 f) m) (slot q i) (base6 f OR 7)"

lemma next_table_create:
  assumes "\<not> present6 (entry (ram6 s) q (index_at k virt))" and "pmm_inv (bitmap6 s)"
    and "q < 2 ^ 40"
  shows "next_table (base6 q) (drop_bit k virt AND 0x1FF) True s = None \<and> free_pages (bitmap6 s) = {}
    \<or> (\<exists>f. f \<in> free_pages (bitmap6 s) \<and> next_table (base6 q) (drop_bit k virt AND 0x1FF) True s
        = Some (base6 f, s\<lparr>ram6 := link_table q (index_at k virt) f (ram6 s), bitmap6 := bit_set (bitmap6 s) f\<rparr>))"
proof (cases "pmm_alloc (bitmap6 s) :: (u64 \<times> u8 list) option")
  case None
  then have "free_pages (bitmap6 s) = {}" by (simp only: pmm_alloc_None)
  with None assms(1) show ?thesis
    by (simp add: next_table_def Let_def slot_address entry_def)
next
  case (Some r)
  then obtain p bm where r: "pmm_alloc (bitmap6 s) = Some (p :: u64, bm)" by (cases r) auto
  then obtain f where f: "f \<in> free_pages (bitmap6 s)" "p = base6 f" "bm = bit_set (bitmap6 s) f"
    unfolding base6_def by (auto elim: pmm_alloc_Some)
  have fb: "f < 2 ^ 40" using free_bound [OF f(1)] by simp
  have seven: "base6 f OR 1 OR 2 OR 4 = base6 f OR 7" by (simp add: or.assoc)
  have "entry (link_table q i f m) q i = base6 f OR 7" if "i < 512" for i m
    using entry_write [OF assms(3) that assms(3) that] by (simp add: link_table_def)
  then have rd: "read64 (link_table q (index_at k virt) f (ram6 s)) (slot q (index_at k virt)) = base6 f OR 7"
    by (simp add: entry_def)
  have "(base6 f OR 7) AND ADDR_MASK = base6 f" by (simp add: addr_mask link_bits(3) [OF fb])
  with r f assms(1) rd have "next_table (base6 q) (drop_bit k virt AND 0x1FF) True s
      = Some (base6 f, s\<lparr>ram6 := link_table q (index_at k virt) f (ram6 s), bitmap6 := bit_set (bitmap6 s) f\<rparr>)"
    by (simp add: next_table_def Let_def slot_address entry_def seven link_table_def)
  with f(1) show ?thesis by blast
qed

lemma entry_link_table:
  assumes "q < 2 ^ 40" "i < 512" "f < 2 ^ 40" "r < 2 ^ 40" "j < 512"
  shows "entry (link_table q i f m) r j
    = (if q = r \<and> i = j then base6 f OR 7 else if f = r then 0 else entry m r j)"
  using assms by (simp add: link_table_def entry_write entry_clear)

section \<open>Walking down\<close>

text \<open>
  A chain of tables that can be walked along the given indices: the tables
  visited are pairwise different pages (vis are those already visited), none
  is free or page 0, and no entry met is a large page. The chain may end at
  an absent entry.
\<close>

fun chain_ok :: "64 memory \<Rightarrow> nat set \<Rightarrow> nat set \<Rightarrow> nat list \<Rightarrow> nat \<Rightarrow> bool" where
  "chain_ok m F vis [] q \<longleftrightarrow> q \<notin> vis \<and> q \<notin> F \<and> q \<noteq> 0"
| "chain_ok m F vis (i # rest) q \<longleftrightarrow> q \<notin> vis \<and> q \<notin> F \<and> q \<noteq> 0
     \<and> (present6 (entry m q i) \<longrightarrow> \<not> huge (entry m q i)
          \<and> chain_ok m F (insert q vis) rest (frame6 (entry m q i)))"

text \<open>A chain with every entry present, from table q down to table t.\<close>

fun linked :: "64 memory \<Rightarrow> nat set \<Rightarrow> nat list \<Rightarrow> nat \<Rightarrow> nat \<Rightarrow> bool" where
  "linked m vis [] q t \<longleftrightarrow> q = t \<and> q \<notin> vis \<and> q \<noteq> 0"
| "linked m vis (i # rest) q t \<longleftrightarrow> q \<notin> vis \<and> q \<noteq> 0 \<and> present6 (entry m q i) \<and> \<not> huge (entry m q i)
     \<and> linked m (insert q vis) rest (frame6 (entry m q i)) t"

lemma linked_end: "linked m vis is q t \<Longrightarrow> t \<notin> vis \<and> t \<noteq> 0"
  by (induction m vis "is" q t rule: linked.induct) auto

lemma linked_bound: "linked m vis is q t \<Longrightarrow> q < 2 ^ 40 \<Longrightarrow> t < 2 ^ 40"
  by (induction m vis "is" q t rule: linked.induct) auto

lemma linked_agree:
  "linked m vis is q t \<Longrightarrow> q < 2 ^ 40 \<Longrightarrow> \<forall>i \<in> set is. i < 512
    \<Longrightarrow> (\<And>r j. r < 2 ^ 40 \<Longrightarrow> j < 512 \<Longrightarrow> r \<noteq> t \<Longrightarrow> r \<notin> vis \<Longrightarrow> entry m' r j = entry m r j)
    \<Longrightarrow> linked m' vis is q t"
proof (induction m vis "is" q t rule: linked.induct)
  case (2 m vis i rest q t)
  from 2(2) have q: "q \<notin> vis" and l: "linked m (insert q vis) rest (frame6 (entry m q i)) t" by simp_all
  from linked_end [OF l] have "q \<noteq> t" by auto
  with 2(3,4,5) q have e: "entry m' q i = entry m q i" by simp
  have "linked m' (insert q vis) rest (frame6 (entry m q i)) t"
    by (rule 2(1) [OF l]) (use 2(4,5) in auto)
  with 2(2) e show ?case by simp
qed simp

lemma next_table_chain:
  assumes run: "next_table (base6 q) (drop_bit k virt AND 0x1FF) True s = Some (t, s')"
    and inv: "pmm_inv (bitmap6 s)" and zero: "0 \<notin> free_pages (bitmap6 s)" and q: "q < 2 ^ 40"
    and chain: "chain_ok (ram6 s) (free_pages (bitmap6 s)) vis (index_at k virt # rest) q"
    and vis: "vis \<inter> free_pages (bitmap6 s) = {}" and rest: "\<forall>j \<in> set rest. j < 512"
  obtains q' where "t = base6 q'" "q' < 2 ^ 40" "frame6 (entry (ram6 s') q (index_at k virt)) = q'"
    "present6 (entry (ram6 s') q (index_at k virt))" "\<not> huge (entry (ram6 s') q (index_at k virt))"
    "chain_ok (ram6 s') (free_pages (bitmap6 s')) (insert q vis) rest q'"
    "pmm_inv (bitmap6 s')" "free_pages (bitmap6 s') \<subseteq> free_pages (bitmap6 s)"
    "insert q vis \<inter> free_pages (bitmap6 s') = {}"
    "\<And>r j. r < 2 ^ 40 \<Longrightarrow> j < 512 \<Longrightarrow> r \<in> vis \<Longrightarrow> entry (ram6 s') r j = entry (ram6 s) r j"
    "card (free_pages (bitmap6 s)) \<le> Suc (card (free_pages (bitmap6 s')))"
proof (cases "present6 (entry (ram6 s) q (index_at k virt))")
  case True
  with run next_table_present [OF True] have "t = base6 (frame6 (entry (ram6 s) q (index_at k virt)))" "s' = s"
    by auto
  with True assms show ?thesis
    by (intro that [of "frame6 (entry (ram6 s) q (index_at k virt))"]) auto
next
  case False
  let ?F = "free_pages (bitmap6 s)"
  from next_table_create [OF False inv q] run obtain f where f: "f \<in> ?F" "t = base6 f"
      "s' = s\<lparr>ram6 := link_table q (index_at k virt) f (ram6 s), bitmap6 := bit_set (bitmap6 s) f\<rparr>" by auto
  have fb: "f < 2 ^ 40" using free_bound [OF f(1)] by simp
  have F': "free_pages (bitmap6 s') = ?F - {f}" using free_bit_set [OF inv free_bound [OF f(1)]] f(3) by simp
  have new: "f \<notin> vis" "f \<noteq> q" "f \<noteq> 0" "q \<notin> vis" using f(1) vis chain zero by auto
  note e = entry_link_table [OF q index_at_bound [of k virt] fb]
  have up: "entry (ram6 s') q (index_at k virt) = base6 f OR 7" using e [OF q] f(3) by simp
  have empty: "entry (ram6 s') f j = 0" if "j < 512" for j using e [OF fb that] new f(3) by simp
  have fin: "finite ?F" by (simp add: free_pages_def)
  show ?thesis
  proof (rule that [of f])
    show "chain_ok (ram6 s') (free_pages (bitmap6 s')) (insert q vis) rest f"
      using new rest empty unfolding F' by (cases rest) auto
    show "pmm_inv (bitmap6 s')" using inv f(3) by simp
    show "insert q vis \<inter> free_pages (bitmap6 s') = {}" using vis chain unfolding F' by auto
    show "entry (ram6 s') r j = entry (ram6 s) r j" if "r < 2 ^ 40" "j < 512" "r \<in> vis" for r j
      using e [OF that(1,2)] that(3) new f(3) by auto
    show "card ?F \<le> Suc (card (free_pages (bitmap6 s')))"
      unfolding F' using fin f(1) by (simp add: card_Diff_singleton)
  qed (use f(2) fb up link_bits [OF fb] F' in auto)
qed

definition indices :: "u64 \<Rightarrow> nat list" where
  "indices virt = [index_at 39 virt, index_at 30 virt, index_at 21 virt]"

lemma base6_nonzero: "q < 2 ^ 40 \<Longrightarrow> q \<noteq> 0 \<Longrightarrow> base6 q \<noteq> 0"
  using unat_base6 [of q] by auto

lemma next_table_succeeds:
  assumes "pmm_inv (bitmap6 s)" "q < 2 ^ 40" "0 < card (free_pages (bitmap6 s))"
  shows "\<exists>t s'. next_table (base6 q) (drop_bit k virt AND 0x1FF) True s = Some (t, s')"
proof (cases "present6 (entry (ram6 s) q (index_at k virt))")
  case True
  then show ?thesis by (simp add: next_table_present)
next
  case False
  from next_table_create [OF False assms(1,2)] assms(3) show ?thesis by auto
qed

text \<open>Walking with creation links the whole chain.\<close>

lemma page_table_creates:
  assumes inv: "pmm_inv (bitmap6 s)" and zero: "0 \<notin> free_pages (bitmap6 s)" and q: "q < 2 ^ 40"
    and chain: "chain_ok (ram6 s) (free_pages (bitmap6 s)) {} (indices virt) q"
    and room: "3 \<le> card (free_pages (bitmap6 s))"
  shows "\<exists>t s'. page_table (base6 q) virt True s = Some (base6 t, s') \<and> t < 2 ^ 40
    \<and> linked (ram6 s') {} (indices virt) q t"
proof -
  let ?i4 = "index_at 39 virt" and ?i3 = "index_at 30 virt" and ?i2 = "index_at 21 virt"
  have c0: "chain_ok (ram6 s) (free_pages (bitmap6 s)) {} (?i4 # [?i3, ?i2]) q"
    using chain by (simp only: indices_def)
  obtain t1 s1 where r1: "next_table (base6 q) (drop_bit 39 virt AND 0x1FF) True s = Some (t1, s1)"
    using next_table_succeeds [OF inv q] room by fastforce
  obtain q1 where a1: "t1 = base6 q1" "q1 < 2 ^ 40" "frame6 (entry (ram6 s1) q ?i4) = q1"
    "present6 (entry (ram6 s1) q ?i4)" "\<not> huge (entry (ram6 s1) q ?i4)"
    "chain_ok (ram6 s1) (free_pages (bitmap6 s1)) {q} (?i3 # [?i2]) q1"
    "pmm_inv (bitmap6 s1)" "free_pages (bitmap6 s1) \<subseteq> free_pages (bitmap6 s)"
    "{q} \<inter> free_pages (bitmap6 s1) = {}"
    "card (free_pages (bitmap6 s)) \<le> Suc (card (free_pages (bitmap6 s1)))"
    using next_table_chain [OF r1 inv zero q c0] by auto
  have z1: "0 \<notin> free_pages (bitmap6 s1)" using a1(8) zero by blast
  obtain t2 s2 where r2: "next_table (base6 q1) (drop_bit 30 virt AND 0x1FF) True s1 = Some (t2, s2)"
    using next_table_succeeds [OF a1(7,2)] room a1(10) by fastforce
  obtain q2 where a2: "t2 = base6 q2" "q2 < 2 ^ 40" "frame6 (entry (ram6 s2) q1 ?i3) = q2"
    "present6 (entry (ram6 s2) q1 ?i3)" "\<not> huge (entry (ram6 s2) q1 ?i3)"
    "chain_ok (ram6 s2) (free_pages (bitmap6 s2)) {q1, q} (?i2 # []) q2"
    "pmm_inv (bitmap6 s2)" "free_pages (bitmap6 s2) \<subseteq> free_pages (bitmap6 s1)"
    "{q1, q} \<inter> free_pages (bitmap6 s2) = {}"
    "\<And>r j. r < 2 ^ 40 \<Longrightarrow> j < 512 \<Longrightarrow> r \<in> {q} \<Longrightarrow> entry (ram6 s2) r j = entry (ram6 s1) r j"
    "card (free_pages (bitmap6 s1)) \<le> Suc (card (free_pages (bitmap6 s2)))"
    using next_table_chain [OF r2 a1(7) z1 a1(2,6,9)] by auto
  have z2: "0 \<notin> free_pages (bitmap6 s2)" using a2(8) z1 by blast
  obtain t3 s3 where r3: "next_table (base6 q2) (drop_bit 21 virt AND 0x1FF) True s2 = Some (t3, s3)"
    using next_table_succeeds [OF a2(7,2)] room a1(10) a2(11) by fastforce
  obtain q3 where a3: "t3 = base6 q3" "q3 < 2 ^ 40" "frame6 (entry (ram6 s3) q2 ?i2) = q3"
    "present6 (entry (ram6 s3) q2 ?i2)" "\<not> huge (entry (ram6 s3) q2 ?i2)"
    "chain_ok (ram6 s3) (free_pages (bitmap6 s3)) {q2, q1, q} [] q3"
    "\<And>r j. r < 2 ^ 40 \<Longrightarrow> j < 512 \<Longrightarrow> r \<in> {q1, q} \<Longrightarrow> entry (ram6 s3) r j = entry (ram6 s2) r j"
    using next_table_chain [OF r3 a2(7) z2 a2(2,6,9)] by auto
  have e4: "entry (ram6 s3) q ?i4 = entry (ram6 s1) q ?i4"
    using a3(7) [OF q index_at_bound] a2(10) [OF q index_at_bound] by simp
  have e3: "entry (ram6 s3) q1 ?i3 = entry (ram6 s2) q1 ?i3"
    using a3(7) [OF a1(2) index_at_bound] by simp
  have nz: "base6 q1 \<noteq> 0" "base6 q2 \<noteq> 0"
    by (rule base6_nonzero [OF a1(2)], use a1(6) in simp, rule base6_nonzero [OF a2(2)], use a2(6) in simp)
  have "linked (ram6 s3) {} (indices virt) q q3"
    using c0 a1 a2(2-6) a3(2-6) e4 e3 by (simp add: indices_def insert_commute)
  moreover have "page_table (base6 q) virt True s = Some (base6 q3, s3)"
    using r1 r2 r3 nz a1(1) a2(1) a3(1) by (simp add: page_table_def Let_def)
  ultimately show ?thesis using a3(2) by blast
qed

text \<open>Walking without creation, and translating, along a linked chain.\<close>

lemma page_table_follows:
  assumes "linked (ram6 s) {} (indices virt) q t" and "q < 2 ^ 40"
  shows "page_table (base6 q) virt False s = Some (base6 t, s)"
proof -
  let ?q1 = "frame6 (entry (ram6 s) q (index_at 39 virt))"
  let ?q2 = "frame6 (entry (ram6 s) ?q1 (index_at 30 virt))"
  have "base6 ?q1 \<noteq> 0" "base6 ?q2 \<noteq> 0"
    by (rule base6_nonzero [OF frame6_bound], use assms(1) in \<open>simp add: indices_def\<close>)+
  with assms show ?thesis
    by (auto simp: page_table_def Let_def next_table_present indices_def)
qed

lemma get_phys_linked:
  assumes "linked (ram6 s) {} (indices virt) q t"
  shows "vmm_get_phys_addr64 (base6 q) virt s =
    (if present6 (entry (ram6 s) t (index_at 12 virt))
     then base6 (frame6 (entry (ram6 s) t (index_at 12 virt))) OR (virt AND 0xFFF) else 0)"
  using assms by (auto simp: vmm_get_phys_addr64_def Let_def slot_address addr_mask indices_def simp flip: entry_def)

lemma same_page64:
  assumes "drop_bit 12 v = drop_bit 12 (virt :: u64)"
  shows "indices v = indices virt" "index_at 12 v = index_at 12 virt"
proof -
  have "drop_bit k v = drop_bit k virt" if "12 \<le> k" for k
  proof -
    from that have "k = (k - 12) + 12" by simp
    then have "drop_bit k v = drop_bit (k - 12) (drop_bit 12 v)" "drop_bit k virt = drop_bit (k - 12) (drop_bit 12 virt)"
      by (metis drop_bit_drop_bit)+
    with assms show ?thesis by simp
  qed
  then show "indices v = indices virt" "index_at 12 v = index_at 12 virt"
    by (simp_all add: indices_def index_at_def)
qed

lemma frame6_or_flags:
  assumes "flags AND ADDR_MASK = 0"
  shows "base6 (frame6 ((phys AND ADDR_MASK) OR flags OR 1)) = phys AND ADDR_MASK"
proof -
  have "((phys AND ADDR_MASK) OR flags OR 1) AND ADDR_MASK = phys AND ADDR_MASK"
    using assms by (simp add: and.commute [of _ ADDR_MASK] bit.conj_disj_distrib and.assoc [symmetric])
  then show ?thesis by (simp only: addr_mask [symmetric])
qed

lemma or_1_present: "present6 (e OR 1)"
  by (metis and.commute and_one_eq bit_0 bit_or_iff bit_1_0 even_iff_mod_2_eq_zero odd_one) 

lemma map_page64:
  assumes "pmm_inv (bitmap6 s)" and "0 \<notin> free_pages (bitmap6 s)" and "q < 2 ^ 40"
    and "chain_ok (ram6 s) (free_pages (bitmap6 s)) {} (indices virt) q"
    and "3 \<le> card (free_pages (bitmap6 s))"
  shows "\<exists>t s1. page_table (base6 q) virt True s = Some (base6 t, s1) \<and> t < 2 ^ 40
    \<and> linked (ram6 s1) {} (indices virt) q t
    \<and> vmm_map_page64 (base6 q) virt phys flags s
      = Some (s1\<lparr>ram6 := write64 (ram6 s1) (slot t (index_at 12 virt)) ((phys AND ADDR_MASK) OR flags OR 1)\<rparr>)"
proof -
  from page_table_creates [OF assms] obtain t s1 where
    r: "page_table (base6 q) virt True s = Some (base6 t, s1)" "t < 2 ^ 40"
      "linked (ram6 s1) {} (indices virt) q t" by blast
  have "base6 t \<noteq> 0" using linked_end [OF r(3)] by (intro base6_nonzero [OF r(2)]) simp
  with r show ?thesis by (auto simp: vmm_map_page64_def slot_address)
qed

lemma linked_write:
  assumes "linked m {} (indices virt) q t" "q < 2 ^ 40" "t < 2 ^ 40" "i < 512"
  shows "linked (write64 m (slot t i) e) {} (indices virt) q t"
  by (rule linked_agree [OF assms(1,2)]) (use assms(3,4) in \<open>auto simp: indices_def entry_write\<close>)

text \<open>
  C12: In an address space whose tables along an address are different pages,
  none of them free or a large page, and with three free pages for missing
  tables, vmm_map_page succeeds and every address of the page then translates
  to the page frame mapped plus its offset; unmapping the page again makes
  the translation 0.
\<close>

theorem vmm_map_unmap_translate64:
  assumes "pmm_inv (bitmap6 s)" and "0 \<notin> free_pages (bitmap6 s)" and q: "q < 2 ^ 40"
    and "chain_ok (ram6 s) (free_pages (bitmap6 s)) {} (indices virt) q"
    and "3 \<le> card (free_pages (bitmap6 s))" and flg: "flags AND ADDR_MASK = 0"
  shows "\<exists>s' s''. vmm_map_page64 (base6 q) virt phys flags s = Some s'
    \<and> (\<forall>v. drop_bit 12 v = drop_bit 12 virt \<longrightarrow>
          vmm_get_phys_addr64 (base6 q) v s' = (phys AND ADDR_MASK) OR (v AND 0xFFF))
    \<and> vmm_unmap_page64 (base6 q) virt s' = Some s'' \<and> vmm_get_phys_addr64 (base6 q) virt s'' = 0"
proof -
  let ?i = "index_at 12 virt" and ?e = "(phys AND ADDR_MASK) OR flags OR 1"
  from map_page64 [OF assms(1-5), of phys flags] obtain t s1 where
    r: "t < 2 ^ 40" "linked (ram6 s1) {} (indices virt) q t"
      "vmm_map_page64 (base6 q) virt phys flags s = Some (s1\<lparr>ram6 := write64 (ram6 s1) (slot t ?i) ?e\<rparr>)" by blast
  let ?s' = "s1\<lparr>ram6 := write64 (ram6 s1) (slot t ?i) ?e\<rparr>"
  have l': "linked (ram6 ?s') {} (indices virt) q t"
    using linked_write [OF r(2) q r(1) index_at_bound] by simp
  have e': "entry (ram6 ?s') t ?i = ?e" using entry_write [OF r(1) index_at_bound r(1) index_at_bound] by simp
  have p: "present6 ?e" using or_1_present [of "(phys AND ADDR_MASK) OR flags"] by (simp add: or.assoc)
  have get: "vmm_get_phys_addr64 (base6 q) v ?s' = (phys AND ADDR_MASK) OR (v AND 0xFFF)"
    if "drop_bit 12 v = drop_bit 12 virt" for v
  proof -
    note sp = same_page64 [OF that]
    show ?thesis
      using get_phys_linked [OF l' [folded sp(1)]] e' p frame6_or_flags [OF flg, of phys]
      by (simp only: sp(2) if_True not_False_eq_True)
  qed
  let ?s'' = "?s'\<lparr>ram6 := write64 (ram6 ?s') (slot t ?i) 0\<rparr>"
  have "base6 t \<noteq> 0" using linked_end [OF r(2)] by (intro base6_nonzero [OF r(1)]) simp
  with page_table_follows [OF l' q] have u: "vmm_unmap_page64 (base6 q) virt ?s' = Some ?s''"
    by (simp add: vmm_unmap_page64_def slot_address)
  have l'': "linked (ram6 ?s'') {} (indices virt) q t"
    using linked_write [OF l' q r(1) index_at_bound] by simp
  have "entry (ram6 ?s'') t ?i = 0" using entry_write [OF r(1) index_at_bound r(1) index_at_bound] by simp
  with get_phys_linked [OF l''] have "vmm_get_phys_addr64 (base6 q) virt ?s'' = 0" by simp
  with r(3) get u show ?thesis by blast
qed

definition demo_vmm64 :: vmm64 where
  "demo_vmm64 = \<lparr>ram6 = (\<lambda>a. 0), bitmap6 = demo_bitmap, current_pd6 = base6 5, kernel_pd6 = base6 5, cr3_6 = base6 5\<rparr>"

lemma entry_zero: "entry (\<lambda>a. 0) q i = 0"
  by (simp add: entry_def read64_def eval_nat_numeral)

theorem vmm_map_unmap_translate64_witness:
  "\<exists>s'. vmm_map_page64 (base6 5) 0x7F0000801000 0x9000 7 demo_vmm64 = Some s'
     \<and> vmm_get_phys_addr64 (base6 5) 0x7F0000801234 s' = 0x9234"
proof -
  have f: "free_pages (bitmap6 demo_vmm64) = {6, 7, 8, 9, 10, 11}" "pmm_inv (bitmap6 demo_vmm64)"
    by (simp_all add: demo_vmm64_def demo_bitmap_free)
  have c: "chain_ok (ram6 demo_vmm64) (free_pages (bitmap6 demo_vmm64)) {} (indices 0x7F0000801000) 5"
    unfolding f(1) by (simp add: indices_def demo_vmm64_def entry_zero)
  have "drop_bit 12 (0x7F0000801234 :: u64) = drop_bit 12 0x7F0000801000" by simp
  moreover from vmm_map_unmap_translate64 [OF f(2) _ _ c, of 7 "0x9000"]
  obtain s' where "vmm_map_page64 (base6 5) 0x7F0000801000 0x9000 7 demo_vmm64 = Some s'"
      "\<forall>v. drop_bit 12 v = drop_bit 12 (0x7F0000801000 :: u64) \<longrightarrow>
          vmm_get_phys_addr64 (base6 5) v s' = (0x9000 AND ADDR_MASK) OR (v AND 0xFFF)"
    by (auto simp: f(1))
  ultimately have "vmm_get_phys_addr64 (base6 5) 0x7F0000801234 s' = (0x9000 AND ADDR_MASK) OR (0x7F0000801234 AND 0xFFF)"
    by blast
  with \<open>vmm_map_page64 (base6 5) 0x7F0000801000 0x9000 7 demo_vmm64 = Some s'\<close> show ?thesis by auto
qed

section \<open>The tables of the boot code\<close>

text \<open>
  Tables that map the first gigabyte with large pages: one entry in each of
  the two upper tables, and in the third the 2 MB page of every index.
\<close>

definition boot_mapped :: "64 memory \<Rightarrow> nat \<Rightarrow> nat \<Rightarrow> nat \<Rightarrow> bool" where
  "boot_mapped m q4 q3 q2 \<longleftrightarrow> q4 < 2 ^ 40 \<and> q3 < 2 ^ 40 \<and> q2 < 2 ^ 40 \<and> distinct [0, q4, q3, q2]
     \<and> (\<forall>i < 512. i \<noteq> 0 \<longrightarrow> entry m q4 i = 0 \<and> entry m q3 i = 0)
     \<and> entry m q4 0 = base6 q3 OR 7 \<and> entry m q3 0 = base6 q2 OR 7
     \<and> (\<forall>i < 512. entry m q2 i = push_bit 21 (of_nat i) OR 0x87)"

lemma large_bits:
  assumes "i < 512"
  shows "present6 (push_bit 21 (of_nat i) OR 0x87)" "huge (push_bit 21 (of_nat i) OR 0x87)"
    "frame6 (push_bit 21 (of_nat i) OR 0x87) = i * 512"
    "(push_bit 21 (of_nat i) OR 0x87) AND 0x000FFFFFFFE00000 = (push_bit 21 (of_nat i) :: u64)"
proof -
  let ?w = "of_nat i :: u64" and ?x = "push_bit 21 (of_nat i) OR 0x87 :: u64"
  have flags: "(0x87 :: u64) = mask 3 OR push_bit 7 1" by (simp add: mask_eq_decr_exp)
  have u: "unat ?w = i" by (rule unat_of_nat_less) (use assms in simp)
  have low: "n < 9" if "bit ?w n" for n
    using bit_below [of ?w 9 n] assms that unfolding u by simp
  have b: "bit ?x n \<longleftrightarrow> (21 \<le> n \<and> n < 64 \<and> bit ?w (n - 21)) \<or> n < 3 \<or> n = 7" for n
    unfolding flags bit_or_iff bit_mask_iff push_bit_of_1 bit_exp_iff by (auto simp: bit_push_bit_iff)
  have "bit ?x 0" "bit ?x 7" unfolding b by simp_all
  then show "present6 ?x" "huge ?x"
    using and_exp_eq_0_iff_not_bit [of ?x 7] and_exp_eq_0_iff_not_bit [of ?x 0] by simp_all
  have "drop_bit 12 ?x AND mask 40 = push_bit 9 ?w"
  proof (rule bit_word_eqI)
    fix n
    assume n: "n < LENGTH(64)"
    have "bit ?w (n - 9) \<Longrightarrow> n < 18" using low [of "n - 9"] by simp
    moreover have "12 + n - 21 = n - 9" by simp
    ultimately show "bit (drop_bit 12 ?x AND mask 40) n \<longleftrightarrow> bit (push_bit 9 ?w) n"
      using n unfolding bit_and_iff bit_drop_bit_eq comp_def b by (auto simp: bit_simps)
  qed
  also have "push_bit 9 ?w = of_nat (i * 512)" by (simp add: push_bit_eq_mult)
  finally have "frame6 ?x = unat (of_nat (i * 512) :: u64)" by (simp only: frame6_def)
  also have "\<dots> = i * 512" by (rule unat_of_nat_less) (use assms in simp)
  finally show "frame6 ?x = i * 512" .
  have m: "(0x000FFFFFFFE00000 :: u64) = push_bit 21 (mask 31)" by (simp add: mask_eq_decr_exp)
  show "?x AND 0x000FFFFFFFE00000 = push_bit 21 ?w"
  proof (rule bit_word_eqI)
    fix n
    assume n: "n < LENGTH(64)"
    have "bit ?w (n - 21) \<Longrightarrow> n < 30" using low [of "n - 21"] by simp
    then show "bit (?x AND 0x000FFFFFFFE00000) n \<longleftrightarrow> bit (push_bit 21 ?w) n"
      using n unfolding bit_and_iff b m by (auto simp: bit_simps)
  qed
qed

lemma index_at_nat: "index_at k virt = unat virt div 2 ^ k mod 512"
proof -
  have "drop_bit k virt AND 0x1FF = take_bit 9 (drop_bit k virt)"
    by (simp add: take_bit_eq_mask mask_eq_decr_exp)
  then have "index_at k virt = take_bit 9 (drop_bit k (unat virt))"
    unfolding index_at_def by (simp only: unsigned_take_bit_eq unat_drop_bit_eq)
  then show ?thesis by (simp add: take_bit_nat_def drop_bit_nat_def)
qed

lemma first_gigabyte:
  assumes "virt < 2 ^ 48"
  shows "index_at 39 virt = 0 \<and> index_at 30 virt = 0 \<longleftrightarrow> virt < 2 ^ 30"
proof -
  have v: "unat virt < 2 ^ 48" using assms by (simp add: word_less_nat_alt)
  have "unat virt div 2 ^ 39 mod 512 = 0 \<and> unat virt div 2 ^ 30 mod 512 = 0 \<longleftrightarrow> unat virt < 2 ^ 30"
  proof
    assume z: "unat virt div 2 ^ 39 mod 512 = 0 \<and> unat virt div 2 ^ 30 mod 512 = 0"
    have "unat virt div 2 ^ 39 < 512" using v by simp
    with z have "unat virt div 2 ^ 39 = 0" by simp
    then have "unat virt < 2 ^ 39" by (simp add: div_eq_0_iff)
    then have "unat virt div 2 ^ 30 < 512" by simp
    with z have "unat virt div 2 ^ 30 = 0" by simp
    then show "unat virt < 2 ^ 30" by (simp add: div_eq_0_iff)
  qed simp
  then show ?thesis by (simp add: index_at_nat word_less_nat_alt)
qed

lemma large_offset:
  assumes "virt < 2 ^ 30"
  shows "push_bit 21 (of_nat (index_at 21 virt)) OR (virt AND 0x1FFFFF) = virt"
proof -
  have v: "unat virt < 2 ^ 30" using assms by (simp add: word_less_nat_alt)
  have i: "of_nat (index_at 21 virt) = drop_bit 21 virt AND mask 9"
    by (simp add: index_at_def mask_eq_decr_exp)
  have m: "(0x1FFFFF :: u64) = mask 21" by (simp add: mask_eq_decr_exp)
  show ?thesis
  proof (rule bit_word_eqI)
    fix n
    assume n: "n < LENGTH(64)"
    have "bit virt n \<Longrightarrow> n < 30" by (rule bit_below [OF v])
    then show "bit (push_bit 21 (of_nat (index_at 21 virt)) OR (virt AND 0x1FFFFF)) n \<longleftrightarrow> bit virt n"
      using n unfolding i m by (auto simp: bit_simps)
  qed
qed

text \<open>Under such tables an address below 1 GB translates to itself, any other one not at all.\<close>

lemma boot_translation:
  assumes "boot_mapped (ram6 s) q4 q3 q2" and "virt < 2 ^ 48"
  shows "vmm_get_phys_addr64 (base6 q4) virt s = (if virt < 2 ^ 30 then virt else 0)"
proof -
  let ?e2 = "push_bit 21 (of_nat (index_at 21 virt)) OR 0x87 :: u64"
  have q: "q4 < 2 ^ 40" "q3 < 2 ^ 40" "q2 < 2 ^ 40" using assms(1) by (auto simp: boot_mapped_def)
  have e: "entry (ram6 s) q4 (index_at 39 virt) = (if index_at 39 virt = 0 then base6 q3 OR 7 else 0)"
    "entry (ram6 s) q3 (index_at 30 virt) = (if index_at 30 virt = 0 then base6 q2 OR 7 else 0)"
    "entry (ram6 s) q2 (index_at 21 virt) = ?e2"
    using assms(1) by (simp_all add: boot_mapped_def)
  have lf: "frame6 (base6 q3 OR 7) = q3" "frame6 (base6 q2 OR 7) = q2"
    "present6 (base6 q3 OR 7)" "present6 (base6 q2 OR 7)"
    using link_bits [OF q(2)] link_bits [OF q(3)] by simp_all
  note lb = large_bits [OF index_at_bound, of 21 virt]
  show ?thesis
  proof (cases "virt < 2 ^ 30")
    case True
    then have z: "index_at 39 virt = 0" "index_at 30 virt = 0" using first_gigabyte [OF assms(2)] by simp_all
    from True large_offset [OF True] show ?thesis
      using e lf lb unfolding vmm_get_phys_addr64_def Let_def slot_address addr_mask entry_def [symmetric] z
      by simp
  next
    case False
    then have "index_at 39 virt \<noteq> 0 \<or> index_at 30 virt \<noteq> 0" using first_gigabyte [OF assms(2)] by simp
    with False show ?thesis
      using e lf unfolding vmm_get_phys_addr64_def Let_def slot_address addr_mask entry_def [symmetric]
      by auto
  qed
qed

lemma bytes_le_add: "bytes_le (n + k) w = bytes_le n w @ bytes_le k (drop_bit (8 * n) w)"
  by (induction n arbitrary: w) (simp_all add: drop_bit_drop_bit add.commute)

lemma bytes_le_ucast: "8 * n \<le> LENGTH('a) \<Longrightarrow> LENGTH('a) \<le> LENGTH('b)
    \<Longrightarrow> bytes_le n (ucast v :: 'b::len word) = bytes_le n (v :: 'a::len word)"
proof (rule nth_equalityI)
  fix i
  assume l: "8 * n \<le> LENGTH('a)" "LENGTH('a) \<le> LENGTH('b)"
    and "i < length (bytes_le n (ucast v :: 'b word))"
  then have i: "i < n" by simp
  have nth: "i < n \<Longrightarrow> bytes_le n w ! i = ucast (drop_bit (8 * i) w)" for i n and w :: "'c::len word"
  proof (induction n arbitrary: i w)
    case (Suc n)
    then show ?case by (cases i) (simp_all add: drop_bit_drop_bit add.commute)
  qed simp
  show "bytes_le n (ucast v :: 'b word) ! i = bytes_le n v ! i"
    unfolding nth [OF i] using l i
    by (intro bit_word_eqI) (auto simp: bit_simps dest: bit_imp_le_length)
qed simp

lemma two_halves: "write32 (write32 m a v) (a + 4) 0 = write64 m a (ucast v)"
proof -
  have "drop_bit 32 (ucast v :: u64) = 0"
    by (rule bit_word_eqI) (auto simp: bit_simps dest: bit_imp_le_length)
  moreover have "bytes_le 4 (0 :: u64) = bytes_le 4 (0 :: u32)" by code_simp
  ultimately have b: "bytes_le 8 (ucast v :: u64) = bytes_le 4 v @ bytes_le 4 (0 :: u32)"
    using bytes_le_add [of 4 4 "ucast v :: u64"] bytes_le_ucast [where v = v and n = 4 and ?'b = 64] by simp
  show ?thesis unfolding write32_def write64_def b write_bytes_append by simp
qed

lemma ucast_u32_base: "q < 2 ^ 20 \<Longrightarrow> ucast (of_nat (q * 4096) :: u32) = base6 q"
  by (simp only: base6_def) (simp add: unsigned_of_nat take_bit_nat_eq_self del: of_nat_mult)

lemma ucast_or: "ucast (a OR b :: u32) = (ucast a OR ucast b :: u64)"
  by (rule bit_word_eqI) (auto simp: bit_simps)

lemma ucast_large: "i < 512 \<Longrightarrow> ucast (push_bit 21 (of_nat i) :: u32) = (push_bit 21 (of_nat i) :: u64)"
proof -
  assume i: "i < 512"
  have p: "push_bit 21 (of_nat i) = (of_nat (i * 2 ^ 21) :: u32)" "push_bit 21 (of_nat i) = (of_nat (i * 2 ^ 21) :: u64)"
    by (simp_all add: push_bit_eq_mult)
  show ?thesis unfolding p using i by (simp add: unsigned_of_nat take_bit_nat_eq_self del: of_nat_mult)
qed

lemma entry_fold:
  assumes "q < 2 ^ 40" "n \<le> 512" "r < 2 ^ 40" "j < 512"
  shows "entry (fold (\<lambda>i m. write64 m (slot q i) (v i)) [0 ..< n] m) r j
    = (if q = r \<and> j < n then v j else entry m r j)"
  using assms(2)
proof (induction n)
  case 0
  then show ?case by simp
next
  case (Suc n)
  then have n: "n < 512" by simp
  with Suc show ?case by (simp add: entry_write [OF assms(1) n assms(3,4)]) auto
qed

lemma setup_page_tables_mapped:
  assumes "q4 < 2 ^ 20" "q3 < 2 ^ 20" "q2 < 2 ^ 20" and d: "distinct [0, q4, q3, q2]"
    and "\<forall>i < 512. entry m q4 i = 0 \<and> entry m q3 i = 0"
  shows "boot_mapped (setup_page_tables (of_nat (q4 * 4096)) (of_nat (q3 * 4096)) (of_nat (q2 * 4096)) m) q4 q3 q2"
proof -
  have q: "q4 < 2 ^ 40" "q3 < 2 ^ 40" "q2 < 2 ^ 40" using assms(1-3) by simp_all
  let ?m = "write64 (write64 m (slot q4 0) (base6 q3 OR 7)) (slot q3 0) (base6 q2 OR 7)"
  have put: "fold (\<lambda>i m. write64 m (base6 q2 + 8 * of_nat i) (ucast (push_bit 21 (of_nat i) OR 0x87 :: u32))) [0 ..< 512] m'
      = fold (\<lambda>i m. write64 m (slot q2 i) (push_bit 21 (of_nat i) OR 0x87)) [0 ..< 512] m'" for m'
    by (rule fold_cong [OF refl refl]) (simp add: ucast_or ucast_large base6_def slot_def)
  have e: "setup_page_tables (of_nat (q4 * 4096)) (of_nat (q3 * 4096)) (of_nat (q2 * 4096)) m
      = fold (\<lambda>i m. write64 m (slot q2 i) (push_bit 21 (of_nat i) OR 0x87)) [0 ..< 512] ?m"
    using put [of ?m] unfolding setup_page_tables_def Let_def two_halves ucast_or
    by (simp add: ucast_u32_base [OF assms(1)] ucast_u32_base [OF assms(2)] ucast_u32_base [OF assms(3)]
        ucast_or slot_def base6_def del: of_nat_mult)
  show ?thesis
    unfolding boot_mapped_def e using q d assms(5)
    by (auto simp: entry_fold entry_write)
qed

lemma boot_mapped_write:
  assumes "boot_mapped m q4 q3 q2" "p < 2 ^ 40" "i < 512" "p \<notin> {q4, q3, q2}"
  shows "boot_mapped (write64 m (slot p i) v) q4 q3 q2"
  using assms by (auto simp: boot_mapped_def entry_write)

lemma boot_page_table:
  assumes b: "boot_mapped (ram6 s) q4 q3 q2" and v: "virt < 2 ^ 30"
  shows "page_table (base6 q4) virt c s = Some (base6 (index_at 21 virt * 512), s)"
proof -
  have v48: "virt < 2 ^ 48" using v by (rule less_trans) simp
  have z: "index_at 39 virt = 0" "index_at 30 virt = 0" using first_gigabyte [OF v48] v by simp_all
  have q: "q4 < 2 ^ 40" "q3 < 2 ^ 40" "q2 < 2 ^ 40" "q3 \<noteq> 0" "q2 \<noteq> 0" using b by (auto simp: boot_mapped_def)
  have e: "entry (ram6 s) q4 0 = base6 q3 OR 7" "entry (ram6 s) q3 0 = base6 q2 OR 7"
    "entry (ram6 s) q2 (index_at 21 virt) = push_bit 21 (of_nat (index_at 21 virt)) OR 0x87"
    using b by (simp_all add: boot_mapped_def)
  note l3 = link_bits [OF q(2)] and l2 = link_bits [OF q(3)] and lb = large_bits [OF index_at_bound, of 21 virt]
  have n1: "next_table (base6 q4) (drop_bit 39 virt AND 0x1FF) c s = Some (base6 q3, s)"
    using next_table_present [of s q4 39 virt c] l3 unfolding z e by simp
  have n2: "next_table (base6 q3) (drop_bit 30 virt AND 0x1FF) c s = Some (base6 q2, s)"
    using next_table_present [of s q3 30 virt c] l2 unfolding z e by simp
  have n3: "next_table (base6 q2) (drop_bit 21 virt AND 0x1FF) c s = Some (base6 (index_at 21 virt * 512), s)"
    using next_table_present [of s q2 21 virt c] lb unfolding e by simp
  show ?thesis
    using n1 n2 n3 base6_nonzero [OF q(2,4)] base6_nonzero [OF q(3,5)] by (simp add: page_table_def Let_def)
qed

text \<open>
  C29: The tables boot.s builds translate every address below 1 GB to itself
  and no other one. next_table does not know large pages: vmm_map_page of an
  address below 1 GB takes the 2 MB page itself for a page table, so the new
  entry is written into that memory, the translation stays the identity, and
  the call returns as if it had worked; in the first 2 MB it does nothing.
\<close>

theorem boot_map_page_corrupts:
  assumes "q4 < 2 ^ 20" "q3 < 2 ^ 20" "q2 < 2 ^ 20" "distinct [0, q4, q3, q2]"
    and "\<forall>i < 512. entry m q4 i = 0 \<and> entry m q3 i = 0"
    and ram: "ram6 s = setup_page_tables (of_nat (q4 * 4096)) (of_nat (q3 * 4096)) (of_nat (q2 * 4096)) m"
    and virt: "virt < 2 ^ 30" and other: "index_at 21 virt * 512 \<notin> {q4, q3, q2}"
  shows "(\<forall>v. v < 2 ^ 48 \<longrightarrow> vmm_get_phys_addr64 (base6 q4) v s = (if v < 2 ^ 30 then v else 0))
    \<and> vmm_map_page64 (base6 q4) virt phys flags s
      = (if index_at 21 virt = 0 then Some s
         else Some (s\<lparr>ram6 := write64 (ram6 s) (slot (index_at 21 virt * 512) (index_at 12 virt))
                ((phys AND ADDR_MASK) OR flags OR 1)\<rparr>))
    \<and> (\<forall>s' v. vmm_map_page64 (base6 q4) virt phys flags s = Some s' \<longrightarrow> v < 2 ^ 48 \<longrightarrow>
          vmm_get_phys_addr64 (base6 q4) v s' = vmm_get_phys_addr64 (base6 q4) v s)"
proof -
  let ?p = "index_at 21 virt * 512"
  have b: "boot_mapped (ram6 s) q4 q3 q2" unfolding ram by (rule setup_page_tables_mapped [OF assms(1-5)])
  have p: "?p < 2 ^ 40" by (rule less_trans [of _ "512 * 512"]) simp_all
  have null: "base6 ?p = 0 \<longleftrightarrow> index_at 21 virt = 0" using unat_base6 [OF p] by (auto simp: base6_def)
  have m: "vmm_map_page64 (base6 q4) virt phys flags s
      = (if index_at 21 virt = 0 then Some s
         else Some (s\<lparr>ram6 := write64 (ram6 s) (slot ?p (index_at 12 virt)) ((phys AND ADDR_MASK) OR flags OR 1)\<rparr>))"
    using boot_page_table [OF b virt, of True] null by (simp add: vmm_map_page64_def slot_address)
  have "boot_mapped (write64 (ram6 s) (slot ?p (index_at 12 virt)) e) q4 q3 q2" for e
    by (rule boot_mapped_write [OF b p index_at_bound other])
  then have b': "boot_mapped (ram6 (s\<lparr>ram6 := write64 (ram6 s) (slot ?p (index_at 12 virt)) e\<rparr>)) q4 q3 q2" for e
    by simp
  note t = boot_translation [OF b] and t' = boot_translation [OF b']
  show ?thesis
  proof (cases "index_at 21 virt = 0")
    case True
    with m t show ?thesis by auto
  next
    case False
    with m t t' show ?thesis by auto
  qed
qed

theorem boot_map_page_corrupts_witness:
  "let s = demo_vmm64\<lparr>ram6 := setup_page_tables (of_nat (0x110 * 4096)) (of_nat (0x111 * 4096)) (of_nat (0x112 * 4096)) (\<lambda>a. 0)\<rparr>
   in vmm_map_page64 (base6 0x110) 0x400000 0x900000 7 s
        = Some (s\<lparr>ram6 := write64 (ram6 s) 0x400000 0x900007\<rparr>)
      \<and> vmm_get_phys_addr64 (base6 0x110) 0x400000 s = 0x400000"
proof -
  let ?s = "demo_vmm64\<lparr>ram6 := setup_page_tables (of_nat (0x110 * 4096)) (of_nat (0x111 * 4096)) (of_nat (0x112 * 4096)) (\<lambda>a. 0)\<rparr>"
  have i: "index_at 21 0x400000 = 2" "index_at 12 0x400000 = 0" by code_simp+
  have r: "ram6 ?s = setup_page_tables (of_nat (0x110 * 4096)) (of_nat (0x111 * 4096)) (of_nat (0x112 * 4096)) (\<lambda>a. 0)"
    by simp
  have n: "index_at 21 0x400000 * 512 \<notin> {0x110, 0x111, 0x112}" unfolding i by simp
  have sl: "slot (index_at 21 0x400000 * 512) (index_at 12 0x400000) = 0x400000" unfolding i by (simp add: slot_def)
  have z: "\<forall>i < 512. entry (\<lambda>a. 0) 0x110 i = 0 \<and> entry (\<lambda>a. 0) 0x111 i = 0" by (simp add: entry_zero)
  note c = boot_map_page_corrupts [OF _ _ _ _ z r _ n, where phys = "0x900000" and flags = 7, unfolded sl]
  show ?thesis unfolding Let_def using c by (simp add: i)
qed

end
