(* ===== verification/Timer.thy ===== *)
theory Timer
  imports PortIO Descriptors
begin

text \<open>
  The interrupt controller and the timer, kernel/core/pic.c and
  kernel/core/pit.c, with the port sequences they send. The 8259 pair and the
  8254 counter are specified by what their manuals say a byte written to
  them does; pic_remap is shown to make every unmasked interrupt line arrive
  at a vector that the interrupt descriptor table has a gate for.
\<close>

section \<open>pic.c\<close>

record timer =
  system_tick :: u32
  seconds :: u32

definition timer_static :: timer where
  "timer_static = \<lparr>system_tick = 0, seconds = 0\<rparr>"

definition pic_remap :: "'d hardware \<Rightarrow> 'd \<Rightarrow> 'd" where
  "pic_remap hw d =
     (let d = out8 hw 0x20 0x11 d;
          d = out8 hw 0xA0 0x11 d;
          d = out8 hw 0x21 0x20 d;
          d = out8 hw 0xA1 0x28 d;
          d = out8 hw 0x21 0x04 d;
          d = out8 hw 0xA1 0x02 d;
          d = out8 hw 0x21 0x01 d;
          d = out8 hw 0xA1 0x01 d;
          d = out8 hw 0x21 0xFC d
      in out8 hw 0xA1 0xFF d)"

definition timer_handler :: "'d hardware \<Rightarrow> timer \<times> 'd \<Rightarrow> timer \<times> 'd" where
  "timer_handler hw = (\<lambda>(t, d).
     let t = t\<lparr>system_tick := system_tick t + 1\<rparr>;
         t = (if system_tick t \<ge> 100 then t\<lparr>system_tick := 0, seconds := seconds t + 1\<rparr> else t)
     in (t, out8 hw 0x20 0x20 d))"

section \<open>pit.c\<close>

definition PIT_CHANNEL0 :: u16 where "PIT_CHANNEL0 = 0x40"
definition PIT_COMMAND :: u16 where "PIT_COMMAND = 0x43"
definition PIT_FREQUENCY :: u32 where "PIT_FREQUENCY = 1193182"

definition pit_set_frequency :: "'d hardware \<Rightarrow> u32 \<Rightarrow> 'd \<Rightarrow> 'd" where
  "pit_set_frequency hw frequency d =
     (let divisor = ucast (PIT_FREQUENCY div frequency) :: u16;
          d = out8 hw PIT_COMMAND 0x36 d;
          d = out8 hw PIT_CHANNEL0 (ucast (divisor AND 0xFF)) d
      in out8 hw PIT_CHANNEL0 (ucast (drop_bit 8 divisor)) d)"

definition pit_init :: "'d hardware \<Rightarrow> 'd \<Rightarrow> 'd" where
  "pit_init hw d = pit_set_frequency hw 100 d"

section \<open>What the controllers make of the bytes\<close>

text \<open>
  One 8259: a byte to the even port with bit 4 set starts an initialisation,
  whose next three bytes to the odd port are the vector base, the cascade
  wiring and the mode; later bytes to the odd port are the mask of disabled
  lines. The counter waiting says how many initialisation words are to come.
\<close>

record pic_chip =
  vector_base :: u8
  disabled :: u8
  waiting :: nat

definition chip_write :: "bool \<Rightarrow> u8 \<Rightarrow> pic_chip \<Rightarrow> pic_chip" where
  "chip_write odd_port b c =
     (if \<not> odd_port then (if bit b 4 then c\<lparr>disabled := 0, waiting := 3\<rparr> else c)
      else if waiting c = 3 then c\<lparr>vector_base := b AND 0xF8, waiting := 2\<rparr>
      else if waiting c > 0 then c\<lparr>waiting := waiting c - 1\<rparr>
      else c\<lparr>disabled := b\<rparr>)"

text \<open>The two chips behind their four ports.\<close>

fun pics_write :: "port_event \<Rightarrow> pic_chip \<times> pic_chip \<Rightarrow> pic_chip \<times> pic_chip" where
  "pics_write (Out8 p b) (m, s) =
     (if p = 0x20 then (chip_write False b m, s) else if p = 0x21 then (chip_write True b m, s)
      else if p = 0xA0 then (m, chip_write False b s) else if p = 0xA1 then (m, chip_write True b s)
      else (m, s))"
| "pics_write (Out16 p w) ms = ms"

text \<open>The vector at which an interrupt line is delivered, if it is enabled.\<close>

definition irq_vector :: "pic_chip \<times> pic_chip \<Rightarrow> nat \<Rightarrow> nat option" where
  "irq_vector ms n =
     (if n < 8 then (if bit (disabled (fst ms)) n then None else Some (unat (vector_base (fst ms)) + n))
      else if n < 16 \<and> \<not> bit (disabled (fst ms)) 2 \<and> \<not> bit (disabled (snd ms)) (n - 8)
      then Some (unat (vector_base (snd ms)) + (n - 8)) else None)"

text \<open>A device that sends on what is written to it: the ghost events of a write are appended.\<close>

definition logs :: "'d hardware \<Rightarrow> ('d \<Rightarrow> port_event list) \<Rightarrow> bool" where
  "logs hw sent \<longleftrightarrow> (\<forall>p b d. sent (out8 hw p b d) = sent d @ [Out8 p b])"

lemma irq_vector_remapped:
  assumes "logs hw sent"
  shows "sent (pic_remap hw d) = sent d @
    [Out8 0x20 0x11, Out8 0xA0 0x11, Out8 0x21 0x20, Out8 0xA1 0x28, Out8 0x21 0x04, Out8 0xA1 0x02,
     Out8 0x21 0x01, Out8 0xA1 0x01, Out8 0x21 0xFC, Out8 0xA1 0xFF]"
  using assms by (simp add: logs_def pic_remap_def Let_def)

text \<open>
  C16: After pic_remap, whatever state the controllers were in, the only lines
  enabled are the timer (0) and the keyboard (1), and each is delivered at a
  vector for which idt_install, on either architecture, has installed the
  gate to its own stub: no hardware interrupt can hit an empty gate.
\<close>

theorem enabled_irqs_have_gates:
  assumes "logs hw sent" and "sent d = []" and "length (idt s) = 256" and "length (idt6 s') = 256"
    and "ms' = fold pics_write (sent (pic_remap hw d)) ms"
  shows "irq_vector ms' n = (if n < 2 then Some (32 + n) else None)
    \<and> (case irq_vector ms' n of None \<Rightarrow> True
       | Some v \<Rightarrow> gate32 (idt (idt_install32 ia hi hk ht s) ! v) = Some (if n = 0 then hi else hk, 0x08, 0, interrupt_gate)
           \<and> gate64 (idt6 (idt_install64 ia' hi' hk' ht' s') ! v) = Some (if n = 0 then hi' else hk', 0x08, 0, interrupt_gate))"
proof -
  have ms: "ms' = (\<lparr>vector_base = 0x20, disabled = 0xFC, waiting = 0\<rparr>, \<lparr>vector_base = 0x28, disabled = 0xFF, waiting = 0\<rparr>)"
    unfolding assms(5) irq_vector_remapped [OF assms(1)] assms(2)
    by (cases ms) (simp add: chip_write_def)
  have ones: "(0xFF :: u8) = mask 8" by (simp add: mask_eq_decr_exp)
  have low: "bit (0xFC :: u8) n \<longleftrightarrow> 2 \<le> n" if "n < 8"
  proof -
    from that have "n \<in> {0, 1, 2, 3, 4, 5, 6, 7}" by auto
    then show ?thesis by auto
  qed
  have v: "irq_vector ms' n = (if n < 2 then Some (32 + n) else None)"
    using low unfolding ms irq_vector_def ones by (auto simp: bit_mask_iff)
  show ?thesis
  proof (cases "n < 2")
    case False
    with v show ?thesis by simp
  next
    case True
    then have "n = 0 \<or> n = 1" by auto
    with v idt_gates_ok [OF assms(3,4), of "32 + n" ia hi hk ht ia' hi' hk' ht'] show ?thesis by auto
  qed
qed

theorem enabled_irqs_have_gates_witness:
  "irq_vector (fold pics_write (pic_remap (log_device (\<lambda>p. 0)) [])
      (\<lparr>vector_base = 8, disabled = 0, waiting = 0\<rparr>, \<lparr>vector_base = 0x70, disabled = 0, waiting = 0\<rparr>)) 1 = Some 33"
proof -
  have l: "logs (log_device (\<lambda>p. 0)) (\<lambda>d. d)" by (simp add: logs_def)
  from enabled_irqs_have_gates [OF l refl _ _ refl,
      where s = "\<lparr>idt = replicate 256 \<lparr>idt_base_low = 0, idt_sel = 0, always0 = 0, idt_flags = 0, idt_base_hi = 0\<rparr>,
        idtp = (0, 0), idtr = None\<rparr>"
      and s' = "\<lparr>idt6 = replicate 256 \<lparr>offset_low = 0, selector = 0, ist = 0, flags64 = 0, offset_middle = 0,
        offset_high = 0, idt_zero = 0\<rparr>, idt_pointer6 = (0, 0), idtr6 = None\<rparr>" and n = 1]
  show ?thesis by auto
qed

section \<open>Ticks\<close>

text \<open>
  From the static initial state, after n timer interrupts the two counters
  hold n modulo 100 and n div 100 (modulo 2^32), and each interrupt was
  acknowledged by exactly one end-of-interrupt byte.
\<close>

theorem timer_counts:
  assumes "logs hw sent" and "((timer_handler hw) ^^ n) (timer_static, d) = (t, d')"
  shows "unat (system_tick t) = n mod 100 \<and> seconds t = of_nat (n div 100)
    \<and> sent d' = sent d @ replicate n (Out8 0x20 0x20)"
  using assms(2)
proof (induction n arbitrary: t d')
  case 0
  then show ?case by (auto simp: timer_static_def)
next
  case (Suc n)
  obtain t1 d1 where s: "((timer_handler hw) ^^ n) (timer_static, d) = (t1, d1)" by fastforce
  note IH = Suc.IH [OF s]
  have step: "timer_handler hw (t1, d1) = (t, d')" using Suc.prems s by simp
  have lt: "n mod 100 < 100" by simp
  have w: "system_tick t1 = of_nat (n mod 100)" by (rule word_of_unat) (use IH in blast)
  have u: "unat (system_tick t1 + 1) = n mod 100 + 1"
  proof -
    have "system_tick t1 + 1 = of_nat (n mod 100 + 1)" unfolding w by simp
    moreover have "unat (of_nat (n mod 100 + 1) :: u32) = n mod 100 + 1"
      by (rule unat_of_nat_less) (use lt in simp)
    ultimately show ?thesis by (simp only:)
  qed
  have sent: "sent d' = sent d @ replicate (Suc n) (Out8 0x20 0x20)"
    using step IH assms(1) by (auto simp: timer_handler_def Let_def logs_def replicate_append_same)
  have ge: "100 \<le> system_tick t1 + 1 \<longleftrightarrow> n mod 100 = 99"
    using u lt by (auto simp: word_le_nat_alt)
  show ?case
  proof (cases "n mod 100 = 99")
    case True
    then have "Suc n mod 100 = 0" "Suc n div 100 = Suc (n div 100)" by (simp_all add: mod_Suc div_Suc)
    with True ge step IH sent show ?thesis by (auto simp: timer_handler_def Let_def)
  next
    case False
    then have m: "Suc n mod 100 = Suc (n mod 100)" "Suc n div 100 = n div 100"
      using lt by (auto simp: mod_Suc div_Suc)
    from False ge step have t: "t = t1\<lparr>system_tick := system_tick t1 + 1\<rparr>"
      by (auto simp: timer_handler_def Let_def)
    have "unat (system_tick t) = Suc n mod 100" unfolding t m(1) using u by simp
    moreover have "seconds t = of_nat (Suc n div 100)" unfolding t m(2) using IH by simp
    ultimately show ?thesis using sent by blast
  qed
qed

theorem timer_counts_witness:
  "seconds (fst (((timer_handler (log_device (\<lambda>p. 0))) ^^ 250) (timer_static, []))) = 2"
proof -
  obtain t d' where r: "((timer_handler (log_device (\<lambda>p. 0))) ^^ 250) (timer_static, []) = (t, d')" by fastforce
  have l: "logs (log_device (\<lambda>p. 0)) (\<lambda>d. d)" by (simp add: logs_def)
  from timer_counts [OF l r] show ?thesis unfolding r by simp
qed

text \<open>
  The counter 0 of the 8254 in mode 3, low byte first: a command byte and the
  two bytes of the divisor, which gives the rate closest below the one asked
  for by rounding the divisor down.
\<close>

lemma pit_init_programs:
  assumes "logs hw sent"
  shows "sent (pit_init hw d) = sent d @ [Out8 0x43 0x36, Out8 0x40 0x9B, Out8 0x40 0x2E]"
  using assms by (simp add: logs_def pit_init_def pit_set_frequency_def Let_def PIT_COMMAND_def
      PIT_CHANNEL0_def PIT_FREQUENCY_def)

end
