(* ===== verification/Pata.thy ===== *)
theory Pata
  imports PortIO
begin

text \<open>
  The ATA disk driver, kernel/core/pata.c: polled transfers of sectors through
  the ports of the primary controller. The drive is specified by the protocol
  of the ATA standard for the two commands the driver sends, with arbitrary
  busy times; the driver is proved against every device that keeps to it.
\<close>

section \<open>The driver\<close>

definition ATA_PRIMARY_DATA :: u16 where "ATA_PRIMARY_DATA = 0x1F0"
definition ATA_PRIMARY_SEC_COUNT :: u16 where "ATA_PRIMARY_SEC_COUNT = 0x1F2"
definition ATA_PRIMARY_LBA_LOW :: u16 where "ATA_PRIMARY_LBA_LOW = 0x1F3"
definition ATA_PRIMARY_LBA_MID :: u16 where "ATA_PRIMARY_LBA_MID = 0x1F4"
definition ATA_PRIMARY_LBA_HIGH :: u16 where "ATA_PRIMARY_LBA_HIGH = 0x1F5"
definition ATA_PRIMARY_DEVICE :: u16 where "ATA_PRIMARY_DEVICE = 0x1F6"
definition ATA_PRIMARY_COMMAND :: u16 where "ATA_PRIMARY_COMMAND = 0x1F7"
definition ATA_PRIMARY_STATUS :: u16 where "ATA_PRIMARY_STATUS = 0x1F7"
definition ATA_CMD_READ_PIO :: u8 where "ATA_CMD_READ_PIO = 0x20"
definition ATA_CMD_WRITE_PIO :: u8 where "ATA_CMD_WRITE_PIO = 0x30"
definition ATA_STATUS_BSY :: u8 where "ATA_STATUS_BSY = 0x80"
definition ATA_STATUS_DRQ :: u8 where "ATA_STATUS_DRQ = 0x08"

lemmas ata_ports = ATA_PRIMARY_DATA_def ATA_PRIMARY_SEC_COUNT_def ATA_PRIMARY_LBA_LOW_def
  ATA_PRIMARY_LBA_MID_def ATA_PRIMARY_LBA_HIGH_def ATA_PRIMARY_DEVICE_def ATA_PRIMARY_COMMAND_def
  ATA_PRIMARY_STATUS_def

text \<open>pata_init has an empty body.\<close>

definition pata_init :: "'d \<Rightarrow> 'd" where
  "pata_init d = d"

partial_function (option) pata_wait_bsy :: "'d hardware \<Rightarrow> 'd \<Rightarrow> 'd option" where
  "pata_wait_bsy hw d =
     (case in8 hw ATA_PRIMARY_STATUS d of (status, d) \<Rightarrow>
        if status AND ATA_STATUS_BSY \<noteq> 0 then pata_wait_bsy hw d else Some d)"

partial_function (option) pata_wait_drq :: "'d hardware \<Rightarrow> 'd \<Rightarrow> 'd option" where
  "pata_wait_drq hw d =
     (case in8 hw ATA_PRIMARY_STATUS d of (status, d) \<Rightarrow>
        if status AND ATA_STATUS_DRQ = 0 then pata_wait_drq hw d else Some d)"

text \<open>The six register writes that start a command.\<close>

definition pata_command :: "'d hardware \<Rightarrow> u8 \<Rightarrow> u32 \<Rightarrow> u8 \<Rightarrow> 'd \<Rightarrow> 'd" where
  "pata_command hw cmd lba sector_count d =
     (let d = out8 hw ATA_PRIMARY_DEVICE (ucast (0xE0 OR (drop_bit 24 lba AND 0x0F))) d;
          d = out8 hw ATA_PRIMARY_SEC_COUNT sector_count d;
          d = out8 hw ATA_PRIMARY_LBA_LOW (ucast lba) d;
          d = out8 hw ATA_PRIMARY_LBA_MID (ucast (drop_bit 8 lba)) d;
          d = out8 hw ATA_PRIMARY_LBA_HIGH (ucast (drop_bit 16 lba)) d
      in out8 hw ATA_PRIMARY_COMMAND cmd d)"

definition read_word :: "'d hardware \<Rightarrow> 'a::len word \<Rightarrow> 'a memory \<times> 'd \<Rightarrow> 'a memory \<times> 'd" where
  "read_word hw a = (\<lambda>(m, d).
     let (data, d) = in16 hw ATA_PRIMARY_DATA d;
         m = m(a := ucast (data AND 0xFF));
         m = m(a + 1 := ucast (drop_bit 8 data))
     in (m, d))"

definition read_sector ::
  "'d hardware \<Rightarrow> 'a::len word \<Rightarrow> nat \<Rightarrow> 'a memory \<times> 'd \<Rightarrow> ('a memory \<times> 'd) option" where
  "read_sector hw buf s = (\<lambda>(m, d).
     Option.bind (pata_wait_bsy hw d) (\<lambda>d.
       Option.bind (pata_wait_drq hw d) (\<lambda>d.
         Some (fold (\<lambda>i. read_word hw (buf + of_nat (s * 512 + i * 2))) [0..<256] (m, d)))))"

definition pata_read_sectors ::
  "'d hardware \<Rightarrow> u32 \<Rightarrow> u8 \<Rightarrow> 'a::len word \<Rightarrow> 'a memory \<times> 'd \<Rightarrow> (int \<times> 'a memory \<times> 'd) option" where
  "pata_read_sectors hw lba sector_count buf = (\<lambda>(m, d).
     Option.bind (pata_wait_bsy hw d) (\<lambda>d.
       Option.bind (for_each (read_sector hw buf) [0..<unat sector_count]
                      (m, pata_command hw ATA_CMD_READ_PIO lba sector_count d))
         (\<lambda>s. Some (0, s))))"

definition write_word :: "'d hardware \<Rightarrow> 'a::len memory \<Rightarrow> 'a word \<Rightarrow> 'd \<Rightarrow> 'd" where
  "write_word hw m a d = out16 hw ATA_PRIMARY_DATA (ucast (m a) OR push_bit 8 (ucast (m (a + 1)))) d"

definition write_sector ::
  "'d hardware \<Rightarrow> 'a::len memory \<Rightarrow> 'a word \<Rightarrow> nat \<Rightarrow> 'd \<Rightarrow> 'd option" where
  "write_sector hw m buf s d =
     Option.bind (pata_wait_bsy hw d) (\<lambda>d.
       Option.bind (pata_wait_drq hw d) (\<lambda>d.
         Some (fold (\<lambda>i. write_word hw m (buf + of_nat (s * 512 + i * 2))) [0..<256] d)))"

definition pata_write_sectors ::
  "'d hardware \<Rightarrow> u32 \<Rightarrow> u8 \<Rightarrow> 'a::len word \<Rightarrow> 'a memory \<times> 'd \<Rightarrow> (int \<times> 'a memory \<times> 'd) option" where
  "pata_write_sectors hw lba sector_count buf = (\<lambda>(m, d).
     Option.bind (pata_wait_bsy hw d) (\<lambda>d.
       Option.bind (for_each (write_sector hw m buf) [0..<unat sector_count]
                      (pata_command hw ATA_CMD_WRITE_PIO lba sector_count d)) (\<lambda>d.
         Option.bind (pata_wait_bsy hw d) (\<lambda>d. Some (0, m, d)))))"

section \<open>The drive\<close>

text \<open>
  The state of a drive as the ATA standard describes it: the sectors, the task
  file registers, the transfer in progress (the sector, the sectors left, the
  words of the current sector still to send or already received), and the
  number of status reads for which it reports busy. How long each busy period
  lasts is up to the drive: lags lists the periods to come.
\<close>

datatype transfer = Idle | Aborted | Sending nat nat "u16 list" | Receiving nat nat "u16 list"

record ata =
  disk :: "nat \<Rightarrow> u8 list"
  capacity :: nat
  device_reg :: u8
  count_reg :: u8
  low_reg :: u8
  mid_reg :: u8
  high_reg :: u8
  xfer :: transfer
  busy :: nat
  lags :: "nat \<Rightarrow> nat"

fun words_of :: "u8 list \<Rightarrow> u16 list" where
  "words_of (a # b # bs) = word_le [a, b] # words_of bs"
| "words_of bs = []"

definition bytes_of :: "u16 list \<Rightarrow> u8 list" where
  "bytes_of ws = concat (map (bytes_le 2) ws)"

definition go_busy :: "ata \<Rightarrow> ata" where
  "go_busy a = a\<lparr>busy := lags a 0, lags := lags a \<circ> Suc\<rparr>"

definition send_sector :: "nat \<Rightarrow> nat \<Rightarrow> ata \<Rightarrow> ata" where
  "send_sector L r a =
     (if r = 0 then a\<lparr>xfer := Idle\<rparr>
      else if L < capacity a then go_busy (a\<lparr>xfer := Sending L r (words_of (disk a L))\<rparr>)
      else go_busy (a\<lparr>xfer := Aborted\<rparr>))"

definition receive_sector :: "nat \<Rightarrow> nat \<Rightarrow> ata \<Rightarrow> ata" where
  "receive_sector L r a =
     (if r = 0 then go_busy (a\<lparr>xfer := Idle\<rparr>)
      else if L < capacity a then go_busy (a\<lparr>xfer := Receiving L r []\<rparr>)
      else go_busy (a\<lparr>xfer := Aborted\<rparr>))"

text \<open>The 28-bit address and the number of sectors, for which 0 means 256.\<close>

definition lba_of :: "ata \<Rightarrow> nat" where
  "lba_of a = unat (low_reg a) + 2 ^ 8 * unat (mid_reg a) + 2 ^ 16 * unat (high_reg a)
     + 2 ^ 24 * (unat (device_reg a) mod 16)"

definition sectors_of :: "ata \<Rightarrow> nat" where
  "sectors_of a = (if count_reg a = 0 then 256 else unat (count_reg a))"

text \<open>
  Commands other than the two, and the addressing modes other than LBA on the
  first drive, are not needed; the drive rejects them here.
\<close>

definition ata_command :: "u8 \<Rightarrow> ata \<Rightarrow> ata" where
  "ata_command c a =
     (if drop_bit 4 (device_reg a) = 0xE \<and> c = 0x20 then send_sector (lba_of a) (sectors_of a) a
      else if drop_bit 4 (device_reg a) = 0xE \<and> c = 0x30 then receive_sector (lba_of a) (sectors_of a) a
      else a\<lparr>xfer := Aborted\<rparr>)"

definition ata_out8 :: "u16 \<Rightarrow> u8 \<Rightarrow> ata \<Rightarrow> ata" where
  "ata_out8 p b a =
     (if p = 0x1F2 then a\<lparr>count_reg := b\<rparr>
      else if p = 0x1F3 then a\<lparr>low_reg := b\<rparr>
      else if p = 0x1F4 then a\<lparr>mid_reg := b\<rparr>
      else if p = 0x1F5 then a\<lparr>high_reg := b\<rparr>
      else if p = 0x1F6 then a\<lparr>device_reg := b\<rparr>
      else if p = 0x1F7 then ata_command b a
      else a)"

definition ata_status :: "ata \<Rightarrow> u8" where
  "ata_status a =
     (if busy a > 0 then 0x80
      else case xfer a of Idle \<Rightarrow> 0x40 | Aborted \<Rightarrow> 0x41 | _ \<Rightarrow> 0x48)"

definition ata_in16 :: "ata \<Rightarrow> u16 \<times> ata" where
  "ata_in16 a =
     (case xfer a of
        Sending L r (w # ws) \<Rightarrow>
          (w, if ws = [] then send_sector (L + 1) (r - 1) a else a\<lparr>xfer := Sending L r ws\<rparr>)
      | _ \<Rightarrow> (0, a))"

definition ata_out16 :: "u16 \<Rightarrow> ata \<Rightarrow> ata" where
  "ata_out16 w a =
     (case xfer a of
        Receiving L r ws \<Rightarrow>
          (if length ws = 255
           then receive_sector (L + 1) (r - 1) (a\<lparr>disk := (disk a)(L := bytes_of (ws @ [w]))\<rparr>)
           else a\<lparr>xfer := Receiving L r (ws @ [w])\<rparr>)
      | _ \<Rightarrow> a)"

text \<open>
  A device is an ATA drive when it acts on the ports of the controller as the
  standard says; view is what its state says of the drive. The standard says
  what the registers and the data port do only while the drive is not busy and
  the transfer is at the point where they are used; nothing is assumed of
  other accesses, or of other ports.
\<close>

definition ata_ready :: "ata \<Rightarrow> bool" where
  "ata_ready a \<longleftrightarrow> xfer a = Idle \<or> xfer a = Aborted"

text \<open>
  Of the status byte only two bits matter: BSY, and DRQ once BSY is clear. The
  others (ready, seek complete, error) a drive may set as it likes.
\<close>

definition status_tells :: "u8 \<Rightarrow> ata \<Rightarrow> bool" where
  "status_tells b a \<longleftrightarrow> (b AND 0x80 = 0 \<longleftrightarrow> busy a = 0) \<and> (busy a = 0 \<longrightarrow> (b AND 0x08 = 0 \<longleftrightarrow> ata_ready a))"

definition ata_device :: "'d hardware \<Rightarrow> ('d \<Rightarrow> ata) \<Rightarrow> bool" where
  "ata_device hw view \<longleftrightarrow>
     (\<forall>d. status_tells (fst (in8 hw 0x1F7 d)) (view d) \<and>
          view (snd (in8 hw 0x1F7 d)) = (view d)\<lparr>busy := busy (view d) - 1\<rparr>) \<and>
     (\<forall>p b d. 0x1F2 \<le> p \<and> p \<le> 0x1F7 \<and> busy (view d) = 0 \<and> ata_ready (view d) \<longrightarrow>
          view (out8 hw p b d) = ata_out8 p b (view d)) \<and>
     (\<forall>d L r ws. busy (view d) = 0 \<and> xfer (view d) = Sending L r ws \<longrightarrow>
          fst (in16 hw 0x1F0 d) = fst (ata_in16 (view d)) \<and>
          view (snd (in16 hw 0x1F0 d)) = snd (ata_in16 (view d))) \<and>
     (\<forall>d w L r ws. busy (view d) = 0 \<and> xfer (view d) = Receiving L r ws \<longrightarrow>
          view (out16 hw 0x1F0 w d) = ata_out16 w (view d))"

text \<open>The drive itself as a device.\<close>

definition ata_drive :: "ata hardware" where
  "ata_drive =
     \<lparr>in8 = (\<lambda>p a. if p = 0x1F7 then (ata_status a, a\<lparr>busy := busy a - 1\<rparr>) else (0, a)),
      in16 = (\<lambda>p a. if p = 0x1F0 then ata_in16 a else (0, a)),
      out8 = ata_out8,
      out16 = (\<lambda>p w a. if p = 0x1F0 then ata_out16 w a else a)\<rparr>"

lemma ata_status_tells: "status_tells (ata_status a) a"
  by (simp add: status_tells_def ata_status_def ata_ready_def split: transfer.split)

lemma ata_drive_device: "ata_device ata_drive id"
  by (simp add: ata_device_def ata_drive_def ata_status_tells)

section \<open>Waiting\<close>

lemma ata_device_ports:
  assumes "ata_device hw view"
  shows "fst (in8 hw ATA_PRIMARY_STATUS d) AND ATA_STATUS_BSY = 0 \<longleftrightarrow> busy (view d) = 0"
    and "view (snd (in8 hw ATA_PRIMARY_STATUS d)) = (view d)\<lparr>busy := busy (view d) - 1\<rparr>"
    and "busy (view d) = 0 \<Longrightarrow> xfer (view d) = Sending L r ws \<Longrightarrow>
      fst (in16 hw ATA_PRIMARY_DATA d) = fst (ata_in16 (view d))"
    and "busy (view d) = 0 \<Longrightarrow> xfer (view d) = Sending L r ws \<Longrightarrow>
      view (snd (in16 hw ATA_PRIMARY_DATA d)) = snd (ata_in16 (view d))"
    and "busy (view d) = 0 \<Longrightarrow> xfer (view d) = Receiving L r ws \<Longrightarrow>
      view (out16 hw ATA_PRIMARY_DATA w d) = ata_out16 w (view d)"
    and "busy (view d) = 0 \<Longrightarrow> fst (in8 hw ATA_PRIMARY_STATUS d) AND ATA_STATUS_DRQ = 0 \<longleftrightarrow>
      xfer (view d) = Idle \<or> xfer (view d) = Aborted"
  using assms by (simp_all add: ata_device_def ata_ports status_tells_def ata_ready_def ATA_STATUS_BSY_def ATA_STATUS_DRQ_def)

lemma not_busy: "busy a = 0 \<Longrightarrow> a\<lparr>busy := 0\<rparr> = a"
  by (cases a) simp

lemma pata_wait_bsy_returns:
  assumes "ata_device hw view"
  shows "\<exists>d'. pata_wait_bsy hw d = Some d' \<and> view d' = (view d)\<lparr>busy := 0\<rparr>"
proof (induction "busy (view d)" arbitrary: d)
  case 0
  then show ?case
    using ata_device_ports(1,2) [OF assms, of d]
    by (subst pata_wait_bsy.simps) (simp add: case_prod_beta)
next
  case (Suc n)
  let ?d = "snd (in8 hw ATA_PRIMARY_STATUS d)"
  have "n = busy (view ?d)" using Suc.hyps(2) ata_device_ports(2) [OF assms, of d] by simp
  from Suc.hyps(1) [OF this] ata_device_ports(2) [OF assms, of d]
  have "\<exists>d'. pata_wait_bsy hw ?d = Some d' \<and> view d' = (view d)\<lparr>busy := 0\<rparr>" by simp
  then show ?case
    using ata_device_ports(1) [OF assms, of d] Suc.hyps(2)
    by (subst pata_wait_bsy.simps) (simp add: case_prod_beta)
qed

lemma pata_wait_drq_returns:
  assumes "ata_device hw view" and "busy (view d) = 0" and "xfer (view d) \<noteq> Idle" "xfer (view d) \<noteq> Aborted"
  shows "\<exists>d'. pata_wait_drq hw d = Some d' \<and> view d' = view d"
  using assms(2-4) ata_device_ports(2,6) [OF assms(1), of d] not_busy
  by (subst pata_wait_drq.simps) (auto simp: case_prod_beta)

text \<open>The driver does not look at the error bit: it waits for data that never comes.\<close>

lemma pata_wait_drq_hangs:
  assumes dev: "ata_device hw view" and idle: "busy (view d) = 0" "xfer (view d) = Idle \<or> xfer (view d) = Aborted"
  shows "pata_wait_drq hw d = None"
proof -
  let ?idle = "\<lambda>d. busy (view d) = 0 \<and> (xfer (view d) = Idle \<or> xfer (view d) = Aborted)"
  have never: "hw' = hw \<longrightarrow> \<not> ?idle d'" if "pata_wait_drq hw' d' = Some r" for hw' d' r
    using that
  proof (rule pata_wait_drq.raw_induct [where P = "\<lambda>hw' d r. hw' = hw \<longrightarrow> \<not> ?idle d", rotated])
    fix loop h d r
    assume IH: "\<And>hw' d r. loop hw' d = Some r \<Longrightarrow> hw' = hw \<longrightarrow> \<not> ?idle d"
      and step: "(case in8 h ATA_PRIMARY_STATUS d of (status, d) \<Rightarrow>
        if status AND ATA_STATUS_DRQ = 0 then loop h d else Some d) = Some r"
    show "h = hw \<longrightarrow> \<not> ?idle d"
    proof (intro impI notI)
      assume h: "h = hw" and i: "?idle d"
      then have "loop hw (snd (in8 hw ATA_PRIMARY_STATUS d)) = Some r"
        using step ata_device_ports(6) [OF dev, of d]
        by (simp add: case_prod_beta)
      from IH [OF this] ata_device_ports(2) [OF dev, of d] i show False by simp
    qed
  qed
  show ?thesis using idle never [of hw d] by (cases "pata_wait_drq hw d") auto
qed

section \<open>Words on the bus\<close>

lemma length_words_of: "length (words_of bs) = length bs div 2"
  by (induction bs rule: words_of.induct) auto

lemma bytes_of_simps [simp]:
  "bytes_of [] = []" "bytes_of (w # ws) = bytes_le 2 w @ bytes_of ws"
  by (simp_all add: bytes_of_def)

lemma length_bytes_of [simp]: "length (bytes_of ws) = 2 * length ws"
  by (induction ws) auto

lemma bytes_of_words_of: "even (length bs) \<Longrightarrow> bytes_of (words_of bs) = bs"
  by (induction bs rule: words_of.induct) (auto simp: bytes_le_word_le simp del: word_le.simps)

lemma low_byte: "ucast (w AND 0xFF :: u16) = (ucast w :: u8)"
proof -
  have "w AND 0xFF = take_bit 8 w" by (simp add: take_bit_eq_mask mask_eq_decr_exp)
  moreover have "ucast (take_bit 8 w) = (ucast w :: u8)"
    by (rule bit_word_eqI) (auto simp: bit_simps)
  ultimately show ?thesis by simp
qed

lemma bytes_le_2: "bytes_le 2 w = [ucast w, ucast (drop_bit 8 w)]"
  by (simp add: numeral_2_eq_2)

lemma read_word_write:
  "read_word hw a (m, d) =
     (write_bytes m a (bytes_le 2 (fst (in16 hw ATA_PRIMARY_DATA d))), snd (in16 hw ATA_PRIMARY_DATA d))"
  by (simp add: read_word_def case_prod_beta low_byte bytes_le_2)

lemma bytes_of_memory:
  "bytes_of (map (\<lambda>i. word_le [m (a + of_nat (i * 2)), m (a + of_nat (i * 2) + 1)]) [0..<n]) =
     read_bytes m a (2 * n)" for a :: "'a::len word"
proof (induction n)
  case 0
  then show ?case by simp
next
  case (Suc n)
  have "bytes_of (xs @ ys) = bytes_of xs @ bytes_of ys" for xs ys
    by (simp add: bytes_of_def)
  moreover have "read_bytes m a (2 * Suc n) =
      read_bytes m a (2 * n) @ [m (a + of_nat (n * 2)), m (a + of_nat (n * 2) + 1)]"
    using read_bytes_append [of m a "2 * n" 2] by (simp add: numeral_2_eq_2 mult.commute)
  ultimately show ?case using Suc by (simp add: bytes_le_word_le del: word_le.simps)
qed

section \<open>Reading\<close>

definition sending :: "nat \<Rightarrow> nat \<Rightarrow> (nat \<Rightarrow> u8 list) \<Rightarrow> nat \<Rightarrow> ata \<Rightarrow> bool" where
  "sending L r dk cap a \<longleftrightarrow> disk a = dk \<and> capacity a = cap \<and>
     xfer a = (if r = 0 then Idle else if L < cap then Sending L r (words_of (dk L)) else Aborted)"

lemma send_sector_sending: "sending L r (disk a) (capacity a) (send_sector L r a)"
  by (simp add: sending_def send_sector_def go_busy_def)

lemma sending_busy: "sending L r dk cap (a\<lparr>busy := b\<rparr>) = sending L r dk cap a"
  by (simp add: sending_def)

lemma send_sector_xfer: "send_sector L r (a\<lparr>xfer := x\<rparr>) = send_sector L r a"
  by (simp add: send_sector_def go_busy_def)

lemma read_words:
  assumes dev: "ata_device hw view"
  shows "busy (view d) = 0 \<Longrightarrow> xfer (view d) = Sending L r ws \<Longrightarrow> ws \<noteq> [] \<Longrightarrow> k + length ws = n \<Longrightarrow>
    \<exists>d'. fold (\<lambda>i. read_word hw (a + of_nat (i * 2))) [k..<n] (m, d) =
        (write_bytes m (a + of_nat (k * 2)) (bytes_of ws), d') \<and>
      view d' = send_sector (L + 1) (r - 1) (view d)"
proof (induction ws arbitrary: k m d)
  case Nil
  then show ?case by simp
next
  case (Cons w ws)
  let ?d = "snd (in16 hw ATA_PRIMARY_DATA d)"
  let ?m = "write_bytes m (a + of_nat (k * 2)) (bytes_le 2 w)"
  have w: "fst (in16 hw ATA_PRIMARY_DATA d) = w"
    and d: "view ?d = (if ws = [] then send_sector (L + 1) (r - 1) (view d)
        else (view d)\<lparr>xfer := Sending L r ws\<rparr>)"
    using ata_device_ports(3,4) [OF dev Cons.prems(1,2)] Cons.prems(2) by (simp_all add: ata_in16_def)
  have upt: "[k..<n] = k # [Suc k..<n]" using Cons.prems(4) by (intro upt_conv_Cons) simp
  have step: "read_word hw (a + of_nat (k * 2)) (m, d) = (?m, ?d)" by (simp add: read_word_write w)
  show ?case
  proof (cases "ws = []")
    case True
    then show ?thesis using Cons.prems(4) d step by (simp add: upt)
  next
    case False
    with d have "busy (view ?d) = 0" "xfer (view ?d) = Sending L r ws"
      using Cons.prems(1) by simp_all
    from Cons.IH [OF this False, of "Suc k" ?m] Cons.prems(4) False d
    obtain d' where "fold (\<lambda>i. read_word hw (a + of_nat (i * 2))) [Suc k..<n] (?m, ?d) =
        (write_bytes ?m (a + of_nat (Suc k * 2)) (bytes_of ws), d')"
      and "view d' = send_sector (L + 1) (r - 1) (view d)" by (auto simp: send_sector_xfer)
    moreover have "a + of_nat (Suc k * 2) = a + of_nat (k * 2) + of_nat (length (bytes_le 2 w))"
      by (simp add: algebra_simps)
    ultimately show ?thesis using step by (simp add: upt write_bytes_append ac_simps)
  qed
qed

lemma read_sector_sends:
  assumes dev: "ata_device hw view" and snd: "sending L r dk cap (view d)"
    and r: "0 < r" "L < cap" and len: "length (dk L) = 512"
  shows "\<exists>d'. read_sector hw buf s (m, d) =
      Some (write_bytes m (buf + of_nat (s * 512)) (dk L), d') \<and> sending (L + 1) (r - 1) dk cap (view d')"
proof -
  obtain e where e: "pata_wait_bsy hw d = Some e" "view e = (view d)\<lparr>busy := 0\<rparr>"
    using pata_wait_bsy_returns [OF dev] by blast
  with snd r have x: "busy (view e) = 0" "xfer (view e) = Sending L r (words_of (dk L))"
    by (simp_all add: sending_def)
  then obtain f where f: "pata_wait_drq hw e = Some f" "view f = view e"
    using pata_wait_drq_returns [OF dev, of e] by auto
  have ne: "words_of (dk L) \<noteq> []" "0 + length (words_of (dk L)) = 256"
    using len length_words_of [of "dk L"] by auto
  obtain d' where d': "fold (\<lambda>i. read_word hw (buf + of_nat (s * 512) + of_nat (i * 2))) [0..<256] (m, f) =
        (write_bytes m (buf + of_nat (s * 512)) (dk L), d')"
      "view d' = send_sector (L + 1) (r - 1) (view f)"
    using read_words [OF dev, of f, OF _ _ ne, where a = "buf + of_nat (s * 512)" and m = m] x f(2) len
    by (auto simp: bytes_of_words_of)
  have "sending (L + 1) (r - 1) dk cap (view d')"
    using send_sector_sending [of "L + 1" "r - 1" "view f"] d'(2) f(2) e(2) snd by (simp add: sending_def)
  with d'(1) e(1) f(1) show ?thesis by (simp add: read_sector_def add.assoc)
qed

lemma sector_hangs:
  assumes dev: "ata_device hw view" and x: "xfer (view d) = Aborted"
  shows "read_sector hw buf s (m, d) = None" "write_sector hw m buf s d = None"
proof -
  obtain e where e: "pata_wait_bsy hw d = Some e" "view e = (view d)\<lparr>busy := 0\<rparr>"
    using pata_wait_bsy_returns [OF dev] by blast
  with x have "pata_wait_drq hw e = None" by (intro pata_wait_drq_hangs [OF dev]) simp_all
  with e(1) show "read_sector hw buf s (m, d) = None" "write_sector hw m buf s d = None"
    by (simp_all add: read_sector_def write_sector_def)
qed

lemma read_sectors_loop:
  assumes dev: "ata_device hw view" and len: "\<forall>l < cap. length (dk l) = 512" and n: "k \<le> n"
  shows "sending (L + k) (n - k) dk cap (view d) \<Longrightarrow> L + n \<le> cap \<Longrightarrow>
    \<exists>d'. for_each (read_sector hw buf) [k..<n] (m, d) =
        Some (write_bytes m (buf + of_nat (k * 512)) (concat (map dk [L + k..<L + n])), d') \<and>
      sending (L + n) 0 dk cap (view d')"
  using n
proof (induction arbitrary: m d rule: inc_induct)
  case base
  then show ?case by simp
next
  case (step k)
  let ?m = "write_bytes m (buf + of_nat (k * 512)) (dk (L + k))"
  have ok: "0 < n - k" "L + k < cap" "length (dk (L + k)) = 512" using step.hyps step.prems len by simp_all
  from read_sector_sends [OF dev step.prems(1) this, of buf k m]
  obtain e where e: "read_sector hw buf k (m, d) = Some (?m, e)"
    and snd: "sending (L + Suc k) (n - Suc k) dk cap (view e)" by auto
  from step.IH [OF snd step.prems(2), of ?m]
  obtain d' where "for_each (read_sector hw buf) [Suc k..<n] (?m, e) =
      Some (write_bytes ?m (buf + of_nat (Suc k * 512)) (concat (map dk [L + Suc k..<L + n])), d')"
    and "sending (L + n) 0 dk cap (view d')" by blast
  moreover have "[k..<n] = k # [Suc k..<n]" "[L + k..<L + n] = (L + k) # [L + Suc k..<L + n]"
    using step.hyps by (simp_all add: upt_conv_Cons)
  moreover have "buf + of_nat (Suc k * 512) = buf + of_nat (k * 512) + of_nat (length (dk (L + k)))"
    using ok(3) by (simp add: algebra_simps)
  ultimately show ?case using e by (simp add: write_bytes_append ac_simps)
qed

lemma read_sectors_hang:
  assumes dev: "ata_device hw view" and len: "\<forall>l < cap. length (dk l) = 512" and n: "k \<le> n"
  shows "sending (L + k) (n - k) dk cap (view d) \<Longrightarrow> cap < L + n \<Longrightarrow> k < n \<Longrightarrow>
    for_each (read_sector hw buf) [k..<n] (m, d) = None"
  using n
proof (induction arbitrary: m d rule: inc_induct)
  case base
  then show ?case by simp
next
  case (step k)
  have upt: "[k..<n] = k # [Suc k..<n]" using step.hyps by (simp add: upt_conv_Cons)
  show ?case
  proof (cases "L + k < cap")
    case False
    with step.prems(1) step.hyps have "xfer (view d) = Aborted" by (simp add: sending_def)
    from sector_hangs(1) [OF dev this, of buf k m] show ?thesis by (simp add: upt)
  next
    case True
    have ok: "0 < n - k" "length (dk (L + k)) = 512" using step.hyps len True by simp_all
    from read_sector_sends [OF dev step.prems(1) ok(1) True ok(2), of buf k m]
    obtain e where e: "read_sector hw buf k (m, d) =
        Some (write_bytes m (buf + of_nat (k * 512)) (dk (L + k)), e)"
      and snd: "sending (L + Suc k) (n - Suc k) dk cap (view e)" by auto
    have "Suc k < n" using True step.prems(2) by simp
    from step.IH [OF snd step.prems(2) this] show ?thesis by (simp add: upt e)
  qed
qed

section \<open>Writing\<close>

definition receiving :: "nat \<Rightarrow> nat \<Rightarrow> (nat \<Rightarrow> u8 list) \<Rightarrow> nat \<Rightarrow> ata \<Rightarrow> bool" where
  "receiving L r dk cap a \<longleftrightarrow> disk a = dk \<and> capacity a = cap \<and>
     xfer a = (if r = 0 then Idle else if L < cap then Receiving L r [] else Aborted)"

lemma receive_sector_receiving: "receiving L r (disk a) (capacity a) (receive_sector L r a)"
  by (simp add: receiving_def receive_sector_def go_busy_def)

lemma receive_sector_xfer:
  "receive_sector L r (a\<lparr>xfer := x\<rparr>) = receive_sector L r a"
  "receive_sector L r (a\<lparr>xfer := x, disk := dk\<rparr>) = receive_sector L r (a\<lparr>disk := dk\<rparr>)"
  by (simp_all add: receive_sector_def go_busy_def)

lemma write_words:
  assumes dev: "ata_device hw view"
  shows "busy (view d) = 0 \<Longrightarrow> xfer (view d) = Receiving L r ws \<Longrightarrow> length ws + length is = 256 \<Longrightarrow> is \<noteq> [] \<Longrightarrow>
    view (fold (\<lambda>i. write_word hw m (a + of_nat (i * 2))) is d) =
      receive_sector (L + 1) (r - 1) ((view d)\<lparr>disk := (disk (view d))(L := bytes_of (ws @
        map (\<lambda>i. word_le [m (a + of_nat (i * 2)), m (a + of_nat (i * 2) + 1)]) is))\<rparr>)"
proof (induction "is" arbitrary: ws d)
  case Nil
  then show ?case by simp
next
  case (Cons i "is")
  let ?w = "word_le [m (a + of_nat (i * 2)), m (a + of_nat (i * 2) + 1)] :: u16"
  let ?d = "write_word hw m (a + of_nat (i * 2)) d"
  have d: "view ?d = (if is = [] then receive_sector (L + 1) (r - 1)
        ((view d)\<lparr>disk := (disk (view d))(L := bytes_of (ws @ [?w]))\<rparr>)
      else (view d)\<lparr>xfer := Receiving L r (ws @ [?w])\<rparr>)"
    using ata_device_ports(5) [OF dev Cons.prems(1,2)] Cons.prems(2,3)
    by (cases "is") (simp_all add: ata_out16_def write_word_def)
  show ?case
  proof (cases "is = []")
    case True
    with d show ?thesis by (simp add: fun_upd_def)
  next
    case False
    with d have "busy (view ?d) = 0" "xfer (view ?d) = Receiving L r (ws @ [?w])"
      using Cons.prems(1) by simp_all
    from Cons.IH [OF this] Cons.prems(3) False d show ?thesis
      by (simp add: receive_sector_xfer fun_upd_def del: word_le.simps cong: if_cong)
  qed
qed

lemma write_sector_receives:
  assumes dev: "ata_device hw view" and rcv: "receiving L r dk cap (view d)" and r: "0 < r" "L < cap"
  shows "\<exists>d'. write_sector hw m buf s d = Some d' \<and>
    receiving (L + 1) (r - 1) (dk(L := read_bytes m (buf + of_nat (s * 512)) 512)) cap (view d')"
proof -
  obtain e where e: "pata_wait_bsy hw d = Some e" "view e = (view d)\<lparr>busy := 0\<rparr>"
    using pata_wait_bsy_returns [OF dev] by blast
  with rcv r have x: "busy (view e) = 0" "xfer (view e) = Receiving L r []"
    by (simp_all add: receiving_def)
  then obtain f where f: "pata_wait_drq hw e = Some f" "view f = view e"
    using pata_wait_drq_returns [OF dev, of e] by auto
  let ?d = "fold (\<lambda>i. write_word hw m (buf + of_nat (s * 512) + of_nat (i * 2))) [0..<256] f"
  have "view ?d = receive_sector (L + 1) (r - 1)
      ((view f)\<lparr>disk := (disk (view f))(L := read_bytes m (buf + of_nat (s * 512)) 512)\<rparr>)"
    using write_words [OF dev, of f L r "[]" "[0..<256]" m "buf + of_nat (s * 512)"] x f(2)
      bytes_of_memory [of m "buf + of_nat (s * 512)" 256]
    by (simp del: word_le.simps)
  then have "receiving (L + 1) (r - 1) (dk(L := read_bytes m (buf + of_nat (s * 512)) 512)) cap (view ?d)"
    using receive_sector_receiving [of "L + 1" "r - 1"
        "(view f)\<lparr>disk := (disk (view f))(L := read_bytes m (buf + of_nat (s * 512)) 512)\<rparr>"]
      f(2) e(2) rcv by (simp add: receiving_def)
  with e(1) f(1) show ?thesis by (simp add: write_sector_def add.assoc)
qed

text \<open>The sectors from L on that a write of the n sectors at buf replaces.\<close>

definition stored :: "'a::len memory \<Rightarrow> 'a word \<Rightarrow> nat \<Rightarrow> nat \<Rightarrow> nat \<Rightarrow> (nat \<Rightarrow> u8 list) \<Rightarrow> nat \<Rightarrow> u8 list" where
  "stored m buf L k n dk = (\<lambda>l. if L + k \<le> l \<and> l < L + n then read_bytes m (buf + of_nat ((l - L) * 512)) 512 else dk l)"

lemma stored_step:
  "k < n \<Longrightarrow> stored m buf L (Suc k) n (dk(L + k := read_bytes m (buf + of_nat (k * 512)) 512)) = stored m buf L k n dk"
  by (auto simp: stored_def fun_eq_iff)

lemma write_sectors_loop:
  assumes dev: "ata_device hw view" and n: "k \<le> n"
  shows "receiving (L + k) (n - k) dk cap (view d) \<Longrightarrow> L + n \<le> cap \<Longrightarrow>
    \<exists>d'. for_each (write_sector hw m buf) [k..<n] d = Some d' \<and>
      receiving (L + n) 0 (stored m buf L k n dk) cap (view d')"
  using n
proof (induction arbitrary: dk d rule: inc_induct)
  case base
  have "stored m buf L n n dk = dk" by (auto simp: stored_def fun_eq_iff)
  with base show ?case by simp
next
  case (step k)
  let ?dk = "dk(L + k := read_bytes m (buf + of_nat (k * 512)) 512)"
  have ok: "0 < n - k" "L + k < cap" using step.hyps step.prems by simp_all
  from write_sector_receives [OF dev step.prems(1) ok, of m buf k]
  obtain e where e: "write_sector hw m buf k d = Some e"
    and rcv: "receiving (L + Suc k) (n - Suc k) ?dk cap (view e)" by auto
  have "stored m buf L (Suc k) n ?dk = stored m buf L k n dk" using step.hyps by (intro stored_step) simp
  note IH = step.IH [OF rcv step.prems(2), unfolded this]
  show ?case using IH e step.hyps by (simp add: upt_conv_Cons)
qed

lemma write_sectors_hang:
  assumes dev: "ata_device hw view" and n: "k \<le> n"
  shows "receiving (L + k) (n - k) dk cap (view d) \<Longrightarrow> cap < L + n \<Longrightarrow> k < n \<Longrightarrow>
    for_each (write_sector hw m buf) [k..<n] d = None"
  using n
proof (induction arbitrary: dk d rule: inc_induct)
  case base
  then show ?case by simp
next
  case (step k)
  have upt: "[k..<n] = k # [Suc k..<n]" using step.hyps by (simp add: upt_conv_Cons)
  show ?case
  proof (cases "L + k < cap")
    case False
    with step.prems(1) step.hyps have "xfer (view d) = Aborted" by (simp add: receiving_def)
    from sector_hangs(2) [OF dev this, of m buf k] show ?thesis by (simp add: upt)
  next
    case True
    have "0 < n - k" using step.hyps by simp
    from write_sector_receives [OF dev step.prems(1) this True, of m buf k]
    obtain e where e: "write_sector hw m buf k d = Some e"
      and rcv: "receiving (L + Suc k) (n - Suc k)
        (dk(L + k := read_bytes m (buf + of_nat (k * 512)) 512)) cap (view e)" by auto
    have "Suc k < n" using True step.prems(2) by simp
    from step.IH [OF rcv step.prems(2) this] show ?thesis by (simp add: upt e)
  qed
qed

section \<open>The command\<close>

lemma lba_value:
  fixes lba :: u32
  shows "unat (ucast lba :: u8) + 2 ^ 8 * unat (ucast (drop_bit 8 lba) :: u8)
     + 2 ^ 16 * unat (ucast (drop_bit 16 lba) :: u8)
     + 2 ^ 24 * (unat (ucast (0xE0 OR (drop_bit 24 lba AND 0x0F)) :: u8) mod 16) = unat lba mod 2 ^ 28"
proof -
  have low: "unat (ucast w :: u8) = unat w mod 256" for w :: u32 by (simp add: unsigned_ucast_eq take_bit_eq_mod)
  have drop: "unat (drop_bit n lba) = unat lba div 2 ^ n" for n by (metis drop_bit_eq_div unat_drop_bit_eq)
  have low4: "w AND 0x0F = take_bit 4 w" for w :: u32
    by (simp add: take_bit_eq_mask mask_eq_decr_exp)
  have tb: "unat (take_bit 4 w) = unat w mod 16" for w :: u32
    by (simp add: unsigned_take_bit_eq take_bit_eq_mod [where ?'a = nat])
  have "unat (ucast (0xE0 OR (drop_bit 24 lba AND 0x0F)) :: u8) mod 16 = unat lba div 2 ^ 24 mod 16"
  proof -
    have "unat (ucast (0xE0 OR (drop_bit 24 lba AND 0x0F)) :: u8) mod 16 =
        unat (0xE0 OR (drop_bit 24 lba AND 0x0F)) mod 16" by (simp add: low mod_mod_cancel)
    also have "\<dots> = unat (take_bit 4 (0xE0 OR (drop_bit 24 lba AND 0x0F)))"
      by (simp only: tb)
    also have "take_bit 4 (0xE0 OR (drop_bit 24 lba AND 0x0F)) = take_bit 4 (drop_bit 24 lba)"
      by (simp add: take_bit_or low4)
    also have "unat (take_bit 4 (drop_bit 24 lba)) = unat lba div 2 ^ 24 mod 16"
      by (simp add: tb drop)
    finally show ?thesis .
  qed
  moreover have "x mod 256 + 256 * (x div 256 mod 256) + 65536 * (x div 65536 mod 256)
      + 16777216 * (x div 16777216 mod 16) = x mod 268435456" for x :: nat
    using mod_mult2_eq [of x 256 1048576] mod_mult2_eq [of "x div 256" 256 4096]
      mod_mult2_eq [of "x div 65536" 256 16] by (simp flip: div_mult2_eq)
  ultimately show ?thesis by (simp add: low drop)
qed

lemma lba_mode: "drop_bit 4 (ucast (0xE0 OR (w AND 0x0F) :: u32) :: u8) = 0xE"
proof -
  have "w AND 0x0F = take_bit 4 w" by (simp add: take_bit_eq_mask mask_eq_decr_exp)
  moreover have "drop_bit 4 (ucast (take_bit 4 w) :: u8) = 0"
    by (rule bit_word_eqI) (auto simp: bit_simps)
  ultimately show ?thesis by (simp add: unsigned_or_eq drop_bit_or)
qed

definition disk_ok :: "ata \<Rightarrow> bool" where
  "disk_ok a \<longleftrightarrow> (\<forall>l < capacity a. length (disk a l) = 512)"

lemma pata_command_starts:
  fixes lba :: u32 and c :: u8
  assumes dev: "ata_device hw view" and d: "busy (view d) = 0" "ata_ready (view d)"
  defines "L \<equiv> unat lba mod 2 ^ 28" and "n \<equiv> (if c = 0 then 256 else unat c)"
  shows "sending L n (disk (view d)) (capacity (view d)) (view (pata_command hw ATA_CMD_READ_PIO lba c d))"
    and "receiving L n (disk (view d)) (capacity (view d)) (view (pata_command hw ATA_CMD_WRITE_PIO lba c d))"
proof -
  have out: "view (out8 hw p b e) = ata_out8 p b (view e)"
    if "0x1F2 \<le> p" "p \<le> 0x1F7" "busy (view e) = 0" "ata_ready (view e)" for p b e
    using dev that by (simp add: ata_device_def)
  let ?a = "(view d)\<lparr>device_reg := ucast (0xE0 OR (drop_bit 24 lba AND 0x0F)), count_reg := c,
      low_reg := ucast lba, mid_reg := ucast (drop_bit 8 lba), high_reg := ucast (drop_bit 16 lba)\<rparr>"
  have cmd: "view (pata_command hw cmd lba c d) = ata_command cmd ?a" for cmd
    using d by (simp add: pata_command_def ata_ports out ata_out8_def ata_ready_def)
  have lba: "lba_of ?a = L" using lba_value [of lba] by (simp add: lba_of_def L_def)
  have n: "sectors_of ?a = n" by (simp add: sectors_of_def n_def)
  have a: "disk ?a = disk (view d)" "capacity ?a = capacity (view d)" by simp_all
  have rd: "ata_command 0x20 ?a = send_sector L n ?a"
    and wr: "ata_command 0x30 ?a = receive_sector L n ?a"
    unfolding lba [symmetric] n [symmetric] ata_command_def by (simp_all add: lba_mode)
  show "sending L n (disk (view d)) (capacity (view d)) (view (pata_command hw ATA_CMD_READ_PIO lba c d))"
    unfolding cmd ATA_CMD_READ_PIO_def rd using send_sector_sending [of L n ?a] unfolding a .
  show "receiving L n (disk (view d)) (capacity (view d)) (view (pata_command hw ATA_CMD_WRITE_PIO lba c d))"
    unfolding cmd ATA_CMD_WRITE_PIO_def wr using receive_sector_receiving [of L n ?a] unfolding a .
qed

lemma wait_keeps_ready: "ata_ready (a\<lparr>busy := b\<rparr>) = ata_ready a"
  by (simp add: ata_ready_def)

lemma pata_read_ok:
  fixes lba :: u32
  assumes dev: "ata_device hw view" and d: "ata_ready (view d)" "disk_ok (view d)" and c: "c \<noteq> 0"
  defines "L \<equiv> unat lba mod 2 ^ 28"
  shows "if capacity (view d) < L + unat c then pata_read_sectors hw lba c buf (m, d) = None
    else \<exists>d'. pata_read_sectors hw lba c buf (m, d) =
        Some (0, write_bytes m buf (concat (map (disk (view d)) [L..<L + unat c])), d') \<and>
      disk (view d') = disk (view d) \<and> capacity (view d') = capacity (view d) \<and> xfer (view d') = Idle"
proof -
  let ?dk = "disk (view d)" and ?cap = "capacity (view d)" and ?n = "unat c"
  obtain e where e: "pata_wait_bsy hw d = Some e" "view e = (view d)\<lparr>busy := 0\<rparr>"
    using pata_wait_bsy_returns [OF dev] by blast
  let ?e = "pata_command hw ATA_CMD_READ_PIO lba c e"
  have snd: "sending (L + 0) (?n - 0) ?dk ?cap (view ?e)"
    using pata_command_starts(1) [OF dev, of e lba c] e(2) d(1) c
    by (simp add: L_def wait_keeps_ready)
  have len: "\<forall>l < ?cap. length (?dk l) = 512" using d(2) by (simp add: disk_ok_def)
  have pos: "0 < ?n" using c by (simp add: unat_gt_0)
  show ?thesis
  proof (cases "?cap < L + ?n")
    case True
    from read_sectors_hang [OF dev len _ snd this pos, of buf m] True e(1) show ?thesis
      by (simp add: pata_read_sectors_def)
  next
    case False
    then have le: "L + ?n \<le> ?cap" by simp
    from read_sectors_loop [OF dev len _ snd le, of buf m]
    obtain d' where "for_each (read_sector hw buf) [0..<?n] (m, ?e) =
        Some (write_bytes m buf (concat (map ?dk [L..<L + ?n])), d')"
      and "sending (L + ?n) 0 ?dk ?cap (view d')" by auto
    with False e(1) show ?thesis by (simp add: pata_read_sectors_def sending_def)
  qed
qed

lemma pata_write_ok:
  fixes lba :: u32
  assumes dev: "ata_device hw view" and d: "ata_ready (view d)" and c: "c \<noteq> 0"
  defines "L \<equiv> unat lba mod 2 ^ 28"
  shows "if capacity (view d) < L + unat c then pata_write_sectors hw lba c buf (m, d) = None
    else \<exists>d'. pata_write_sectors hw lba c buf (m, d) = Some (0, m, d') \<and>
      disk (view d') = stored m buf L 0 (unat c) (disk (view d)) \<and>
      capacity (view d') = capacity (view d) \<and> xfer (view d') = Idle"
proof -
  let ?dk = "disk (view d)" and ?cap = "capacity (view d)" and ?n = "unat c"
  obtain e where e: "pata_wait_bsy hw d = Some e" "view e = (view d)\<lparr>busy := 0\<rparr>"
    using pata_wait_bsy_returns [OF dev] by blast
  let ?e = "pata_command hw ATA_CMD_WRITE_PIO lba c e"
  have rcv: "receiving (L + 0) (?n - 0) ?dk ?cap (view ?e)"
    using pata_command_starts(2) [OF dev, of e lba c] e(2) d(1) c
    by (simp add: L_def wait_keeps_ready)
  have pos: "0 < ?n" using c by (simp add: unat_gt_0)
  show ?thesis
  proof (cases "?cap < L + ?n")
    case True
    from write_sectors_hang [OF dev _ rcv this pos, of m buf] True e(1) show ?thesis
      by (simp add: pata_write_sectors_def)
  next
    case False
    then have le: "L + ?n \<le> ?cap" by simp
    from write_sectors_loop [OF dev _ rcv le, of m buf]
    obtain f where f: "for_each (write_sector hw m buf) [0..<?n] ?e = Some f"
      "receiving (L + ?n) 0 (stored m buf L 0 ?n ?dk) ?cap (view f)" by auto
    obtain d' where "pata_wait_bsy hw f = Some d'" "view d' = (view f)\<lparr>busy := 0\<rparr>"
      using pata_wait_bsy_returns [OF dev] by blast
    with False e(1) f show ?thesis by (simp add: pata_write_sectors_def receiving_def)
  qed
qed

lemma stored_data:
  "concat (map (stored m buf L 0 n dk) [L..<L + n]) = read_bytes m buf (512 * n)"
proof -
  have "concat (map (stored m buf L 0 n dk) [L..<L + k]) = read_bytes m buf (512 * k)" if "k \<le> n" for k
    using that
  proof (induction k)
    case 0
    then show ?case by simp
  next
    case (Suc k)
    then show ?case
      using read_bytes_append [of m buf "512 * k" 512] by (simp add: stored_def mult.commute add.commute)
  qed
  then show ?thesis by simp
qed

section \<open>Properties\<close>

definition demo_disk :: ata where
  "demo_disk = \<lparr>disk = (\<lambda>l. replicate 512 (of_nat l)), capacity = 100, device_reg = 0, count_reg = 0,
     low_reg = 0, mid_reg = 0, high_reg = 0, xfer = Idle, busy = 3, lags = (\<lambda>i. 2 * i + 1)\<rparr>"

lemma demo_disk_ok: "ata_ready demo_disk" "disk_ok demo_disk"
  by (simp_all add: demo_disk_def ata_ready_def disk_ok_def)

text \<open>
  C34: On every device that behaves as an ATA drive, pata_read_sectors with a
  nonzero count reads the sectors from the address modulo 2^28 on into the
  buffer, changes nothing else and leaves the drive idle, when they all lie on
  the drive; otherwise it never returns, because the error bit is not looked
  at. So it returns 0 or not at all.
\<close>

theorem pata_read_sectors_reads:
  assumes "ata_device hw view" and "ata_ready (view d)" and "disk_ok (view d)" and "c \<noteq> 0"
  shows "if capacity (view d) < unat lba mod 2 ^ 28 + unat c
    then pata_read_sectors hw lba c buf (m, d) = None
    else \<exists>d'. pata_read_sectors hw lba c buf (m, d) =
        Some (0, write_bytes m buf (concat (map (disk (view d)) [unat lba mod 2 ^ 28..<unat lba mod 2 ^ 28 + unat c])), d') \<and>
      disk (view d') = disk (view d) \<and> capacity (view d') = capacity (view d) \<and> xfer (view d') = Idle"
  by (rule pata_read_ok [OF assms])

theorem pata_read_sectors_reads_witness:
  "(\<exists>d'. pata_read_sectors ata_drive 0x10000005 2 (0x1000 :: u32) (\<lambda>_. 0, demo_disk) =
      Some (0, write_bytes (\<lambda>_. 0) 0x1000 (replicate 512 5 @ replicate 512 6), d')) \<and>
   pata_read_sectors ata_drive 99 2 (0x1000 :: u32) (\<lambda>_. 0, demo_disk) = None"
  using pata_read_sectors_reads [OF ata_drive_device, of demo_disk 2 "0x10000005" "0x1000 :: u32" "\<lambda>_. 0"]
    pata_read_sectors_reads [OF ata_drive_device, of demo_disk 2 99 "0x1000 :: u32" "\<lambda>_. 0"] demo_disk_ok
  by (auto simp: demo_disk_def upt_conv_Cons)

text \<open>
  C15: What pata_write_sectors writes, pata_read_sectors reads back into any
  buffer, for every range of sectors on the drive, and the sectors outside the
  range keep their contents.
\<close>

theorem pata_write_read:
  assumes "ata_device hw view" and "ata_ready (view d)" and "disk_ok (view d)" and "c \<noteq> 0"
    and "unat lba mod 2 ^ 28 + unat c \<le> capacity (view d)"
  shows "\<exists>d1 d2. pata_write_sectors hw lba c buf (m, d) = Some (0, m, d1) \<and>
    pata_read_sectors hw lba c buf2 (m2, d1) =
      Some (0, write_bytes m2 buf2 (read_bytes m buf (512 * unat c)), d2) \<and>
    (\<forall>l. l < unat lba mod 2 ^ 28 \<or> unat lba mod 2 ^ 28 + unat c \<le> l \<longrightarrow> disk (view d1) l = disk (view d) l)"
proof -
  obtain d1 where w: "pata_write_sectors hw lba c buf (m, d) = Some (0, m, d1)"
    and d1: "disk (view d1) = stored m buf (unat lba mod 2 ^ 28) 0 (unat c) (disk (view d))"
      "capacity (view d1) = capacity (view d)" "xfer (view d1) = Idle"
    using pata_write_ok [OF assms(1,2,4), of lba buf m] assms(5) by auto
  have "ata_ready (view d1)" "disk_ok (view d1)"
    using assms(3) d1 by (simp_all add: ata_ready_def disk_ok_def stored_def)
  with pata_read_ok [OF assms(1), of d1 c lba buf2 m2] assms(4,5) d1
  obtain d2 where "pata_read_sectors hw lba c buf2 (m2, d1) =
      Some (0, write_bytes m2 buf2 (read_bytes m buf (512 * unat c)), d2)"
    by (auto simp: stored_data)
  with w d1(1) show ?thesis by (auto simp: stored_def)
qed

theorem pata_write_read_witness:
  "\<exists>d1 d2. pata_write_sectors ata_drive 7 3 (0x1000 :: u32) (\<lambda>a. ucast a, demo_disk) = Some (0, \<lambda>a. ucast a, d1) \<and>
    pata_read_sectors ata_drive 7 3 (0x8000 :: u64) (\<lambda>_. 0, d1) =
      Some (0, write_bytes (\<lambda>_. 0) 0x8000 (read_bytes (\<lambda>a. ucast a) (0x1000 :: u32) 1536), d2) \<and>
    disk d1 6 = replicate 512 6 \<and> disk d1 10 = replicate 512 10"
proof -
  have "unat (7 :: u32) mod 2 ^ 28 + unat (3 :: u8) \<le> capacity (id demo_disk)" by (simp add: demo_disk_def)
  from pata_write_read [OF ata_drive_device _ _ _ this, of "0x1000 :: u32" "\<lambda>a. ucast a" "0x8000 :: u64" "\<lambda>_. 0"]
  obtain d1 d2 where *: "pata_write_sectors ata_drive 7 3 (0x1000 :: u32) (\<lambda>a. ucast a, demo_disk) = Some (0, \<lambda>a. ucast a, d1)"
      "pata_read_sectors ata_drive 7 3 (0x8000 :: u64) (\<lambda>_. 0, d1) =
      Some (0, write_bytes (\<lambda>_. 0) 0x8000 (read_bytes (\<lambda>a. ucast a) (0x1000 :: u32) 1536), d2)"
    and keep: "\<forall>l. l < 7 \<or> 10 \<le> l \<longrightarrow> disk d1 l = disk demo_disk l"
    using demo_disk_ok by auto
  from keep have "disk d1 6 = replicate 512 6" "disk d1 10 = replicate 512 10" by (simp_all add: demo_disk_def)
  with * show ?thesis by blast
qed

text \<open>
  A count of 0 means 256 sectors to the drive and none to the driver:
  pata_read_sectors returns at once and leaves the drive in the middle of a
  transfer.
\<close>

theorem pata_zero_count_leaves_transfer:
  assumes "ata_device hw view" and "ata_ready (view d)" and "unat lba mod 2 ^ 28 < capacity (view d)"
  shows "\<exists>d'. pata_read_sectors hw lba 0 buf (m, d) = Some (0, m, d') \<and> \<not> ata_ready (view d')"
proof -
  obtain e where e: "pata_wait_bsy hw d = Some e" "view e = (view d)\<lparr>busy := 0\<rparr>"
    using pata_wait_bsy_returns [OF assms(1)] by blast
  have "sending (unat lba mod 2 ^ 28) 256 (disk (view e)) (capacity (view e))
      (view (pata_command hw ATA_CMD_READ_PIO lba 0 e))"
    using pata_command_starts(1) [OF assms(1), of e lba 0] e(2) assms(2) by (simp add: wait_keeps_ready)
  with assms(3) e show ?thesis by (simp add: pata_read_sectors_def sending_def ata_ready_def)
qed

end
