(* ===== verification/Kernel.thy ===== *)
theory Kernel
  imports Vmm386 Keyboard Scheduler Tar Elf Descriptors Timer Pata
begin

text \<open>
  kmain, kernel/main.c, on i386: the order in which the kernel calls the
  initialisation routines of its parts, and panic (kernel/core/panic.c). The
  parts share one memory: page tables, the RAM disk, the ELF buffer, the
  loaded program and the kernel stacks of the tasks lie in it. The theorems
  follow the memory through the whole start-up.
\<close>

section \<open>panic\<close>

text \<open>
  The output of panic, after which it loops with interrupts off; the
  operations that call it return None.
\<close>

definition panic :: "'d hardware \<Rightarrow> u8 list \<Rightarrow> vga \<times> 'd \<Rightarrow> (vga \<times> 'd) option" where
  "panic hw msg s =
     Option.bind (kprintf hw (cs ''PANIC '') s) (\<lambda>s.
       Option.bind (kprintf hw msg s) (kprintf hw [10]))"

section \<open>The state of the kernel\<close>

record 'd kernel =
  k_mem :: "32 memory"
  k_screen :: vga
  k_dev :: 'd
  k_gdt :: gdt32
  k_idt :: idt32
  k_vmm :: vmm
  k_kbd :: keyboard
  k_files :: vfs
  k_tar :: tar_fs
  k_sched :: "u32 sched"
  mb_info :: u32
  interrupts :: bool

text \<open>Addresses the linker chooses.\<close>

record symbols =
  kernel_end_at :: u32
  gdt_at :: u32
  tss_at :: u32
  idt_at :: u32
  irq0_at :: u32
  irq1_at :: u32
  syscall_at :: u32
  tasks_at :: u32

text \<open>multiboot_info_t at its offsets; the fields between mods_addr and mmap_length are not used.\<close>

definition read_multiboot :: "32 memory \<Rightarrow> u32 \<Rightarrow> multiboot_info" where
  "read_multiboot m info =
     \<lparr>mb_flags = read32 m info, mb_mem_lower = read32 m (info + 4), mb_mem_upper = read32 m (info + 8),
      mb_boot_device = read32 m (info + 12), mb_cmdline = read32 m (info + 16),
      mb_mods_count = read32 m (info + 20), mb_mods_addr = read32 m (info + 24),
      mb_mmap_length = read32 m (info + 44), mb_mmap_addr = read32 m (info + 48)\<rparr>"

definition kprint :: "'d hardware \<Rightarrow> u8 list \<Rightarrow> 'd kernel \<Rightarrow> 'd kernel option" where
  "kprint hw str k =
     map_option (\<lambda>(s, d). k\<lparr>k_screen := s, k_dev := d\<rparr>) (kprintf hw str (k_screen k, k_dev k))"

section \<open>kmain\<close>

definition ELF_BUFFER :: u32 where "ELF_BUFFER = 0x400000"

text \<open>
  Lines 48 to 62: reading the file init_node into the buffer, loading it, and
  making it a task. The node's read function is called without a check of its
  result.
\<close>

definition load_init :: "'d hardware \<Rightarrow> symbols \<Rightarrow> node_ptr option \<Rightarrow> 'd kernel \<Rightarrow> 'd kernel option" where
  "load_init hw sy init_node k =
     (case init_node of
        None \<Rightarrow> kprint hw (cs ''User init missing'' @ [10]) k
      | Some p \<Rightarrow>
          (case read_slot (node_at tar_drivers (k_tar k) p) of
             None \<Rightarrow> kprint hw (cs ''User init missing'' @ [10]) k
           | Some drv \<Rightarrow>
               (let sz = node_length (node_at tar_drivers (k_tar k) p) in
                Option.bind (read_call tar_drivers drv p 0 sz ELF_BUFFER (k_tar k)) (\<lambda>(n, t).
                  let (entry_point, m) = elf_load32 ELF_BUFFER (ram t);
                      k = k\<lparr>k_tar := t, k_mem := m\<rparr>
                  in if entry_point \<noteq> 0
                     then let s = scheduler_init (k_sched k);
                              s = task_create_user (tasks_at sy) entry_point (s\<lparr>memory := k_mem k\<rparr>)
                          in kprint hw (cs ''User init loaded'' @ [10]) (k\<lparr>k_sched := s, k_mem := memory s\<rparr>)
                     else kprint hw (cs ''User init load failed'' @ [10]) k))))"

text \<open>
  Lines 43 to 65. Mounting on the root cannot overflow the path (lemma
  vfs_mount_root), so the error branch does not occur.
\<close>

definition mount_initrd :: "'d hardware \<Rightarrow> symbols \<Rightarrow> u32 \<Rightarrow> 'd kernel \<Rightarrow> 'd kernel option" where
  "mount_initrd hw sy info k =
     (if read32 (k_mem k) (info + 20) > 0
      then let modules = read32 (k_mem k) (info + 24) in
           Option.bind (tar_parse (read32 (k_mem k) modules) ((k_tar k)\<lparr>ram := k_mem k\<rparr>)) (\<lambda>(tar_root, t).
             case vfs_mount [slash] (Some tar_root) (k_files k) of
               Inl e \<Rightarrow> None
             | Inr (_, files) \<Rightarrow>
                 Option.bind (vfs_finddir tar_drivers (Some tar_root) (cs ''init'') t) (\<lambda>(init_node, t).
                   load_init hw sy init_node (k\<lparr>k_files := files, k_tar := t, k_mem := ram t\<rparr>)))
      else kprint hw (cs ''Initrd missing'' @ [10]) k)"

text \<open>Lines 33 to 41.\<close>

definition init_core :: "'d hardware \<Rightarrow> symbols \<Rightarrow> u32 \<Rightarrow> 'd kernel \<Rightarrow> 'd kernel option" where
  "init_core hw sy info k =
     (let k = k\<lparr>k_gdt := init_gdt32 (gdt_at sy) (tss_at sy) (k_gdt k)\<rparr>;
          k = k\<lparr>k_idt := idt_install32 (idt_at sy) (irq0_at sy) (irq1_at sy) (syscall_at sy) (k_idt k)\<rparr>;
          k = k\<lparr>k_dev := pic_remap hw (k_dev k)\<rparr>;
          k = k\<lparr>k_dev := pit_init hw (k_dev k)\<rparr>
      in Option.bind (pmm_init I386 (kernel_end_at sy) (k_mem k) (read_multiboot (k_mem k) info)) (\<lambda>bm.
           Option.bind (init_paging ((k_vmm k)\<lparr>phys := k_mem k, bitmap := bm\<rparr>)) (\<lambda>v.
             let k = k\<lparr>k_vmm := v, k_mem := phys v\<rparr>;
                 k = k\<lparr>k_files := vfs_init (k_files k)\<rparr>;
                 k = k\<lparr>k_dev := pata_init (k_dev k)\<rparr>;
                 k = k\<lparr>k_kbd := keyboard_init (k_kbd k)\<rparr>
             in Some k)))"

text \<open>
  kmain does not return: it ends in one of its two loops of hlt, with the
  state it has then. None is an operation in it that does not return.
\<close>

datatype 'd ending = Halted "'d kernel" | Idling "'d kernel"

definition MULTIBOOT_MAGIC :: u32 where "MULTIBOOT_MAGIC = 0x2BADB002"

definition kmain :: "'d hardware \<Rightarrow> symbols \<Rightarrow> u32 \<Rightarrow> u32 \<Rightarrow> 'd kernel \<Rightarrow> 'd ending option" where
  "kmain hw sy magic info k =
     (let k = k\<lparr>mb_info := info\<rparr>;
          k = k\<lparr>k_dev := serial_init hw (k_dev k)\<rparr>;
          k = k\<lparr>k_screen := kcls (k_screen k)\<rparr>
      in Option.bind (kprint hw (cs ''ZeptoOS i386 boot'' @ [10]) k) (\<lambda>k.
           if magic \<noteq> MULTIBOOT_MAGIC
           then map_option Halted (kprint hw (cs ''Invalid Multiboot magic'' @ [10]) k)
           else Option.bind (init_core hw sy info k) (\<lambda>k.
                  Option.bind (kprint hw (cs ''Core initialized'' @ [10]) k) (\<lambda>k.
                    Option.bind (mount_initrd hw sy info k) (\<lambda>k.
                      Option.bind (kprint hw (cs ''Interrupts enabled'' @ [10]) k) (\<lambda>k.
                        Some (Idling (k\<lparr>interrupts := True\<rparr>))))))))"

section \<open>What paging leaves alone\<close>

text \<open>
  Throughout init_paging the directory, its tables and the free pages stay
  within the pages F that were free before, and no other page is written.
\<close>

definition paging_within :: "nat set \<Rightarrow> 32 memory \<Rightarrow> nat \<Rightarrow> vmm \<Rightarrow> bool" where
  "paging_within F m0 P s \<longleftrightarrow> P \<in> F \<and> free_pages (bitmap s) \<subseteq> F \<and> tables (phys s) P \<subseteq> F \<and>
     (\<forall>q < 0x100000. q \<notin> F \<longrightarrow> (\<forall>j < 1024. read32 (phys s) (ent q j) = read32 m0 (ent q j)))"

lemma vmm_map_page_tables:
  assumes ok: "vmm_ok s Q" and map: "vmm_map_page (base Q) virt pa fl s = Some s'"
  shows "tables (phys s') Q \<subseteq> tables (phys s) Q \<union> free_pages (bitmap s)"
    and "free_pages (bitmap s') \<subseteq> free_pages (bitmap s)"
proof -
  let ?i = "frame virt div 1024"
  have i: "?i < 1024" by (simp add: less_mult_imp_div_less)
  have Q: "Q < 0x100000" using ok by (simp add: vmm_ok_def space_ok_def)
  have "tables (phys s') Q \<subseteq> tables (phys s) Q \<union> free_pages (bitmap s) \<and>
      free_pages (bitmap s') \<subseteq> free_pages (bitmap s)"
  proof (cases "present (pde (phys s) Q ?i)")
    case True
    then have "frame (pde (phys s) Q ?i) \<noteq> Q" using ok i by (simp add: vmm_ok_def space_ok_def)
    with True map have "pde (phys s') Q j = pde (phys s) Q j" "bitmap s' = bitmap s" if "j < 1024" for j
      using that Q by (auto simp: vmm_map_page_def get_page_table_present entry_addresses pde_def read32_write32_ent)
    then show ?thesis using i by (auto simp: tables_def src_present_def)
  next
    case False
    note create = get_page_table_create [OF ok False]
    then obtain p bm where "pmm_alloc (bitmap s) = Some (p :: u32, bm)"
      using map by (cases "pmm_alloc (bitmap s) :: (u32 \<times> u8 list) option")
        (auto simp: vmm_map_page_def)
    with create map obtain f bm where f: "f \<in> free_pages (bitmap s)"
      and bm: "free_pages bm = free_pages (bitmap s) - {f}" "bitmap s' = bm"
      and s': "phys s' = write32 (hook_table (phys s) Q ?i f)
        (ent f (frame virt mod 1024)) ((pa AND FRAME_MASK) OR fl OR PAGE_PRESENT)"
      by (auto simp: vmm_map_page_def entry_addresses)
    have fQ: "f < 0x100000" "f \<noteq> Q" using free_bound [OF f] f ok by (auto simp: vmm_ok_def space_ok_def)
    have "pde (phys s') Q j = (if j = ?i then base f OR 7 else pde (phys s) Q j)" if "j < 1024" for j
      using that fQ Q i unfolding s' by (simp add: pde_def read32_write32_ent hook_table_reads)
    then show ?thesis using bm f i table_entry_bits [OF fQ(1)]
      by (auto simp: tables_def src_present_def split: if_splits)
  qed
  then show "tables (phys s') Q \<subseteq> tables (phys s) Q \<union> free_pages (bitmap s)"
    and "free_pages (bitmap s') \<subseteq> free_pages (bitmap s)" by simp_all
qed

lemma map_page_within:
  assumes within: "paging_within F m0 P s" and ok: "vmm_ok s P"
    and map: "vmm_map_page (base P) virt pa fl s = Some s'"
  shows "paging_within F m0 P s'"
proof -
  have "read32 (phys s') (ent q j) = read32 m0 (ent q j)" if "q < 0x100000" "q \<notin> F" "j < 1024" for q j
  proof -
    have "q \<noteq> P" "q \<notin> tables (phys s) P" "q \<notin> free_pages (bitmap s)"
      using within that(2) by (auto simp: paging_within_def)
    from vmm_map_page_frame [OF ok map that(1) this that(3)] within that show ?thesis
      by (simp add: paging_within_def)
  qed
  then show ?thesis
    using within vmm_map_page_tables [OF ok map] unfolding paging_within_def by blast
qed

lemma init_map_loop_within:
  "identity_upto P k s \<Longrightarrow> paging_within F m0 P s \<Longrightarrow> k \<le> 4096 \<Longrightarrow>
   init_map_loop (base k) s = Some s' \<Longrightarrow> paging_within F m0 P s'"
proof (induction "4096 - k" arbitrary: k s)
  case 0
  then have "k = 4096" by simp
  with 0 show ?case using base_less [of 4096] by (simp add: init_map_loop.simps [of "base 4096"])
next
  case (Suc d)
  then have k: "k < 4096" by simp
  obtain t where map: "vmm_map_page (kernel_pd s) (base k) (base k)
      (PAGE_PRESENT OR PAGE_WRITE OR PAGE_USER) s = Some t"
    and t: "identity_upto P (Suc k) t"
    by (rule identity_step [OF Suc.prems(1) k])
  have kpd: "kernel_pd s = base P" and ok: "vmm_ok s P" using Suc.prems(1) by (simp_all add: identity_upto_def)
  have "paging_within F m0 P t"
    by (rule map_page_within [OF Suc.prems(2) ok map [unfolded kpd]])
  moreover have "init_map_loop (base (Suc k)) t = Some s'"
    using Suc.prems(4) map k by (simp add: init_map_loop.simps [of "base k"] base_less base_step)
  ultimately show ?case using Suc.hyps(1) [of "Suc k" t] Suc.hyps(2) t k by simp
qed

text \<open>From the words of a page to its bytes.\<close>

lemma page_bytes:
  assumes "\<forall>j < 1024. read32 m (ent (frame x) j) = read32 m' (ent (frame x) j)"
  shows "m x = m' x"
proof -
  let ?p = "frame x" and ?j = "unat x mod 4096 div 4" and ?k = "unat x mod 4"
  have j: "?j < 1024" by (simp add: less_mult_imp_div_less)
  have eq: "word_le (read_bytes m (ent ?p ?j) 4) = (word_le (read_bytes m' (ent ?p ?j) 4) :: u32)"
    using assms j unfolding read32_def by blast
  have bytes: "read_bytes n (ent ?p ?j) 4 = bytes_le 4 (word_le (read_bytes n (ent ?p ?j) 4) :: u32)" for n
    by (rule bytes_le_word_le [symmetric]) simp_all
  have "read_bytes m (ent ?p ?j) 4 = read_bytes m' (ent ?p ?j) 4"
    using bytes [of m, unfolded eq] bytes [of m'] by simp
  then have "read_bytes m (ent ?p ?j) 4 ! ?k = read_bytes m' (ent ?p ?j) 4 ! ?k" by simp
  moreover have "ent ?p ?j + of_nat ?k = x"
  proof -
    have "unat x mod 4096 mod 4 = ?k" by (simp add: mod_mod_cancel)
    then have "4 * ?j + ?k = unat x mod 4096" using mult_div_mod_eq [of 4 "unat x mod 4096"] by simp
    moreover have "?p * 4096 + unat x mod 4096 = unat x" by (simp only: frame_def div_mult_mod_eq)
    ultimately have "?p * 4096 + 4 * ?j + ?k = unat x" by linarith
    then have "of_nat (?p * 4096 + 4 * ?j + ?k) = x" by simp
    then show ?thesis by (simp add: ent_def)
  qed
  ultimately show ?thesis by (simp add: nth_read_bytes)
qed

lemma init_paging_frame:
  assumes inv: "pmm_inv (bitmap s)" and nz: "0 \<notin> free_pages (bitmap s)"
    and five: "5 \<le> card (free_pages (bitmap s))"
  obtains P s' where "init_paging s = Some s'" and "cr3 s' = base P" and "cr0 s' = cr0 s OR 0x80000000"
    and "vmm_ok s' P" and "\<forall>v < 0x100000. pte (phys s') P v = (if v < 4096 then base v OR 7 else 0)"
    and "P \<in> free_pages (bitmap s)" and "free_pages (bitmap s') \<subseteq> free_pages (bitmap s)"
    and "tables (phys s') P \<subseteq> free_pages (bitmap s)"
    and "\<And>x. frame x \<notin> free_pages (bitmap s) \<Longrightarrow> phys s' x = phys s x"
proof -
  let ?F = "free_pages (bitmap s)"
  obtain P' s' where i: "init_paging s = Some s'" "kernel_pd s' = base P'" "cr3 s' = base P'"
      "cr0 s' = cr0 s OR 0x80000000" "vmm_ok s' P'"
      "\<forall>v < 0x100000. pte (phys s') P' v = (if v < 4096 then base v OR 7 else 0)"
    using init_paging_identity [OF assms] by blast
  from five have "?F \<noteq> {}" by auto
  then obtain pd bm where a: "pmm_alloc (bitmap s) = Some (pd :: u32, bm)"
    using pmm_alloc_None [of "bitmap s", where ?'a = 32] by fastforce
  then obtain P where P: "P \<in> ?F" "pd = base P" and bm: "bm = bit_set (bitmap s) P"
    unfolding base_def by (auto elim: pmm_alloc_Some)
  have Pb: "P < 0x100000" using free_bound [OF P(1)] by simp
  have free: "free_pages bm = ?F - {P}" unfolding bm by (rule free_bit_set [OF inv free_bound [OF P(1)]])
  have four: "4 \<le> card (free_pages bm)" using five P(1) by (simp add: free card_Diff_singleton)
  have unused: "P \<notin> free_pages bm" by (simp add: free)
  let ?s = "s\<lparr>phys := zero_table (phys s) pd 1024, bitmap := bm, kernel_pd := pd\<rparr>"
  note z = zeroed_directory [OF Pb unused, where m = "phys s"]
  have id0: "identity_upto P 0 ?s"
    using z four inv nz bm free P(2) by (simp add: identity_upto_def vmm_ok_def)
  have within0: "paging_within ?F (phys s) P ?s"
    using z(2) P free Pb by (auto simp: paging_within_def tables_def src_present_def read32_zero_table)
  have b0: "base 0 = 0" by (simp add: base_def)
  from i(1) a obtain t where t: "init_map_loop (base 0) ?s = Some t" "s' = t\<lparr>current_pd := kernel_pd t,
      cr3 := kernel_pd t, cr0 := cr0 t OR 0x80000000\<rparr>"
    by (auto simp: init_paging_def b0 split: option.splits)
  from init_map_loop_within [OF id0 within0 _ t(1)] have w: "paging_within ?F (phys s) P t" by simp
  from init_map_loop_identity [OF id0] t(1) have "kernel_pd t = base P" by (auto simp: identity_upto_def)
  with i(2) t(2) have "base P' = base P" by simp
  moreover have "P' < 0x100000" using i(5) by (simp add: vmm_ok_def space_ok_def)
  ultimately have PP: "P' = P" using frame_base [of P] frame_base [of P'] Pb by simp
  have keep: "phys s' x = phys s x" if "frame x \<notin> ?F" for x
    by (rule page_bytes) (use w t(2) that in \<open>simp add: paging_within_def\<close>)
  show ?thesis
    by (rule that [of s' P]) (use i w t(2) P(1) keep in \<open>auto simp: PP paging_within_def\<close>)
qed

section \<open>Start-up with a RAM disk\<close>

text \<open>
  The serial line and the controllers: a device state is live when the serial
  line always becomes ready again and stays so after any output.
\<close>

definition console_live :: "'d hardware \<Rightarrow> ('d \<Rightarrow> bool) \<Rightarrow> bool" where
  "console_live hw live \<longleftrightarrow>
     (\<forall>p b d. live d \<longrightarrow> live (out8 hw p b d)) \<and>
     (\<forall>str d. live d \<longrightarrow> (\<exists>d'. serial_printf hw str d = Some d' \<and> live d'))"

text \<open>The pages pmm_init frees.\<close>

definition boot_free :: "u32 \<Rightarrow> 32 memory \<Rightarrow> multiboot_info \<Rightarrow> mmap_entry list \<Rightarrow> nat set" where
  "boot_free ke m mb es = {i. i < PMM_MAX_PAGES \<and> (\<exists>e \<in> set es. i \<in> entry_pages e) \<and>
     0x100 \<le> i \<and> kernel_end_page ke \<le> i \<and> \<not> reserved_by_modules m mb i}"

text \<open>
  What the boot loader leaves behind: the multiboot structure in the first
  megabyte with a memory map that has at least five free pages, and, with a
  RAM disk, the module list in the first megabyte, whose first module holds
  the members ts.
\<close>

definition boot_map :: "u32 \<Rightarrow> 32 memory \<Rightarrow> u32 \<Rightarrow> mmap_entry list \<Rightarrow> bool" where
  "boot_map ke m info es \<longleftrightarrow>
     mmap_described I386 m (read_multiboot m info) es \<and>
     5 \<le> card (boot_free ke m (read_multiboot m info) es) \<and> unat info + 52 \<le> 0x100000"

definition boot_handover :: "u32 \<Rightarrow> 32 memory \<Rightarrow> u32 \<Rightarrow> mmap_entry list \<Rightarrow> u32 \<Rightarrow> tar_member list \<Rightarrow> bool" where
  "boot_handover ke m info es a ts \<longleftrightarrow> boot_map ke m info es \<and>
     (let mb = read_multiboot m info in
      unat (mb_mods_addr mb) + 8 \<le> 0x100000 \<and>
      mb_flags mb AND push_bit 3 1 \<noteq> 0 \<and> 0 < mb_mods_count mb \<and>
      (\<exists>e. read_module m (mb_mods_addr mb) 0 = (a, e) \<and>
         unat a + length (tar_image ts) \<le> unat e \<and> unat e < 2 ^ 32 - 4096) \<and>
      holds m a (tar_image ts) \<and> (\<forall>t \<in> set ts. member_ok t))"

lemma kprint_live:
  assumes "console_live hw live" "live (k_dev k)"
  shows "\<exists>d. kprint hw str k = Some (k\<lparr>k_screen := tty_chars str (k_screen k), k_dev := d\<rparr>) \<and> live d"
proof -
  from assms obtain d where "serial_printf hw str (k_dev k) = Some d" "live d"
    unfolding console_live_def by blast
  then show ?thesis by (auto simp: kprint_def kprintf_def tty_write_def)
qed

lemma outs_live:
  assumes "console_live hw live" "live d"
  shows "live (serial_init hw d)" "live (pic_remap hw d)" "live (pit_init hw d)" "live (pata_init d)"
  using assms by (simp_all add: console_live_def serial_init_def pic_remap_def pit_init_def
      pit_set_frequency_def pata_init_def Let_def)

text \<open>Addresses whose page is not free keep their bytes, so the handover stays readable.\<close>

lemma low_pages: "unat x < 0x100000 \<Longrightarrow> frame x \<notin> boot_free ke m mb es"
proof -
  assume "unat x < 0x100000"
  then have "frame x < 0x100" by (simp add: frame_def less_mult_imp_div_less)
  then show ?thesis by (simp add: boot_free_def)
qed

lemma low_read32:
  assumes keep: "\<And>x. frame x \<notin> boot_free ke m mb es \<Longrightarrow> m' x = m x"
    and low: "unat b + n \<le> 0x100000" "i + 4 \<le> n"
  shows "read32 m' (b + of_nat i) = read32 m (b + of_nat i)"
proof -
  have "m' (b + of_nat i + of_nat j) = m (b + of_nat i + of_nat j)" if "j < 4" for j
  proof (intro keep low_pages)
    have "unat (b + of_nat (i + j)) = unat b + (i + j)"
      by (rule unat_add_of_nat) (use low that in simp)
    then show "unat (b + of_nat i + of_nat j) < 0x100000" using low that by (simp add: add.assoc)
  qed
  then show ?thesis unfolding read32_def by (intro arg_cong [where f = word_le] read_bytes_cong) simp
qed

lemma archive_pages:
  assumes h: "boot_handover ke m info es a ts" and x: "x \<in> region a (length (tar_image ts))"
  shows "frame x \<notin> boot_free ke m (read_multiboot m info) es"
proof -
  let ?mb = "read_multiboot m info" and ?n = "length (tar_image ts)"
  from h obtain e where e: "read_module m (mb_mods_addr ?mb) 0 = (a, e)" "unat a + ?n \<le> unat e" "unat e < 2 ^ 32 - 4096"
    and mods: "mb_flags ?mb AND push_bit 3 1 \<noteq> 0" "0 < mb_mods_count ?mb"
    unfolding boot_handover_def Let_def by blast
  from in_region_nat [OF x] obtain i where i: "i < ?n" "x = a + of_nat i" by blast
  have ux: "unat x = unat a + i" unfolding i(2) by (rule unat_add_of_nat) (use e i(1) in simp)
  have "unat (e + 4095) = unat e + 4095" using e(3) unat_add_of_nat [of e 4095] by simp
  then have up: "unat ((e + 4095) div 4096) = (unat e + 4095) div 4096" by (simp add: unat_div)
  have "frame x \<in> module_pages (a, e)"
  proof -
    have "unat a div 4096 \<le> unat x div 4096" by (rule div_le_mono) (simp add: ux)
    moreover have "unat x div 4096 < (unat e + 4095) div 4096"
    proof -
      have "unat x < unat e" using ux i(1) e(2) by linarith
      then have "(unat x + 4096) div 4096 \<le> (unat e + 4095) div 4096" by (intro div_le_mono) simp
      then show ?thesis by simp
    qed
    moreover have "unat (a div 4096) = unat a div 4096" by (simp add: unat_div)
    ultimately show ?thesis unfolding module_pages_def frame_def fst_conv snd_conv mem_Collect_eq up by simp
  qed
  then have "\<exists>k < unat (mb_mods_count ?mb). frame x \<in> module_pages (read_module m (mb_mods_addr ?mb) k)"
    using e(1) mods(2) by (intro exI [of _ 0]) (simp add: word_less_nat_alt)
  with mods(1) show ?thesis by (simp add: boot_free_def reserved_by_modules_def)
qed

lemma init_core_ok:
  assumes con: "console_live hw live" "live (k_dev k)"
    and h: "boot_map (kernel_end_at sy) (k_mem k) info es"
    and F: "F = boot_free (kernel_end_at sy) (k_mem k) (read_multiboot (k_mem k) info) es"
  obtains k' P where "init_core hw sy info k = Some k'" and "live (k_dev k')"
    and "k_screen k' = k_screen k" "k_tar k' = k_tar k" "k_sched k' = k_sched k" "k_files k' = vfs_init (k_files k)"
    and "k_gdt k' = init_gdt32 (gdt_at sy) (tss_at sy) (k_gdt k)"
    and "k_idt k' = idt_install32 (idt_at sy) (irq0_at sy) (irq1_at sy) (syscall_at sy) (k_idt k)"
    and "k_kbd k' = keyboard_init (k_kbd k)"
    and "vmm_ok (k_vmm k') P" "phys (k_vmm k') = k_mem k'" "cr3 (k_vmm k') = base P"
    and "cr0 (k_vmm k') = cr0 (k_vmm k) OR 0x80000000"
    and "\<forall>v < 0x100000. pte (k_mem k') P v = (if v < 4096 then base v OR 7 else 0)"
    and "insert P (tables (k_mem k') P) \<subseteq> F" "free_pages (bitmap (k_vmm k')) \<subseteq> F"
    and "\<And>x. frame x \<notin> F \<Longrightarrow> k_mem k' x = k_mem k x"
proof -
  let ?m = "k_mem k" and ?mb = "read_multiboot (k_mem k) info"
  have "mmap_described I386 ?m ?mb es" using h by (simp add: boot_map_def)
  then obtain bm where bm: "pmm_init I386 (kernel_end_at sy) ?m ?mb = Some bm" "pmm_inv bm"
    and free: "free_pages bm = {i. i < PMM_MAX_PAGES \<and> (\<exists>e \<in> set es. i \<in> entry_pages e) \<and>
      0x100 \<le> i \<and> kernel_end_page (kernel_end_at sy) \<le> i \<and> \<not> reserved_by_modules ?m ?mb i}"
    by (rule pmm_init_free_pages)
  have freeF: "free_pages bm = F" unfolding free F boot_free_def ..
  let ?v = "(k_vmm k)\<lparr>phys := ?m, bitmap := bm\<rparr>"
  have "0 \<notin> F" by (simp add: F boot_free_def)
  moreover have "5 \<le> card F" using h by (simp add: F boot_map_def)
  ultimately have pre: "pmm_inv (bitmap ?v)" "0 \<notin> free_pages (bitmap ?v)" "5 \<le> card (free_pages (bitmap ?v))"
    using bm(2) freeF by simp_all
  obtain P v where v: "init_paging ?v = Some v" "cr3 v = base P" "cr0 v = cr0 ?v OR 0x80000000" "vmm_ok v P"
      "\<forall>w < 0x100000. pte (phys v) P w = (if w < 4096 then base w OR 7 else 0)"
      "P \<in> free_pages (bitmap ?v)" "free_pages (bitmap v) \<subseteq> free_pages (bitmap ?v)"
      "tables (phys v) P \<subseteq> free_pages (bitmap ?v)"
    and keep: "\<And>x. frame x \<notin> free_pages (bitmap ?v) \<Longrightarrow> phys v x = phys ?v x"
    by (rule init_paging_frame [OF pre]) (rule that)
  let ?d = "pata_init (pit_init hw (pic_remap hw (k_dev k)))"
  have live: "live ?d" using outs_live [OF con(1)] con(2) by blast
  let ?k = "k\<lparr>k_gdt := init_gdt32 (gdt_at sy) (tss_at sy) (k_gdt k),
          k_idt := idt_install32 (idt_at sy) (irq0_at sy) (irq1_at sy) (syscall_at sy) (k_idt k),
          k_dev := ?d, k_vmm := v, k_mem := phys v, k_files := vfs_init (k_files k), k_kbd := keyboard_init (k_kbd k)\<rparr>"
  have run: "init_core hw sy info k = Some ?k" using bm(1) v(1) by (simp add: init_core_def Let_def)
  show ?thesis
    by (rule that [OF run, of P]) (use v keep live freeF in simp_all)
qed

section \<open>The first task\<close>

text \<open>
  A file that is an ELF program for the buffer: its header, the segments it
  asks for, and its entry point, whatever memory it is copied into.
\<close>

definition file_memory :: "u8 list \<Rightarrow> 32 memory" where
  "file_memory data = write_bytes (\<lambda>_. 0) ELF_BUFFER data"

definition program_phdrs :: "u8 list \<Rightarrow> u32 elf_phdr list" where
  "program_phdrs data = image_phdrs read_elf32_hdr read_elf32_phdr 32 (file_memory data) ELF_BUFFER"

definition elf_program :: "u8 list \<Rightarrow> u32 \<Rightarrow> bool" where
  "elf_program data entry \<longleftrightarrow>
     e_ident (read_elf32_hdr (file_memory data) ELF_BUFFER) = ELF_MAGIC \<and>
     elf_image read_elf32_hdr read_elf32_phdr 52 32 (file_memory data) ELF_BUFFER (length data) \<and>
     e_entry (read_elf32_hdr (file_memory data) ELF_BUFFER) = entry \<and> entry \<noteq> 0"

lemma load_program:
  assumes p: "elf_program data entry" and m: "holds m ELF_BUFFER data"
  shows "elf_load32 ELF_BUFFER m = (entry, fold (put_segment m ELF_BUFFER) (program_phdrs data) m)"
proof -
  have im: "elf_image read_elf32_hdr read_elf32_phdr 52 32 (file_memory data) ELF_BUFFER (length data)"
    using p by (simp add: elf_program_def)
  then have len: "length data \<le> 2 ^ LENGTH(32)" by (simp add: elf_image_def)
  have agree: "m x = file_memory data x" if "x \<in> region ELF_BUFFER (length data)" for x
  proof -
    from in_region_nat [OF that] obtain i where i: "i < length data" "x = ELF_BUFFER + of_nat i" by blast
    show ?thesis using holds_nth [OF m i(1)] write_bytes_inside [OF len i(1)]
      by (simp add: i(2) file_memory_def)
  qed
  have hdr: "read_elf32_hdr m ELF_BUFFER = read_elf32_hdr (file_memory data) ELF_BUFFER"
    by (rule elf32.image_hdr [OF im agree])
  note same = elf32.image_agree [OF im agree]
  from elf32.load_all [OF same(2)] same(1) show ?thesis
    using p unfolding elf_program_def elf_load32_def hdr by (simp add: program_phdrs_def Let_def hdr)
qed

text \<open>The first timer interrupt after the start: schedule leaves for the task, in user mode at its entry point.\<close>

definition starts_task :: "symbols \<Rightarrow> u32 \<Rightarrow> u32 sched \<Rightarrow> bool" where
  "starts_task sy entry s \<longleftrightarrow>
     sched_ok s \<and> task_count s = 1 \<and>
     (\<forall>sp. case schedule (tasks_at sy) sp s of (sp', s') \<Rightarrow>
        current_task s' = 0 \<and> get_current_pid s' = 1 \<and> tss_stack s' = kernel_stack_end (tasks_at sy) 0 \<and>
        irq0_return (sched.memory s') sp' =
          (replicate 8 0, [entry, 0x1B, 0x202, user_stack_end (tasks_at sy) 0, 0x23]))"

lemma first_task:
  assumes len: "length (tasks s) = MAX_TASKS"
    and t: "t = task_create_user (tasks_at sy) entry ((scheduler_init s)\<lparr>memory := m\<rparr>)"
  shows "starts_task sy entry t"
    and "x \<notin> region (kernel_stack (tasks_at sy) 0) 4096 \<Longrightarrow> sched.memory t x = m x"
proof -
  let ?s = "(scheduler_init s)\<lparr>memory := m\<rparr>"
  have ok: "sched_ok ?s" using scheduler_init_ok [OF len] by (simp add: sched_ok_def)
  have z: "task_count ?s = 0" "current_task ?s = -1" "length (tasks ?s) = 10"
    using ok by (simp_all add: scheduler_init_def sched_ok_def MAX_TASKS_def)
  have room: "task_count ?s < 10" by (simp add: z)
  note fr = user_frame_spec [where 'a = 32, OF _ ok room t refl, unfolded z]
  have okt: "sched_ok t" unfolding t by (rule task_create_user_ok [OF ok])
  have f: "task_count t = 1" "current_task t = -1" "active (tasks t ! 0) = 1" "pid (tasks t ! 0) = 1"
    unfolding t task_create_user_fields [OF room] using z by simp_all
  have sch: "schedule (tasks_at sy) sp t = (stack_pointer (tasks t ! 0),
      t\<lparr>current_task := 0, tss_stack := kernel_stack_end (tasks_at sy) 0\<rparr>)" for sp
    using f by (simp add: schedule_unfold save_sp_def)
  show "starts_task sy entry t"
    using fr(1) okt f by (simp add: starts_task_def sch get_current_pid_def frame_regs_def)
  show "x \<notin> region (kernel_stack (tasks_at sy) 0) 4096 \<Longrightarrow> sched.memory t x = m x"
    using fr(2) [of x] by simp
qed

lemma finddir_initrd:
  assumes "ramdisk ts a s" "i < length ts" "i < 32" "\<forall>j < i. tname (ts ! j) \<noteq> tname (ts ! i)"
  shows "vfs_finddir tar_drivers (Some (TarNode 0)) (tname (ts ! i)) s = Some (Some (TarNode (i + 1)), s)"
    and "read_slot (node_at tar_drivers s (TarNode (i + 1))) = Some fs_driver.Tar"
    and "node_length (node_at tar_drivers s (TarNode (i + 1))) = of_nat (length (tdata (ts ! i)))"
  using assms(1-3) finddir_ramdisk [OF assms]
  by (simp_all add: vfs_finddir_def tar_drivers_def tar_node_at_def ramdisk_def VFS_DIRECTORY_def)

lemma tar_read_ram: "\<exists>r. snd (tar_read n off sz buf s) = s\<lparr>ram := r\<rparr>"
proof (cases "snd (tar_read n off sz buf s) = s")
  case True
  then show ?thesis by (intro exI [of _ "ram s"]) simp
next
  case False
  then show ?thesis by (auto simp: tar_read_def Let_def split: if_splits)
qed

lemma ramdisk_ram [simp]: "ramdisk ts a (s\<lparr>ram := r\<rparr>) = ramdisk ts a s"
  by (simp add: ramdisk_def tar_ok_def)

text \<open>Reading a whole member into the buffer.\<close>

lemma read_member:
  assumes rd: "ramdisk ts a s" and i: "i < length ts" "i < 32"
    and img: "holds (ram s) a (tar_image ts)" "\<forall>t \<in> set ts. member_ok t"
    and len: "length (tar_image ts) \<le> 2 ^ 32"
    and data: "data = tdata (ts ! i)"
    and apart: "region buf (length data) \<inter> region a (length (tar_image ts)) = {}"
  obtains t where "tar_read (TarNode (i + 1)) 0 (of_nat (length data)) buf s = (of_nat (length data), t)"
    and "ramdisk ts a t" "holds (ram t) buf data"
    and "\<And>x. x \<notin> region buf (length data) \<Longrightarrow> ram t x = ram s x"
proof -
  have ok: "member_ok (ts ! i)" using img(2) i(1) by simp
  then have dlen: "length (tdata (ts ! i)) < 2 ^ 32" by (simp add: member_ok_def)
  have sz: "unat (of_nat (length data) :: u32) = length data"
    by (rule unat_of_nat_less) (use dlen in \<open>simp add: data\<close>)
  have e: "file_entries s ! i = image_entries a ts ! i" using rd i by (simp add: ramdisk_def)
  have held: "holds (ram s) (faddress (file_entries s ! i)) (tdata (ts ! i))"
    unfolding e by (rule image_entries_data [OF img i(1)])
  obtain k where k: "faddress (image_entries a ts ! i) = a + of_nat k" "k + length data \<le> length (tar_image ts)"
    using image_entries_region [OF img(2) i(1), of a] unfolding data by blast
  have "region (a + of_nat k) (length data) \<subseteq> region a (length (tar_image ts))"
    by (rule region_offset [OF k(2)]) (use len in simp)
  then have disj: "region buf (length data) \<inter> region (faddress (file_entries s ! i) + 0) (length data) = {}"
    using apart by (auto simp: e k(1))
  have n: "length data = min (unat (of_nat (length data) :: u32)) (length (tdata (ts ! i)) - unat (0 :: u32))"
    unfolding sz by (simp add: data)
  have off: "unat (0 :: u32) + unat (of_nat (length data) :: u32) < 2 ^ 32" unfolding sz using dlen by (simp add: data)
  from tar_read_data [OF rd i held dlen off n disj] obtain t
    where t: "tar_read (TarNode (i + 1)) 0 (of_nat (length data)) buf s = (of_nat (length data), t)"
      "read_bytes (ram t) buf (length data) = take (unat (of_nat (length data) :: u32)) (drop (unat (0 :: u32)) (tdata (ts ! i)))"
      "\<forall>x. x \<notin> region buf (length data) \<longrightarrow> ram t x = ram s x"
    by blast
  have "ramdisk ts a t"
    using tar_read_ram [of "TarNode (i + 1)" 0 "of_nat (length data)" buf s] t(1) rd by auto
  moreover have "holds (ram t) buf data" using t(2) unfolding sz by (simp add: holds_def data)
  ultimately show ?thesis using that t(1,3) by blast
qed

text \<open>
  What loading leaves of the memory m: the file in the buffer, then its
  segments, then the frame on the kernel stack of the first task.
\<close>

definition loaded :: "symbols \<Rightarrow> u8 list \<Rightarrow> 32 memory \<Rightarrow> 32 memory \<Rightarrow> bool" where
  "loaded sy data m m' \<longleftrightarrow>
     (\<exists>f. holds f ELF_BUFFER data \<and> (\<forall>x. x \<notin> region ELF_BUFFER (length data) \<longrightarrow> f x = m x) \<and>
        (\<forall>x. x \<notin> region (kernel_stack (tasks_at sy) 0) 4096 \<longrightarrow>
           m' x = fold (put_segment f ELF_BUFFER) (program_phdrs data) f x))"

lemma load_init_ok:
  assumes con: "console_live hw live" "live (k_dev k)"
    and rd: "ramdisk ts a (k_tar k)" and ram: "ram (k_tar k) = k_mem k"
    and i: "i < length ts" "i < 32" "\<forall>j < i. tname (ts ! j) \<noteq> tname (ts ! i)"
    and img: "holds (k_mem k) a (tar_image ts)" "\<forall>t \<in> set ts. member_ok t"
    and len: "length (tar_image ts) \<le> 2 ^ 32"
    and data: "data = tdata (ts ! i)" and prog: "elf_program data entry"
    and apart: "region ELF_BUFFER (length data) \<inter> region a (length (tar_image ts)) = {}"
    and slots: "length (tasks (k_sched k)) = MAX_TASKS"
  obtains k' where "load_init hw sy (Some (TarNode (i + 1))) k = Some k'" and "live (k_dev k')"
    and "k_screen k' = tty_chars (cs ''User init loaded'' @ [10]) (k_screen k)"
    and "loaded sy data (k_mem k) (k_mem k')" and "starts_task sy entry (k_sched k')"
    and "ramdisk ts a (k_tar k')" and "k_files k' = k_files k" "k_vmm k' = k_vmm k" "k_gdt k' = k_gdt k"
      "k_idt k' = k_idt k" "k_kbd k' = k_kbd k"
proof -
  obtain t where t: "tar_read (TarNode (i + 1)) 0 (of_nat (length data)) ELF_BUFFER (k_tar k) = (of_nat (length data), t)"
    and rt: "ramdisk ts a t" and held: "holds (ram t) ELF_BUFFER data"
    and keep: "\<And>x. x \<notin> region ELF_BUFFER (length data) \<Longrightarrow> ram t x = k_mem k x"
    using read_member [OF rd i(1,2) img(1) [folded ram] img(2) len data apart] unfolding ram by metis
  note load = load_program [OF prog held]
  have entry: "entry \<noteq> 0" using prog by (simp add: elf_program_def)
  let ?m = "fold (put_segment (ram t) ELF_BUFFER) (program_phdrs data) (ram t)"
  let ?s = "task_create_user (tasks_at sy) entry ((scheduler_init (k_sched k))\<lparr>memory := ?m\<rparr>)"
  note task = first_task [OF slots refl, where sy = sy and entry = entry and m = ?m]
  let ?k = "k\<lparr>k_tar := t, k_sched := ?s, k_mem := sched.memory ?s\<rparr>"
  have "live (k_dev ?k)" using con(2) by simp
  from kprint_live [OF con(1) this] obtain d
    where d: "kprint hw (cs ''User init loaded'' @ [10]) ?k =
        Some (?k\<lparr>k_screen := tty_chars (cs ''User init loaded'' @ [10]) (k_screen ?k), k_dev := d\<rparr>)" "live d"
    by blast
  note node = finddir_initrd(2,3) [OF rd i]
  have call: "read_call tar_drivers fs_driver.Tar (TarNode (i + 1)) 0 (of_nat (length data)) ELF_BUFFER (k_tar k)
      = Some (of_nat (length data), t)"
    using t by (simp add: tar_drivers_def)
  have run: "load_init hw sy (Some (TarNode (i + 1))) k =
      Some (?k\<lparr>k_screen := tty_chars (cs ''User init loaded'' @ [10]) (k_screen k), k_dev := d\<rparr>)"
    using d(1) entry load unfolding load_init_def option.case node data [symmetric] Let_def call bind.bind_lunit
    by simp
  have mem: "loaded sy data (k_mem k) (sched.memory ?s)"
    unfolding loaded_def using held keep task(2) by (intro exI [of _ "ram t"]) blast
  show ?thesis
    by (rule that [OF run]) (use d(2) mem task(1) rt in simp_all)
qed

lemma mount_initrd_ok:
  assumes con: "console_live hw live" "live (k_dev k)"
    and tar: "tar_ok (k_tar k)" and slots: "length (tasks (k_sched k)) = MAX_TASKS"
    and mods: "0 < read32 (k_mem k) (info + 20)" "read32 (k_mem k) (read32 (k_mem k) (info + 24)) = a"
    and img: "holds (k_mem k) a (tar_image ts)" "\<forall>t \<in> set ts. member_ok t"
    and len: "length (tar_image ts) \<le> 2 ^ 32"
    and i: "i < length ts" "i < 32" "tname (ts ! i) = cs ''init''" "\<forall>j < i. tname (ts ! j) \<noteq> cs ''init''"
    and data: "data = tdata (ts ! i)" and prog: "elf_program data entry"
    and apart: "region ELF_BUFFER (length data) \<inter> region a (length (tar_image ts)) = {}"
  obtains k' where "mount_initrd hw sy info k = Some k'" and "live (k_dev k')"
    and "k_screen k' = tty_chars (cs ''User init loaded'' @ [10]) (k_screen k)"
    and "loaded sy data (k_mem k) (k_mem k')" and "starts_task sy entry (k_sched k')"
    and "ramdisk ts a (k_tar k')" and "root_node (k_files k') = Some (TarNode 0)" "k_vmm k' = k_vmm k"
proof -
  let ?t0 = "(k_tar k)\<lparr>ram := k_mem k\<rparr>"
  have "tar_ok ?t0" "holds (ram ?t0) a (tar_image ts)" using tar img(1) by (simp_all add: tar_ok_def)
  from tar_parse_ramdisk [OF this img(2)] obtain t
    where t: "tar_parse a ?t0 = Some (TarNode 0, t)" and rd: "ramdisk ts a t" and ram: "ram t = k_mem k"
    by auto
  obtain c files where files: "vfs_mount [slash] (Some (TarNode 0)) (k_files k) = Inr (c, files)"
    and root: "root_node files = Some (TarNode 0)"
    by (simp add: vfs_mount_root)
  have first: "\<forall>j < i. tname (ts ! j) \<noteq> tname (ts ! i)" using i(3,4) by simp
  let ?k = "k\<lparr>k_files := files, k_tar := t, k_mem := k_mem k\<rparr>"
  have k: "live (k_dev ?k)" "ramdisk ts a (k_tar ?k)" "ram (k_tar ?k) = k_mem ?k"
      "holds (k_mem ?k) a (tar_image ts)" "length (tasks (k_sched ?k)) = MAX_TASKS"
    using con(2) rd ram img(1) slots by simp_all
  obtain k' where k': "load_init hw sy (Some (TarNode (i + 1))) ?k = Some k'" "live (k_dev k')"
      "k_screen k' = tty_chars (cs ''User init loaded'' @ [10]) (k_screen ?k)"
      "loaded sy data (k_mem ?k) (k_mem k')" "starts_task sy entry (k_sched k')"
      "ramdisk ts a (k_tar k')" "k_files k' = k_files ?k" "k_vmm k' = k_vmm ?k"
    by (rule load_init_ok [OF con(1) k(1-3) i(1,2) first k(4) img(2) len data prog apart k(5), of sy])
  have run: "mount_initrd hw sy info k = Some k'"
    using mods(1) k'(1) files t finddir_initrd(1) [OF rd i(1,2) first]
    by (simp add: mount_initrd_def mods(2) i(3) ram)
  show ?thesis by (rule that [OF run]) (use k'(2-) root in simp_all)
qed

text \<open>All that is written after paging is on.\<close>

definition boot_writes :: "symbols \<Rightarrow> u8 list \<Rightarrow> u32 set" where
  "boot_writes sy data = region ELF_BUFFER (length data)
     \<union> (\<Union>p \<in> set (program_phdrs data). segment_region p)
     \<union> region (kernel_stack (tasks_at sy) 0) 4096"

lemma loaded_outside:
  assumes "loaded sy data m m'" "x \<notin> boot_writes sy data"
  shows "m' x = m x"
proof -
  from assms(1) obtain f where f: "\<forall>x. x \<notin> region ELF_BUFFER (length data) \<longrightarrow> f x = m x"
      "\<forall>x. x \<notin> region (kernel_stack (tasks_at sy) 0) 4096 \<longrightarrow>
           m' x = fold (put_segment f ELF_BUFFER) (program_phdrs data) f x"
    unfolding loaded_def by blast
  have "m' x = fold (put_segment f ELF_BUFFER) (program_phdrs data) f x"
    using f(2) assms(2) by (simp add: boot_writes_def)
  also have "\<dots> = f x" by (rule put_segments_outside) (use assms(2) in \<open>simp add: boot_writes_def\<close>)
  also have "\<dots> = m x" using f(1) assms(2) by (simp add: boot_writes_def)
  finally show ?thesis .
qed

lemma entry_bytes:
  assumes "q < 0x100000" "j < 1024" and same: "\<And>x. frame x = q \<Longrightarrow> m' x = m x"
  shows "read32 m' (ent q j) = read32 m (ent q j)"
proof -
  have "m' (ent q j + of_nat k) = m (ent q j + of_nat k)" if "k < 4" for k
  proof (rule same)
    have b: "4 * j + k < 4096" "q * 4096 + 4096 \<le> 4294967296" using assms(1,2) that by simp_all
    then have "q * 4096 + 4 * j + k < 4294967296" by linarith
    then have "unat (ent q j + of_nat k) = q * 4096 + 4 * j + k"
      using unat_ent [OF assms(1,2)] unat_add_of_nat [of "ent q j" k] by simp
    then show "frame (ent q j + of_nat k) = q" using b(1) by (simp add: frame_def)
  qed
  then show ?thesis unfolding read32_def by (intro arg_cong [where f = word_le] read_bytes_cong) simp
qed

lemma paging_survives:
  assumes ok: "P < 0x100000"
    and same: "\<And>x. frame x \<in> insert P (tables m P) \<Longrightarrow> m' x = m x" and v: "v < 0x100000"
  shows "pte m' P v = pte m P v"
proof -
  have d: "pde m' P (v div 1024) = pde m P (v div 1024)"
    unfolding pde_def by (rule entry_bytes [OF ok vpn_bounds(1) [OF v]]) (simp add: same)
  show ?thesis
  proof (cases "present (pde m P (v div 1024))")
    case True
    then have t: "frame (pde m P (v div 1024)) \<in> tables m P"
      using vpn_bounds(1) [OF v] by (auto simp: tables_def src_present_def)
    have "read32 m' (ent (frame (pde m P (v div 1024))) (v mod 1024)) =
        read32 m (ent (frame (pde m P (v div 1024))) (v mod 1024))"
      by (rule entry_bytes [OF frame_bound vpn_bounds(2)]) (use t same in simp)
    with True d show ?thesis by (simp add: pte_def)
  next
    case False
    with d show ?thesis by (simp add: pte_def)
  qed
qed

section \<open>Properties\<close>

text \<open>The lines kmain prints, and the screen after them.\<close>

definition boot_log :: "u8 list list \<Rightarrow> log" where
  "boot_log ls = fold log_write (map (\<lambda>l. l @ [10]) ls) empty_log"

lemma shows_log_write: "shows_log s l \<Longrightarrow> shows_log (tty_chars str s) (log_write str l)"
  by (rule tty_chars_log)

text \<open>Up to the memory map: what every start with the right magic number does first.\<close>

lemma kmain_begins:
  assumes con: "console_live hw live" "live (k_dev k)" and scr: "length (cells (k_screen k)) = 2000"
    and h: "boot_map (kernel_end_at sy) (k_mem k) info es"
    and F: "F = boot_free (kernel_end_at sy) (k_mem k) (read_multiboot (k_mem k) info) es"
  obtains k1 P where "kmain hw sy MULTIBOOT_MAGIC info k =
      Option.bind (mount_initrd hw sy info k1) (\<lambda>k.
        Option.bind (kprint hw (cs ''Interrupts enabled'' @ [10]) k) (\<lambda>k. Some (Idling (k\<lparr>interrupts := True\<rparr>))))"
    and "live (k_dev k1)" "shows_log (k_screen k1) (boot_log [cs ''ZeptoOS i386 boot'', cs ''Core initialized''])"
    and "k_tar k1 = k_tar k" "k_sched k1 = k_sched k" "vmm_ok (k_vmm k1) P" "cr3 (k_vmm k1) = base P"
    and "cr0 (k_vmm k1) = cr0 (k_vmm k) OR 0x80000000"
    and "\<forall>v < 0x100000. pte (k_mem k1) P v = (if v < 4096 then base v OR 7 else 0)"
    and "insert P (tables (k_mem k1) P) \<subseteq> F" "\<And>x. frame x \<notin> F \<Longrightarrow> k_mem k1 x = k_mem k x"
proof -
  let ?k0 = "k\<lparr>mb_info := info, k_dev := serial_init hw (k_dev k), k_screen := kcls (k_screen k)\<rparr>"
  let ?l1 = "cs ''ZeptoOS i386 boot'' @ [10]" and ?l2 = "cs ''Core initialized'' @ [10]"
  have "live (k_dev ?k0)" using outs_live(1) [OF con] by simp
  from kprint_live [OF con(1) this, of ?l1] obtain d
    where d: "kprint hw ?l1 ?k0 = Some (?k0\<lparr>k_screen := tty_chars ?l1 (k_screen ?k0), k_dev := d\<rparr>)" "live d" by blast
  let ?k = "?k0\<lparr>k_screen := tty_chars ?l1 (k_screen ?k0), k_dev := d\<rparr>"
  have pre: "live (k_dev ?k)" "boot_map (kernel_end_at sy) (k_mem ?k) info es"
    "F = boot_free (kernel_end_at sy) (k_mem ?k) (read_multiboot (k_mem ?k) info) es"
    using d(2) h F by simp_all
  obtain k' P where k': "init_core hw sy info ?k = Some k'" "live (k_dev k')"
      "k_screen k' = k_screen ?k" "k_tar k' = k_tar ?k" "k_sched k' = k_sched ?k"
      "vmm_ok (k_vmm k') P" "cr3 (k_vmm k') = base P" "cr0 (k_vmm k') = cr0 (k_vmm ?k) OR 0x80000000"
      "\<forall>v < 0x100000. pte (k_mem k') P v = (if v < 4096 then base v OR 7 else 0)"
      "insert P (tables (k_mem k') P) \<subseteq> F"
    and keep: "\<And>x. frame x \<notin> F \<Longrightarrow> k_mem k' x = k_mem ?k x"
    by (rule init_core_ok [OF con(1) pre]) (rule that)
  from kprint_live [OF con(1) k'(2), of ?l2] obtain d2
    where d2: "kprint hw ?l2 k' = Some (k'\<lparr>k_screen := tty_chars ?l2 (k_screen k'), k_dev := d2\<rparr>)" "live d2" by blast
  have "shows_log (tty_chars ?l2 (tty_chars ?l1 (kcls (k_screen k)))) (log_write ?l2 (log_write ?l1 empty_log))"
    by (intro shows_log_write kcls_log scr)
  then have log: "shows_log (tty_chars ?l2 (k_screen k')) (boot_log [cs ''ZeptoOS i386 boot'', cs ''Core initialized''])"
    by (simp add: boot_log_def k'(3))
  let ?k1 = "k'\<lparr>k_screen := tty_chars ?l2 (k_screen k'), k_dev := d2\<rparr>"
  have "kmain hw sy MULTIBOOT_MAGIC info k =
      Option.bind (mount_initrd hw sy info ?k1) (\<lambda>k.
        Option.bind (kprint hw (cs ''Interrupts enabled'' @ [10]) k) (\<lambda>k. Some (Idling (k\<lparr>interrupts := True\<rparr>))))"
    unfolding kmain_def Let_def using d(1) k'(1) d2(1) by simp
  then show ?thesis
    by (rule that [of ?k1 P]) (use k' keep d2(2) log in simp_all)
qed

lemma handover_kept:
  assumes h: "boot_handover ke m info es a ts"
    and keep: "\<And>x. frame x \<notin> boot_free ke m (read_multiboot m info) es \<Longrightarrow> m' x = m x"
  shows "0 < read32 m' (info + 20)" "read32 m' (read32 m' (info + 24)) = a"
    and "holds m' a (tar_image ts)" "length (tar_image ts) \<le> 2 ^ 32"
proof -
  let ?mb = "read_multiboot m info"
  have low: "unat info + 52 \<le> 0x100000" using h by (simp add: boot_handover_def boot_map_def)
  have same: "read32 m' (b + of_nat i) = read32 m (b + of_nat i)"
    if "unat b + n \<le> 0x100000" "i + 4 \<le> n" for b n i
    by (rule low_read32 [where ke = ke and mb = ?mb and es = es]) (use keep that in blast)+
  have c: "read32 m' (info + 20) = mb_mods_count ?mb" and q: "read32 m' (info + 24) = mb_mods_addr ?mb"
    using same [OF low, of 20] same [OF low, of 24] by (simp_all add: read_multiboot_def)
  from h show "0 < read32 m' (info + 20)" by (simp add: boot_handover_def Let_def c)
  obtain e where e: "read_module m (mb_mods_addr ?mb) 0 = (a, e)" "unat a + length (tar_image ts) \<le> unat e"
      "unat e < 2 ^ 32 - 4096"
    and lowm: "unat (mb_mods_addr ?mb) + 8 \<le> 0x100000" and held: "holds m a (tar_image ts)"
    using h unfolding boot_handover_def Let_def by blast
  show "read32 m' (read32 m' (info + 24)) = a"
    using same [OF lowm, of 0] e(1) by (simp add: q read_module_def)
  have "read_bytes m' a (length (tar_image ts)) = read_bytes m a (length (tar_image ts))"
    by (rule read_bytes_cong) (intro keep archive_pages [OF h] nat_in_region)
  with held show "holds m' a (tar_image ts)" by (simp add: holds_def)
  show "length (tar_image ts) \<le> 2 ^ 32" using e by simp
qed

lemma handover_members: "boot_handover ke m info es a ts \<Longrightarrow> \<forall>t \<in> set ts. member_ok t"
  unfolding boot_handover_def Let_def by blast

text \<open>
  C1: The kernel starts the user program. When the boot loader hands over a
  memory map with five free pages and a RAM disk whose member init is an ELF
  program, kmain reaches its idle loop with interrupts on: the screen shows
  its four lines; /init resolves in the mounted RAM disk; paging maps the
  first 16 MB to themselves with tables in pages that were free, and keeps
  doing so unless loading overwrote a table; memory outside the free pages is
  as handed over, but for the file in its buffer, the segments of the program
  and the frame of its task; and the first timer interrupt leaves for the
  program's entry point in user mode.
\<close>

theorem kmain_starts_init:
  assumes "console_live hw live" "live (k_dev k)" "length (cells (k_screen k)) = 2000"
    and "tar_ok (k_tar k)" "length (tasks (k_sched k)) = MAX_TASKS"
    and "boot_handover (kernel_end_at sy) (k_mem k) info es a ts"
    and "i < length ts" "i < 32" "tname (ts ! i) = cs ''init''" "\<forall>j < i. tname (ts ! j) \<noteq> cs ''init''"
    and "elf_program (tdata (ts ! i)) entry"
    and "region ELF_BUFFER (length (tdata (ts ! i))) \<inter> region a (length (tar_image ts)) = {}"
  shows "\<exists>k' m P. kmain hw sy MULTIBOOT_MAGIC info k = Some (Idling k') \<and> interrupts k' \<and>
    shows_log (k_screen k') (boot_log [cs ''ZeptoOS i386 boot'', cs ''Core initialized'', cs ''User init loaded'',
      cs ''Interrupts enabled'']) \<and>
    vfs_resolve_path tar_drivers (Some (slash # cs ''init'')) (k_files k') (k_tar k') =
      Some (Inr (Some (TarNode (i + 1)), k_tar k')) \<and>
    cr3 (k_vmm k') = base P \<and> cr0 (k_vmm k') = cr0 (k_vmm k) OR 0x80000000 \<and>
    insert P (tables m P) \<subseteq> boot_free (kernel_end_at sy) (k_mem k) (read_multiboot (k_mem k) info) es \<and>
    (\<forall>v < 0x100000. pte m P v = (if v < 4096 then base v OR 7 else 0)) \<and>
    ((\<forall>x \<in> boot_writes sy (tdata (ts ! i)). frame x \<notin> insert P (tables m P)) \<longrightarrow>
      (\<forall>v < 0x100000. pte (k_mem k') P v = (if v < 4096 then base v OR 7 else 0))) \<and>
    (\<forall>x. frame x \<notin> boot_free (kernel_end_at sy) (k_mem k) (read_multiboot (k_mem k) info) es \<longrightarrow> m x = k_mem k x) \<and>
    loaded sy (tdata (ts ! i)) m (k_mem k') \<and> starts_task sy entry (k_sched k')"
proof -
  let ?F = "boot_free (kernel_end_at sy) (k_mem k) (read_multiboot (k_mem k) info) es"
  have map: "boot_map (kernel_end_at sy) (k_mem k) info es" using assms(6) by (simp add: boot_handover_def)
  note members = handover_members [OF assms(6)]
  obtain k1 P where run: "kmain hw sy MULTIBOOT_MAGIC info k =
      Option.bind (mount_initrd hw sy info k1) (\<lambda>k.
        Option.bind (kprint hw (cs ''Interrupts enabled'' @ [10]) k) (\<lambda>k. Some (Idling (k\<lparr>interrupts := True\<rparr>))))"
    and k1: "live (k_dev k1)" "shows_log (k_screen k1) (boot_log [cs ''ZeptoOS i386 boot'', cs ''Core initialized''])"
      "k_tar k1 = k_tar k" "k_sched k1 = k_sched k" "vmm_ok (k_vmm k1) P" "cr3 (k_vmm k1) = base P"
      "cr0 (k_vmm k1) = cr0 (k_vmm k) OR 0x80000000"
      "\<forall>v < 0x100000. pte (k_mem k1) P v = (if v < 4096 then base v OR 7 else 0)"
      "insert P (tables (k_mem k1) P) \<subseteq> ?F"
    and keep: "\<And>x. frame x \<notin> ?F \<Longrightarrow> k_mem k1 x = k_mem k x"
    by (rule kmain_begins [OF assms(1-3) map refl]) (rule that)
  note hand = handover_kept [OF assms(6) keep]
  have k1': "tar_ok (k_tar k1)" "length (tasks (k_sched k1)) = MAX_TASKS" using assms(4,5) k1(3,4) by simp_all
  obtain k2 where k2: "mount_initrd hw sy info k1 = Some k2" "live (k_dev k2)"
      "k_screen k2 = tty_chars (cs ''User init loaded'' @ [10]) (k_screen k1)"
      "loaded sy (tdata (ts ! i)) (k_mem k1) (k_mem k2)" "starts_task sy entry (k_sched k2)"
      "ramdisk ts a (k_tar k2)" "root_node (k_files k2) = Some (TarNode 0)" "k_vmm k2 = k_vmm k1"
    by (rule mount_initrd_ok [OF assms(1) k1(1) k1' hand(1-3) members hand(4) assms(7-10) refl assms(11,12)])
  from kprint_live [OF assms(1) k2(2), of "cs ''Interrupts enabled'' @ [10]"] obtain d
    where d: "kprint hw (cs ''Interrupts enabled'' @ [10]) k2 =
      Some (k2\<lparr>k_screen := tty_chars (cs ''Interrupts enabled'' @ [10]) (k_screen k2), k_dev := d\<rparr>)" by blast
  let ?k' = "k2\<lparr>k_screen := tty_chars (cs ''Interrupts enabled'' @ [10]) (k_screen k2), k_dev := d, interrupts := True\<rparr>"
  have "kmain hw sy MULTIBOOT_MAGIC info k = Some (Idling ?k')" using run k2(1) d by simp
  moreover have "shows_log (k_screen ?k') (boot_log [cs ''ZeptoOS i386 boot'', cs ''Core initialized'',
      cs ''User init loaded'', cs ''Interrupts enabled''])"
    using shows_log_write [OF shows_log_write [OF k1(2), of "cs ''User init loaded'' @ [10]"], of "cs ''Interrupts enabled'' @ [10]"]
    by (simp add: boot_log_def k2(3))
  moreover have "vfs_resolve_path tar_drivers (Some (slash # cs ''init'')) (k_files ?k') (k_tar ?k') =
      Some (Inr (Some (TarNode (i + 1)), k_tar ?k'))"
    using resolve_ramdisk [OF k2(6) assms(7,8), of "k_files k2"] assms(7,9,10) members k2(7)
    by (simp add: cs_def slash_def)
  moreover have "\<forall>v < 0x100000. pte (k_mem ?k') P v = (if v < 4096 then base v OR 7 else 0)"
    if out: "\<forall>x \<in> boot_writes sy (tdata (ts ! i)). frame x \<notin> insert P (tables (k_mem k1) P)"
  proof (intro allI impI)
    fix v :: nat
    assume v: "v < 0x100000"
    have "P < 0x100000" using k1(5) by (simp add: vmm_ok_def space_ok_def)
    then have "pte (k_mem k2) P v = pte (k_mem k1) P v"
      by (rule paging_survives [OF _ _ v]) (use loaded_outside [OF k2(4)] out in blast)
    with k1(8) v show "pte (k_mem ?k') P v = (if v < 4096 then base v OR 7 else 0)" by simp
  qed
  ultimately show ?thesis
    by (intro exI [of _ ?k'] exI [of _ "k_mem k1"] exI [of _ P]) (use k1 k2 keep in simp)
qed

section \<open>Starts without a program\<close>

lemma finddir_absent:
  assumes "ramdisk ts a s" "nm \<notin> tname ` set ts"
  shows "vfs_finddir tar_drivers (Some (TarNode 0)) nm s = Some (None, s)"
proof -
  have "fname (file_entries s ! j) \<noteq> nm" if "j < file_count s" for j
    using assms that image_entries_nth [of j ts a] by (auto simp: ramdisk_def)
  then have "tar_finddir (TarNode 0) nm s = None"
    using finddir_from_spec [where s = s and i = 0 and k = "file_count s" and nm = nm]
    by (auto simp: tar_finddir_def split: option.splits)
  then show ?thesis
    using assms(1) by (simp add: vfs_finddir_def tar_drivers_def tar_node_at_def ramdisk_def VFS_DIRECTORY_def)
qed

text \<open>What mount_initrd prints when there is no program, and that no task is made.\<close>

lemma mount_initrd_absent:
  assumes con: "console_live hw live" "live (k_dev k)" and tar: "tar_ok (k_tar k)"
    and mods: "0 < read32 (k_mem k) (info + 20)" "read32 (k_mem k) (read32 (k_mem k) (info + 24)) = a"
    and img: "holds (k_mem k) a (tar_image ts)" "\<forall>t \<in> set ts. member_ok t"
    and absent: "cs ''init'' \<notin> tname ` set ts"
  obtains k' where "mount_initrd hw sy info k = Some k'" and "live (k_dev k')"
    and "k_screen k' = tty_chars (cs ''User init missing'' @ [10]) (k_screen k)" "k_sched k' = k_sched k"
proof -
  let ?t0 = "(k_tar k)\<lparr>ram := k_mem k\<rparr>"
  have "tar_ok ?t0" "holds (ram ?t0) a (tar_image ts)" using tar img(1) by (simp_all add: tar_ok_def)
  from tar_parse_ramdisk [OF this img(2)] obtain t
    where t: "tar_parse a ?t0 = Some (TarNode 0, t)" and rd: "ramdisk ts a t" and ram: "ram t = k_mem k"
    by auto
  obtain c files where files: "vfs_mount [slash] (Some (TarNode 0)) (k_files k) = Inr (c, files)"
    by (simp add: vfs_mount_root)
  let ?k = "k\<lparr>k_files := files, k_tar := t, k_mem := ram t\<rparr>"
  have "live (k_dev ?k)" using con(2) by simp
  from kprint_live [OF con(1) this, of "cs ''User init missing'' @ [10]"] obtain d
    where d: "kprint hw (cs ''User init missing'' @ [10]) ?k =
      Some (?k\<lparr>k_screen := tty_chars (cs ''User init missing'' @ [10]) (k_screen ?k), k_dev := d\<rparr>)" "live d" by blast
  have run: "mount_initrd hw sy info k =
      Some (?k\<lparr>k_screen := tty_chars (cs ''User init missing'' @ [10]) (k_screen ?k), k_dev := d\<rparr>)"
    using mods(1) d(1) files t finddir_absent [OF rd absent]
    by (simp add: mount_initrd_def mods(2) load_init_def)
  show ?thesis by (rule that [OF run]) (use d(2) in simp_all)
qed

lemma mount_initrd_not_elf:
  assumes con: "console_live hw live" "live (k_dev k)" and tar: "tar_ok (k_tar k)"
    and mods: "0 < read32 (k_mem k) (info + 20)" "read32 (k_mem k) (read32 (k_mem k) (info + 24)) = a"
    and img: "holds (k_mem k) a (tar_image ts)" "\<forall>t \<in> set ts. member_ok t"
    and len: "length (tar_image ts) \<le> 2 ^ 32"
    and i: "i < length ts" "i < 32" "tname (ts ! i) = cs ''init''" "\<forall>j < i. tname (ts ! j) \<noteq> cs ''init''"
    and data: "data = tdata (ts ! i)" "4 \<le> length data" "take 4 data \<noteq> bytes_le 4 ELF_MAGIC"
    and apart: "region ELF_BUFFER (length data) \<inter> region a (length (tar_image ts)) = {}"
  obtains k' where "mount_initrd hw sy info k = Some k'" and "live (k_dev k')"
    and "k_screen k' = tty_chars (cs ''User init load failed'' @ [10]) (k_screen k)" "k_sched k' = k_sched k"
proof -
  let ?t0 = "(k_tar k)\<lparr>ram := k_mem k\<rparr>"
  have "tar_ok ?t0" "holds (ram ?t0) a (tar_image ts)" using tar img(1) by (simp_all add: tar_ok_def)
  from tar_parse_ramdisk [OF this img(2)] obtain t
    where t: "tar_parse a ?t0 = Some (TarNode 0, t)" and rd: "ramdisk ts a t" and ram: "ram t = k_mem k"
    by auto
  obtain c files where files: "vfs_mount [slash] (Some (TarNode 0)) (k_files k) = Inr (c, files)"
    by (simp add: vfs_mount_root)
  have first: "\<forall>j < i. tname (ts ! j) \<noteq> tname (ts ! i)" using i(3,4) by simp
  obtain u where u: "tar_read (TarNode (i + 1)) 0 (of_nat (length data)) ELF_BUFFER t = (of_nat (length data), u)"
    and held: "holds (ram u) ELF_BUFFER data"
    using read_member [OF rd i(1,2) img(1) [folded ram] img(2) len data(1) apart] by metis
  have "read_bytes (ram u) ELF_BUFFER (4 + (length data - 4)) = data" using held data(2) by (simp add: holds_def)
  then have "read_bytes (ram u) ELF_BUFFER 4 = take 4 data"
    unfolding read_bytes_append by (metis append_eq_conv_conj length_read_bytes)
  moreover have "bytes_le 4 (word_le (read_bytes (ram u) ELF_BUFFER 4) :: u32) = read_bytes (ram u) ELF_BUFFER 4"
    by (rule bytes_le_word_le) simp_all
  ultimately have "e_ident (read_elf32_hdr (ram u) ELF_BUFFER) \<noteq> ELF_MAGIC"
    using data(3) by (auto simp: read_elf32_hdr_def read32_def)
  then have load: "elf_load32 ELF_BUFFER (ram u) = (0, ram u)" by (simp add: elf_load32_def)
  let ?k = "k\<lparr>k_files := files, k_tar := u, k_mem := ram u\<rparr>"
  have "live (k_dev ?k)" using con(2) by simp
  from kprint_live [OF con(1) this, of "cs ''User init load failed'' @ [10]"] obtain d
    where d: "kprint hw (cs ''User init load failed'' @ [10]) ?k =
      Some (?k\<lparr>k_screen := tty_chars (cs ''User init load failed'' @ [10]) (k_screen ?k), k_dev := d\<rparr>)" "live d" by blast
  note node = finddir_initrd [OF rd i(1,2) first]
  have call: "read_call tar_drivers fs_driver.Tar (TarNode (i + 1)) 0 (of_nat (length data)) ELF_BUFFER t
      = Some (of_nat (length data), u)"
    using u by (simp add: tar_drivers_def)
  have run: "mount_initrd hw sy info k =
      Some (?k\<lparr>k_screen := tty_chars (cs ''User init load failed'' @ [10]) (k_screen ?k), k_dev := d\<rparr>)"
    using mods(1) d(1) files t load call node
    by (simp add: mount_initrd_def mods(2) load_init_def data(1) [symmetric] i(3))
  show ?thesis by (rule that [OF run]) (use d(2) in simp_all)
qed

lemma boot_log_snoc: "boot_log (ls @ [l]) = log_write (l @ [10]) (boot_log ls)"
  by (simp add: boot_log_def)

lemma kmain_ends:
  assumes con: "console_live hw live"
    and run: "kmain hw sy magic info k = Option.bind (mount_initrd hw sy info k1) (\<lambda>k.
        Option.bind (kprint hw (cs ''Interrupts enabled'' @ [10]) k) (\<lambda>k. Some (Idling (k\<lparr>interrupts := True\<rparr>))))"
    and k2: "mount_initrd hw sy info k1 = Some k2" "live (k_dev k2)" "k_screen k2 = tty_chars (l @ [10]) (k_screen k1)"
      "k_sched k2 = k_sched k1"
    and log: "shows_log (k_screen k1) (boot_log ls)"
  shows "\<exists>k'. kmain hw sy magic info k = Some (Idling k') \<and> interrupts k' \<and> k_sched k' = k_sched k1 \<and>
    shows_log (k_screen k') (boot_log ((ls @ [l]) @ [cs ''Interrupts enabled'']))"
proof -
  from kprint_live [OF con k2(2), of "cs ''Interrupts enabled'' @ [10]"] obtain d
    where d: "kprint hw (cs ''Interrupts enabled'' @ [10]) k2 =
      Some (k2\<lparr>k_screen := tty_chars (cs ''Interrupts enabled'' @ [10]) (k_screen k2), k_dev := d\<rparr>)" by blast
  let ?k' = "k2\<lparr>k_screen := tty_chars (cs ''Interrupts enabled'' @ [10]) (k_screen k2), k_dev := d, interrupts := True\<rparr>"
  have "kmain hw sy magic info k = Some (Idling ?k')" using run k2(1) d by simp
  moreover have "shows_log (k_screen ?k') (boot_log ((ls @ [l]) @ [cs ''Interrupts enabled'']))"
    unfolding boot_log_snoc
    using shows_log_write [OF shows_log_write [OF log, of "l @ [10]"], of "cs ''Interrupts enabled'' @ [10]"]
    by (simp add: k2(3))
  ultimately show ?thesis using k2(4) by (intro exI [of _ ?k']) simp
qed

text \<open>The ends of kmain without a program: it says why and idles without a task.\<close>

definition idles_saying :: "u8 list \<Rightarrow> 'd kernel \<Rightarrow> 'd ending option \<Rightarrow> bool" where
  "idles_saying l k r \<longleftrightarrow>
     (\<exists>k'. r = Some (Idling k') \<and> interrupts k' \<and> k_sched k' = k_sched k \<and>
        shows_log (k_screen k') (boot_log [cs ''ZeptoOS i386 boot'', cs ''Core initialized'', l,
          cs ''Interrupts enabled'']))"

lemma kmain_bad_magic:
  assumes con: "console_live hw live" "live (k_dev k)" "length (cells (k_screen k)) = 2000"
    and bad: "magic \<noteq> MULTIBOOT_MAGIC"
  shows "\<exists>k'. kmain hw sy magic info k = Some (Halted k') \<and> interrupts k' = interrupts k \<and>
    k_mem k' = k_mem k \<and> k_idt k' = k_idt k \<and> k_sched k' = k_sched k \<and>
    shows_log (k_screen k') (boot_log [cs ''ZeptoOS i386 boot'', cs ''Invalid Multiboot magic''])"
proof -
  let ?k0 = "k\<lparr>mb_info := info, k_dev := serial_init hw (k_dev k), k_screen := kcls (k_screen k)\<rparr>"
  let ?l1 = "cs ''ZeptoOS i386 boot'' @ [10]" and ?l2 = "cs ''Invalid Multiboot magic'' @ [10]"
  have "live (k_dev ?k0)" using outs_live(1) [OF con(1,2)] by simp
  from kprint_live [OF con(1) this, of ?l1] obtain d
    where d: "kprint hw ?l1 ?k0 = Some (?k0\<lparr>k_screen := tty_chars ?l1 (k_screen ?k0), k_dev := d\<rparr>)" "live d" by blast
  let ?k1 = "?k0\<lparr>k_screen := tty_chars ?l1 (k_screen ?k0), k_dev := d\<rparr>"
  have "live (k_dev ?k1)" using d(2) by simp
  from kprint_live [OF con(1) this, of ?l2] obtain d2
    where d2: "kprint hw ?l2 ?k1 = Some (?k1\<lparr>k_screen := tty_chars ?l2 (k_screen ?k1), k_dev := d2\<rparr>)" by blast
  have "kmain hw sy magic info k = Some (Halted (?k1\<lparr>k_screen := tty_chars ?l2 (k_screen ?k1), k_dev := d2\<rparr>))"
    using bad d(1) d2 by (simp add: kmain_def Let_def)
  moreover have "shows_log (tty_chars ?l2 (tty_chars ?l1 (kcls (k_screen k)))) (log_write ?l2 (log_write ?l1 empty_log))"
    by (intro shows_log_write kcls_log con(3))
  ultimately show ?thesis by (simp add: boot_log_def)
qed

text \<open>After init_core only the outcome of mount_initrd is left to find.\<close>

lemma kmain_continues:
  assumes con: "console_live hw live" "live (k_dev k)" "length (cells (k_screen k)) = 2000"
    and map: "boot_map (kernel_end_at sy) (k_mem k) info es" and tar: "tar_ok (k_tar k)"
  obtains k1 where "live (k_dev k1)" "tar_ok (k_tar k1)"
    and "\<And>x. frame x \<notin> boot_free (kernel_end_at sy) (k_mem k) (read_multiboot (k_mem k) info) es \<Longrightarrow> k_mem k1 x = k_mem k x"
    and "\<And>k2 l. mount_initrd hw sy info k1 = Some k2 \<Longrightarrow> live (k_dev k2) \<Longrightarrow>
      k_screen k2 = tty_chars (l @ [10]) (k_screen k1) \<Longrightarrow> k_sched k2 = k_sched k1 \<Longrightarrow>
      idles_saying l k (kmain hw sy MULTIBOOT_MAGIC info k)"
proof -
  obtain k1 P where run: "kmain hw sy MULTIBOOT_MAGIC info k =
      Option.bind (mount_initrd hw sy info k1) (\<lambda>k.
        Option.bind (kprint hw (cs ''Interrupts enabled'' @ [10]) k) (\<lambda>k. Some (Idling (k\<lparr>interrupts := True\<rparr>))))"
    and k1: "live (k_dev k1)" "shows_log (k_screen k1) (boot_log [cs ''ZeptoOS i386 boot'', cs ''Core initialized''])"
      "k_tar k1 = k_tar k" "k_sched k1 = k_sched k"
    and keep: "\<And>x. frame x \<notin> boot_free (kernel_end_at sy) (k_mem k) (read_multiboot (k_mem k) info) es \<Longrightarrow> k_mem k1 x = k_mem k x"
    by (rule kmain_begins [OF con map refl]) (rule that)
  have "idles_saying l k (kmain hw sy MULTIBOOT_MAGIC info k)"
    if "mount_initrd hw sy info k1 = Some k2" "live (k_dev k2)" "k_screen k2 = tty_chars (l @ [10]) (k_screen k1)"
      "k_sched k2 = k_sched k1" for k2 l
    using kmain_ends [OF con(1) run that k1(2)] k1(4) by (simp add: idles_saying_def)
  with k1 keep tar show ?thesis by (intro that [of k1]) simp_all
qed

lemma kmain_no_module:
  assumes con: "console_live hw live" "live (k_dev k)" "length (cells (k_screen k)) = 2000"
    and map: "boot_map (kernel_end_at sy) (k_mem k) info es" and tar: "tar_ok (k_tar k)"
    and none: "read32 (k_mem k) (info + 20) = 0"
  shows "idles_saying (cs ''Initrd missing'') k (kmain hw sy MULTIBOOT_MAGIC info k)"
proof -
  obtain k1 where k1: "live (k_dev k1)"
    and keep: "\<And>x. frame x \<notin> boot_free (kernel_end_at sy) (k_mem k) (read_multiboot (k_mem k) info) es \<Longrightarrow> k_mem k1 x = k_mem k x"
    and ends: "\<And>k2 l. mount_initrd hw sy info k1 = Some k2 \<Longrightarrow> live (k_dev k2) \<Longrightarrow>
      k_screen k2 = tty_chars (l @ [10]) (k_screen k1) \<Longrightarrow> k_sched k2 = k_sched k1 \<Longrightarrow>
      idles_saying l k (kmain hw sy MULTIBOOT_MAGIC info k)"
    by (rule kmain_continues [OF con map tar]) (rule that)
  have "read32 (k_mem k1) (info + of_nat 20) = read32 (k_mem k) (info + of_nat 20)"
    by (rule low_read32 [where n = 52, OF keep]) (use map in \<open>simp_all add: boot_map_def\<close>)
  with none have z: "read32 (k_mem k1) (info + 20) = 0" by simp
  from kprint_live [OF con(1) k1, of "cs ''Initrd missing'' @ [10]"] obtain d
    where d: "kprint hw (cs ''Initrd missing'' @ [10]) k1 =
      Some (k1\<lparr>k_screen := tty_chars (cs ''Initrd missing'' @ [10]) (k_screen k1), k_dev := d\<rparr>)" "live d" by blast
  from d(1) z have "mount_initrd hw sy info k1 =
      Some (k1\<lparr>k_screen := tty_chars (cs ''Initrd missing'' @ [10]) (k_screen k1), k_dev := d\<rparr>)"
    by (simp add: mount_initrd_def)
  from ends [OF this] d(2) show ?thesis by simp
qed

lemma kmain_no_init:
  assumes con: "console_live hw live" "live (k_dev k)" "length (cells (k_screen k)) = 2000"
    and tar: "tar_ok (k_tar k)" and h: "boot_handover (kernel_end_at sy) (k_mem k) info es a ts"
    and absent: "cs ''init'' \<notin> tname ` set ts"
  shows "idles_saying (cs ''User init missing'') k (kmain hw sy MULTIBOOT_MAGIC info k)"
proof -
  have map: "boot_map (kernel_end_at sy) (k_mem k) info es" using h by (simp add: boot_handover_def)
  obtain k1 where k1: "live (k_dev k1)" "tar_ok (k_tar k1)"
    and keep: "\<And>x. frame x \<notin> boot_free (kernel_end_at sy) (k_mem k) (read_multiboot (k_mem k) info) es \<Longrightarrow> k_mem k1 x = k_mem k x"
    and ends: "\<And>k2 l. mount_initrd hw sy info k1 = Some k2 \<Longrightarrow> live (k_dev k2) \<Longrightarrow>
      k_screen k2 = tty_chars (l @ [10]) (k_screen k1) \<Longrightarrow> k_sched k2 = k_sched k1 \<Longrightarrow>
      idles_saying l k (kmain hw sy MULTIBOOT_MAGIC info k)"
    by (rule kmain_continues [OF con map tar]) (rule that)
  have hand: "0 < read32 (k_mem k1) (info + 20)" "read32 (k_mem k1) (read32 (k_mem k1) (info + 24)) = a"
      "holds (k_mem k1) a (tar_image ts)" "length (tar_image ts) \<le> 2 ^ 32"
    by (rule handover_kept [OF h], rule keep, assumption)+
  show ?thesis
    by (rule mount_initrd_absent [where sy = sy, OF con(1) k1 hand(1-3) handover_members [OF h] absent]) (rule ends)
qed

lemma kmain_not_elf:
  assumes con: "console_live hw live" "live (k_dev k)" "length (cells (k_screen k)) = 2000"
    and tar: "tar_ok (k_tar k)" and h: "boot_handover (kernel_end_at sy) (k_mem k) info es a ts"
    and i: "i < length ts" "i < 32" "tname (ts ! i) = cs ''init''" "\<forall>j < i. tname (ts ! j) \<noteq> cs ''init''"
    and data: "4 \<le> length (tdata (ts ! i))" "take 4 (tdata (ts ! i)) \<noteq> bytes_le 4 ELF_MAGIC"
    and apart: "region ELF_BUFFER (length (tdata (ts ! i))) \<inter> region a (length (tar_image ts)) = {}"
  shows "idles_saying (cs ''User init load failed'') k (kmain hw sy MULTIBOOT_MAGIC info k)"
proof -
  have map: "boot_map (kernel_end_at sy) (k_mem k) info es" using h by (simp add: boot_handover_def)
  obtain k1 where k1: "live (k_dev k1)" "tar_ok (k_tar k1)"
    and keep: "\<And>x. frame x \<notin> boot_free (kernel_end_at sy) (k_mem k) (read_multiboot (k_mem k) info) es \<Longrightarrow> k_mem k1 x = k_mem k x"
    and ends: "\<And>k2 l. mount_initrd hw sy info k1 = Some k2 \<Longrightarrow> live (k_dev k2) \<Longrightarrow>
      k_screen k2 = tty_chars (l @ [10]) (k_screen k1) \<Longrightarrow> k_sched k2 = k_sched k1 \<Longrightarrow>
      idles_saying l k (kmain hw sy MULTIBOOT_MAGIC info k)"
    by (rule kmain_continues [OF con map tar]) (rule that)
  have hand: "0 < read32 (k_mem k1) (info + 20)" "read32 (k_mem k1) (read32 (k_mem k1) (info + 24)) = a"
      "holds (k_mem k1) a (tar_image ts)" "length (tar_image ts) \<le> 2 ^ 32"
    by (rule handover_kept [OF h], rule keep, assumption)+
  show ?thesis
    by (rule mount_initrd_not_elf [where sy = sy, OF con(1) k1 hand(1-3) handover_members [OF h] hand(4) i refl data apart])
      (rule ends)
qed

text \<open>
  C27: The other ends of kmain. With a wrong magic number it prints two lines and
  halts with nothing initialised: memory, interrupt table and scheduler are as
  they were. With no modules, with a RAM disk that has no member init, and
  with an init that does not begin with the ELF magic number, it goes into the
  idle loop with interrupts on after saying so, and the scheduler is as it
  was, without a task (scheduler_init is called only when a program was
  loaded).
\<close>

theorem kmain_without_program:
  assumes "console_live hw live" "live (k_dev k)" "length (cells (k_screen k)) = 2000"
    and "tar_ok (k_tar k)" "boot_map (kernel_end_at sy) (k_mem k) info es"
  shows "(magic \<noteq> MULTIBOOT_MAGIC \<longrightarrow>
      (\<exists>k'. kmain hw sy magic info k = Some (Halted k') \<and> interrupts k' = interrupts k \<and>
        k_mem k' = k_mem k \<and> k_idt k' = k_idt k \<and> k_sched k' = k_sched k \<and>
        shows_log (k_screen k') (boot_log [cs ''ZeptoOS i386 boot'', cs ''Invalid Multiboot magic'']))) \<and>
    (read32 (k_mem k) (info + 20) = 0 \<longrightarrow>
      idles_saying (cs ''Initrd missing'') k (kmain hw sy MULTIBOOT_MAGIC info k)) \<and>
    (\<forall>a ts. boot_handover (kernel_end_at sy) (k_mem k) info es a ts \<and> cs ''init'' \<notin> tname ` set ts \<longrightarrow>
      idles_saying (cs ''User init missing'') k (kmain hw sy MULTIBOOT_MAGIC info k)) \<and>
    (\<forall>a ts i. boot_handover (kernel_end_at sy) (k_mem k) info es a ts \<and> i < length ts \<and> i < 32 \<and>
        tname (ts ! i) = cs ''init'' \<and> (\<forall>j < i. tname (ts ! j) \<noteq> cs ''init'') \<and>
        4 \<le> length (tdata (ts ! i)) \<and> take 4 (tdata (ts ! i)) \<noteq> bytes_le 4 ELF_MAGIC \<and>
        region ELF_BUFFER (length (tdata (ts ! i))) \<inter> region a (length (tar_image ts)) = {} \<longrightarrow>
      idles_saying (cs ''User init load failed'') k (kmain hw sy MULTIBOOT_MAGIC info k))"
  using kmain_bad_magic [OF assms(1-3)] kmain_no_module [OF assms(1-3,5,4)]
    kmain_no_init [OF assms(1-4)] kmain_not_elf [OF assms(1-4)]
  by (intro conjI allI impI) blast+

section \<open>A concrete start\<close>

text \<open>
  The statics as the loader zeroes them, and a memory with the multiboot
  structure at 0x500, one entry of memory map at 0x1000, the module list at
  0x2000 and, at 0x200000, a RAM disk. hand_archive holds the program of theory
  Elf as init; the count of modules and the RAM disk are parameters, for the
  starts without a program.
\<close>

definition hand_archive :: "tar_member list" where
  "hand_archive = [demo_member (cs ''init'') demo_elf32]"

definition hand_low :: "u32 \<Rightarrow> 32 memory" where
  "hand_low c = write32 (write32 (write32 (write32 (write32 (write32 (write32
     boot_memory 0x500 0x48) 0x514 c) 0x518 0x2000) 0x52C 24) 0x530 0x1000) 0x2000 0x200000) 0x2004 0x200800"

definition hand_memory :: "u32 \<Rightarrow> tar_member list \<Rightarrow> 32 memory" where
  "hand_memory c ts = write_bytes (hand_low c) 0x200000 (tar_image ts)"

definition hand_symbols :: symbols where
  "hand_symbols = \<lparr>kernel_end_at = 0x130000, gdt_at = 0x109000, tss_at = 0x109040, idt_at = 0x10A000,
     irq0_at = 0x101000, irq1_at = 0x101020, syscall_at = 0x101040, tasks_at = 0x110000\<rparr>"

definition static_kernel :: "32 memory \<Rightarrow> 'd \<Rightarrow> 'd kernel" where
  "static_kernel m d = \<lparr>k_mem = m, k_screen = \<lparr>cells = replicate 2000 0, cursor = 0\<rparr>, k_dev = d,
     k_gdt = \<lparr>gdt = replicate 6 null_gdt_entry, gdt_pointer = (0, 0), tss = zero_tss32, gdtr = None, task_register = 0\<rparr>,
     k_idt = \<lparr>idt = replicate 256 \<lparr>idt_base_low = 0, idt_sel = 0, always0 = 0, idt_flags = 0, idt_base_hi = 0\<rparr>,
       idtp = (0, 0), idtr = None\<rparr>,
     k_vmm = \<lparr>phys = m, bitmap = replicate 512 0, current_pd = 0, kernel_pd = 0, cr3 = 0, cr0 = 0x11\<rparr>,
     k_kbd = keyboard_static,
     k_files = \<lparr>root_node = None, mounts = replicate 8 \<lparr>mpath = [], mnode = None\<rparr>, mount_count = 0\<rparr>,
     k_tar = \<lparr>file_entries = replicate 32 \<lparr>fname = [], faddress = 0, fsize = 0, ftype = 0\<rparr>,
       file_count = 0, tar_nodes = replicate 33 null_node,
       tar_dirents = replicate 33 \<lparr>dname = [], ino = 0, dtype = 0\<rparr>, ram = m\<rparr>,
     k_sched = \<lparr>tasks = replicate 10 \<lparr>stack_pointer = 0, pid = 0, active = 0\<rparr>, task_count = 0,
       current_task = 0, memory = m, tss_stack = 0\<rparr>,
     mb_info = 0, interrupts = False\<rparr>"

lemma static_kernel_ok:
  "length (cells (k_screen (static_kernel m d))) = 2000" "tar_ok (k_tar (static_kernel m d))"
  "length (tasks (k_sched (static_kernel m d))) = MAX_TASKS" "k_mem (static_kernel m d) = m"
  "k_sched (static_kernel m d) = \<lparr>tasks = replicate 10 \<lparr>stack_pointer = 0, pid = 0, active = 0\<rparr>, task_count = 0,
       current_task = 0, memory = m, tss_stack = 0\<rparr>"
  by (simp_all add: static_kernel_def tar_ok_def MAX_TAR_FILES_def MAX_TASKS_def)

lemma ready_console: "console_live (log_device (\<lambda>p. 0x20)) (\<lambda>d. True)"
proof -
  let ?hw = "log_device (\<lambda>p. 0x20)"
  have w: "serial_wait ?hw d = Some d" for d
    by (rule serial_wait_ready) (simp add: is_transmit_empty_def)
  have "\<exists>d'. serial_printf ?hw str d = Some d'" for str d
  proof (induction str arbitrary: d)
    case Nil
    then show ?case by simp
  next
    case (Cons c str)
    then show ?case by (auto simp: serial_write_def w)
  qed
  then show ?thesis by (simp add: console_live_def)
qed

lemma demo_elf_program: "elf_program demo_elf32 0x800000"
proof -
  have len: "length demo_elf32 = 88" by (simp add: demo_elf32_def cs_def)
  have agree: "file_memory demo_elf32 x = demo_elf_memory x" if "x \<in> region ELF_BUFFER 88" for x
    using that by (simp add: file_memory_def demo_elf_memory_def write_bytes_apply len ELF_BUFFER_def)
  have im: "elf_image read_elf32_hdr read_elf32_phdr 52 32 demo_elf_memory ELF_BUFFER 88"
    using demo_elf_image by (simp add: ELF_BUFFER_def)
  have "read_elf32_hdr (file_memory demo_elf32) ELF_BUFFER = read_elf32_hdr demo_elf_memory ELF_BUFFER"
    by (rule elf32.image_hdr [OF im agree])
  moreover have "elf_image read_elf32_hdr read_elf32_phdr 52 32 (file_memory demo_elf32) ELF_BUFFER 88"
    by (rule elf32.image_agree(2) [OF im agree])
  ultimately show ?thesis using demo_elf_hdr by (simp add: elf_program_def len ELF_BUFFER_def)
qed

definition fits :: "tar_member list \<Rightarrow> bool" where
  "fits ts \<longleftrightarrow> (\<forall>t \<in> set ts. member_ok t) \<and> length (tar_image ts) = 2048"

lemma fits_single:
  assumes "member_ok t" "blocks (length (tdata t)) = 1"
  shows "fits [t]"
  using length_member_image [OF assms(1)] assms by (simp add: fits_def tar_image_def)

lemma hand_archive_ok: "fits hand_archive"
  unfolding hand_archive_def
  by (rule fits_single) (simp_all add: demo_member_def member_ok_def cs_def demo_elf32_def blocks_def)

lemma hand_reads:
  assumes ts: "fits ts" and x: "unat x + 8 \<le> 0x200000"
  shows "read32 (hand_memory c ts) x = read32 (hand_low c) x" "read64 (hand_memory c ts) x = read64 (hand_low c) x"
proof -
  have "region (0x200000 :: u32) 2048 \<inter> region x n = {}" if "n \<le> 8" for n
    using regions_apart [of x n "0x200000" 2048] x that by (simp add: Int_commute)
  then show "read32 (hand_memory c ts) x = read32 (hand_low c) x" "read64 (hand_memory c ts) x = read64 (hand_low c) x"
    using ts by (simp_all add: read32_def read64_def hand_memory_def read_write_bytes_disjoint fits_def)
qed

definition hand_info :: "u32 \<Rightarrow> multiboot_info" where
  "hand_info c = \<lparr>mb_flags = 0x48, mb_mem_lower = 0, mb_mem_upper = 0, mb_boot_device = 0, mb_cmdline = 0,
     mb_mods_count = c, mb_mods_addr = 0x2000, mb_mmap_length = 24, mb_mmap_addr = 0x1000\<rparr>"

lemma hand_low_reads:
  assumes "c \<in> {0, 1}"
  shows "map (read32 (hand_low c)) [0x500, 0x504, 0x508, 0x50C, 0x510, 0x514, 0x518, 0x52C, 0x530, 0x2000, 0x2004] =
      [0x48, 0, 0, 0, 0, c, 0x2000, 24, 0x1000, 0x200000, 0x200800]"
    and "read_mmap_entry I386 (hand_low c) 0x1000 = boot_entry"
proof -
  have "map (read32 (hand_low c)) [0x500, 0x504, 0x508, 0x50C, 0x510, 0x514, 0x518, 0x52C, 0x530, 0x2000, 0x2004] =
      [0x48, 0, 0, 0, 0, c, 0x2000, 24, 0x1000, 0x200000, 0x200800] \<and>
      read_mmap_entry I386 (hand_low c) 0x1000 = boot_entry" if "c = 0 \<or> c = 1"
    using that by (elim disjE) (simp only:, code_simp)+
  with assms show "map (read32 (hand_low c)) [0x500, 0x504, 0x508, 0x50C, 0x510, 0x514, 0x518, 0x52C, 0x530, 0x2000, 0x2004] =
      [0x48, 0, 0, 0, 0, c, 0x2000, 24, 0x1000, 0x200000, 0x200800]"
    and "read_mmap_entry I386 (hand_low c) 0x1000 = boot_entry" by auto
qed

lemma hand_multiboot:
  assumes "c \<in> {0, 1}" "fits ts"
  shows "read_multiboot (hand_memory c ts) 0x500 = hand_info c"
  using hand_low_reads(1) [OF assms(1)] by (simp add: read_multiboot_def hand_reads assms(2) hand_info_def)

lemma hand_map:
  assumes "c \<in> {0, 1}" "fits ts"
  shows "read_mmap_entry I386 (hand_memory c ts) 0x1000 = boot_entry"
    and "read_module (hand_memory c ts) 0x2000 0 = (0x200000, 0x200800)"
proof -
  have "read_mmap_entry I386 (hand_memory c ts) 0x1000 = read_mmap_entry I386 (hand_low c) 0x1000"
    by (simp add: read_mmap_entry_def align_u64_def hand_reads assms(2))
  then show "read_mmap_entry I386 (hand_memory c ts) 0x1000 = boot_entry"
    by (simp only: hand_low_reads(2) [OF assms(1)])
  show "read_module (hand_memory c ts) 0x2000 0 = (0x200000, 0x200800)"
    using hand_low_reads(1) [OF assms(1)] by (simp add: read_module_def hand_reads assms(2))
qed

lemma hand_boot_map:
  assumes c: "c \<in> {0, 1}" and ts: "fits ts"
  shows "boot_map 0x130000 (hand_memory c ts) 0x500 [boot_entry]"
proof -
  have md: "mmap_described I386 (hand_memory c ts) (hand_info c) [boot_entry]"
    using hand_map(1) [OF c ts] by (simp add: mmap_described_def hand_info_def mmap_bytes_def) (simp add: boot_entry_def)
  have res: "i = 0x200" if "reserved_by_modules (hand_memory c ts) (hand_info c) i" for i
    using hand_map(2) [OF c ts] c that by (auto simp: reserved_by_modules_def hand_info_def module_pages_def)
  then have res: "\<not> reserved_by_modules (hand_memory c ts) (hand_info c) i" if "i \<noteq> 0x200" for i
    using that by blast
  have ke: "kernel_end_page (0x130000 :: u32) = 0x130" by (simp add: kernel_end_page_def)
  have e: "entry_pages boot_entry = {0x100..<0x8000}" by (auto simp: entry_pages_def boot_entry_def)
  have sub: "{0x300, 0x301, 0x302, 0x303, 0x304} \<subseteq> boot_free 0x130000 (hand_memory c ts) (hand_info c) [boot_entry]"
    by (simp add: boot_free_def res ke e)
  have fin: "finite (boot_free 0x130000 (hand_memory c ts) (hand_info c) [boot_entry])"
    by (rule finite_subset [of _ "{..<4096}"]) (auto simp: boot_free_def)
  have "5 \<le> card (boot_free 0x130000 (hand_memory c ts) (hand_info c) [boot_entry])"
    using card_mono [OF fin sub] by simp
  with md show ?thesis by (simp add: boot_map_def hand_multiboot [OF c ts])
qed

lemma hand_over:
  assumes "fits ts"
  shows "boot_handover 0x130000 (hand_memory 1 ts) 0x500 [boot_entry] 0x200000 ts"
proof -
  have "holds (hand_memory 1 ts) 0x200000 (tar_image ts)"
    using assms by (simp add: holds_def hand_memory_def read_write_bytes_same fits_def)
  then show ?thesis
    using hand_boot_map [OF _ assms, of 1] hand_map(2) [OF _ assms, of 1] assms
    by (simp add: boot_handover_def hand_multiboot fits_def) (simp add: hand_info_def)
qed

lemma kmain_starts_init_witness:
  "\<exists>k'. kmain (log_device (\<lambda>p. 0x20)) hand_symbols MULTIBOOT_MAGIC 0x500 (static_kernel (hand_memory 1 hand_archive) []) =
      Some (Idling k') \<and> starts_task hand_symbols 0x800000 (k_sched k') \<and>
    shows_log (k_screen k') (boot_log [cs ''ZeptoOS i386 boot'', cs ''Core initialized'', cs ''User init loaded'',
      cs ''Interrupts enabled''])"
proof -
  have m: "hand_archive ! 0 = demo_member (cs ''init'') demo_elf32" "length hand_archive = 1"
    by (simp_all add: hand_archive_def)
  have d: "tdata (hand_archive ! 0) = demo_elf32" "tname (hand_archive ! 0) = cs ''init''"
    by (simp_all add: m demo_member_def)
  have "length demo_elf32 = 88" by (simp add: demo_elf32_def cs_def)
  then have apart: "region ELF_BUFFER (length demo_elf32) \<inter> region 0x200000 (length (tar_image hand_archive)) = {}"
    using regions_apart [of "0x200000 :: u32" 2048 ELF_BUFFER 88]
    by (simp add: ELF_BUFFER_def hand_archive_ok [unfolded fits_def] Int_commute)
  have h: "boot_handover (kernel_end_at hand_symbols) (k_mem (static_kernel (hand_memory 1 hand_archive) [])) 0x500 [boot_entry]
      0x200000 hand_archive"
    using hand_over [OF hand_archive_ok] by (simp add: static_kernel_ok hand_symbols_def)
  have i: "0 < length hand_archive" "0 < (32 :: nat)" "\<forall>j < 0. tname (hand_archive ! j) \<noteq> cs ''init''"
    by (simp_all add: m)
  from kmain_starts_init [OF ready_console TrueI static_kernel_ok(1-3) h i(1,2) d(2) i(3), of "0x800000"]
  show ?thesis using demo_elf_program apart unfolding d(1) by blast
qed


text \<open>
  The four other ends: magic number 0; no modules; a RAM disk with the one
  member motd; and one whose init is a line of text.
\<close>

definition motd_archive :: "tar_member list" where
  "motd_archive = [demo_member (cs ''motd'') (cs ''hello'')]"

definition text_archive :: "tar_member list" where
  "text_archive = [demo_member (cs ''init'') (cs ''hello'')]"

lemma motd_archive_ok: "fits motd_archive" "cs ''init'' \<notin> tname ` set motd_archive"
proof -
  show "fits motd_archive" unfolding motd_archive_def
    by (rule fits_single) (simp_all add: demo_member_def member_ok_def cs_def blocks_def)
qed (simp add: motd_archive_def demo_member_def cs_def)

lemma text_archive_ok: "fits text_archive" "length text_archive = 1" "tname (text_archive ! 0) = cs ''init''"
  "4 \<le> length (tdata (text_archive ! 0))" "take 4 (tdata (text_archive ! 0)) \<noteq> bytes_le 4 ELF_MAGIC"
  "region ELF_BUFFER (length (tdata (text_archive ! 0))) \<inter> region 0x200000 (length (tar_image text_archive)) = {}"
proof -
  show f: "fits text_archive" unfolding text_archive_def
    by (rule fits_single) (simp_all add: demo_member_def member_ok_def cs_def blocks_def)
  have d: "tdata (text_archive ! 0) = cs ''hello''" by (simp add: text_archive_def demo_member_def)
  have len: "length (cs ''hello'') = 5" by (simp add: cs_def)
  show "4 \<le> length (tdata (text_archive ! 0))" by (simp add: d cs_def)
  show "take 4 (tdata (text_archive ! 0)) \<noteq> bytes_le 4 ELF_MAGIC" unfolding d by code_simp
  show "region ELF_BUFFER (length (tdata (text_archive ! 0))) \<inter> region 0x200000 (length (tar_image text_archive)) = {}"
    using regions_apart [of "0x200000 :: u32" 2048 ELF_BUFFER 5] f
    by (simp add: d len ELF_BUFFER_def fits_def Int_commute)
qed (simp_all add: text_archive_def demo_member_def)

lemma kmain_without_program_witness:
  "(\<exists>k'. kmain (log_device (\<lambda>p. 0x20)) hand_symbols 0 0x500 (static_kernel (hand_memory 1 motd_archive) []) =
      Some (Halted k') \<and> \<not> interrupts k') \<and>
   idles_saying (cs ''Initrd missing'') (static_kernel (hand_memory 0 motd_archive) [])
     (kmain (log_device (\<lambda>p. 0x20)) hand_symbols MULTIBOOT_MAGIC 0x500 (static_kernel (hand_memory 0 motd_archive) [])) \<and>
   idles_saying (cs ''User init missing'') (static_kernel (hand_memory 1 motd_archive) [])
     (kmain (log_device (\<lambda>p. 0x20)) hand_symbols MULTIBOOT_MAGIC 0x500 (static_kernel (hand_memory 1 motd_archive) [])) \<and>
   idles_saying (cs ''User init load failed'') (static_kernel (hand_memory 1 text_archive) [])
     (kmain (log_device (\<lambda>p. 0x20)) hand_symbols MULTIBOOT_MAGIC 0x500 (static_kernel (hand_memory 1 text_archive) []))"
proof -
  have map: "boot_map (kernel_end_at hand_symbols) (k_mem (static_kernel (hand_memory c ts) [])) 0x500 [boot_entry]"
    if "c \<in> {0, 1}" "fits ts" for c ts
    using hand_boot_map [OF that] by (simp add: static_kernel_ok hand_symbols_def)
  have over: "boot_handover (kernel_end_at hand_symbols) (k_mem (static_kernel (hand_memory 1 ts) [])) 0x500 [boot_entry]
      0x200000 ts" if "fits ts" for ts
    using hand_over [OF that] by (simp add: static_kernel_ok hand_symbols_def)
  note use = kmain_without_program [OF ready_console TrueI static_kernel_ok(1,2) map]
  note m = motd_archive_ok and t = text_archive_ok
  have z: "read32 (k_mem (static_kernel (hand_memory 0 motd_archive) [])) (0x500 + 20) = 0"
    using hand_low_reads(1) [of 0] by (simp add: static_kernel_ok hand_reads m)
  have off: "\<not> interrupts (static_kernel (hand_memory 1 motd_archive) [])" by (simp add: static_kernel_def)
  have bad: "(0 :: u32) \<noteq> MULTIBOOT_MAGIC" by (simp add: MULTIBOOT_MAGIC_def)
  show ?thesis
  proof (intro conjI)
    show "\<exists>k'. kmain (log_device (\<lambda>p. 0x20)) hand_symbols 0 0x500 (static_kernel (hand_memory 1 motd_archive) []) =
        Some (Halted k') \<and> \<not> interrupts k'"
      using use [of 1 motd_archive 0] bad off m(1) by auto
    show "idles_saying (cs ''Initrd missing'') (static_kernel (hand_memory 0 motd_archive) [])
       (kmain (log_device (\<lambda>p. 0x20)) hand_symbols MULTIBOOT_MAGIC 0x500 (static_kernel (hand_memory 0 motd_archive) []))"
      using use [of 0 motd_archive 0] z m(1) by blast
    show "idles_saying (cs ''User init missing'') (static_kernel (hand_memory 1 motd_archive) [])
       (kmain (log_device (\<lambda>p. 0x20)) hand_symbols MULTIBOOT_MAGIC 0x500 (static_kernel (hand_memory 1 motd_archive) []))"
      using use [of 1 motd_archive 0] over [OF m(1)] m by blast
    show "idles_saying (cs ''User init load failed'') (static_kernel (hand_memory 1 text_archive) [])
       (kmain (log_device (\<lambda>p. 0x20)) hand_symbols MULTIBOOT_MAGIC 0x500 (static_kernel (hand_memory 1 text_archive) []))"
      using use [of 1 text_archive 0] over [OF t(1)] t by fastforce
  qed
qed

end
