(* ===== verification/Ext2.thy ===== *)
theory Ext2
  imports Vfs Pata
begin

text \<open>
  The ext2 file system, kernel/fs/ext2.c with the on-disk structures of
  ext2.h, over the ATA driver. The static variables are the fields of the
  record ext2, together with the disk and the memory the callers' buffers lie
  in. A local array is the list of its bytes; as a separate object it shares
  no storage with the callers' buffers, and what it holds before it is filled
  is the parameter garbage. Leaving an array, dividing by zero and waiting for
  the disk for ever are the values of the type fault. Pointers have 32 bits.
\<close>

section \<open>On-disk structures\<close>

definition le16_at :: "nat \<Rightarrow> u8 list \<Rightarrow> u16" where
  "le16_at off b = word_le (take 2 (drop off b))"

definition le32_at :: "nat \<Rightarrow> u8 list \<Rightarrow> u32" where
  "le32_at off b = word_le (take 4 (drop off b))"

record ext2_super_block =
  s_inodes_count :: u32
  s_blocks_count :: u32
  s_r_blocks_count :: u32
  s_free_blocks_count :: u32
  s_free_inodes_count :: u32
  s_first_data_block :: u32
  s_log_block_size :: u32
  s_log_frag_size :: u32
  s_blocks_per_group :: u32
  s_frags_per_group :: u32
  s_inodes_per_group :: u32
  s_mtime :: u32
  s_wtime :: u32
  s_mnt_count :: u16
  s_max_mnt_count :: u16
  s_magic :: u16
  s_state :: u16
  s_errors :: u16
  s_minor_rev_level :: u16
  s_lastcheck :: u32
  s_checkinterval :: u32
  s_creator_os :: u32
  s_rev_level :: u32
  s_def_resuid :: u16
  s_def_resgid :: u16

definition super_block_at :: "u8 list \<Rightarrow> ext2_super_block" where
  "super_block_at b =
     \<lparr>s_inodes_count = le32_at 0 b, s_blocks_count = le32_at 4 b, s_r_blocks_count = le32_at 8 b,
      s_free_blocks_count = le32_at 12 b, s_free_inodes_count = le32_at 16 b, s_first_data_block = le32_at 20 b,
      s_log_block_size = le32_at 24 b, s_log_frag_size = le32_at 28 b, s_blocks_per_group = le32_at 32 b,
      s_frags_per_group = le32_at 36 b, s_inodes_per_group = le32_at 40 b, s_mtime = le32_at 44 b,
      s_wtime = le32_at 48 b, s_mnt_count = le16_at 52 b, s_max_mnt_count = le16_at 54 b, s_magic = le16_at 56 b,
      s_state = le16_at 58 b, s_errors = le16_at 60 b, s_minor_rev_level = le16_at 62 b,
      s_lastcheck = le32_at 64 b, s_checkinterval = le32_at 68 b, s_creator_os = le32_at 72 b,
      s_rev_level = le32_at 76 b, s_def_resuid = le16_at 80 b, s_def_resgid = le16_at 82 b\<rparr>"

record ext2_inode =
  i_mode :: u16
  i_uid :: u16
  i_size :: u32
  i_atime :: u32
  i_ctime :: u32
  i_mtime :: u32
  i_dtime :: u32
  i_gid :: u16
  i_links_count :: u16
  i_blocks :: u32
  i_flags :: u32
  i_osd1 :: u32
  i_block :: "u32 list"
  i_generation :: u32
  i_file_acl :: u32
  i_dir_acl :: u32
  i_faddr :: u32
  i_osd2 :: "u32 list"

definition SIZEOF_INODE :: nat where "SIZEOF_INODE = 128"

definition inode_at :: "nat \<Rightarrow> u8 list \<Rightarrow> ext2_inode" where
  "inode_at off b =
     \<lparr>i_mode = le16_at off b, i_uid = le16_at (off + 2) b, i_size = le32_at (off + 4) b,
      i_atime = le32_at (off + 8) b, i_ctime = le32_at (off + 12) b, i_mtime = le32_at (off + 16) b,
      i_dtime = le32_at (off + 20) b, i_gid = le16_at (off + 24) b, i_links_count = le16_at (off + 26) b,
      i_blocks = le32_at (off + 28) b, i_flags = le32_at (off + 32) b, i_osd1 = le32_at (off + 36) b,
      i_block = map (\<lambda>k. le32_at (off + 40 + 4 * k) b) [0..<15],
      i_generation = le32_at (off + 100) b, i_file_acl = le32_at (off + 104) b, i_dir_acl = le32_at (off + 108) b,
      i_faddr = le32_at (off + 112) b, i_osd2 = map (\<lambda>k. le32_at (off + 116 + 4 * k) b) [0..<3]\<rparr>"

record ext2_group_desc =
  bg_block_bitmap :: u32
  bg_inode_bitmap :: u32
  bg_inode_table :: u32
  bg_free_blocks_count :: u16
  bg_free_inodes_count :: u16
  bg_used_dirs_count :: u16
  bg_pad :: u16
  bg_reserved :: "u32 list"

definition group_desc_at :: "u8 list \<Rightarrow> ext2_group_desc" where
  "group_desc_at b =
     \<lparr>bg_block_bitmap = le32_at 0 b, bg_inode_bitmap = le32_at 4 b, bg_inode_table = le32_at 8 b,
      bg_free_blocks_count = le16_at 12 b, bg_free_inodes_count = le16_at 14 b, bg_used_dirs_count = le16_at 16 b,
      bg_pad = le16_at 18 b, bg_reserved = map (\<lambda>k. le32_at (20 + 4 * k) b) [0..<3]\<rparr>"

section \<open>State\<close>

record 'd ext2 =
  sb :: ext2_super_block
  bg :: ext2_group_desc
  block_size :: u32
  cached_dirent :: dirent
  target_node :: vfs_node
  ext2_root :: vfs_node
  disk_dev :: 'd
  user_mem :: "32 memory"
  garbage :: "nat \<Rightarrow> u8"

datatype fault = Hang | Divide | Overrun

definition and_then :: "fault + 'a \<Rightarrow> ('a \<Rightarrow> fault + 'b) \<Rightarrow> fault + 'b" where
  "and_then r f = (case r of Inl e \<Rightarrow> Inl e | Inr x \<Rightarrow> f x)"

lemma and_then_simps [simp]:
  "and_then (Inl e) f = Inl e"
  "and_then (Inr x) f = f x"
  by (simp_all add: and_then_def)

lemma and_then_cong [fundef_cong]:
  "r = r' \<Longrightarrow> (\<And>x. r' = Inr x \<Longrightarrow> f x = f' x) \<Longrightarrow> and_then r f = and_then r' f'"
  by (auto simp: and_then_def split: sum.split)

definition uninitialised :: "nat \<Rightarrow> 'd ext2 \<Rightarrow> u8 list" where
  "uninitialised n s = map (garbage s) [0..<n]"

definition BUFFER_SIZE :: nat where "BUFFER_SIZE = 4096"

section \<open>Blocks\<close>

text \<open>
  The transfers of the ATA driver into and from a local array. One that is
  longer than the array is an Overrun.
\<close>

definition array_memory :: "u8 list \<Rightarrow> 32 memory" where
  "array_memory b = (\<lambda>a. if unat a < length b then b ! unat a else 0)"

definition read_sectors_into ::
  "'d hardware \<Rightarrow> u32 \<Rightarrow> u8 \<Rightarrow> u8 list \<Rightarrow> 'd ext2 \<Rightarrow> fault + u8 list \<times> 'd ext2" where
  "read_sectors_into hw lba sector_count buf s =
     (if length buf < 512 * unat sector_count then Inl Overrun
      else case pata_read_sectors hw lba sector_count 0 (array_memory buf, disk_dev s) of
             None \<Rightarrow> Inl Hang
           | Some (_, m, d) \<Rightarrow> Inr (read_bytes m 0 (length buf), s\<lparr>disk_dev := d\<rparr>))"

definition write_sectors_from ::
  "'d hardware \<Rightarrow> u32 \<Rightarrow> u8 \<Rightarrow> u8 list \<Rightarrow> 'd ext2 \<Rightarrow> fault + 'd ext2" where
  "write_sectors_from hw lba sector_count buf s =
     (if length buf < 512 * unat sector_count then Inl Overrun
      else case pata_write_sectors hw lba sector_count 0 (array_memory buf, disk_dev s) of
             None \<Rightarrow> Inl Hang
           | Some (_, _, d) \<Rightarrow> Inr (s\<lparr>disk_dev := d\<rparr>))"

text \<open>The sector count is an argument of eight bits.\<close>

definition ext2_read_block ::
  "'d hardware \<Rightarrow> u32 \<Rightarrow> u8 list \<Rightarrow> 'd ext2 \<Rightarrow> fault + u8 list \<times> 'd ext2" where
  "ext2_read_block hw block_num buf s =
     (let sectors_per_block = block_size s div 512 in
      read_sectors_into hw (block_num * sectors_per_block) (ucast sectors_per_block) buf s)"

definition ext2_write_block :: "'d hardware \<Rightarrow> u32 \<Rightarrow> u8 list \<Rightarrow> 'd ext2 \<Rightarrow> fault + 'd ext2" where
  "ext2_write_block hw block_num buf s =
     (let sectors_per_block = block_size s div 512 in
      write_sectors_from hw (block_num * sectors_per_block) (ucast sectors_per_block) buf s)"

section \<open>Inodes and file data\<close>

text \<open>The group of the inode is computed but not used: group 0 is taken.\<close>

definition ext2_read_inode :: "'d hardware \<Rightarrow> u32 \<Rightarrow> 'd ext2 \<Rightarrow> fault + ext2_inode \<times> 'd ext2" where
  "ext2_read_inode hw inode_num s =
     (let inodes_per_group = s_inodes_per_group (sb s) in
      if inodes_per_group = 0 \<or> block_size s = 0 then Inl Divide
      else let index = (inode_num - 1) mod inodes_per_group;
               table_block = bg_inode_table (bg s);
               inode_size = of_nat SIZEOF_INODE;
               block_offset = (index * inode_size) div block_size s
           in and_then (ext2_read_block hw (table_block + block_offset) (uninitialised BUFFER_SIZE s) s)
                (\<lambda>(block_buf, s).
                  if block_size s div inode_size = 0 then Inl Divide
                  else let off = unat (index mod (block_size s div inode_size)) * SIZEOF_INODE in
                       if BUFFER_SIZE < off + SIZEOF_INODE then Inl Overrun
                       else Inr (inode_at off block_buf, s)))"

text \<open>
  The loop of ext2_read_data. The bytes of one block are stored one by one,
  in order, which is write_bytes.
\<close>

function ext2_read_loop ::
  "'d hardware \<Rightarrow> ext2_inode \<Rightarrow> u32 \<Rightarrow> u32 \<Rightarrow> u32 \<Rightarrow> u32 \<Rightarrow> u8 list \<Rightarrow> 'd ext2 \<Rightarrow> fault + u32 \<times> 'd ext2" where
  "ext2_read_loop hw node offset sz buffer bytes_read b_buf s =
     (if bytes_read < sz \<and> offset < i_size node
      then if block_size s = 0 then Inl Divide
           else let b_idx = offset div block_size s;
                    b_off = offset mod block_size s;
                    chunk = block_size s - b_off;
                    chunk = (if chunk > sz - bytes_read then sz - bytes_read else chunk);
                    chunk = (if chunk > i_size node - offset then i_size node - offset else chunk)
                in if 15 \<le> b_idx then Inl Overrun
                   else and_then (ext2_read_block hw (i_block node ! unat b_idx) b_buf s) (\<lambda>(b_buf, s).
                     if BUFFER_SIZE < unat b_off + unat chunk then Inl Overrun
                     else ext2_read_loop hw node (offset + chunk) sz buffer (bytes_read + chunk) b_buf
                            (s\<lparr>user_mem := write_bytes (user_mem s) (buffer + bytes_read)
                                 (take (unat chunk) (drop (unat b_off) b_buf))\<rparr>))
      else Inr (bytes_read, s))"
  by pat_completeness auto

lemma next_chunk:
  fixes offset sz bytes_read size_of bs :: u32
  assumes "bytes_read < sz" "offset < size_of" "bs \<noteq> 0"
    and c1_def: "c1 = bs - offset mod bs"
    and c2_def: "c2 = (if c1 > sz - bytes_read then sz - bytes_read else c1)"
    and c3_def: "c3 = (if c2 > size_of - offset then size_of - offset else c2)"
  shows "unat c3 = min (unat bs - unat offset mod unat bs) (min (unat sz - unat bytes_read) (unat size_of - unat offset))"
    and "0 < unat c3" and "unat (offset + c3) = unat offset + unat c3" and "unat (bytes_read + c3) = unat bytes_read + unat c3"
proof -
  have "0 < bs" using assms(3) by (simp add: word_neq_0_conv)
  then have m: "offset mod bs < bs" by (rule word_mod_less_divisor)
  have c1: "unat c1 = unat bs - unat offset mod unat bs"
    unfolding c1_def using m by (simp add: unat_sub less_imp_le unat_mod)
  have d: "unat (sz - bytes_read) = unat sz - unat bytes_read" "unat (size_of - offset) = unat size_of - unat offset"
    using assms(1,2) by (simp_all add: unat_sub less_imp_le)
  show e: "unat c3 = min (unat bs - unat offset mod unat bs) (min (unat sz - unat bytes_read) (unat size_of - unat offset))"
    unfolding c3_def c2_def by (auto simp: word_less_nat_alt c1 d)
  have b: "unat bytes_read < unat sz" "unat offset < unat size_of" using assms(1,2) by (simp_all add: word_less_nat_alt)
  have "0 < unat bs" using \<open>0 < bs\<close> by (simp add: word_less_nat_alt)
  then have "unat offset mod unat bs < unat bs" by (rule mod_less_divisor)
  with e b show "0 < unat c3" by simp
  have le: "unat offset + unat c3 \<le> unat size_of" "unat bytes_read + unat c3 \<le> unat sz" using e b by linarith+
  show "unat (offset + c3) = unat offset + unat c3"
    by (rule unat_add_lem [THEN iffD1]) (use le(1) unat_u32 [of size_of] in simp)
  show "unat (bytes_read + c3) = unat bytes_read + unat c3"
    by (rule unat_add_lem [THEN iffD1]) (use le(2) unat_u32 [of sz] in simp)
qed

termination ext2_read_loop
proof (relation "measure (\<lambda>(hw, node, offset, _). unat (i_size node) - unat offset)", goal_cases)
  case 1
  then show ?case by simp
next
  case (2 hw node offset sz buffer bytes_read b_buf s b_idx b_off c1 c2 c3)
  note facts = 2
  have "bytes_read < sz" "offset < i_size node" using facts(1) by simp_all
  note c = next_chunk [OF this facts(2) facts(5) [unfolded facts(4)] facts(6,7)]
  have "unat offset < unat (i_size node)" using facts(1) by (simp add: word_less_nat_alt)
  with c(2,3) show ?case by simp
qed

declare ext2_read_loop.simps [simp del]

definition ext2_read_data ::
  "'d hardware \<Rightarrow> ext2_inode \<Rightarrow> u32 \<Rightarrow> u32 \<Rightarrow> u32 \<Rightarrow> 'd ext2 \<Rightarrow> fault + u32 \<times> 'd ext2" where
  "ext2_read_data hw node offset sz buffer s =
     ext2_read_loop hw node offset sz buffer 0 (uninitialised BUFFER_SIZE s) s"

section \<open>The functions of a node\<close>

definition ext2_node_at :: "'d ext2 \<Rightarrow> node_ptr \<Rightarrow> vfs_node" where
  "ext2_node_at s p = (case p of Ext2Root \<Rightarrow> ext2_root s | Ext2Target \<Rightarrow> target_node s | TarNode i \<Rightarrow> null_node)"

definition ext2_node_read ::
  "'d hardware \<Rightarrow> node_ptr \<Rightarrow> u32 \<Rightarrow> u32 \<Rightarrow> u32 \<Rightarrow> 'd ext2 \<Rightarrow> fault + u32 \<times> 'd ext2" where
  "ext2_node_read hw node offset sz buffer s =
     and_then (ext2_read_inode hw (inode (ext2_node_at s node)) s) (\<lambda>(i, s).
       ext2_read_data hw i offset sz buffer s)"

text \<open>Writing stays in the block of the offset: there is no loop over blocks, and no bound on the size.\<close>

definition ext2_node_write ::
  "'d hardware \<Rightarrow> node_ptr \<Rightarrow> u32 \<Rightarrow> u32 \<Rightarrow> u32 \<Rightarrow> 'd ext2 \<Rightarrow> fault + u32 \<times> 'd ext2" where
  "ext2_node_write hw node offset sz buffer s =
     and_then (ext2_read_inode hw (inode (ext2_node_at s node)) s) (\<lambda>(i, s).
       let b_idx = offset div block_size s in
       if 15 \<le> b_idx then Inl Overrun
       else let phys_block = i_block i ! unat b_idx in
         and_then (ext2_read_block hw phys_block (uninitialised BUFFER_SIZE s) s) (\<lambda>(b_buf, s).
           let b_off = unat (offset mod block_size s) in
           if BUFFER_SIZE < b_off + unat sz then Inl Overrun
           else let b_buf = take b_off b_buf @ read_bytes (user_mem s) buffer (unat sz) @ drop (b_off + unat sz) b_buf
                in and_then (ext2_write_block hw phys_block b_buf s) (\<lambda>s. Inr (sz, s))))"

text \<open>
  The fields of a directory entry at an offset of a block; name is an array
  that the copy loop reads up to name_len or 127 characters of.
\<close>

definition entry_inode :: "nat \<Rightarrow> u8 list \<Rightarrow> u32" where "entry_inode off b = le32_at off b"
definition entry_rec_len :: "nat \<Rightarrow> u8 list \<Rightarrow> u16" where "entry_rec_len off b = le16_at (off + 4) b"
definition entry_name_len :: "nat \<Rightarrow> u8 list \<Rightarrow> nat" where "entry_name_len off b = unat (b ! (off + 6))"
definition entry_file_type :: "nat \<Rightarrow> u8 list \<Rightarrow> u8" where "entry_file_type off b = b ! (off + 7)"

definition copy_entry :: "nat \<Rightarrow> u8 list \<Rightarrow> fault + dirent" where
  "copy_entry off b =
     (if BUFFER_SIZE < off + 8 then Inl Overrun
      else let n = min (entry_name_len off b) 127 in
           if BUFFER_SIZE < off + 8 + n then Inl Overrun
           else Inr \<lparr>dname = takeWhile (\<lambda>c. c \<noteq> 0) (take n (drop (off + 8) b)),
                     ino = entry_inode off b, dtype = entry_file_type off b\<rparr>)"

text \<open>
  The loop of ext2_node_readdir. It reads the first block of the directory
  again for every entry, and no other.
\<close>

function readdir_loop ::
  "'d hardware \<Rightarrow> ext2_inode \<Rightarrow> u32 \<Rightarrow> u32 \<Rightarrow> u32 \<Rightarrow> u8 list \<Rightarrow> 'd ext2 \<Rightarrow> fault + dirent option \<times> 'd ext2" where
  "readdir_loop hw node index offset current_index b_buf s =
     (if offset < i_size node
      then and_then (ext2_read_block hw (i_block node ! 0) b_buf s) (\<lambda>(b_buf, s).
             if BUFFER_SIZE < unat offset + 6 then Inl Overrun
             else if entry_rec_len (unat offset) b_buf = 0 then Inr (None, s)
             else if entry_inode (unat offset) b_buf \<noteq> 0
             then if current_index = index
                  then and_then (copy_entry (unat offset) b_buf) (\<lambda>d. Inr (Some d, s\<lparr>cached_dirent := d\<rparr>))
                  else readdir_loop hw node index (offset + ucast (entry_rec_len (unat offset) b_buf))
                         (current_index + 1) b_buf s
             else readdir_loop hw node index (offset + ucast (entry_rec_len (unat offset) b_buf))
                    current_index b_buf s)
      else Inr (None, s))"
  by pat_completeness auto

lemma next_entry:
  fixes offset :: u32 and rec_len :: u16
  assumes "\<not> BUFFER_SIZE < unat offset + 6"
  shows "unat (offset + ucast rec_len) = unat offset + unat rec_len"
proof -
  have "unat rec_len < 2 ^ LENGTH(16)" by (rule unsigned_less)
  then have "unat offset + unat (ucast rec_len :: u32) < 2 ^ LENGTH(32)"
    using assms by (simp add: BUFFER_SIZE_def unsigned_ucast_eq take_bit_nat_eq_self)
  then have "unat (offset + ucast rec_len) = unat offset + unat (ucast rec_len :: u32)"
    by (simp add: unat_add_lem [THEN iffD1])
  then show ?thesis using \<open>unat rec_len < 2 ^ LENGTH(16)\<close> by (simp add: unsigned_ucast_eq take_bit_nat_eq_self)
qed

lemma next_entry_further:
  fixes offset :: u32 and rec_len :: u16
  assumes "\<not> BUFFER_SIZE < unat offset + 6" "rec_len \<noteq> 0"
  shows "BUFFER_SIZE - unat (offset + ucast rec_len) < BUFFER_SIZE - unat offset"
  using assms by (simp add: next_entry unat_eq_0 [symmetric])

termination readdir_loop
  by (relation "measure (\<lambda>(hw, node, index, offset, _). BUFFER_SIZE - unat offset)") (simp_all add: next_entry_further)

declare readdir_loop.simps [simp del]

definition ext2_node_readdir ::
  "'d hardware \<Rightarrow> node_ptr \<Rightarrow> u32 \<Rightarrow> 'd ext2 \<Rightarrow> fault + dirent option \<times> 'd ext2" where
  "ext2_node_readdir hw node index s =
     and_then (ext2_read_inode hw (inode (ext2_node_at s node)) s) (\<lambda>(i, s).
       readdir_loop hw i index 0 0 (uninitialised BUFFER_SIZE s) s)"

text \<open>
  The comparison of an entry's k characters from position p on with the
  characters of a string, and with its terminator at the end: reading past
  the terminator, or past the block, is an Overrun.
\<close>

fun name_match :: "u8 list \<Rightarrow> nat \<Rightarrow> nat \<Rightarrow> u8 list \<Rightarrow> fault + bool" where
  "name_match b p 0 nm = Inr (nm = [])"
| "name_match b p (Suc k) nm =
     (if BUFFER_SIZE \<le> p then Inl Overrun
      else case nm of
             [] \<Rightarrow> if b ! p \<noteq> 0 then Inr False else Inl Overrun
           | c # nm \<Rightarrow> if b ! p \<noteq> c then Inr False else name_match b (p + 1) k nm)"

definition ext2_slots :: "vfs_node \<Rightarrow> vfs_node" where
  "ext2_slots n = n\<lparr>read_slot := Some Ext2, write_slot := Some Ext2, readdir_slot := Some Ext2, finddir_slot := Some Ext2\<rparr>"

definition fill_target :: "u32 \<Rightarrow> ext2_inode \<Rightarrow> vfs_node \<Rightarrow> vfs_node" where
  "fill_target i target_inode n = ext2_slots (n\<lparr>
     inode := i,
     mask := ucast (i_mode target_inode),
     uid := ucast (i_uid target_inode),
     gid := ucast (i_gid target_inode),
     node_length := i_size target_inode,
     flags := (if i_mode target_inode AND 0x4000 \<noteq> 0 then VFS_DIRECTORY else VFS_FILE)\<rparr>)"

function finddir_loop ::
  "'d hardware \<Rightarrow> ext2_inode \<Rightarrow> u8 list \<Rightarrow> u32 \<Rightarrow> u8 list \<Rightarrow> 'd ext2 \<Rightarrow> fault + node_ptr option \<times> 'd ext2" where
  "finddir_loop hw node nm offset b_buf s =
     (if offset < i_size node
      then and_then (ext2_read_block hw (i_block node ! 0) b_buf s) (\<lambda>(b_buf, s).
             if BUFFER_SIZE < unat offset + 6 then Inl Overrun
             else if entry_rec_len (unat offset) b_buf = 0 then Inr (None, s)
             else if entry_inode (unat offset) b_buf \<noteq> 0
             then if BUFFER_SIZE < unat offset + 7 then Inl Overrun
                  else and_then (name_match b_buf (unat offset + 8) (entry_name_len (unat offset) b_buf) nm) (\<lambda>found.
                    if found
                    then and_then (ext2_read_inode hw (entry_inode (unat offset) b_buf) s) (\<lambda>(target_inode, s).
                      Inr (Some Ext2Target,
                           s\<lparr>target_node := fill_target (entry_inode (unat offset) b_buf) target_inode (target_node s)\<rparr>))
                    else finddir_loop hw node nm (offset + ucast (entry_rec_len (unat offset) b_buf)) b_buf s)
             else finddir_loop hw node nm (offset + ucast (entry_rec_len (unat offset) b_buf)) b_buf s)
      else Inr (None, s))"
  by pat_completeness auto

termination finddir_loop
  by (relation "measure (\<lambda>(hw, node, nm, offset, _). BUFFER_SIZE - unat offset)") (simp_all add: next_entry_further)

declare finddir_loop.simps [simp del]

definition ext2_node_finddir ::
  "'d hardware \<Rightarrow> node_ptr \<Rightarrow> u8 list \<Rightarrow> 'd ext2 \<Rightarrow> fault + node_ptr option \<times> 'd ext2" where
  "ext2_node_finddir hw node nm s =
     and_then (ext2_read_inode hw (inode (ext2_node_at s node)) s) (\<lambda>(i, s).
       finddir_loop hw i nm 0 (uninitialised BUFFER_SIZE s) s)"

section \<open>Mounting\<close>

definition EXT2_MAGIC :: u16 where "EXT2_MAGIC = 0xEF53"

text \<open>
  The shift count of a 32-bit shift is taken modulo 32, as the processor does;
  C leaves a larger count undefined.
\<close>

definition copy_super_block :: "ext2_super_block \<Rightarrow> ext2_super_block \<Rightarrow> ext2_super_block" where
  "copy_super_block psb b = b\<lparr>
     s_inodes_count := s_inodes_count psb,
     s_blocks_count := s_blocks_count psb,
     s_free_blocks_count := s_free_blocks_count psb,
     s_free_inodes_count := s_free_inodes_count psb,
     s_first_data_block := s_first_data_block psb,
     s_log_block_size := s_log_block_size psb,
     s_blocks_per_group := s_blocks_per_group psb,
     s_inodes_per_group := s_inodes_per_group psb,
     s_magic := s_magic psb\<rparr>"

definition copy_group_desc :: "ext2_group_desc \<Rightarrow> ext2_group_desc \<Rightarrow> ext2_group_desc" where
  "copy_group_desc pbg b = b\<lparr>
     bg_block_bitmap := bg_block_bitmap pbg,
     bg_inode_bitmap := bg_inode_bitmap pbg,
     bg_inode_table := bg_inode_table pbg,
     bg_free_blocks_count := bg_free_blocks_count pbg,
     bg_free_inodes_count := bg_free_inodes_count pbg\<rparr>"

definition ext2_mount ::
  "'d hardware \<Rightarrow> u8 list \<Rightarrow> u8 list \<Rightarrow> 'd ext2 \<Rightarrow> fault + node_ptr option \<times> 'd ext2" where
  "ext2_mount hw source target s =
     and_then (read_sectors_into hw 2 2 (uninitialised 1024 s) s) (\<lambda>(sector, s).
       let psb = super_block_at sector in
       if s_magic psb \<noteq> EXT2_MAGIC then Inr (None, s)
       else let s = s\<lparr>sb := copy_super_block psb (sb s)\<rparr>;
                s = s\<lparr>block_size := push_bit (unat (s_log_block_size (sb s)) mod 32) 1024\<rparr>;
                bg_sector = (if block_size s = 1024 then 4 else 2)
            in and_then (read_sectors_into hw bg_sector 1 sector s) (\<lambda>(sector, s).
                 let s = s\<lparr>bg := copy_group_desc (group_desc_at sector) (bg s)\<rparr>;
                     s = s\<lparr>ext2_root := ext2_slots ((ext2_root s)\<lparr>inode := 2, flags := VFS_DIRECTORY, mask := 493\<rparr>)\<rparr>
                 in Inr (Some Ext2Root, s)))"

definition ext2_unmount :: "node_ptr option \<Rightarrow> 'd ext2 \<Rightarrow> int \<times> 'd ext2" where
  "ext2_unmount mount_point s = (0, s)"

text \<open>The functions behind the slots, for the calls of the virtual file system.\<close>

definition returned :: "fault + 'a \<Rightarrow> 'a option" where
  "returned r = (case r of Inl e \<Rightarrow> None | Inr x \<Rightarrow> Some x)"

definition ext2_drivers :: "'d hardware \<Rightarrow> 'd ext2 drivers" where
  "ext2_drivers hw =
     \<lparr>node_at = ext2_node_at,
      read_call = (\<lambda>d n off sz buf s. if d = Ext2 then returned (ext2_node_read hw n off sz buf s) else None),
      write_call = (\<lambda>d n off sz buf s. if d = Ext2 then returned (ext2_node_write hw n off sz buf s) else None),
      open_call = (\<lambda>d n s. None), close_call = (\<lambda>d n s. None),
      readdir_call = (\<lambda>d n i s. if d = Ext2 then returned (ext2_node_readdir hw n i s) else None),
      finddir_call = (\<lambda>d n nm s. if d = Ext2 then returned (ext2_node_finddir hw n nm s) else None),
      mkdir_call = (\<lambda>d n nm p s. None), create_call = (\<lambda>d n nm p s. None),
      link_call = (\<lambda>d n t nm s. None), unlink_call = (\<lambda>d n nm s. None)\<rparr>"

section \<open>Bytes of the disk\<close>

text \<open>The disk as one sequence of bytes, in which blocks and inodes have their addresses.\<close>

definition disk_byte :: "ata \<Rightarrow> nat \<Rightarrow> u8" where
  "disk_byte a p = disk a (p div 512) ! (p mod 512)"

definition disk_bytes :: "ata \<Rightarrow> nat \<Rightarrow> nat \<Rightarrow> u8 list" where
  "disk_bytes a p n = map (disk_byte a) [p..<p + n]"

lemma length_disk_bytes [simp]: "length (disk_bytes a p n) = n"
  by (simp add: disk_bytes_def)

lemma nth_disk_bytes: "i < n \<Longrightarrow> disk_bytes a p n ! i = disk_byte a (p + i)"
  by (simp add: disk_bytes_def)

lemma slice_disk_bytes: "off + k \<le> n \<Longrightarrow> take k (drop off (disk_bytes a p n)) = disk_bytes a (p + off) k"
  by (rule nth_equalityI) (simp_all add: nth_disk_bytes add.assoc)

lemma take_disk_bytes: "k \<le> n \<Longrightarrow> take k (disk_bytes a p n) = disk_bytes a p k"
  using slice_disk_bytes [of 0 k n a p] by simp

lemma disk_bytes_append: "disk_bytes a p (n + k) = disk_bytes a p n @ disk_bytes a (p + n) k"
  using upt_add_eq_append [of p "p + n" k] by (simp add: disk_bytes_def add.assoc)

lemma disk_bytes_cong: "disk a = disk b \<Longrightarrow> disk_bytes a p n = disk_bytes b p n"
  by (simp add: disk_bytes_def disk_byte_def)

lemma disk_byte_sector: "i < 512 \<Longrightarrow> disk_byte a (512 * l + i) = disk a l ! i"
  by (simp add: disk_byte_def)

lemma sectors_bytes:
  assumes "disk_ok a" "L + n \<le> capacity a"
  shows "concat (map (disk a) [L..<L + n]) = disk_bytes a (512 * L) (512 * n)"
  using assms(2)
proof (induction n)
  case 0
  then show ?case by (simp add: disk_bytes_def)
next
  case (Suc n)
  have "disk a (L + n) = disk_bytes a (512 * (L + n)) 512"
  proof (rule nth_equalityI)
    show len: "length (disk a (L + n)) = length (disk_bytes a (512 * (L + n)) 512)"
      using assms(1) Suc.prems by (simp add: disk_ok_def)
    fix i
    assume "i < length (disk a (L + n))"
    then have "i < 512" using len by simp
    then show "disk a (L + n) ! i = disk_bytes a (512 * (L + n)) 512 ! i"
      by (simp only: nth_disk_bytes disk_byte_sector)
  qed
  moreover have "disk_bytes a (512 * L) (512 * Suc n) =
      disk_bytes a (512 * L) (512 * n) @ disk_bytes a (512 * (L + n)) 512"
    using disk_bytes_append [of a "512 * L" "512 * n" 512] by (simp add: add.commute)
  ultimately show ?case using Suc by simp
qed

text \<open>Lists of blocks of one length, byte by byte.\<close>

lemma nth_concat_blocks:
  "(\<And>b. b \<in> set xs \<Longrightarrow> length b = n) \<Longrightarrow> p < n * length xs \<Longrightarrow> concat xs ! p = xs ! (p div n) ! (p mod n)"
proof (induction xs arbitrary: p)
  case Nil
  then show ?case by simp
next
  case (Cons x xs)
  then have x: "length x = n" and n: "0 < n" by (simp, cases n) simp_all
  show ?case
  proof (cases "p < n")
    case True
    then show ?thesis by (simp add: nth_append x)
  next
    case False
    then obtain q where q: "p = n + q" by (metis le_add_diff_inverse not_less)
    with Cons.prems(2) have "q < n * length xs" by simp
    with Cons.IH Cons.prems(1) have "concat xs ! q = xs ! (q div n) ! (q mod n)" by simp
    moreover have "(n + q) div n = Suc (q div n)" using n by (simp add: div_add_self1)
    ultimately show ?thesis by (simp add: nth_append x q)
  qed
qed

section \<open>Volumes\<close>

definition capacity_of :: "('d \<Rightarrow> ata) \<Rightarrow> 'd ext2 \<Rightarrow> nat" where
  "capacity_of view s = capacity (view (disk_dev s))"

text \<open>
  What the driver relies on: a drive that is ready, no larger than the 28-bit
  sector numbers, a block size that fits the local buffers, and an inode
  table of group 0 on the drive, with no more inodes than one block of bitmap
  has bits.
\<close>

definition volume :: "('d \<Rightarrow> ata) \<Rightarrow> 'd ext2 \<Rightarrow> bool" where
  "volume view s \<longleftrightarrow>
     ata_ready (view (disk_dev s)) \<and> disk_ok (view (disk_dev s)) \<and> capacity_of view s \<le> 2 ^ 28 \<and>
     block_size s \<in> {1024, 2048, 4096} \<and>
     0 < s_inodes_per_group (sb s) \<and> unat (s_inodes_per_group (sb s)) \<le> 8 * unat (block_size s) \<and>
     (unat (bg_inode_table (bg s)) + unat (s_inodes_per_group (sb s)) * SIZEOF_INODE div unat (block_size s) + 1)
       * unat (block_size s) \<le> 512 * capacity_of view s"

text \<open>Block n, the inode number n of group 0, and the contents of a file without indirect blocks.\<close>

definition block_bytes :: "('d \<Rightarrow> ata) \<Rightarrow> 'd ext2 \<Rightarrow> u32 \<Rightarrow> u8 list" where
  "block_bytes view s n = disk_bytes (view (disk_dev s)) (unat n * unat (block_size s)) (unat (block_size s))"

definition on_disk :: "('d \<Rightarrow> ata) \<Rightarrow> 'd ext2 \<Rightarrow> u32 \<Rightarrow> bool" where
  "on_disk view s n \<longleftrightarrow> (unat n + 1) * unat (block_size s) \<le> 512 * capacity_of view s"

definition inode_address :: "'d ext2 \<Rightarrow> u32 \<Rightarrow> nat" where
  "inode_address s n = unat (bg_inode_table (bg s)) * unat (block_size s) + (unat n - 1) * SIZEOF_INODE"

definition inode_of :: "('d \<Rightarrow> ata) \<Rightarrow> 'd ext2 \<Rightarrow> u32 \<Rightarrow> ext2_inode" where
  "inode_of view s n = inode_at 0 (disk_bytes (view (disk_dev s)) (inode_address s n) SIZEOF_INODE)"

definition in_group :: "'d ext2 \<Rightarrow> u32 \<Rightarrow> bool" where
  "in_group s n \<longleftrightarrow> 0 < n \<and> n \<le> s_inodes_per_group (sb s)"

definition used_blocks :: "'d ext2 \<Rightarrow> ext2_inode \<Rightarrow> u32 list" where
  "used_blocks s i = take ((unat (i_size i) + unat (block_size s) - 1) div unat (block_size s)) (i_block i)"

definition direct_file :: "('d \<Rightarrow> ata) \<Rightarrow> 'd ext2 \<Rightarrow> ext2_inode \<Rightarrow> bool" where
  "direct_file view s i \<longleftrightarrow> length (i_block i) = 15 \<and> unat (i_size i) \<le> 12 * unat (block_size s) \<and>
     (\<forall>b \<in> set (used_blocks s i). b \<noteq> 0 \<and> on_disk view s b)"

definition contents :: "('d \<Rightarrow> ata) \<Rightarrow> 'd ext2 \<Rightarrow> ext2_inode \<Rightarrow> u8 list" where
  "contents view s i = take (unat (i_size i)) (concat (map (block_bytes view s) (used_blocks s i)))"

text \<open>A transfer that read: the drive is ready again and holds the same sectors.\<close>

definition kept :: "('d \<Rightarrow> ata) \<Rightarrow> 'd \<Rightarrow> 'd \<Rightarrow> bool" where
  "kept view d e \<longleftrightarrow> ata_ready (view e) \<and> disk (view e) = disk (view d) \<and> capacity (view e) = capacity (view d)"

lemma kept_trans: "kept view d e \<Longrightarrow> kept view e f \<Longrightarrow> kept view d f"
  by (simp add: kept_def)

lemma kept_self: "volume view s \<Longrightarrow> kept view (disk_dev s) (disk_dev s)"
  by (simp add: kept_def volume_def)

text \<open>The definitions above depend on the disk, the block size, and the descriptors only.\<close>

definition same_volume :: "('d \<Rightarrow> ata) \<Rightarrow> 'd ext2 \<Rightarrow> 'd ext2 \<Rightarrow> bool" where
  "same_volume view s t \<longleftrightarrow> kept view (disk_dev s) (disk_dev t) \<and> block_size t = block_size s \<and> sb t = sb s \<and> bg t = bg s"

lemma same_volume_facts:
  assumes "same_volume view s t"
  shows "volume view s \<Longrightarrow> volume view t" "block_bytes view t = block_bytes view s" "on_disk view t = on_disk view s"
    "inode_of view t = inode_of view s" "in_group t = in_group s" "used_blocks t = used_blocks s"
    "direct_file view t = direct_file view s" "contents view t = contents view s" "block_size t = block_size s"
proof -
  from assms have d: "disk_bytes (view (disk_dev t)) = disk_bytes (view (disk_dev s))"
    "capacity_of view t = capacity_of view s" "block_size t = block_size s" "sb t = sb s" "bg t = bg s"
    by (auto simp: same_volume_def kept_def capacity_of_def fun_eq_iff intro!: disk_bytes_cong)
  show 1: "block_bytes view t = block_bytes view s" "on_disk view t = on_disk view s" "used_blocks t = used_blocks s"
    by (intro ext; simp add: block_bytes_def on_disk_def used_blocks_def d)+
  show "direct_file view t = direct_file view s" "contents view t = contents view s"
    by (intro ext; simp add: direct_file_def contents_def d 1)+
  show "inode_of view t = inode_of view s" "in_group t = in_group s"
    by (simp_all add: fun_eq_iff inode_of_def in_group_def inode_address_def d)
  show "block_size t = block_size s" by (rule d)
  show "volume view t" if "volume view s"
    using that assms by (simp add: volume_def d) (simp add: same_volume_def kept_def disk_ok_def)
qed

lemma same_volume_trans: "same_volume view s t \<Longrightarrow> same_volume view t u \<Longrightarrow> same_volume view s u"
  by (auto simp: same_volume_def intro: kept_trans)

lemma same_volume_self: "volume view s \<Longrightarrow> same_volume view s s"
  by (simp add: same_volume_def kept_self)

section \<open>Reading blocks\<close>

lemma block_sizes:
  assumes "volume view s"
  obtains k where "k \<in> {2, 4, 8}" "unat (block_size s) = 512 * k" "block_size s div 512 = of_nat k"
    "unat (block_size s) \<le> 4096"
proof -
  from assms have "block_size s = 1024 \<or> block_size s = 2048 \<or> block_size s = 4096" by (auto simp: volume_def)
  then consider "block_size s = 1024" | "block_size s = 2048" | "block_size s = 4096" by blast
  then show ?thesis
  proof cases
    case 1
    then show ?thesis by (intro that [of 2]) simp_all
  next
    case 2
    then show ?thesis by (intro that [of 4]) simp_all
  next
    case 3
    then show ?thesis by (intro that [of 8]) simp_all
  qed
qed

lemma block_lba:
  fixes n :: u32
  assumes "k \<in> {2, 4, 8}" "(unat n + 1) * (512 * k) \<le> 512 * c" "c \<le> 2 ^ 28"
  shows "unat (n * of_nat k) mod 2 ^ 28 = unat n * k" "unat n * k + k \<le> c"
proof -
  have "(unat n + 1) * k \<le> c" using assms(2) by (simp add: algebra_simps)
  then show le: "unat n * k + k \<le> c" by (simp add: algebra_simps)
  have "0 < k" "k < 2 ^ LENGTH(32)" using assms(1) by auto
  then have u: "unat (of_nat k :: u32) = k" by (simp add: unat_of_nat)
  have lt: "unat n * k < 2 ^ 28" using le assms(3) \<open>0 < k\<close> by linarith
  then have "unat (n * of_nat k) = unat n * k"
    by (simp add: unat_word_ariths u)
  with lt show "unat (n * of_nat k) mod 2 ^ 28 = unat n * k" by simp
qed

lemma read_array_prefix:
  assumes "length xs \<le> n" "n \<le> 2 ^ 32" "length buf = n"
  shows "read_bytes (write_bytes (array_memory buf) 0 xs) 0 n = xs @ drop (length xs) buf"
proof (rule nth_equalityI)
  fix i
  assume "i < length (read_bytes (write_bytes (array_memory buf) 0 xs) 0 n)"
  then have i: "i < n" by simp
  then have u: "unat (of_nat i :: u32) = i" using assms(2) by (simp add: unat_of_nat)
  have "write_bytes (array_memory buf) 0 xs (of_nat i) = (if i < length xs then xs ! i else buf ! i)"
    using assms i by (simp add: write_bytes_apply region_def u array_memory_def)
  then show "read_bytes (write_bytes (array_memory buf) 0 xs) 0 n ! i = (xs @ drop (length xs) buf) ! i"
    using i assms by (simp add: nth_append)
qed (use assms in simp)

lemma read_block_ok:
  assumes dev: "ata_device hw view" and v: "volume view s" and n: "on_disk view s n" and b: "length b = BUFFER_SIZE"
  obtains d where "ext2_read_block hw n b s =
      Inr (block_bytes view s n @ drop (unat (block_size s)) b, s\<lparr>disk_dev := d\<rparr>)"
    and "kept view (disk_dev s) d"
proof -
  let ?a = "view (disk_dev s)"
  obtain k where k: "k \<in> {2, 4, 8}" "unat (block_size s) = 512 * k" "block_size s div 512 = of_nat k"
    by (rule block_sizes [OF v])
  have ok: "ata_ready ?a" "disk_ok ?a" "capacity ?a \<le> 2 ^ 28"
    using v by (simp_all add: volume_def capacity_of_def)
  have c: "unat (of_nat k :: u8) = k" "(of_nat k :: u8) \<noteq> 0" "(ucast (of_nat k :: u32) :: u8) = of_nat k"
    using k(1) by auto
  have "(unat n + 1) * (512 * k) \<le> 512 * capacity ?a" using n by (simp add: on_disk_def capacity_of_def k(2))
  note lba = block_lba [OF k(1) this ok(3)]
  from pata_read_ok [OF dev ok(1,2) c(2), of "n * of_nat k" 0 "array_memory b"] lba c(1)
  obtain d where d: "pata_read_sectors hw (n * of_nat k) (of_nat k) 0 (array_memory b, disk_dev s) =
      Some (0, write_bytes (array_memory b) 0 (concat (map (disk ?a) [unat n * k..<unat n * k + k])), d)"
    "disk (view d) = disk ?a" "capacity (view d) = capacity ?a" "xfer (view d) = Idle"
    by auto
  have bs: "concat (map (disk ?a) [unat n * k..<unat n * k + k]) = block_bytes view s n"
    by (simp add: sectors_bytes [OF ok(2) lba(2)] block_bytes_def k(2) mult.left_commute)
  have len: "length b = 4096" "512 * k \<le> 4096" using b k(1) by (auto simp: BUFFER_SIZE_def)
  have l: "length (block_bytes view s n) = 512 * k" by (simp add: block_bytes_def k(2))
  have r: "read_bytes (write_bytes (array_memory b) 0 (block_bytes view s n)) 0 4096 =
      block_bytes view s n @ drop (512 * k) b"
    using read_array_prefix [of "block_bytes view s n" 4096 b] l len by simp
  have "ext2_read_block hw n b s = Inr (block_bytes view s n @ drop (unat (block_size s)) b, s\<lparr>disk_dev := d\<rparr>)"
    using len d(1) by (simp add: ext2_read_block_def read_sectors_into_def k(2,3) c bs r)
  moreover have "kept view (disk_dev s) d" using d(2-4) by (simp add: kept_def ata_ready_def)
  ultimately show ?thesis by (rule that)
qed

section \<open>Reading inodes\<close>

lemma le_at_slice:
  "off + k + 2 \<le> off + n \<Longrightarrow> le16_at (off + k) b = le16_at k (take n (drop off b))"
  "off + k + 4 \<le> off + n \<Longrightarrow> le32_at (off + k) b = le32_at k (take n (drop off b))"
  by (simp_all add: le16_at_def le32_at_def drop_take take_take add.commute)

lemma inode_at_slice: "inode_at off b = inode_at 0 (take 128 (drop off b))"
proof -
  have 16: "le16_at (off + k) b = le16_at k (take 128 (drop off b))" if "k \<le> 126" for k
    by (rule le_at_slice(1)) (use that in simp)
  have 32: "le32_at (off + k) b = le32_at k (take 128 (drop off b))" if "k \<le> 124" for k
    by (rule le_at_slice(2)) (use that in simp)
  show ?thesis
    using 16 [of 0]
    by (simp add: inode_at_def 16 32 add.assoc del: add_2_eq_Suc add_2_eq_Suc')
qed

lemma length_i_block [simp]: "length (i_block (inode_at off b)) = 15"
  by (simp add: inode_at_def)

text \<open>
  The block and the offset that ext2_read_inode computes are those of the
  inode's address in the table.
\<close>

lemma inode_position:
  fixes n :: u32
  assumes v: "volume view s" and n: "in_group s n"
  defines "index \<equiv> (n - 1) mod s_inodes_per_group (sb s)"
  defines "blk \<equiv> bg_inode_table (bg s) + (index * of_nat SIZEOF_INODE) div block_size s"
    and "off \<equiv> unat (index mod (block_size s div of_nat SIZEOF_INODE)) * SIZEOF_INODE"
  shows "inode_address s n = unat blk * unat (block_size s) + off" "off + SIZEOF_INODE \<le> unat (block_size s)"
    "on_disk view s blk" "block_size s div of_nat SIZEOF_INODE \<noteq> 0"
proof -
  obtain k where k: "k \<in> {2, 4, 8}" "unat (block_size s) = 512 * k" "block_size s div 512 = of_nat k"
    by (rule block_sizes [OF v])
  let ?i = "unat n - 1" and ?bs = "unat (block_size s)" and ?t = "unat (bg_inode_table (bg s))"
  let ?g = "s_inodes_per_group (sb s)"
  have g: "unat ?g \<le> 8 * ?bs" and bs: "?bs = 512 * k" "k \<le> 8" "0 < k"
    using v k by (auto simp: volume_def)
  have m: "n - 1 < ?g" "unat (n - 1) = ?i" "?i < unat ?g"
  proof -
    have nz: "n \<noteq> 0" "0 < unat n" "unat n \<le> unat ?g"
      using n by (auto simp: in_group_def word_less_nat_alt word_le_nat_alt)
    show u: "unat (n - 1) = ?i" by (rule unat_minus_1 [OF nz(1)])
    show "?i < unat ?g" using nz by linarith
    with u show "n - 1 < ?g" by (simp add: word_less_nat_alt)
  qed
  have index: "unat index = ?i"
    unfolding index_def unat_mod using m by simp
  have "unat index * 128 < 2 ^ LENGTH(32)" using index m(3) g bs by simp
  then have mul: "unat (index * of_nat SIZEOF_INODE) = ?i * 128"
    unfolding unat_word_ariths by (simp add: index SIZEOF_INODE_def)
  have div128: "unat (block_size s div of_nat SIZEOF_INODE) = 4 * k"
    by (simp add: unat_div SIZEOF_INODE_def bs(1))
  show "block_size s div of_nat SIZEOF_INODE \<noteq> 0"
    using div128 bs(3) by (metis unat_0 mult_is_0 neq0_conv zero_neq_numeral)
  have off: "off = ?i mod (4 * k) * 128"
    unfolding off_def unat_mod index div128 by (simp add: SIZEOF_INODE_def)
  have "unat (index * of_nat SIZEOF_INODE div block_size s) = ?i * 128 div (512 * k)"
    by (simp add: unat_div mul bs(1))
  also have "\<dots> = ?i div (4 * k)"
    using div_mult_mult2 [of 128 ?i "4 * k"] by (simp add: mult.commute mult.left_commute)
  finally have q: "unat (index * of_nat SIZEOF_INODE div block_size s) = ?i div (4 * k)" .
  have tab: "(?t + unat ?g * 128 div ?bs + 1) * ?bs \<le> 512 * capacity_of view s" "capacity_of view s \<le> 2 ^ 28"
    using v by (simp_all add: volume_def SIZEOF_INODE_def)
  have "?i * 128 div ?bs \<le> unat ?g * 128 div ?bs" by (rule div_le_mono) (use m(3) in simp)
  then have le: "?i div (4 * k) \<le> unat ?g * 128 div ?bs"
    using div_mult_mult2 [of 128 ?i "4 * k"] by (simp add: bs(1) mult.commute mult.left_commute)
  have "(?t + ?i div (4 * k) + 1) * ?bs \<le> (?t + unat ?g * 128 div ?bs + 1) * ?bs"
    by (rule mult_le_mono1) (use le in simp)
  with tab(1) have fits: "(?t + ?i div (4 * k) + 1) * ?bs \<le> 512 * capacity_of view s" by (rule le_trans [rotated])
  have lt: "?t + ?i div (4 * k) < 2 ^ 32"
  proof -
    have "(?t + ?i div (4 * k) + 1) * 512 \<le> (?t + ?i div (4 * k) + 1) * ?bs" by (rule mult_le_mono2) (use bs in simp)
    also note fits
    also have "512 * capacity_of view s \<le> 512 * 2 ^ 28" using tab(2) by simp
    finally show ?thesis by simp
  qed
  have blk: "unat blk = ?t + ?i div (4 * k)"
    unfolding blk_def using lt by (subst unat_add_lem [THEN iffD1]) (simp_all add: q)
  show "on_disk view s blk" using fits by (simp add: on_disk_def blk)
  have split: "(q * (4 * k) + r) * 128 = q * (512 * k) + r * 128" for q r :: nat by (simp add: algebra_simps)
  have "?i * 128 = (?i div (4 * k) * (4 * k) + ?i mod (4 * k)) * 128" by (simp only: div_mult_mod_eq)
  then have "?i * 128 = ?i div (4 * k) * (512 * k) + ?i mod (4 * k) * 128" by (simp only: split)
  then show "inode_address s n = unat blk * ?bs + off"
    by (simp add: inode_address_def blk off bs(1) SIZEOF_INODE_def add_mult_distrib)
  have "?i mod (4 * k) < 4 * k" using bs(3) by simp
  then have "?i mod (4 * k) + 1 \<le> 4 * k" by simp
  then have "(?i mod (4 * k) + 1) * 128 \<le> 4 * k * 128" by (rule mult_le_mono1)
  then show "off + SIZEOF_INODE \<le> ?bs" by (simp add: off SIZEOF_INODE_def bs(1))
qed

lemma read_inode_ok:
  assumes dev: "ata_device hw view" and v: "volume view s" and n: "in_group s n"
  obtains d where "ext2_read_inode hw n s = Inr (inode_of view s n, s\<lparr>disk_dev := d\<rparr>)" "kept view (disk_dev s) d"
proof -
  let ?index = "(n - 1) mod s_inodes_per_group (sb s)"
  let ?blk = "bg_inode_table (bg s) + (?index * of_nat SIZEOF_INODE) div block_size s"
  let ?off = "unat (?index mod (block_size s div of_nat SIZEOF_INODE)) * SIZEOF_INODE"
  note pos = inode_position [OF v n]
  have b: "length (uninitialised BUFFER_SIZE s) = BUFFER_SIZE" by (simp add: uninitialised_def)
  obtain d where d: "ext2_read_block hw ?blk (uninitialised BUFFER_SIZE s) s =
      Inr (block_bytes view s ?blk @ drop (unat (block_size s)) (uninitialised BUFFER_SIZE s), s\<lparr>disk_dev := d\<rparr>)"
    and k: "kept view (disk_dev s) d"
    by (rule read_block_ok [OF dev v pos(3) b])
  obtain j where j: "unat (block_size s) \<le> 4096" "j \<in> {2, 4, 8 :: nat}" "unat (block_size s) = 512 * j"
    by (rule block_sizes [OF v]) blast
  have nz: "s_inodes_per_group (sb s) \<noteq> 0" "block_size s \<noteq> 0"
    using v by (auto simp: volume_def)
  have fits: "\<not> BUFFER_SIZE < ?off + SIZEOF_INODE" using pos(2) j(1) by (simp add: BUFFER_SIZE_def)
  have "take 128 (drop ?off (block_bytes view s ?blk @ xs)) =
      disk_bytes (view (disk_dev s)) (inode_address s n) 128" for xs
    using pos(2) by (simp add: block_bytes_def slice_disk_bytes pos(1) SIZEOF_INODE_def)
  then have slice: "inode_at 0 (take 128 (drop ?off (block_bytes view s ?blk @ xs))) = inode_of view s n" for xs
    by (simp only: inode_of_def SIZEOF_INODE_def)
  have "inode_at ?off (block_bytes view s ?blk @ xs) = inode_of view s n" for xs
    by (rule trans [OF inode_at_slice slice])
  then have "ext2_read_inode hw n s = Inr (inode_of view s n, s\<lparr>disk_dev := d\<rparr>)"
    using fits pos(4) nz by (simp add: ext2_read_inode_def Let_def d)
  then show ?thesis by (rule that [OF _ k])
qed

section \<open>Reading files\<close>

lemma length_block_bytes [simp]: "length (block_bytes view s n) = unat (block_size s)"
  by (simp add: block_bytes_def)

lemma length_blocks_bytes [simp]:
  "length (concat (map (block_bytes view s) bs)) = unat (block_size s) * length bs"
  by (induction bs) simp_all

lemma used_blocks_count:
  assumes "direct_file view s i" "volume view s"
  shows "length (used_blocks s i) = (unat (i_size i) + unat (block_size s) - 1) div unat (block_size s)"
    "length (used_blocks s i) \<le> 12" "unat (i_size i) \<le> unat (block_size s) * length (used_blocks s i)"
    "p < unat (i_size i) \<Longrightarrow> p div unat (block_size s) < length (used_blocks s i)"
    "p < unat (i_size i) \<Longrightarrow> used_blocks s i ! (p div unat (block_size s)) = i_block i ! (p div unat (block_size s))"
proof -
  let ?bs = "unat (block_size s)" and ?n = "unat (i_size i)"
  have bs: "0 < ?bs" by (rule block_sizes [OF assms(2)]) auto
  have len: "length (i_block i) = 15" "?n \<le> 12 * ?bs" using assms(1) by (simp_all add: direct_file_def)
  have "?n + ?bs - 1 < ?bs * 13" using len(2) bs by linarith
  then have "(?n + ?bs - 1) div ?bs < 13" using bs by (simp add: div_less_iff_less_mult mult.commute)
  then have le: "(?n + ?bs - 1) div ?bs \<le> 12" by simp
  then show l: "length (used_blocks s i) = (?n + ?bs - 1) div ?bs" "length (used_blocks s i) \<le> 12"
    using len by (simp_all add: used_blocks_def)
  have "?n + ?bs - 1 < ?bs + ?bs * ((?n + ?bs - 1) div ?bs)" using bs by (rule dividend_less_times_div)
  then show m: "?n \<le> ?bs * length (used_blocks s i)" unfolding l(1) by linarith
  show j: "p div ?bs < length (used_blocks s i)" if "p < ?n"
    using that m bs by (simp add: div_less_iff_less_mult mult.commute)
  show "used_blocks s i ! (p div ?bs) = i_block i ! (p div ?bs)" if "p < ?n"
    using j [OF that] by (simp add: used_blocks_def)
qed

lemma length_contents:
  assumes "direct_file view s i" "volume view s"
  shows "length (contents view s i) = unat (i_size i)"
  using used_blocks_count(3) [OF assms] by (simp add: contents_def)

lemma contents_nth:
  assumes f: "direct_file view s i" and v: "volume view s" and p: "p < unat (i_size i)"
  shows "contents view s i ! p =
    block_bytes view s (i_block i ! (p div unat (block_size s))) ! (p mod unat (block_size s))"
proof -
  let ?bs = "unat (block_size s)" and ?xs = "map (block_bytes view s) (used_blocks s i)"
  note u = used_blocks_count [OF f v]
  have "concat ?xs ! p = ?xs ! (p div ?bs) ! (p mod ?bs)"
    by (rule nth_concat_blocks) (use p u(3) in auto)
  then show ?thesis using u(4,5) [OF p] p by (simp add: contents_def)
qed

lemma within_block:
  fixes off j bs :: nat
  assumes "off mod bs + j < bs"
  shows "(off + j) div bs = off div bs" "(off + j) mod bs = off mod bs + j"
proof -
  have e: "off + j = bs * (off div bs) + (off mod bs + j)" by simp
  show "(off + j) div bs = off div bs" by (subst e, subst div_mult_self4) (use assms in auto)
  show "(off + j) mod bs = off mod bs + j" by (subst e, subst mod_mult_self4) (use assms in auto)
qed

lemma contents_slice:
  assumes f: "direct_file view s i" and v: "volume view s"
    and c: "off mod unat (block_size s) + c \<le> unat (block_size s)" "off + c \<le> unat (i_size i)"
  shows "take c (drop off (contents view s i)) =
    take c (drop (off mod unat (block_size s)) (block_bytes view s (i_block i ! (off div unat (block_size s)))))"
proof (rule nth_equalityI)
  let ?bs = "unat (block_size s)"
  show "length (take c (drop off (contents view s i))) = length (take c (drop (off mod ?bs)
      (block_bytes view s (i_block i ! (off div ?bs)))))"
    using c by (simp add: length_contents [OF f v])
  fix j
  assume "j < length (take c (drop off (contents view s i)))"
  then have j: "j < c" "off + j < unat (i_size i)" using c by (simp_all add: length_contents [OF f v])
  note q = within_block [of off ?bs j]
  show "take c (drop off (contents view s i)) ! j =
      take c (drop (off mod ?bs) (block_bytes view s (i_block i ! (off div ?bs)))) ! j"
    using j c contents_nth [OF f v j(2)] q by (simp add: length_contents [OF f v])
qed

lemma length_uninitialised [simp]: "length (uninitialised n s) = n"
  by (simp add: uninitialised_def)

lemma read_loop_ok:
  assumes "ata_device hw view" "volume view s" "direct_file view s i" "length b_buf = BUFFER_SIZE"
  shows "\<exists>d. ext2_read_loop hw i offset sz buffer bytes_read b_buf s =
      Inr (of_nat (unat bytes_read + length (take (unat sz - unat bytes_read) (drop (unat offset) (contents view s i)))),
        s\<lparr>disk_dev := d, user_mem := write_bytes (user_mem s) (buffer + bytes_read)
          (take (unat sz - unat bytes_read) (drop (unat offset) (contents view s i)))\<rparr>) \<and>
      kept view (disk_dev s) d"
  using assms
proof (induction hw i offset sz buffer bytes_read b_buf s rule: ext2_read_loop.induct)
  case (1 hw i offset sz buffer bytes_read b_buf s)
  note dev = "1.prems"(1) and v = "1.prems"(2) and f = "1.prems"(3) and b = "1.prems"(4)
  let ?C = "contents view s i" and ?bs = "unat (block_size s)"
  have len: "length ?C = unat (i_size i)" by (rule length_contents [OF f v])
  show ?case
  proof (cases "bytes_read < sz \<and> offset < i_size i")
    case False
    then have "take (unat sz - unat bytes_read) (drop (unat offset) ?C) = []"
      by (auto simp: word_less_nat_alt len)
    then show ?thesis
      using False kept_self [OF v] by (subst ext2_read_loop.simps) (auto intro: exI [of _ "disk_dev s"])
  next
    case True
    have bs: "0 < ?bs" "?bs \<le> 4096" by (rule block_sizes [OF v]; auto)+
    then have nz: "block_size s \<noteq> 0" by auto
    define c1 where "c1 = block_size s - offset mod block_size s"
    define c2 where "c2 = (if c1 > sz - bytes_read then sz - bytes_read else c1)"
    define c where "c = (if c2 > i_size i - offset then i_size i - offset else c2)"
    note chunk = next_chunk [OF conjunct1 [OF True] conjunct2 [OF True] nz c1_def c2_def c_def]
    have o: "unat offset < unat (i_size i)" "unat bytes_read < unat sz" using True by (simp_all add: word_less_nat_alt)
    have m: "unat offset mod ?bs < ?bs" using bs(1) by simp
    have c: "unat offset mod ?bs + unat c \<le> ?bs" "unat offset + unat c \<le> unat (i_size i)"
      "unat bytes_read + unat c \<le> unat sz"
      unfolding chunk(1) using m o by linarith+
    let ?ix = "unat offset div ?bs"
    note u = used_blocks_count [OF f v]
    have ix: "?ix < 12" using u(2) u(4) [OF o(1)] by simp
    then have no_over: "\<not> 15 \<le> offset div block_size s"
      by (simp add: word_le_nat_alt unat_div)
    have od: "on_disk view s (i_block i ! ?ix)"
      using f u(4,5) [OF o(1)] by (metis direct_file_def nth_mem)
    obtain d where d: "ext2_read_block hw (i_block i ! ?ix) b_buf s =
        Inr (block_bytes view s (i_block i ! ?ix) @ drop ?bs b_buf, s\<lparr>disk_dev := d\<rparr>)"
      and k: "kept view (disk_dev s) d"
      by (rule read_block_ok [OF dev v od b])
    let ?b = "block_bytes view s (i_block i ! ?ix) @ drop ?bs b_buf"
    have d': "ext2_read_block hw (i_block i ! unat (offset div block_size s)) b_buf s = Inr (?b, s\<lparr>disk_dev := d\<rparr>)"
      using d by (simp add: unat_div)
    let ?data = "take (unat c) (drop (unat offset mod ?bs) ?b)"
    let ?t = "s\<lparr>disk_dev := d, user_mem := write_bytes (user_mem s) (buffer + bytes_read) ?data\<rparr>"
    have same: "same_volume view s ?t" using k by (simp add: same_volume_def)
    have data: "?data = take (unat c) (drop (unat offset) ?C)"
      using contents_slice [OF f v c(1,2)] c(1) by simp
    have fits: "\<not> BUFFER_SIZE < unat (offset mod block_size s) + unat c"
      using c(1) bs(2) by (simp add: BUFFER_SIZE_def unat_mod)
    have "length ?b = BUFFER_SIZE" using b bs(2) by (simp add: BUFFER_SIZE_def)
    have um: "user_mem (s\<lparr>disk_dev := d\<rparr>) = user_mem s" by simp
    have step: "ext2_read_loop hw i offset sz buffer bytes_read b_buf s =
        ext2_read_loop hw i (offset + c) sz buffer (bytes_read + c) ?b ?t"
      using fits um by (subst ext2_read_loop.simps)
        (simp only: Let_def c1_def [symmetric] c2_def [symmetric] c_def [symmetric] True nz no_over fits d' if_True
          if_False simp_thms and_then_simps prod.case unat_mod ext2.simps)
    note facts = same_volume_facts [OF same]
    have tt: "s\<lparr>disk_dev := d\<rparr>\<lparr>user_mem := write_bytes (user_mem (s\<lparr>disk_dev := d\<rparr>)) (buffer + bytes_read)
        (take (unat c) (drop (unat (offset mod block_size s)) ?b))\<rparr> = ?t"
      by (simp only: um unat_mod)
    have len_b: "length ?b = BUFFER_SIZE" by fact
    note IH = "1.IH" [OF True nz refl refl c1_def c2_def c_def no_over d' refl fits, unfolded tt, OF dev facts(1) [OF v] _ len_b,
      unfolded facts, OF f]
    let ?D = "take (unat sz - unat bytes_read) (drop (unat offset) ?C)"
      and ?D' = "take (unat sz - unat (bytes_read + c)) (drop (unat (offset + c)) ?C)"
    have sum: "unat sz - unat bytes_read = unat c + (unat sz - unat (bytes_read + c))"
      using c(3) by (simp add: chunk(4))
    have D: "?D = ?data @ ?D'"
      unfolding data sum take_add by (simp add: chunk(3) add.commute [of "unat c"])
    have l: "length ?data = unat c" unfolding data using c(2) by (simp add: len)
    from IH obtain e where e: "ext2_read_loop hw i (offset + c) sz buffer (bytes_read + c) ?b ?t =
        Inr (of_nat (unat (bytes_read + c) + length ?D'),
          ?t\<lparr>disk_dev := e, user_mem := write_bytes (user_mem ?t) (buffer + (bytes_read + c)) ?D'\<rparr>)"
      "kept view (disk_dev ?t) e"
      by blast
    have w: "write_bytes (user_mem ?t) (buffer + (bytes_read + c)) ?D' = write_bytes (user_mem s) (buffer + bytes_read) ?D"
      unfolding D write_bytes_append l by (simp add: add.assoc)
    have n: "unat (bytes_read + c) + length ?D' = unat bytes_read + length ?D"
      unfolding D length_append l chunk(4) by simp
    have t: "?t\<lparr>disk_dev := e, user_mem := x\<rparr> = s\<lparr>disk_dev := e, user_mem := x\<rparr>" for x by simp
    have "kept view (disk_dev s) e" using kept_trans [OF k] e(2) by simp
    with e(1) show ?thesis unfolding step w n t by blast
  qed
qed

lemma node_read_ok:
  fixes offset sz :: u32
  assumes dev: "ata_device hw view" and v: "volume view s" and n: "in_group s (inode (ext2_node_at s p))"
    and f: "direct_file view s (inode_of view s (inode (ext2_node_at s p)))"
  defines "D \<equiv> take (unat sz) (drop (unat offset) (contents view s (inode_of view s (inode (ext2_node_at s p)))))"
  obtains d where "ext2_node_read hw p offset sz buffer s =
      Inr (of_nat (length D), s\<lparr>disk_dev := d, user_mem := write_bytes (user_mem s) buffer D\<rparr>)"
    and "kept view (disk_dev s) d"
proof -
  let ?i = "inode_of view s (inode (ext2_node_at s p))"
  obtain d where d: "ext2_read_inode hw (inode (ext2_node_at s p)) s = Inr (?i, s\<lparr>disk_dev := d\<rparr>)"
    and k: "kept view (disk_dev s) d"
    by (rule read_inode_ok [OF dev v n])
  let ?t = "s\<lparr>disk_dev := d\<rparr>"
  have "same_volume view s ?t" using k by (simp add: same_volume_def)
  note facts = same_volume_facts [OF this]
  obtain e where e: "ext2_read_loop hw ?i offset sz buffer 0 (uninitialised BUFFER_SIZE ?t) ?t =
      Inr (of_nat (length D), ?t\<lparr>disk_dev := e, user_mem := write_bytes (user_mem ?t) buffer D\<rparr>)"
    "kept view (disk_dev ?t) e"
    using read_loop_ok [OF dev facts(1) [OF v], of ?i "uninitialised BUFFER_SIZE ?t" offset sz buffer 0] f
    unfolding facts D_def by auto
  have "ext2_node_read hw p offset sz buffer s =
      Inr (of_nat (length D), s\<lparr>disk_dev := e, user_mem := write_bytes (user_mem s) buffer D\<rparr>)"
    using e(1) by (simp add: ext2_node_read_def ext2_read_data_def d)
  moreover have "kept view (disk_dev s) e" using kept_trans [OF k] e(2) by simp
  ultimately show ?thesis by (rule that)
qed

section \<open>Writing\<close>

text \<open>A transfer that replaced the bytes from pos on.\<close>

definition replaced :: "('d \<Rightarrow> ata) \<Rightarrow> 'd \<Rightarrow> 'd \<Rightarrow> nat \<Rightarrow> u8 list \<Rightarrow> bool" where
  "replaced view d e pos xs \<longleftrightarrow> ata_ready (view e) \<and> disk_ok (view e) \<and> capacity (view e) = capacity (view d) \<and>
     (\<forall>p. disk_byte (view e) p = (if pos \<le> p \<and> p < pos + length xs then xs ! (p - pos) else disk_byte (view d) p))"

lemma disk_byte_stored:
  assumes "length b = 512 * k \<or> 512 * k < length b" "length b \<le> 2 ^ 32"
    and "disk e = stored (array_memory b) 0 L 0 k (disk a)"
  shows "disk_byte e p = (if 512 * L \<le> p \<and> p < 512 * L + 512 * k then b ! (p - 512 * L) else disk_byte a p)"
proof -
  have l: "L \<le> p div 512 \<longleftrightarrow> 512 * L \<le> p" "p div 512 < L + k \<longleftrightarrow> p < 512 * L + 512 * k"
    by (simp_all add: less_eq_div_iff_mult_less_eq div_less_iff_less_mult algebra_simps)
  show ?thesis
  proof (cases "512 * L \<le> p \<and> p < 512 * L + 512 * k")
    case True
    have e: "(p div 512 - L) * 512 + p mod 512 = p - 512 * L"
      using True l by (simp add: diff_mult_distrib) 
    have lt: "p - 512 * L < length b" using True assms(1) by linarith
    then have u: "unat (of_nat (p - 512 * L) :: u32) = p - 512 * L"
      using assms(2) by (intro unat_of_nat_less) simp
    have "disk_byte e p = array_memory b (of_nat ((p div 512 - L) * 512) + of_nat (p mod 512))"
      using True l by (simp add: disk_byte_def assms(3) stored_def)
    also have "\<dots> = array_memory b (of_nat (p - 512 * L))"
      unfolding of_nat_add [symmetric] e by (rule refl)
    also have "\<dots> = b ! (p - 512 * L)" by (simp only: array_memory_def u lt if_True)
    finally show ?thesis using True by simp
  next
    case False
    then show ?thesis using l by (auto simp: disk_byte_def assms(3) stored_def)
  qed
qed

lemma write_block_ok:
  assumes dev: "ata_device hw view" and v: "volume view s" and n: "on_disk view s n" and b: "length b = BUFFER_SIZE"
  obtains d where "ext2_write_block hw n b s = Inr (s\<lparr>disk_dev := d\<rparr>)"
    and "replaced view (disk_dev s) d (unat n * unat (block_size s)) (take (unat (block_size s)) b)"
proof -
  let ?a = "view (disk_dev s)"
  obtain k where k: "k \<in> {2, 4, 8}" "unat (block_size s) = 512 * k" "block_size s div 512 = of_nat k"
    by (rule block_sizes [OF v])
  have ok: "ata_ready ?a" "disk_ok ?a" "capacity ?a \<le> 2 ^ 28"
    using v by (simp_all add: volume_def capacity_of_def)
  have c: "unat (of_nat k :: u8) = k" "(of_nat k :: u8) \<noteq> 0" "(ucast (of_nat k :: u32) :: u8) = of_nat k"
    using k(1) by auto
  have "(unat n + 1) * (512 * k) \<le> 512 * capacity ?a" using n by (simp add: on_disk_def capacity_of_def k(2))
  note lba = block_lba [OF k(1) this ok(3)]
  from pata_write_ok [OF dev ok(1) c(2), of "n * of_nat k" 0 "array_memory b"] lba c(1)
  obtain d where d: "pata_write_sectors hw (n * of_nat k) (of_nat k) 0 (array_memory b, disk_dev s) =
      Some (0, array_memory b, d)"
    "disk (view d) = stored (array_memory b) 0 (unat n * k) 0 k (disk ?a)" "capacity (view d) = capacity ?a"
    "xfer (view d) = Idle"
    by auto
  have len: "length b = 4096" "512 * k \<le> 4096" using b k(1) by (auto simp: BUFFER_SIZE_def)
  have "ext2_write_block hw n b s = Inr (s\<lparr>disk_dev := d\<rparr>)"
    using len d(1) by (simp add: ext2_write_block_def write_sectors_from_def k(2,3) c)
  moreover have "disk_byte (view d) p = (if 512 * (unat n * k) \<le> p \<and> p < 512 * (unat n * k) + 512 * k
      then b ! (p - 512 * (unat n * k)) else disk_byte ?a p)" for p
    by (rule disk_byte_stored [OF _ _ d(2)]) (use len in auto)
  then have "replaced view (disk_dev s) d (unat n * unat (block_size s)) (take (unat (block_size s)) b)"
    using d(2-4) ok(2) len
    by (auto simp: replaced_def ata_ready_def disk_ok_def stored_def k(2) mult.left_commute)
  ultimately show ?thesis by (rule that)
qed

lemma replaced_bytes:
  assumes "replaced view d e pos xs"
  shows "p + n \<le> pos \<or> pos + length xs \<le> p \<Longrightarrow> disk_bytes (view e) p n = disk_bytes (view d) p n"
    and "disk_bytes (view e) pos (length xs) = xs"
  using assms by (auto simp: replaced_def intro!: nth_equalityI simp: nth_disk_bytes)

lemma replaced_volume:
  assumes "replaced view (disk_dev s) e pos xs" "volume view s"
  shows "volume view (s\<lparr>disk_dev := e\<rparr>)" "capacity_of view (s\<lparr>disk_dev := e\<rparr>) = capacity_of view s"
  using assms by (auto simp: volume_def replaced_def capacity_of_def)

text \<open>The blocks that hold the inode table.\<close>

definition table_free :: "'d ext2 \<Rightarrow> u32 \<Rightarrow> bool" where
  "table_free s b \<longleftrightarrow> (unat b + 1) * unat (block_size s) \<le> unat (bg_inode_table (bg s)) * unat (block_size s) \<or>
     unat (bg_inode_table (bg s)) * unat (block_size s) + unat (s_inodes_per_group (sb s)) * SIZEOF_INODE
       \<le> unat b * unat (block_size s)"

lemma replaced_block:
  assumes r: "replaced view (disk_dev s) e (unat b * unat (block_size s)) xs" and xs: "length xs = unat (block_size s)"
    and v: "volume view s"
  shows "block_bytes view (s\<lparr>disk_dev := e\<rparr>) c = (if c = b then xs else block_bytes view s c)"
    and "table_free s b \<Longrightarrow> in_group s n \<Longrightarrow> inode_of view (s\<lparr>disk_dev := e\<rparr>) n = inode_of view s n"
proof -
  let ?bs = "unat (block_size s)"
  show "block_bytes view (s\<lparr>disk_dev := e\<rparr>) c = (if c = b then xs else block_bytes view s c)"
  proof (cases "c = b")
    case True
    then show ?thesis using replaced_bytes(2) [OF r] by (simp add: block_bytes_def xs)
  next
    case False
    then have "unat c < unat b \<or> unat b < unat c" by (simp add: word_unat_eq_iff) linarith
    then have "(unat c + 1) * ?bs \<le> unat b * ?bs \<or> (unat b + 1) * ?bs \<le> unat c * ?bs"
      by (auto intro: mult_le_mono1 simp del: mult_Suc)
    then show ?thesis
      using replaced_bytes(1) [OF r, of "unat c * ?bs" ?bs] False by (simp add: block_bytes_def xs add.commute)
  qed
  assume t: "table_free s b" and n: "in_group s n"
  have "unat n - 1 < unat (s_inodes_per_group (sb s))"
    using n by (auto simp: in_group_def word_less_nat_alt word_le_nat_alt)
  then have "(unat n - 1 + 1) * SIZEOF_INODE \<le> unat (s_inodes_per_group (sb s)) * SIZEOF_INODE"
    by (intro mult_le_mono1) simp
  then have "inode_address s n + SIZEOF_INODE \<le> unat b * ?bs \<or> unat b * ?bs + ?bs \<le> inode_address s n"
    using t by (auto simp: table_free_def inode_address_def add_mult_distrib)
  then show "inode_of view (s\<lparr>disk_dev := e\<rparr>) n = inode_of view s n"
    using replaced_bytes(1) [OF r, of "inode_address s n" SIZEOF_INODE]
    by (simp add: inode_of_def inode_address_def xs)
qed

lemma nth_patch:
  assumes "off \<le> length xs" "p < length xs"
  shows "(take off xs @ d @ drop (off + length d) xs) ! p =
    (if off \<le> p \<and> p < off + length d then d ! (p - off) else xs ! p)"
  using assms by (auto simp: nth_append)

lemma same_block:
  fixes off p bs n :: nat
  assumes "p div bs = off div bs"
  shows "off mod bs \<le> p mod bs \<longleftrightarrow> off \<le> p" "p mod bs < off mod bs + n \<longleftrightarrow> p < off + n"
    "p mod bs - off mod bs = p - off"
proof -
  obtain q where "off = q + off mod bs" "p = q + p mod bs" using div_mult_mod_eq [of off bs] div_mult_mod_eq [of p bs] assms by metis
  then show "off mod bs \<le> p mod bs \<longleftrightarrow> off \<le> p" "p mod bs < off mod bs + n \<longleftrightarrow> p < off + n"
    "p mod bs - off mod bs = p - off" by linarith+
qed

lemma patched_contents:
  assumes f: "direct_file view s i" and v: "volume view s" and t: "volume view t" "block_size t = block_size s"
    "capacity_of view t = capacity_of view s"
    and dist: "distinct (used_blocks s i)"
    and off: "off mod unat (block_size s) + length d \<le> unat (block_size s)" "off < unat (i_size i)"
    and b: "b = i_block i ! (off div unat (block_size s))"
      "block_bytes view t = (block_bytes view s)(b := take (off mod unat (block_size s)) (block_bytes view s b) @ d @
        drop (off mod unat (block_size s) + length d) (block_bytes view s b))"
  shows "direct_file view t i"
    "contents view t i = take (unat (i_size i))
      (take off (contents view s i) @ d @ drop (off + length d) (contents view s i))"
proof -
  let ?bs = "unat (block_size s)"
  have u: "used_blocks t i = used_blocks s i" by (simp add: used_blocks_def t(2))
  show f': "direct_file view t i"
    using f by (simp add: direct_file_def u t(2) on_disk_def t(3))
  note len = length_contents [OF f v] length_contents [OF f' t(1)]
  note ub = used_blocks_count [OF f v]
  show "contents view t i = take (unat (i_size i))
      (take off (contents view s i) @ d @ drop (off + length d) (contents view s i))"
  proof (rule nth_equalityI)
    show "length (contents view t i) = length (take (unat (i_size i))
        (take off (contents view s i) @ d @ drop (off + length d) (contents view s i)))"
      using off by (simp add: len)
    fix p
    assume "p < length (contents view t i)"
    then have p: "p < unat (i_size i)" by (simp add: len)
    have bs: "0 < ?bs" by (rule block_sizes [OF v]) auto
    have eq: "contents view t i ! p = block_bytes view t (i_block i ! (p div ?bs)) ! (p mod ?bs)"
      using contents_nth [OF f' t(1) p] by (simp add: t(2))
    have "contents view t i ! p =
        (take off (contents view s i) @ d @ drop (off + length d) (contents view s i)) ! p"
    proof (cases "p div ?bs = off div ?bs")
      case True
      then have "block_bytes view t (i_block i ! (p div ?bs)) ! (p mod ?bs) =
          (if off mod ?bs \<le> p mod ?bs \<and> p mod ?bs < off mod ?bs + length d then d ! (p mod ?bs - off mod ?bs)
           else block_bytes view s (i_block i ! (p div ?bs)) ! (p mod ?bs))"
        using nth_patch [of "off mod ?bs" "block_bytes view s b" "p mod ?bs" d] off(1) bs by (simp add: b)
      moreover note same_block [OF True]
      ultimately show ?thesis
        using nth_patch [of off "contents view s i" p d] off p contents_nth [OF f v p] by (simp add: eq len)
    next
      case False
      then have "used_blocks s i ! (p div ?bs) \<noteq> used_blocks s i ! (off div ?bs)"
        using dist ub(4) [OF p] ub(4) [OF off(2)] by (simp add: nth_eq_iff_index_eq)
      then have "i_block i ! (p div ?bs) \<noteq> b" using ub(5) [OF p] ub(5) [OF off(2)] by (simp add: b(1))
      moreover have "\<not> (off \<le> p \<and> p < off + length d)"
      proof
        assume *: "off \<le> p \<and> p < off + length d"
        then obtain j where j: "p = off + j" "j < length d" by (metis le_add_diff_inverse nat_add_left_cancel_less)
        with off(1) have "off mod ?bs + j < ?bs" by simp
        from within_block(1) [OF this] j(1) False show False by simp
      qed
      ultimately show ?thesis
        using nth_patch [of off "contents view s i" p d] off p contents_nth [OF f v p] by (auto simp: eq len b(2))
    qed
    with p show "contents view t i ! p = take (unat (i_size i))
        (take off (contents view s i) @ d @ drop (off + length d) (contents view s i)) ! p"
      by (simp only: nth_take)
  qed
qed

lemma node_write_ok:
  fixes offset sz buffer :: u32
  assumes dev: "ata_device hw view" and v: "volume view s" and n: "in_group s (inode (ext2_node_at s p))"
    and i: "i = inode_of view s (inode (ext2_node_at s p))" and f: "direct_file view s i"
    and dist: "distinct (used_blocks s i)" and apart: "\<forall>b \<in> set (used_blocks s i). table_free s b"
  defines "D \<equiv> take (unat (block_size s) - unat offset mod unat (block_size s)) (read_bytes (user_mem s) buffer (unat sz))"
  assumes off: "unat offset mod unat (block_size s) + unat sz \<le> BUFFER_SIZE"
      "unat offset < unat (i_size i)"
  obtains d where "ext2_node_write hw p offset sz buffer s = Inr (sz, s\<lparr>disk_dev := d\<rparr>)"
    and "volume view (s\<lparr>disk_dev := d\<rparr>)" and "\<And>k. in_group s k \<Longrightarrow> inode_of view (s\<lparr>disk_dev := d\<rparr>) k = inode_of view s k"
    and "direct_file view (s\<lparr>disk_dev := d\<rparr>) i"
    and "contents view (s\<lparr>disk_dev := d\<rparr>) i = take (unat (i_size i)) (take (unat offset) (contents view s i) @
      D @ drop (unat offset + length D) (contents view s i))"
    and "\<And>b. b \<noteq> i_block i ! (unat offset div unat (block_size s)) \<Longrightarrow>
      block_bytes view (s\<lparr>disk_dev := d\<rparr>) b = block_bytes view s b"
proof -
  let ?bs = "unat (block_size s)" and ?b = "i_block i ! (unat offset div unat (block_size s))"
  let ?data = "read_bytes (user_mem s) buffer (unat sz)" and ?o = "unat offset mod unat (block_size s)"
  note ub = used_blocks_count [OF f v]
  have bs: "0 < ?bs" "?bs \<le> 4096" by (rule block_sizes [OF v]; auto)+
  have mem: "?b \<in> set (used_blocks s i)" using ub(4,5) [OF off(2)] by (metis nth_mem)
  then have od: "on_disk view s ?b" using f by (simp add: direct_file_def)
  have o: "?o < ?bs" using bs by simp
  obtain d0 where d0: "ext2_read_inode hw (inode (ext2_node_at s p)) s = Inr (i, s\<lparr>disk_dev := d0\<rparr>)"
    and k0: "kept view (disk_dev s) d0"
    unfolding i by (rule read_inode_ok [OF dev v n])
  have same0: "same_volume view s (s\<lparr>disk_dev := d0\<rparr>)" using k0 by (simp add: same_volume_def)
  note facts0 = same_volume_facts [OF same0]
  have len: "length (uninitialised BUFFER_SIZE (s\<lparr>disk_dev := d0\<rparr>)) = BUFFER_SIZE" by simp
  obtain d1 where d1: "ext2_read_block hw ?b (uninitialised BUFFER_SIZE (s\<lparr>disk_dev := d0\<rparr>)) (s\<lparr>disk_dev := d0\<rparr>) =
      Inr (block_bytes view s ?b @ drop ?bs (uninitialised BUFFER_SIZE (s\<lparr>disk_dev := d0\<rparr>)), s\<lparr>disk_dev := d1\<rparr>)"
    and k1: "kept view d0 d1"
    by (rule read_block_ok [OF dev facts0(1) [OF v] od [folded facts0(3)] len]) (simp add: facts0)
  let ?s1 = "s\<lparr>disk_dev := d1\<rparr>"
  let ?buf = "block_bytes view s ?b @ drop ?bs (uninitialised BUFFER_SIZE (s\<lparr>disk_dev := d0\<rparr>))"
  let ?new = "take ?o ?buf @ ?data @ drop (?o + unat sz) ?buf"
  have same: "same_volume view s ?s1" using kept_trans [OF k0 k1] by (simp add: same_volume_def)
  note facts = same_volume_facts [OF same]
  have len_new: "length ?new = BUFFER_SIZE" using off(1) bs o by (simp add: BUFFER_SIZE_def)
  obtain d where d: "ext2_write_block hw ?b ?new ?s1 = Inr (s\<lparr>disk_dev := d\<rparr>)"
    and r: "replaced view d1 d (unat ?b * ?bs) (take ?bs ?new)"
    by (rule write_block_ok [OF dev facts(1) [OF v] od [folded facts(3)] len_new]) (simp add: facts)
  have new: "take ?bs ?new = take ?o (block_bytes view s ?b) @ D @ drop (?o + length D) (block_bytes view s ?b)"
    using o by (cases "?o + unat sz \<le> ?bs") (simp_all add: D_def)
  let ?t = "s\<lparr>disk_dev := d\<rparr>"
  have r': "replaced view (disk_dev ?s1) d (unat ?b * unat (block_size ?s1)) (take ?bs ?new)" using r by simp
  have lt: "length (take ?bs ?new) = unat (block_size ?s1)" unfolding length_take len_new using bs by (simp add: BUFFER_SIZE_def)
  note vol = replaced_volume [OF r' facts(1) [OF v]] and blk = replaced_block(1) [OF r' lt facts(1) [OF v]]
  have t: "volume view ?t" "capacity_of view ?t = capacity_of view s"
    using vol same by (simp_all add: capacity_of_def same_volume_def kept_def)
  have blocks: "block_bytes view ?t = (block_bytes view s)(?b := take ?bs ?new)"
    using blk facts(2) by (simp add: fun_eq_iff)
  have run: "ext2_node_write hw p offset sz buffer s = Inr (sz, ?t)"
  proof -
    have "?b = i_block i ! unat (offset div block_size s)" by (simp add: unat_div)
    moreover have "\<not> 15 \<le> offset div block_size s"
      using ub(2) ub(4) [OF off(2)] by (simp add: word_le_nat_alt unat_div)
    moreover have "\<not> BUFFER_SIZE < ?o + unat sz" using off(1) by simp
    ultimately show ?thesis
      using d1 d by (simp add: ext2_node_write_def d0 Let_def unat_div unat_mod del: take_append drop_append)
  qed
  have inodes: "inode_of view ?t k = inode_of view s k" if "in_group s k" for k
    using replaced_block(2) [OF r' lt facts(1) [OF v]] apart mem that facts(4,5) by (simp add: table_free_def)
  have l: "?o + length D \<le> ?bs" using o by (simp add: D_def)
  note patch = patched_contents [OF f v t(1) _ t(2) dist l off(2) refl blocks [unfolded new]]
  show ?thesis
    by (rule that [OF run t(1) inodes]) (use patch blocks in simp_all)
qed

text \<open>With more bytes than the local array holds behind the offset in the block, the copy loop leaves the array.\<close>

lemma node_write_overruns:
  fixes offset sz buffer :: u32
  assumes dev: "ata_device hw view" and v: "volume view s" and n: "in_group s (inode (ext2_node_at s p))"
    and i: "i = inode_of view s (inode (ext2_node_at s p))" and f: "direct_file view s i"
    and off: "BUFFER_SIZE < unat offset mod unat (block_size s) + unat sz" "unat offset < unat (i_size i)"
  shows "ext2_node_write hw p offset sz buffer s = Inl Overrun"
proof -
  let ?b = "i_block i ! (unat offset div unat (block_size s))"
  note ub = used_blocks_count [OF f v]
  have "?b \<in> set (used_blocks s i)" using ub(4,5) [OF off(2)] by (metis nth_mem)
  then have od: "on_disk view s ?b" using f by (simp add: direct_file_def)
  obtain d0 where d0: "ext2_read_inode hw (inode (ext2_node_at s p)) s = Inr (i, s\<lparr>disk_dev := d0\<rparr>)"
    and k0: "kept view (disk_dev s) d0"
    unfolding i by (rule read_inode_ok [OF dev v n])
  have "same_volume view s (s\<lparr>disk_dev := d0\<rparr>)" using k0 by (simp add: same_volume_def)
  note facts0 = same_volume_facts [OF this]
  have len: "length (uninitialised BUFFER_SIZE (s\<lparr>disk_dev := d0\<rparr>)) = BUFFER_SIZE" by simp
  obtain b d1 where d1: "ext2_read_block hw ?b (uninitialised BUFFER_SIZE (s\<lparr>disk_dev := d0\<rparr>)) (s\<lparr>disk_dev := d0\<rparr>) =
      Inr (b, s\<lparr>disk_dev := d1\<rparr>)"
    by (rule read_block_ok [OF dev facts0(1) [OF v] od [folded facts0(3)] len]) simp
  have "i_block i ! unat (offset div block_size s) = ?b" by (simp add: unat_div)
  moreover have "\<not> 15 \<le> offset div block_size s"
    using ub(2) ub(4) [OF off(2)] by (simp add: word_le_nat_alt unat_div)
  ultimately show ?thesis
    using d1 off(1) by (simp add: ext2_node_write_def d0 Let_def unat_div unat_mod)
qed

section \<open>Directories\<close>

text \<open>
  A directory as ext2 stores it: the entries one after the other in its
  block, the length of each leading to the next. An entry whose inode number
  is 0 is not in use.
\<close>

record dir_entry =
  e_inode :: u32
  e_type :: u8
  e_name :: "u8 list"
  e_pad :: "u8 list"

definition rec_len_of :: "dir_entry \<Rightarrow> nat" where
  "rec_len_of e = 8 + length (e_name e) + length (e_pad e)"

definition entry_image :: "dir_entry \<Rightarrow> u8 list" where
  "entry_image e = bytes_le 4 (e_inode e) @ bytes_le 2 (of_nat (rec_len_of e) :: u16) @
     [of_nat (length (e_name e)), e_type e] @ e_name e @ e_pad e"

definition dir_image :: "dir_entry list \<Rightarrow> u8 list" where
  "dir_image es = concat (map entry_image es)"

definition entry_ok :: "dir_entry \<Rightarrow> bool" where
  "entry_ok e \<longleftrightarrow> length (e_name e) < 256 \<and> 0 \<notin> set (e_name e) \<and> rec_len_of e < 65536"

definition directory :: "('d \<Rightarrow> ata) \<Rightarrow> 'd ext2 \<Rightarrow> ext2_inode \<Rightarrow> dir_entry list \<Rightarrow> bool" where
  "directory view s i es \<longleftrightarrow> unat (i_size i) = length (dir_image es) \<and> unat (i_size i) \<le> unat (block_size s) \<and>
     on_disk view s (i_block i ! 0) \<and> take (unat (i_size i)) (block_bytes view s (i_block i ! 0)) = dir_image es \<and>
     (\<forall>e \<in> set es. entry_ok e)"

lemma length_entry_image [simp]: "length (entry_image e) = rec_len_of e"
  by (simp add: entry_image_def rec_len_of_def)

lemma length_dir_image: "length (dir_image es) = sum_list (map rec_len_of es)"
  by (induction es) (simp_all add: dir_image_def)

lemma entry_fields:
  assumes "drop off b = entry_image e @ rest" "entry_ok e"
  shows "entry_inode off b = e_inode e" "unat (entry_rec_len off b) = rec_len_of e"
    "entry_name_len off b = length (e_name e)" "entry_file_type off b = e_type e"
    "\<exists>r. drop (off + 8) b = e_name e @ r" "off + rec_len_of e \<le> length b"
proof -
  have off: "off \<le> length b" using assms(1) by (cases "off \<le> length b") (simp_all add: entry_image_def)
  have nth: "b ! (off + k) = (entry_image e @ rest) ! k" for k
    unfolding assms(1) [symmetric] using off by simp
  have dr: "drop (off + k) b = drop k (entry_image e @ rest)" for k
    unfolding assms(1) [symmetric] by (simp add: add.commute)
  show "entry_inode off b = e_inode e"
    using dr [of 0] by (simp add: entry_inode_def le32_at_def entry_image_def)
  show "unat (entry_rec_len off b) = rec_len_of e"
    using assms(2) by (simp add: entry_rec_len_def le16_at_def dr entry_image_def entry_ok_def unat_of_nat)
  show "entry_name_len off b = length (e_name e)"
    using assms(2) by (simp add: entry_name_len_def nth entry_image_def nth_append entry_ok_def unat_of_nat)
  show "entry_file_type off b = e_type e"
    by (simp add: entry_file_type_def nth entry_image_def nth_append)
  show "\<exists>r. drop (off + 8) b = e_name e @ r" by (simp add: dr entry_image_def)
  have "length (drop off b) = rec_len_of e + length rest" unfolding assms(1) by simp
  then show "off + rec_len_of e \<le> length b" using off by simp
qed

text \<open>The position of a loop over the entries: es are still to come, at the offset.\<close>

definition dir_position :: "('d \<Rightarrow> ata) \<Rightarrow> 'd ext2 \<Rightarrow> ext2_inode \<Rightarrow> u32 \<Rightarrow> dir_entry list \<Rightarrow> bool" where
  "dir_position view s i offset es \<longleftrightarrow> unat offset + length (dir_image es) = unat (i_size i) \<and>
     unat (i_size i) \<le> unat (block_size s) \<and> on_disk view s (i_block i ! 0) \<and>
     take (length (dir_image es)) (drop (unat offset) (block_bytes view s (i_block i ! 0))) = dir_image es \<and>
     (\<forall>e \<in> set es. entry_ok e)"

lemma directory_position: "directory view s i es \<Longrightarrow> dir_position view s i 0 es"
  by (clarsimp simp: directory_def dir_position_def)

lemma dir_position_same: "same_volume view s t \<Longrightarrow> dir_position view t i offset es = dir_position view s i offset es"
  using same_volume_facts [of view s t] by (simp add: dir_position_def)

lemma dir_position_end: "dir_position view s i offset [] \<Longrightarrow> \<not> offset < i_size i"
  by (auto simp: dir_position_def dir_image_def word_less_nat_alt)

lemma dir_image_Cons: "dir_image (e # es) = entry_image e @ dir_image es"
  by (simp add: dir_image_def)

lemma dir_position_step:
  fixes xs :: "u8 list"
  assumes pos: "dir_position view s i offset (e # es)" and v: "volume view s"
  defines "b \<equiv> block_bytes view s (i_block i ! 0) @ xs"
  shows "offset < i_size i" "unat offset + 8 + length (e_name e) \<le> BUFFER_SIZE"
    "entry_inode (unat offset) b = e_inode e" "entry_rec_len (unat offset) b \<noteq> 0"
    "entry_name_len (unat offset) b = length (e_name e)" "entry_file_type (unat offset) b = e_type e"
    "\<exists>r. drop (unat offset + 8) b = e_name e @ r"
    "dir_position view s i (offset + ucast (entry_rec_len (unat offset) b)) es"
proof -
  let ?B = "block_bytes view s (i_block i ! 0)" and ?o = "unat offset"
  have bs: "unat (block_size s) \<le> 4096" by (rule block_sizes [OF v])
  have p: "?o + rec_len_of e + length (dir_image es) = unat (i_size i)" "unat (i_size i) \<le> unat (block_size s)"
    "on_disk view s (i_block i ! 0)" "entry_ok e" "\<forall>e \<in> set es. entry_ok e"
    and t: "take (rec_len_of e + length (dir_image es)) (drop ?o ?B) = entry_image e @ dir_image es"
    using pos by (simp_all add: dir_position_def dir_image_Cons add.assoc)
  have "drop ?o b = drop ?o ?B @ xs" using p(1,2) by (simp add: b_def)
  also have "drop ?o ?B = take (rec_len_of e + length (dir_image es)) (drop ?o ?B) @
      drop (rec_len_of e + length (dir_image es)) (drop ?o ?B)"
    by (rule append_take_drop_id [symmetric])
  finally have d: "drop ?o b = entry_image e @ dir_image es @ drop (rec_len_of e + length (dir_image es)) (drop ?o ?B) @ xs"
    unfolding t by simp
  note fields = entry_fields [OF d p(4)]
  show "entry_inode ?o b = e_inode e" "entry_name_len ?o b = length (e_name e)" "entry_file_type ?o b = e_type e"
    "\<exists>r. drop (?o + 8) b = e_name e @ r"
    by (rule fields)+
  have pos8: "8 + length (e_name e) \<le> rec_len_of e" by (simp add: rec_len_of_def)
  then show "offset < i_size i" "?o + 8 + length (e_name e) \<le> BUFFER_SIZE"
    using p(1,2) bs by (simp_all add: word_less_nat_alt BUFFER_SIZE_def)
  show "entry_rec_len ?o b \<noteq> 0"
    using fields(2) pos8 by auto
  have "\<not> BUFFER_SIZE < ?o + 6" using pos8 p(1,2) bs by (simp add: BUFFER_SIZE_def)
  from next_entry [OF this] have u: "unat (offset + ucast (entry_rec_len ?o b)) = ?o + rec_len_of e"
    by (simp add: fields(2))
  have "drop (rec_len_of e) (take (rec_len_of e + length (dir_image es)) (drop ?o ?B)) = dir_image es"
    unfolding t by simp
  then have "take (length (dir_image es)) (drop (?o + rec_len_of e) ?B) = dir_image es"
    by (simp add: drop_take add.commute)
  then show "dir_position view s i (offset + ucast (entry_rec_len ?o b)) es"
    unfolding dir_position_def u using p by simp
qed

text \<open>What readdir returns: the entries in use, with names cut at 127 characters.\<close>

definition live :: "dir_entry list \<Rightarrow> dir_entry list" where
  "live es = filter (\<lambda>e. e_inode e \<noteq> 0) es"

definition dirent_of :: "dir_entry \<Rightarrow> dirent" where
  "dirent_of e = \<lparr>dname = take 127 (e_name e), ino = e_inode e, dtype = e_type e\<rparr>"

definition dirent_at :: "dir_entry list \<Rightarrow> nat \<Rightarrow> dirent option" where
  "dirent_at es k = (if k < length (live es) then Some (dirent_of (live es ! k)) else None)"

lemma dirent_at_simps [simp]:
  "dirent_at [] k = None"
  "dirent_at (e # es) k = (if e_inode e = 0 then dirent_at es k
     else if k = 0 then Some (dirent_of e) else dirent_at es (k - 1))"
  by (cases k; simp add: dirent_at_def live_def)+

lemma copy_entry_ok:
  assumes "entry_inode off b = e_inode e" "entry_name_len off b = length (e_name e)" "entry_file_type off b = e_type e"
    "\<exists>r. drop (off + 8) b = e_name e @ r" "entry_ok e" "off + 8 + length (e_name e) \<le> BUFFER_SIZE"
  shows "copy_entry off b = Inr (dirent_of e)"
proof -
  obtain r where r: "drop (off + 8) b = e_name e @ r" using assms(4) by blast
  have "take (min (length (e_name e)) 127) (drop (off + 8) b) = take 127 (e_name e)"
    unfolding r by (cases "length (e_name e) \<le> 127") simp_all
  moreover have "takeWhile (\<lambda>c. c \<noteq> 0) (take 127 (e_name e)) = take 127 (e_name e)"
    using assms(5) by (auto simp: takeWhile_eq_all_conv entry_ok_def dest: in_set_takeD)
  moreover have "\<not> BUFFER_SIZE < off + 8" "\<not> BUFFER_SIZE < off + 8 + min (length (e_name e)) 127" using assms(6) by linarith+
  ultimately show ?thesis by (simp only: copy_entry_def Let_def assms(1-3) if_False dirent_of_def)
qed

lemma readdir_loop_ok:
  assumes dev: "ata_device hw view"
  shows "volume view s \<Longrightarrow> dir_position view s i offset es \<Longrightarrow> unat cur \<le> unat index \<Longrightarrow> length b = BUFFER_SIZE \<Longrightarrow>
    \<exists>d. readdir_loop hw i index offset cur b s =
        Inr (dirent_at es (unat index - unat cur), s\<lparr>disk_dev := d, cached_dirent :=
          (case dirent_at es (unat index - unat cur) of None \<Rightarrow> cached_dirent s | Some de \<Rightarrow> de)\<rparr>) \<and>
      kept view (disk_dev s) d"
proof (induction es arbitrary: offset cur b s)
  case Nil
  then show ?case
    using dir_position_end [OF Nil(2)] kept_self [OF Nil(1)]
    by (subst readdir_loop.simps) (auto intro: exI [of _ "disk_dev s"])
next
  case (Cons e es)
  note v = Cons.prems(1) and pos = Cons.prems(2) and cur = Cons.prems(3)
  let ?o = "unat offset"
  have od: "on_disk view s (i_block i ! 0)" using pos by (simp add: dir_position_def)
  obtain d where d: "ext2_read_block hw (i_block i ! 0) b s =
      Inr (block_bytes view s (i_block i ! 0) @ drop (unat (block_size s)) b, s\<lparr>disk_dev := d\<rparr>)"
    and k: "kept view (disk_dev s) d"
    by (rule read_block_ok [OF dev v od Cons.prems(4)])
  let ?b = "block_bytes view s (i_block i ! 0) @ drop (unat (block_size s)) b" and ?s = "s\<lparr>disk_dev := d\<rparr>"
  have same: "same_volume view s ?s" using k by (simp add: same_volume_def)
  note step = dir_position_step(1,2) [OF pos v] dir_position_step(3-8) [OF pos v, of "drop (unat (block_size s)) b"]
  have eok: "entry_ok e" using pos by (simp add: dir_position_def)
  have no_over: "\<not> BUFFER_SIZE < ?o + 6" using step(2) by simp
  have "unat (block_size s) \<le> 4096" by (rule block_sizes [OF v])
  then have lb: "length ?b = BUFFER_SIZE" using Cons.prems(4) by (simp add: BUFFER_SIZE_def)
  note IH = Cons.IH [OF same_volume_facts(1) [OF same v] step(8) [folded dir_position_same [OF same]] _ lb]
  have cd: "cached_dirent ?s = cached_dirent s" by simp
  have unfold: "readdir_loop hw i index offset cur b s =
      (if e_inode e \<noteq> 0
       then if cur = index then Inr (Some (dirent_of e), ?s\<lparr>cached_dirent := dirent_of e\<rparr>)
            else readdir_loop hw i index (offset + ucast (entry_rec_len ?o ?b)) (cur + 1) ?b ?s
       else readdir_loop hw i index (offset + ucast (entry_rec_len ?o ?b)) cur ?b ?s)"
    using step(1,4) no_over copy_entry_ok [OF step(3,5,6,7) eok step(2)]
    by (subst readdir_loop.simps) (simp add: d step(3))
  consider "e_inode e = 0" | "e_inode e \<noteq> 0" "cur = index" | "e_inode e \<noteq> 0" "cur \<noteq> index" by blast
  then show ?case
  proof cases
    case 1
    from IH [OF cur, unfolded cd] obtain f where
      "readdir_loop hw i index (offset + ucast (entry_rec_len ?o ?b)) cur ?b ?s =
        Inr (dirent_at es (unat index - unat cur), ?s\<lparr>disk_dev := f, cached_dirent :=
          (case dirent_at es (unat index - unat cur) of None \<Rightarrow> cached_dirent s | Some de \<Rightarrow> de)\<rparr>)"
      "kept view d f" by auto
    with 1 kept_trans [OF k] show ?thesis unfolding unfold by auto
  next
    case 2
    with k show ?thesis unfolding unfold by auto
  next
    case 3
    then have lt: "unat cur < unat index" using cur by (metis le_neq_implies_less word_unat_eq_iff)
    then have u: "unat (cur + 1) = unat cur + 1"
      using unat_add_of_nat [of cur 1] unat_u32 [of index] by simp
    have le: "unat (cur + 1) \<le> unat index" using lt u by simp
    have idx: "unat index - unat cur - 1 = unat index - unat (cur + 1)" "unat index - unat cur \<noteq> 0" using lt u by simp_all
    from IH [OF le, unfolded cd] obtain f where
      "readdir_loop hw i index (offset + ucast (entry_rec_len ?o ?b)) (cur + 1) ?b ?s =
        Inr (dirent_at es (unat index - unat (cur + 1)), ?s\<lparr>disk_dev := f, cached_dirent :=
          (case dirent_at es (unat index - unat (cur + 1)) of None \<Rightarrow> cached_dirent s | Some de \<Rightarrow> de)\<rparr>)"
      "kept view d f" by auto
    with 3 kept_trans [OF k] idx show ?thesis unfolding unfold by auto
  qed
qed

lemma name_match_ok:
  "\<exists>r. drop p b = xs @ r \<Longrightarrow> p + length xs \<le> BUFFER_SIZE \<Longrightarrow> 0 \<notin> set xs \<Longrightarrow>
    name_match b p (length xs) nm = Inr (xs = nm)"
proof (induction xs arbitrary: p nm)
  case Nil
  then show ?case by auto
next
  case (Cons x xs)
  then obtain r where r: "drop p b = x # xs @ r" by auto
  then have "b ! p = x" "\<exists>r. drop (p + 1) b = xs @ r"
    by (auto simp: drop_Suc dest: arg_cong [where f = hd] arg_cong [where f = tl] simp flip: tl_drop)
      (metis drop_eq_Nil hd_drop_conv_nth leI list.distinct(1) list.sel(1))
  with Cons show ?case by (cases nm) auto
qed

text \<open>What finddir finds: the first entry in use with the name.\<close>

definition lookup :: "dir_entry list \<Rightarrow> u8 list \<Rightarrow> dir_entry option" where
  "lookup es nm = find (\<lambda>e. e_name e = nm) (live es)"

lemma lookup_simps [simp]:
  "lookup [] nm = None"
  "lookup (e # es) nm = (if e_inode e \<noteq> 0 \<and> e_name e = nm then Some e else lookup es nm)"
  by (simp_all add: lookup_def live_def)

definition found_node :: "('d \<Rightarrow> ata) \<Rightarrow> 'd ext2 \<Rightarrow> dir_entry option \<Rightarrow> vfs_node" where
  "found_node view s r = (case r of None \<Rightarrow> target_node s
     | Some e \<Rightarrow> fill_target (e_inode e) (inode_of view s (e_inode e)) (target_node s))"

lemma finddir_loop_ok:
  assumes dev: "ata_device hw view"
  shows "volume view s \<Longrightarrow> dir_position view s i offset es \<Longrightarrow> \<forall>e \<in> set (live es). in_group s (e_inode e) \<Longrightarrow>
    length b = BUFFER_SIZE \<Longrightarrow>
    \<exists>d. finddir_loop hw i nm offset b s =
        Inr (map_option (\<lambda>e. Ext2Target) (lookup es nm), s\<lparr>disk_dev := d, target_node := found_node view s (lookup es nm)\<rparr>) \<and>
      kept view (disk_dev s) d"
proof (induction es arbitrary: offset b s)
  case Nil
  then show ?case
    using dir_position_end [OF Nil(2)] kept_self [OF Nil(1)]
    by (subst finddir_loop.simps) (auto simp: found_node_def intro: exI [of _ "disk_dev s"])
next
  case (Cons e es)
  note v = Cons.prems(1) and pos = Cons.prems(2)
  let ?o = "unat offset"
  have od: "on_disk view s (i_block i ! 0)" using pos by (simp add: dir_position_def)
  obtain d where d: "ext2_read_block hw (i_block i ! 0) b s =
      Inr (block_bytes view s (i_block i ! 0) @ drop (unat (block_size s)) b, s\<lparr>disk_dev := d\<rparr>)"
    and k: "kept view (disk_dev s) d"
    by (rule read_block_ok [OF dev v od Cons.prems(4)])
  let ?b = "block_bytes view s (i_block i ! 0) @ drop (unat (block_size s)) b" and ?s = "s\<lparr>disk_dev := d\<rparr>"
  have same: "same_volume view s ?s" using k by (simp add: same_volume_def)
  note facts = same_volume_facts [OF same]
  note step = dir_position_step(1,2) [OF pos v] dir_position_step(3-8) [OF pos v, of "drop (unat (block_size s)) b"]
  have eok: "entry_ok e" using pos by (simp add: dir_position_def)
  have no_over: "\<not> BUFFER_SIZE < ?o + 6" "\<not> BUFFER_SIZE < ?o + 7" using step(2) by simp_all
  have "unat (block_size s) \<le> 4096" by (rule block_sizes [OF v])
  then have lb: "length ?b = BUFFER_SIZE" using Cons.prems(4) by (simp add: BUFFER_SIZE_def)
  have "\<forall>e \<in> set (live es). in_group ?s (e_inode e)" using Cons.prems(3) by (simp add: facts(5) live_def)
  note IH = Cons.IH [OF facts(1) [OF v] step(8) [folded dir_position_same [OF same]] this lb]
  have match: "name_match ?b (?o + 8) (length (e_name e)) nm = Inr (e_name e = nm)"
    by (rule name_match_ok [OF step(7)]) (use step(2) eok in \<open>simp_all add: entry_ok_def\<close>)
  have unfold: "finddir_loop hw i nm offset b s =
      (if e_inode e \<noteq> 0 \<and> e_name e = nm
       then and_then (ext2_read_inode hw (e_inode e) ?s) (\<lambda>(target_inode, s).
         Inr (Some Ext2Target, s\<lparr>target_node := fill_target (e_inode e) target_inode (target_node s)\<rparr>))
       else finddir_loop hw i nm (offset + ucast (entry_rec_len ?o ?b)) ?b ?s)"
    using step(1,4) no_over match
    by (subst finddir_loop.simps) (cases "e_name e = nm"; simp add: d step(3,5))
  show ?case
  proof (cases "e_inode e \<noteq> 0 \<and> e_name e = nm")
    case True
    then have "in_group ?s (e_inode e)" using Cons.prems(3) by (simp add: facts(5) live_def)
    then obtain f where f: "ext2_read_inode hw (e_inode e) ?s = Inr (inode_of view s (e_inode e), ?s\<lparr>disk_dev := f\<rparr>)"
      "kept view d f"
      by (rule read_inode_ok [OF dev facts(1) [OF v]]) (simp add: facts(4))
    show ?thesis
      using True kept_trans [OF k f(2)] unfolding unfold by (auto simp: f(1) found_node_def)
  next
    case False
    have fn: "found_node view ?s = found_node view s"
      by (simp add: fun_eq_iff found_node_def facts(4) split: option.split)
    from IH [unfolded fn] obtain f where
      "finddir_loop hw i nm (offset + ucast (entry_rec_len ?o ?b)) ?b ?s =
        Inr (map_option (\<lambda>e. Ext2Target) (lookup es nm), ?s\<lparr>disk_dev := f, target_node := found_node view s (lookup es nm)\<rparr>)"
      "kept view d f" by auto
    moreover have "lookup (e # es) nm = lookup es nm" using False by auto
    ultimately show ?thesis using False kept_trans [OF k] unfolding unfold by auto
  qed
qed

section \<open>Nodes\<close>

text \<open>A node that stands for an inode, with the functions of ext2 in its slots.\<close>

definition serves :: "'d ext2 \<Rightarrow> node_ptr \<Rightarrow> u32 \<Rightarrow> bool" where
  "serves s p n \<longleftrightarrow> inode (ext2_node_at s p) = n \<and> ext2_slots (ext2_node_at s p) = ext2_node_at s p"

lemma serves_slots:
  assumes "serves s p n"
  shows "read_slot (ext2_node_at s p) = Some Ext2" "write_slot (ext2_node_at s p) = Some Ext2"
    "readdir_slot (ext2_node_at s p) = Some Ext2" "finddir_slot (ext2_node_at s p) = Some Ext2"
proof -
  let ?n = "ext2_node_at s p"
  have e: "ext2_slots ?n = ?n" using assms by (simp add: serves_def)
  have "read_slot (ext2_slots ?n) = Some Ext2" "write_slot (ext2_slots ?n) = Some Ext2"
    "readdir_slot (ext2_slots ?n) = Some Ext2" "finddir_slot (ext2_slots ?n) = Some Ext2"
    by (simp_all add: ext2_slots_def)
  then show "read_slot ?n = Some Ext2" "write_slot ?n = Some Ext2"
    "readdir_slot ?n = Some Ext2" "finddir_slot ?n = Some Ext2"
    unfolding e .
qed

lemma serves_found: "serves (s\<lparr>target_node := fill_target n i x\<rparr>) Ext2Target n"
  by (simp add: serves_def ext2_node_at_def fill_target_def ext2_slots_def)

lemma node_finddir_ok:
  assumes dev: "ata_device hw view" and v: "volume view s" and n: "in_group s n" "inode (ext2_node_at s p) = n"
    and d: "directory view s (inode_of view s n) es" "\<forall>e \<in> set (live es). in_group s (e_inode e)"
  obtains d where "ext2_node_finddir hw p nm s =
      Inr (map_option (\<lambda>e. Ext2Target) (lookup es nm), s\<lparr>disk_dev := d, target_node := found_node view s (lookup es nm)\<rparr>)"
    and "kept view (disk_dev s) d"
proof -
  obtain d0 where d0: "ext2_read_inode hw n s = Inr (inode_of view s n, s\<lparr>disk_dev := d0\<rparr>)" and k0: "kept view (disk_dev s) d0"
    by (rule read_inode_ok [OF dev v n(1)])
  let ?t = "s\<lparr>disk_dev := d0\<rparr>"
  have same: "same_volume view s ?t" using k0 by (simp add: same_volume_def)
  note facts = same_volume_facts [OF same]
  have fn: "found_node view ?t = found_node view s"
    by (simp add: fun_eq_iff found_node_def facts(4) split: option.split)
  have pos: "dir_position view ?t (inode_of view s n) 0 es"
    using directory_position [OF d(1)] by (simp add: dir_position_same [OF same])
  have "\<forall>e \<in> set (live es). in_group ?t (e_inode e)" using d(2) by (simp add: facts(5))
  from finddir_loop_ok [OF dev facts(1) [OF v] pos this, of "uninitialised BUFFER_SIZE ?t" nm, unfolded fn] obtain f
    where f: "finddir_loop hw (inode_of view s n) nm 0 (uninitialised BUFFER_SIZE ?t) ?t =
      Inr (map_option (\<lambda>e. Ext2Target) (lookup es nm), ?t\<lparr>disk_dev := f, target_node := found_node view s (lookup es nm)\<rparr>)"
    "kept view d0 f" by auto
  have "ext2_node_finddir hw p nm s =
      Inr (map_option (\<lambda>e. Ext2Target) (lookup es nm), s\<lparr>disk_dev := f, target_node := found_node view s (lookup es nm)\<rparr>)"
    using f(1) by (simp add: ext2_node_finddir_def n(2) d0)
  then show ?thesis by (rule that) (rule kept_trans [OF k0 f(2)])
qed

lemma node_readdir_ok:
  assumes dev: "ata_device hw view" and v: "volume view s" and n: "in_group s n" "inode (ext2_node_at s p) = n"
    and d: "directory view s (inode_of view s n) es"
  obtains d where "ext2_node_readdir hw p index s =
      Inr (dirent_at es (unat index), s\<lparr>disk_dev := d, cached_dirent :=
        (case dirent_at es (unat index) of None \<Rightarrow> cached_dirent s | Some de \<Rightarrow> de)\<rparr>)"
    and "kept view (disk_dev s) d"
proof -
  obtain d0 where d0: "ext2_read_inode hw n s = Inr (inode_of view s n, s\<lparr>disk_dev := d0\<rparr>)" and k0: "kept view (disk_dev s) d0"
    by (rule read_inode_ok [OF dev v n(1)])
  let ?t = "s\<lparr>disk_dev := d0\<rparr>"
  have same: "same_volume view s ?t" using k0 by (simp add: same_volume_def)
  have cd: "cached_dirent ?t = cached_dirent s" by simp
  have pos: "dir_position view ?t (inode_of view s n) 0 es"
    using directory_position [OF d(1)] by (simp add: dir_position_same [OF same])
  from readdir_loop_ok [OF dev same_volume_facts(1) [OF same v] pos, of 0 index "uninitialised BUFFER_SIZE ?t", unfolded cd]
  obtain f where f: "readdir_loop hw (inode_of view s n) index 0 0 (uninitialised BUFFER_SIZE ?t) ?t =
      Inr (dirent_at es (unat index), ?t\<lparr>disk_dev := f, cached_dirent :=
        (case dirent_at es (unat index) of None \<Rightarrow> cached_dirent s | Some de \<Rightarrow> de)\<rparr>)"
    "kept view d0 f" by auto
  have "ext2_node_readdir hw p index s =
      Inr (dirent_at es (unat index), s\<lparr>disk_dev := f, cached_dirent :=
        (case dirent_at es (unat index) of None \<Rightarrow> cached_dirent s | Some de \<Rightarrow> de)\<rparr>)"
    using f(1) by (simp add: ext2_node_readdir_def n(2) d0)
  then show ?thesis by (rule that) (rule kept_trans [OF k0 f(2)])
qed

section \<open>Paths\<close>

text \<open>Names that lead from one inode to another through directories.\<close>

inductive path_to :: "('d \<Rightarrow> ata) \<Rightarrow> 'd ext2 \<Rightarrow> u32 \<Rightarrow> u8 list list \<Rightarrow> u32 \<Rightarrow> bool" for view s where
  here: "in_group s n \<Longrightarrow> path_to view s n [] n"
| step: "in_group s n \<Longrightarrow> directory view s (inode_of view s n) es \<Longrightarrow> \<forall>e \<in> set (live es). in_group s (e_inode e) \<Longrightarrow>
    lookup es t = Some e \<Longrightarrow> (ts \<noteq> [] \<Longrightarrow> i_mode (inode_of view s (e_inode e)) AND 0xF000 = 0x4000) \<Longrightarrow>
    path_to view s (e_inode e) ts k \<Longrightarrow> path_to view s n (t # ts) k"

inductive_cases path_to_NilE: "path_to view s n [] k"
inductive_cases path_to_ConsE: "path_to view s n (t # ts) k"

lemma path_to_same:
  assumes "same_volume view s t" "path_to view s n ts k"
  shows "path_to view t n ts k"
proof -
  note facts = same_volume_facts [OF assms(1)]
  have dir: "directory view t = directory view s" by (simp add: fun_eq_iff directory_def facts)
  show ?thesis
    using assms(2)
  proof induction
    case (here n)
    then show ?case by (intro path_to.here) (simp add: facts(5))
  next
    case (step n es nm e ts k)
    then show ?case by (intro path_to.step [where es = es and e = e]) (simp_all add: facts(4,5) dir)
  qed
qed

lemma directory_mode: "m AND 0xF000 = 0x4000 \<Longrightarrow> m AND 0x4000 \<noteq> 0" for m :: u16
proof
  assume "m AND 0xF000 = 0x4000" "m AND 0x4000 = 0"
  have "m AND 0x4000 = m AND (0xF000 AND 0x4000)" by simp
  also have "\<dots> = (m AND 0xF000) AND 0x4000" by (simp only: and.assoc)
  finally show False using \<open>m AND 0xF000 = 0x4000\<close> \<open>m AND 0x4000 = 0\<close> by simp
qed

lemma returned_simps [simp]: "returned (Inr x) = Some x" "returned (Inl e) = None"
  by (simp_all add: returned_def)

lemma ext2_drivers_calls [simp]:
  "node_at (ext2_drivers hw) = ext2_node_at"
  "read_call (ext2_drivers hw) Ext2 = (\<lambda>n off sz buf s. returned (ext2_node_read hw n off sz buf s))"
  "write_call (ext2_drivers hw) Ext2 = (\<lambda>n off sz buf s. returned (ext2_node_write hw n off sz buf s))"
  "readdir_call (ext2_drivers hw) Ext2 = (\<lambda>n i s. returned (ext2_node_readdir hw n i s))"
  "finddir_call (ext2_drivers hw) Ext2 = (\<lambda>n nm s. returned (ext2_node_finddir hw n nm s))"
  by (simp_all add: ext2_drivers_def fun_eq_iff)

text \<open>What a lookup leaves as it was.\<close>

definition looked_up :: "('d \<Rightarrow> ata) \<Rightarrow> 'd ext2 \<Rightarrow> 'd ext2 \<Rightarrow> bool" where
  "looked_up view s t \<longleftrightarrow> same_volume view s t \<and> user_mem t = user_mem s \<and> ext2_root t = ext2_root s \<and>
     cached_dirent t = cached_dirent s"

lemma walk_ok:
  assumes dev: "ata_device hw view"
  shows "volume view s \<Longrightarrow> serves s p n \<Longrightarrow> (ts \<noteq> [] \<Longrightarrow> flags (ext2_node_at s p) AND VFS_DIRECTORY \<noteq> 0) \<Longrightarrow>
    path_to view s n ts k \<Longrightarrow>
    \<exists>t. walk (ext2_drivers hw) p ts s = Some (Some (if ts = [] then p else Ext2Target), t) \<and> looked_up view s t \<and>
      serves t (if ts = [] then p else Ext2Target) k"
proof (induction ts arbitrary: s p n)
  case Nil
  from Nil.prems(4) have "k = n" by (rule path_to_NilE) simp
  with Nil same_volume_self [OF Nil.prems(1)] show ?case by (simp add: looked_up_def)
next
  case (Cons nm ts)
  note v = Cons.prems(1) and sv = Cons.prems(2)
  from Cons.prems(4) obtain es e where n: "in_group s n" and es: "directory view s (inode_of view s n) es"
    "\<forall>e \<in> set (live es). in_group s (e_inode e)" and e: "lookup es nm = Some e"
    and m: "ts \<noteq> [] \<Longrightarrow> i_mode (inode_of view s (e_inode e)) AND 0xF000 = 0x4000" and rest: "path_to view s (e_inode e) ts k"
    by (rule path_to_ConsE) blast
  obtain d where d: "ext2_node_finddir hw p nm s =
      Inr (Some Ext2Target, s\<lparr>disk_dev := d, target_node := found_node view s (Some e)\<rparr>)" and kd: "kept view (disk_dev s) d"
    using node_finddir_ok [OF dev v n _ es, of p nm] sv unfolding e by (auto simp: serves_def)
  let ?t = "s\<lparr>disk_dev := d, target_node := found_node view s (Some e)\<rparr>"
  have same: "same_volume view s ?t" using kd by (simp add: same_volume_def)
  have find: "vfs_finddir (ext2_drivers hw) (Some p) nm s = Some (Some Ext2Target, ?t)"
    using Cons.prems(3) serves_slots(4) [OF sv] d by (simp add: vfs_finddir_def)
  have "serves ?t Ext2Target (e_inode e)" using serves_found by (simp add: found_node_def)
  moreover have "flags (ext2_node_at ?t Ext2Target) AND VFS_DIRECTORY \<noteq> 0" if "ts \<noteq> []"
    using directory_mode [OF m [OF that]]
    by (simp add: ext2_node_at_def found_node_def fill_target_def ext2_slots_def VFS_DIRECTORY_def)
  ultimately obtain u where u: "walk (ext2_drivers hw) Ext2Target ts ?t = Some (Some (if ts = [] then Ext2Target else Ext2Target), u)"
    "looked_up view ?t u" "serves u (if ts = [] then Ext2Target else Ext2Target) k"
    using Cons.IH [OF same_volume_facts(1) [OF same v] _ _ path_to_same [OF same rest], of Ext2Target] by blast
  have "looked_up view s u"
    using u(2) same_volume_trans [OF same, of u] by (auto simp: looked_up_def)
  with u show ?case by (simp add: find)
qed

lemma resolve_ok:
  assumes dev: "ata_device hw view" and v: "volume view s" and r: "root_node vf = Some p" "serves s p n"
      "flags (ext2_node_at s p) AND VFS_DIRECTORY \<noteq> 0"
    and path: "path_to view s n (components path) k" "\<forall>t \<in> set (components path). length t < 128"
  obtains t where "vfs_resolve_path (ext2_drivers hw) (Some (slash # path)) vf s =
      Some (Inr (Some (if components path = [] then p else Ext2Target), t))"
    and "looked_up view s t" and "serves t (if components path = [] then p else Ext2Target) k"
proof -
  obtain t where t: "walk (ext2_drivers hw) p (components path) s = Some (Some (if components path = [] then p else Ext2Target), t)"
    "looked_up view s t" "serves t (if components path = [] then p else Ext2Target) k"
    using walk_ok [OF dev v r(2,3) path(1)] by blast
  have "vfs_resolve_path (ext2_drivers hw) (Some (slash # path)) vf s =
      Some (Inr (Some (if components path = [] then p else Ext2Target), t))"
  proof (cases "path = []")
    case True
    with t(1) show ?thesis by (simp add: vfs_resolve_path_def r(1) components_def)
  next
    case False
    then show ?thesis using t(1) by (simp add: vfs_resolve_path_def r(1) resolve_from_walk [OF path(2)])
  qed
  then show ?thesis using t(2,3) by (rule that)
qed

section \<open>Mounting a volume\<close>

lemma read_sectors_into_ok:
  assumes dev: "ata_device hw view" and d: "ata_ready (view (disk_dev s))" "disk_ok (view (disk_dev s))"
    and l: "unat lba < 2 ^ 28" "unat lba + unat c \<le> capacity (view (disk_dev s))" "c \<noteq> 0"
    and b: "512 * unat c \<le> length b" "length b \<le> 2 ^ 32"
  obtains e where "read_sectors_into hw lba c b s =
      Inr (disk_bytes (view (disk_dev s)) (512 * unat lba) (512 * unat c) @ drop (512 * unat c) b, s\<lparr>disk_dev := e\<rparr>)"
    and "kept view (disk_dev s) e"
proof -
  from pata_read_ok [OF dev d l(3), of lba 0 "array_memory b"] l
  obtain e where e: "pata_read_sectors hw lba c 0 (array_memory b, disk_dev s) =
      Some (0, write_bytes (array_memory b) 0 (concat (map (disk (view (disk_dev s))) [unat lba..<unat lba + unat c])), e)"
    "disk (view e) = disk (view (disk_dev s))" "capacity (view e) = capacity (view (disk_dev s))" "xfer (view e) = Idle"
    by auto
  have "read_bytes (write_bytes (array_memory b) 0 (disk_bytes (view (disk_dev s)) (512 * unat lba) (512 * unat c))) 0 (length b) =
      disk_bytes (view (disk_dev s)) (512 * unat lba) (512 * unat c) @ drop (512 * unat c) b"
    using read_array_prefix [of "disk_bytes (view (disk_dev s)) (512 * unat lba) (512 * unat c)" "length b" b] b by simp
  then have "read_sectors_into hw lba c b s =
      Inr (disk_bytes (view (disk_dev s)) (512 * unat lba) (512 * unat c) @ drop (512 * unat c) b, s\<lparr>disk_dev := e\<rparr>)"
    using b(1) e(1) sectors_bytes [OF d(2) l(2)] by (simp add: read_sectors_into_def)
  then show ?thesis by (rule that) (use e(2-4) in \<open>simp add: kept_def ata_ready_def\<close>)
qed

definition disk_super :: "ata \<Rightarrow> ext2_super_block" where
  "disk_super a = super_block_at (disk_bytes a 1024 1024)"

definition disk_group :: "ata \<Rightarrow> nat \<Rightarrow> ext2_group_desc" where
  "disk_group a p = group_desc_at (disk_bytes a p 32)"

lemma le_at_append:
  "off + 2 \<le> length xs \<Longrightarrow> le16_at off (xs @ ys) = le16_at off xs"
  "off + 4 \<le> length xs \<Longrightarrow> le32_at off (xs @ ys) = le32_at off xs"
  by (simp_all add: le16_at_def le32_at_def)

lemma group_desc_append:
  assumes "32 \<le> length xs"
  shows "group_desc_at (xs @ ys) = group_desc_at xs"
  using assms by (simp add: group_desc_at_def le_at_append)

lemma disk_group_sector: "group_desc_at (disk_bytes a p 512 @ ys) = disk_group a p"
proof -
  have "disk_bytes a p 512 = disk_bytes a p 32 @ disk_bytes a (p + 32) 480"
    using disk_bytes_append [of a p 32 480] by simp
  then show ?thesis by (simp add: group_desc_append disk_group_def del: append_assoc add: append_assoc [symmetric])
qed

text \<open>The state after a mount with the super block and the group descriptor given.\<close>

definition mounted_state :: "ext2_super_block \<Rightarrow> ext2_group_desc \<Rightarrow> 'd ext2 \<Rightarrow> 'd ext2" where
  "mounted_state S G s = s\<lparr>sb := copy_super_block S (sb s), block_size := push_bit (unat (s_log_block_size S) mod 32) 1024,
     bg := copy_group_desc G (bg s), ext2_root := ext2_slots ((ext2_root s)\<lparr>inode := 2, flags := VFS_DIRECTORY, mask := 493\<rparr>)\<rparr>"

lemma mount_ok:
  assumes dev: "ata_device hw view" and d: "ata_ready (view (disk_dev s))" "disk_ok (view (disk_dev s))"
    and c: "5 \<le> capacity (view (disk_dev s))"
  defines "a \<equiv> view (disk_dev s)"
  obtains e where "kept view (disk_dev s) e"
    and "s_magic (disk_super a) \<noteq> EXT2_MAGIC \<Longrightarrow> ext2_mount hw source target s = Inr (None, s\<lparr>disk_dev := e\<rparr>)"
    and "s_magic (disk_super a) = EXT2_MAGIC \<Longrightarrow> ext2_mount hw source target s = Inr (Some Ext2Root,
      mounted_state (disk_super a)
        (disk_group a (if push_bit (unat (s_log_block_size (disk_super a)) mod 32) 1024 = (1024 :: u32) then 2048 else 1024))
        (s\<lparr>disk_dev := e\<rparr>))"
proof -
  have b: "length (uninitialised 1024 s) = 1024" by simp
  obtain e1 where e1: "read_sectors_into hw 2 2 (uninitialised 1024 s) s = Inr (disk_bytes a 1024 1024, s\<lparr>disk_dev := e1\<rparr>)"
    and k1: "kept view (disk_dev s) e1"
    by (rule read_sectors_into_ok [OF dev d, of 2 2 "uninitialised 1024 s"]) (use c b in \<open>simp_all add: a_def\<close>)
  show ?thesis
  proof (cases "s_magic (disk_super a) = EXT2_MAGIC")
    case False
    then show ?thesis
      by (intro that [OF k1]) (simp_all add: ext2_mount_def e1 flip: disk_super_def)
  next
    case True
    let ?bs = "push_bit (unat (s_log_block_size (disk_super a)) mod 32) 1024 :: u32"
    let ?t = "s\<lparr>disk_dev := e1, sb := copy_super_block (disk_super a) (sb s), block_size := ?bs\<rparr>"
    have t: "ata_ready (view (disk_dev ?t))" "disk_ok (view (disk_dev ?t))" "5 \<le> capacity (view (disk_dev ?t))"
      using k1 d c by (simp_all add: kept_def disk_ok_def)
    obtain e2 where e2: "read_sectors_into hw (if ?bs = 1024 then 4 else 2) 1 (disk_bytes a 1024 1024) ?t =
        Inr (disk_bytes (view e1) (if ?bs = 1024 then 2048 else 1024) 512 @ drop 512 (disk_bytes a 1024 1024), ?t\<lparr>disk_dev := e2\<rparr>)"
      and k2: "kept view e1 e2"
      by (rule read_sectors_into_ok [OF dev t(1,2), of "if ?bs = 1024 then 4 else 2" 1 "disk_bytes a 1024 1024"])
        (use t(3) in \<open>auto split: if_splits\<close>)
    have g: "disk_group (view e1) = disk_group a"
      using k1 by (simp add: fun_eq_iff disk_group_def a_def kept_def disk_bytes_cong [of "view e1" "view (disk_dev s)"])
    have "ext2_mount hw source target s = Inr (Some Ext2Root,
        mounted_state (disk_super a) (disk_group a (if ?bs = 1024 then 2048 else 1024)) (s\<lparr>disk_dev := e2\<rparr>))"
      using True e2 by (simp add: ext2_mount_def e1 Let_def mounted_state_def disk_group_sector g copy_super_block_def
          flip: disk_super_def)
    then show ?thesis using True by (intro that [OF kept_trans [OF k1 k2]]) simp_all
  qed
qed

section \<open>Properties\<close>

text \<open>
  C7: A path whose components lead from the mounted root through directories to
  an inode is resolved to a node that stands for it, and reading there returns
  the bytes of the file: as many as were asked for and lie behind the offset
  in the file, stored at the buffer, with the disk as it was.
\<close>

theorem ext2_path_reads_file:
  assumes "ata_device hw view" "volume view s"
    and "root_node vf = Some p" "serves s p n" "flags (ext2_node_at s p) AND VFS_DIRECTORY \<noteq> 0"
    and "path_to view s n (components path) k" "\<forall>t \<in> set (components path). length t < 128"
    and "direct_file view s (inode_of view s k)"
  shows "\<exists>q t d. vfs_resolve_path (ext2_drivers hw) (Some (slash # path)) vf s = Some (Inr (Some q, t)) \<and>
    (let D = take (unat sz) (drop (unat offset) (contents view s (inode_of view s k))) in
     vfs_read (ext2_drivers hw) (Some q) offset sz buffer t =
       Some (of_nat (length D), t\<lparr>disk_dev := d, user_mem := write_bytes (user_mem s) buffer D\<rparr>)) \<and>
    disk (view d) = disk (view (disk_dev s))"
proof -
  obtain t where t: "vfs_resolve_path (ext2_drivers hw) (Some (slash # path)) vf s =
      Some (Inr (Some (if components path = [] then p else Ext2Target), t))"
    and l: "looked_up view s t" and q: "serves t (if components path = [] then p else Ext2Target) k"
    by (rule resolve_ok [OF assms(1-7)])
  let ?q = "if components path = [] then p else Ext2Target"
  have same: "same_volume view s t" and mem: "user_mem t = user_mem s" using l by (simp_all add: looked_up_def)
  note facts = same_volume_facts [OF same]
  have "in_group s k" using assms(6) by (induction rule: path_to.induct)
  then have n: "in_group t (inode (ext2_node_at t ?q))" "inode (ext2_node_at t ?q) = k"
    using q by (simp_all add: serves_def facts(5))
  have f: "direct_file view t (inode_of view t (inode (ext2_node_at t ?q)))"
    unfolding n(2) facts by (rule assms(8))
  obtain d where "ext2_node_read hw ?q offset sz buffer t =
      Inr (of_nat (length (take (unat sz) (drop (unat offset) (contents view s (inode_of view s k))))),
        t\<lparr>disk_dev := d, user_mem := write_bytes (user_mem s) buffer
          (take (unat sz) (drop (unat offset) (contents view s (inode_of view s k))))\<rparr>)"
    and "kept view (disk_dev t) d"
    by (rule node_read_ok [OF assms(1) facts(1) [OF assms(2)] n(1) f, of offset sz buffer]) (simp only: n(2) facts mem)
  then have "vfs_read (ext2_drivers hw) (Some ?q) offset sz buffer t =
      Some (of_nat (length (take (unat sz) (drop (unat offset) (contents view s (inode_of view s k))))),
        t\<lparr>disk_dev := d, user_mem := write_bytes (user_mem s) buffer
          (take (unat sz) (drop (unat offset) (contents view s (inode_of view s k))))\<rparr>)"
    "disk (view d) = disk (view (disk_dev s))"
    using serves_slots(1) [OF q] same by (simp_all add: vfs_read_def same_volume_def kept_def)
  with t show ?thesis unfolding Let_def by blast
qed

text \<open>
  C17: A write through the node of a file, at an offset below its size, whose
  bytes fit the local array of 4096 bytes counted from the start of the block
  the offset lies in, replaces bytes in this block and leaves the other blocks
  alone; reading the whole file afterwards returns the old contents with the
  replaced part. Of a write that crosses the end of the block only the bytes
  up to there are stored, and of one that crosses the end of the file only
  those below its size, which stays as it is, are read back, although the
  call returns the full size. With more bytes than the array holds (with
  blocks of 4096 bytes every write that crosses the end of a block) the
  function runs over the array on the stack, which is the fault Overrun.
\<close>

theorem ext2_write_reads_back:
  fixes offset sz buffer :: u32
  assumes "ata_device hw view" "volume view s" "serves s p k" "in_group s k"
    and "i = inode_of view s k" "direct_file view s i" "distinct (used_blocks s i)"
    and "\<forall>b \<in> set (used_blocks s i). table_free s b" "unat offset < unat (i_size i)"
    and "D = take (unat (block_size s) - unat offset mod unat (block_size s)) (read_bytes (user_mem s) buffer (unat sz))"
    and "C = take (unat (i_size i)) (take (unat offset) (contents view s i) @ D @ drop (unat offset + length D) (contents view s i))"
  shows "if unat offset mod unat (block_size s) + unat sz \<le> BUFFER_SIZE
    then \<exists>d e. vfs_write (ext2_drivers hw) (Some p) offset sz buffer s = Some (sz, s\<lparr>disk_dev := d\<rparr>) \<and>
      vfs_read (ext2_drivers hw) (Some p) 0 (i_size i) buffer2 (s\<lparr>disk_dev := d\<rparr>) =
        Some (i_size i, s\<lparr>disk_dev := e, user_mem := write_bytes (user_mem s) buffer2 C\<rparr>) \<and>
      (\<forall>b. b \<noteq> i_block i ! (unat offset div unat (block_size s)) \<longrightarrow>
        block_bytes view (s\<lparr>disk_dev := d\<rparr>) b = block_bytes view s b)
    else ext2_node_write hw p offset sz buffer s = Inl Overrun"
proof -
  have n: "inode (ext2_node_at s p) = k" using assms(3) by (simp add: serves_def)
  have g: "in_group s (inode (ext2_node_at s p))" "i = inode_of view s (inode (ext2_node_at s p))"
    using assms(4,5) by (simp_all add: n)
  show ?thesis
  proof (cases "unat offset mod unat (block_size s) + unat sz \<le> BUFFER_SIZE")
    case False
    with node_write_overruns [OF assms(1,2) g assms(6) _ assms(9)] show ?thesis by simp
  next
    case fits: True
    obtain d where w: "ext2_node_write hw p offset sz buffer s = Inr (sz, s\<lparr>disk_dev := d\<rparr>)"
      and v: "volume view (s\<lparr>disk_dev := d\<rparr>)" and ino: "\<And>k. in_group s k \<Longrightarrow> inode_of view (s\<lparr>disk_dev := d\<rparr>) k = inode_of view s k"
      and f: "direct_file view (s\<lparr>disk_dev := d\<rparr>) i" and c: "contents view (s\<lparr>disk_dev := d\<rparr>) i = C"
      and rest: "\<And>b. b \<noteq> i_block i ! (unat offset div unat (block_size s)) \<Longrightarrow>
        block_bytes view (s\<lparr>disk_dev := d\<rparr>) b = block_bytes view s b"
      unfolding assms(10,11)
      by (rule node_write_ok [OF assms(1,2) g assms(6-8) fits assms(9)]) (rule that; (assumption | simp only: assms(10,11)))
    let ?t = "s\<lparr>disk_dev := d\<rparr>"
    have m: "inode (ext2_node_at ?t p) = k" "in_group ?t k" "inode_of view ?t k = i"
      using n assms(4,5) ino [OF assms(4)] by (simp_all add: ext2_node_at_def in_group_def split: node_ptr.splits)
    have len: "length C = unat (i_size i)" using length_contents [OF f v] by (simp only: c)
    then have all: "take (unat (i_size i)) (drop (unat (0 :: u32)) C) = C" by (simp only: unsigned_0 drop_0 take_all)
    obtain e where e: "ext2_node_read hw p 0 (i_size i) buffer2 ?t =
        Inr (of_nat (length C), ?t\<lparr>disk_dev := e, user_mem := write_bytes (user_mem ?t) buffer2 C\<rparr>)"
      by (rule node_read_ok [OF assms(1) v, of p 0 "i_size i" buffer2, unfolded m(1) m(3) c all, OF m(2) f])
        (rule that)
    have "read_slot (ext2_node_at ?t p) = Some Ext2"
      using serves_slots(1) [OF assms(3)] by (simp add: ext2_node_at_def split: node_ptr.splits)
    then have "vfs_read (ext2_drivers hw) (Some p) 0 (i_size i) buffer2 ?t =
        Some (i_size i, s\<lparr>disk_dev := e, user_mem := write_bytes (user_mem s) buffer2 C\<rparr>)"
      using e [unfolded len] by (simp add: vfs_read_def)
    moreover have "vfs_write (ext2_drivers hw) (Some p) offset sz buffer s = Some (sz, ?t)"
      using w serves_slots(2) [OF assms(3)] by (simp add: vfs_write_def)
    ultimately show ?thesis using rest fits by auto
  qed
qed

text \<open>
  C24: readdir with the index k returns the k-th entry of the directory that is in
  use, its name cut at 127 characters, and null from their number on; the
  entry returned is the one static entry of the driver.
\<close>

theorem ext2_readdir_lists:
  assumes "ata_device hw view" "volume view s" "serves s p n" "in_group s n"
    and "flags (ext2_node_at s p) AND VFS_DIRECTORY \<noteq> 0" "directory view s (inode_of view s n) es"
  shows "\<exists>d. vfs_readdir (ext2_drivers hw) (Some p) index s =
      (if unat index < length (live es)
       then Some (Some (dirent_of (live es ! unat index)),
         s\<lparr>disk_dev := d, cached_dirent := dirent_of (live es ! unat index)\<rparr>)
       else Some (None, s\<lparr>disk_dev := d\<rparr>)) \<and>
    disk (view d) = disk (view (disk_dev s))"
proof -
  have n: "inode (ext2_node_at s p) = n" using assms(3) by (simp add: serves_def)
  obtain d where "ext2_node_readdir hw p index s =
      Inr (dirent_at es (unat index), s\<lparr>disk_dev := d, cached_dirent :=
        (case dirent_at es (unat index) of None \<Rightarrow> cached_dirent s | Some de \<Rightarrow> de)\<rparr>)"
    "kept view (disk_dev s) d"
    by (rule node_readdir_ok [OF assms(1,2,4) n assms(6)])
  then show ?thesis
    using assms(5) serves_slots(3) [OF assms(3)]
    by (intro exI [of _ d]) (auto simp: vfs_readdir_def dirent_at_def kept_def)
qed

text \<open>
  There is one node for everything finddir finds: a second lookup that
  succeeds makes the pointer the first one returned stand for the second file.
\<close>

theorem ext2_second_lookup_moves_first:
  assumes "ata_device hw view" "volume view s" "serves s Ext2Root n" "in_group s n"
    and "flags (ext2_node_at s Ext2Root) AND VFS_DIRECTORY \<noteq> 0" "directory view s (inode_of view s n) es"
    and "\<forall>e \<in> set (live es). in_group s (e_inode e)"
    and "lookup es nm1 = Some e1" "lookup es nm2 = Some e2" "direct_file view s (inode_of view s (e_inode e2))"
  shows "\<exists>q t1 t2 u. vfs_finddir (ext2_drivers hw) (Some Ext2Root) nm1 s = Some (Some q, t1) \<and>
    inode (ext2_node_at t1 q) = e_inode e1 \<and>
    vfs_finddir (ext2_drivers hw) (Some Ext2Root) nm2 t1 = Some (Some q, t2) \<and>
    inode (ext2_node_at t2 q) = e_inode e2 \<and>
    vfs_read (ext2_drivers hw) (Some q) 0 (i_size (inode_of view s (e_inode e2))) buffer t2 =
      Some (i_size (inode_of view s (e_inode e2)), u) \<and>
    user_mem u = write_bytes (user_mem s) buffer (contents view s (inode_of view s (e_inode e2)))"
proof -
  note dev = assms(1) and v = assms(2) and d = assms(6,7)
  have n: "inode (ext2_node_at s Ext2Root) = n" using assms(3) by (simp add: serves_def)
  obtain d1 where d1: "ext2_node_finddir hw Ext2Root nm1 s =
      Inr (Some Ext2Target, s\<lparr>disk_dev := d1, target_node := found_node view s (Some e1)\<rparr>)" and k1: "kept view (disk_dev s) d1"
    using node_finddir_ok [OF dev v assms(4) n d, of nm1] unfolding assms(8) by auto
  let ?t1 = "s\<lparr>disk_dev := d1, target_node := found_node view s (Some e1)\<rparr>"
  have same: "same_volume view s ?t1" using k1 by (simp add: same_volume_def)
  note facts = same_volume_facts [OF same]
  have root: "ext2_node_at ?t1 Ext2Root = ext2_node_at s Ext2Root" by (simp add: ext2_node_at_def)
  have dir: "directory view ?t1 = directory view s" by (simp add: fun_eq_iff directory_def facts)
  obtain d2 where d2: "ext2_node_finddir hw Ext2Root nm2 ?t1 =
      Inr (Some Ext2Target, ?t1\<lparr>disk_dev := d2, target_node := found_node view ?t1 (Some e2)\<rparr>)" and k2: "kept view d1 d2"
    using node_finddir_ok [OF dev facts(1) [OF v], of n Ext2Root es nm2] assms(4) n d
    unfolding assms(9) facts dir root by auto
  let ?t2 = "?t1\<lparr>disk_dev := d2, target_node := found_node view ?t1 (Some e2)\<rparr>"
  have same2: "same_volume view s ?t2" using kept_trans [OF k1 k2] by (simp add: same_volume_def)
  note facts2 = same_volume_facts [OF same2]
  have sv: "serves ?t1 Ext2Target (e_inode e1)" "serves ?t2 Ext2Target (e_inode e2)"
    using serves_found by (simp_all add: found_node_def)
  have e2: "in_group s (e_inode e2)" "inode (ext2_node_at ?t2 Ext2Target) = e_inode e2"
    using assms(7,9) sv(2) by (auto simp: lookup_def find_Some_iff serves_def)
  let ?i = "inode_of view s (e_inode e2)"
  have len: "length (contents view s ?i) = unat (i_size ?i)" by (rule length_contents [OF assms(10) v])
  obtain d3 where d3: "ext2_node_read hw Ext2Target 0 (i_size ?i) buffer ?t2 =
      Inr (i_size ?i, ?t2\<lparr>disk_dev := d3, user_mem := write_bytes (user_mem s) buffer (contents view s ?i)\<rparr>)"
    by (rule node_read_ok [OF dev facts2(1) [OF v], of Ext2Target 0 "i_size ?i" buffer, unfolded e2(2) facts2])
      (use e2(1) assms(10) len in simp_all)
  let ?u = "?t2\<lparr>disk_dev := d3, user_mem := write_bytes (user_mem s) buffer (contents view s ?i)\<rparr>"
  have calls: "vfs_finddir (ext2_drivers hw) (Some Ext2Root) nm1 s = Some (Some Ext2Target, ?t1)"
    "vfs_finddir (ext2_drivers hw) (Some Ext2Root) nm2 ?t1 = Some (Some Ext2Target, ?t2)"
    using assms(5) serves_slots(4) [OF assms(3)] d1 d2 root by (simp_all add: vfs_finddir_def)
  have "vfs_read (ext2_drivers hw) (Some Ext2Target) 0 (i_size ?i) buffer ?t2 = Some (i_size ?i, ?u)"
    using d3 serves_slots(1) [OF sv(2)] by (simp add: vfs_read_def)
  moreover have "user_mem ?u = write_bytes (user_mem s) buffer (contents view s ?i)" by simp
  ultimately show ?thesis using calls sv unfolding serves_def by blast
qed

text \<open>
  C25: Mounting looks at the super block behind the first kilobyte. Without its
  magic number the mount fails and only the disk was used. With 1024-byte
  blocks the root becomes inode 2 and the group descriptor comes from block 2,
  where it is. With larger blocks it is read from the sector of the super
  block instead: what the driver takes for the inode table is the number of
  blocks reserved for the super user.
\<close>

theorem ext2_mount_reads:
  assumes "ata_device hw view" "ata_ready (view (disk_dev s))" "disk_ok (view (disk_dev s))"
    and "5 \<le> capacity (view (disk_dev s))" "S = disk_super (view (disk_dev s))"
  shows "(s_magic S \<noteq> EXT2_MAGIC \<longrightarrow> (\<exists>d. ext2_mount hw source target s = Inr (None, s\<lparr>disk_dev := d\<rparr>))) \<and>
    (s_magic S = EXT2_MAGIC \<longrightarrow> (\<exists>t. ext2_mount hw source target s = Inr (Some Ext2Root, t) \<and>
      disk (view (disk_dev t)) = disk (view (disk_dev s)) \<and>
      serves t Ext2Root 2 \<and> flags (ext2_node_at t Ext2Root) = VFS_DIRECTORY \<and>
      s_inodes_per_group (sb t) = s_inodes_per_group S \<and>
      (s_log_block_size S = 0 \<longrightarrow> block_size t = 1024 \<and>
         bg_inode_table (bg t) = bg_inode_table (disk_group (view (disk_dev s)) 2048)) \<and>
      (s_log_block_size S \<in> {1, 2} \<longrightarrow> unat (block_size t) = 1024 * 2 ^ unat (s_log_block_size S) \<and>
         bg_inode_table (bg t) = s_r_blocks_count S)))"
proof -
  let ?a = "view (disk_dev s)" and ?sh = "push_bit (unat (s_log_block_size S) mod 32) 1024 :: u32"
  obtain e where k: "kept view (disk_dev s) e"
    and bad: "s_magic S \<noteq> EXT2_MAGIC \<Longrightarrow> ext2_mount hw source target s = Inr (None, s\<lparr>disk_dev := e\<rparr>)"
    and good: "s_magic S = EXT2_MAGIC \<Longrightarrow> ext2_mount hw source target s = Inr (Some Ext2Root,
      mounted_state S (disk_group ?a (if ?sh = 1024 then 2048 else 1024)) (s\<lparr>disk_dev := e\<rparr>))"
    by (rule mount_ok [where source = source and target = target, OF assms(1-4), folded assms(5)]) (rule that)
  have reserved: "bg_inode_table (disk_group ?a 1024) = s_r_blocks_count S"
    using disk_bytes_append [of ?a 1024 32 992]
    by (simp add: disk_group_def assms(5) disk_super_def group_desc_at_def super_block_at_def le_at_append)
  have sizes: "s_log_block_size S = 0 \<Longrightarrow> ?sh = 1024" "s_log_block_size S = 1 \<Longrightarrow> ?sh = 2048"
    "s_log_block_size S = 2 \<Longrightarrow> ?sh = 4096" by (simp_all add: push_bit_eq_mult)
  let ?t = "mounted_state S (disk_group ?a (if ?sh = 1024 then 2048 else 1024)) (s\<lparr>disk_dev := e\<rparr>)"
  have t: "disk (view (disk_dev ?t)) = disk ?a" "serves ?t Ext2Root 2" "flags (ext2_node_at ?t Ext2Root) = VFS_DIRECTORY"
    "s_inodes_per_group (sb ?t) = s_inodes_per_group S" "block_size ?t = ?sh"
    "bg_inode_table (bg ?t) = bg_inode_table (disk_group ?a (if ?sh = 1024 then 2048 else 1024))"
    using k by (simp_all add: mounted_state_def kept_def serves_def ext2_node_at_def ext2_slots_def copy_super_block_def
        copy_group_desc_def)
  show ?thesis
    using bad good t sizes reserved by (intro conjI impI) (blast, intro exI [of _ ?t], auto)
qed

section \<open>A concrete volume\<close>

text \<open>
  Seven blocks of 1024 bytes: nothing, super block, group descriptor, inode
  table, the root directory (inode 2) with two files, and their contents.
\<close>

definition inode_image :: "u16 \<Rightarrow> u32 \<Rightarrow> u32 \<Rightarrow> u8 list" where
  "inode_image mode sz b = bytes_le 2 mode @ bytes_le 2 (0 :: u16) @ bytes_le 4 sz @ replicate 32 0 @ bytes_le 4 b @ replicate 84 0"

definition demo_dir :: "dir_entry list" where
  "demo_dir =
     [\<lparr>e_inode = 2, e_type = 2, e_name = cs ''.'', e_pad = replicate 3 0\<rparr>,
      \<lparr>e_inode = 0, e_type = 1, e_name = cs ''old'', e_pad = replicate 1 0\<rparr>,
      \<lparr>e_inode = 3, e_type = 1, e_name = cs ''motd'', e_pad = []\<rparr>,
      \<lparr>e_inode = 4, e_type = 1, e_name = cs ''todo'', e_pad = replicate 976 0\<rparr>]"

definition demo_blocks :: "u8 list list" where
  "demo_blocks =
     [replicate 1024 0,
      concat (map (bytes_le 4) [8, 7, 0, 0, 0, 1, 0, 0, 8192, 8192, 8, 0, 0 :: u32]) @ bytes_le 4 (0 :: u32) @
        bytes_le 2 EXT2_MAGIC @ replicate 966 0,
      concat (map (bytes_le 4) [0, 0, 3 :: u32]) @ replicate 1012 0,
      replicate 128 0 @ inode_image 0x4000 1024 4 @ inode_image 0x8000 5 5 @ inode_image 0x8000 9 6 @ replicate 512 0,
      dir_image demo_dir,
      cs ''hello'' @ replicate 1019 0,
      cs ''read more'' @ replicate 1015 0]"

definition demo_ext2_drive :: ata where
  "demo_ext2_drive = demo_disk\<lparr>disk := (\<lambda>l. take 512 (drop (512 * (l mod 2)) (demo_blocks ! (l div 2)))), capacity := 14\<rparr>"

definition demo_static :: "ata ext2" where
  "demo_static = \<lparr>sb = super_block_at [], bg = group_desc_at [], block_size = 1024,
     cached_dirent = \<lparr>dname = [], ino = 0, dtype = 0\<rparr>, target_node = null_node, ext2_root = null_node,
     disk_dev = demo_ext2_drive, user_mem = (\<lambda>a. ucast a), garbage = (\<lambda>i. 0xAA)\<rparr>"

definition demo_volume :: "ata ext2" where
  "demo_volume = (case ext2_mount ata_drive [] [] demo_static of Inr (_, t) \<Rightarrow> t | Inl e \<Rightarrow> demo_static)"

lemma length_inode_image [simp]: "length (inode_image m sz b) = 128"
  by (simp add: inode_image_def)

lemma demo_dir_ok: "length (dir_image demo_dir) = 1024" "\<forall>e \<in> set demo_dir. entry_ok e"
  "live demo_dir = [demo_dir ! 0, demo_dir ! 2, demo_dir ! 3]"
  by (simp_all add: length_dir_image demo_dir_def rec_len_of_def cs_def entry_ok_def live_def)

lemma demo_blocks_length: "n < 7 \<Longrightarrow> length (demo_blocks ! n) = 1024"
proof -
  have "\<forall>b \<in> set demo_blocks. length b = 1024"
    by (simp add: demo_blocks_def demo_dir_ok) (simp add: cs_def)
  moreover have "length demo_blocks = 7" by (simp add: demo_blocks_def)
  ultimately show "n < 7 \<Longrightarrow> length (demo_blocks ! n) = 1024" by (metis nth_mem)
qed

lemma demo_drive_ok: "ata_ready demo_ext2_drive" "disk_ok demo_ext2_drive" "capacity demo_ext2_drive = 14"
proof -
  show "ata_ready demo_ext2_drive" "capacity demo_ext2_drive = 14"
    by (simp_all add: demo_ext2_drive_def demo_disk_def ata_ready_def)
  have "length (disk demo_ext2_drive l) = 512" if "l < 14" for l
  proof -
    have "length (demo_blocks ! (l div 2)) = 1024" using that by (intro demo_blocks_length) simp
    then show ?thesis by (simp add: demo_ext2_drive_def mod_2_eq_odd)
  qed
  then show "disk_ok demo_ext2_drive" by (simp add: disk_ok_def demo_ext2_drive_def)
qed

text \<open>The bytes of the drive are those of the blocks.\<close>

lemma demo_bytes:
  assumes "b < 7" "off + n \<le> 1024"
  shows "disk_bytes demo_ext2_drive (b * 1024 + off) n = take n (drop off (demo_blocks ! b))"
proof (rule nth_equalityI)
  show "length (disk_bytes demo_ext2_drive (b * 1024 + off) n) = length (take n (drop off (demo_blocks ! b)))"
    using assms demo_blocks_length [OF assms(1)] by simp
  fix i
  assume "i < length (disk_bytes demo_ext2_drive (b * 1024 + off) n)"
  then have i: "i < n" by simp
  have dk: "disk demo_ext2_drive l = take 512 (drop (512 * (l mod 2)) (demo_blocks ! (l div 2)))" for l
    by (simp add: demo_ext2_drive_def)
  define p where "p = off + i"
  have p: "p < 1024" using i assms(2) by (simp add: p_def)
  have d: "(b * 1024 + p) div 512 = p div 512 + b * 2" using div_mult_self1 [of 512 p "b * 2"] by (simp add: ac_simps)
  have h: "p div 512 < 2" using p by (simp add: div_less_iff_less_mult)
  then have q: "(b * 1024 + p) div 512 div 2 = b" "(b * 1024 + p) div 512 mod 2 = p div 512" unfolding d by simp_all
  have "b * 1024 + p = p + (b * 2) * 512" by simp
  then have m: "(b * 1024 + p) mod 512 = p mod 512" by (simp only: mod_mult_self1)
  have "disk_byte demo_ext2_drive (b * 1024 + p) = take 512 (drop (512 * (p div 512)) (demo_blocks ! b)) ! (p mod 512)"
    by (simp only: disk_byte_def dk q m)
  also have "\<dots> = demo_blocks ! b ! (512 * (p div 512) + p mod 512)"
    using p demo_blocks_length [OF assms(1)] by (subst nth_take) (simp, rule nth_drop, linarith)
  also have "512 * (p div 512) + p mod 512 = p" by (rule mult_div_mod_eq)
  finally have "disk_byte demo_ext2_drive (b * 1024 + off + i) = demo_blocks ! b ! (off + i)"
    by (simp add: p_def add.assoc)
  then show "disk_bytes demo_ext2_drive (b * 1024 + off) n ! i = take n (drop off (demo_blocks ! b)) ! i"
    using i assms(2) demo_blocks_length [OF assms(1)] by (simp add: nth_disk_bytes)
qed

lemma inode_image_fields:
  "i_mode (inode_at 0 (inode_image m sz b)) = m" "i_size (inode_at 0 (inode_image m sz b)) = sz"
  "i_block (inode_at 0 (inode_image m sz b)) ! 0 = b" "take 1 (i_block (inode_at 0 (inode_image m sz b))) = [b]"
proof -
  show "i_mode (inode_at 0 (inode_image m sz b)) = m" "i_size (inode_at 0 (inode_image m sz b)) = sz"
    by (simp_all add: inode_at_def inode_image_def le16_at_def le32_at_def)
  show *: "i_block (inode_at 0 (inode_image m sz b)) ! 0 = b"
    by (simp add: inode_at_def inode_image_def le32_at_def)
  then show "take 1 (i_block (inode_at 0 (inode_image m sz b))) = [b]"
    using take_Suc_conv_app_nth [of 0 "i_block (inode_at 0 (inode_image m sz b))"] by simp
qed

lemma demo_super:
  "s_magic (disk_super demo_ext2_drive) = EXT2_MAGIC" "s_log_block_size (disk_super demo_ext2_drive) = 0"
  "s_inodes_per_group (disk_super demo_ext2_drive) = 8" "bg_inode_table (disk_group demo_ext2_drive 2048) = 3"
  using demo_bytes [of 1 0 1024] demo_bytes [of 2 0 32] demo_blocks_length [of 1]
  by (simp_all add: disk_super_def disk_group_def super_block_at_def group_desc_at_def demo_blocks_def
      le16_at_def le32_at_def)

lemma demo_mounted:
  obtains e where "kept id demo_ext2_drive e"
    and "ext2_mount ata_drive [] [] demo_static = Inr (Some Ext2Root, demo_volume)"
    and "demo_volume = mounted_state (disk_super demo_ext2_drive) (disk_group demo_ext2_drive 2048) (demo_static\<lparr>disk_dev := e\<rparr>)"
proof -
  have d: "id (disk_dev demo_static) = demo_ext2_drive" by (simp add: demo_static_def)
  obtain e where "kept id demo_ext2_drive e" "ext2_mount ata_drive [] [] demo_static = Inr (Some Ext2Root,
      mounted_state (disk_super demo_ext2_drive) (disk_group demo_ext2_drive 2048) (demo_static\<lparr>disk_dev := e\<rparr>))"
    by (rule mount_ok [OF ata_drive_device, of demo_static "[]" "[]", unfolded d])
      (use demo_drive_ok demo_super in \<open>simp_all add: demo_static_def\<close>)
  then show ?thesis by (intro that) (simp_all add: demo_volume_def)
qed

lemma demo_volume_ok:
  "volume id demo_volume" "serves demo_volume Ext2Root 2" "flags (ext2_node_at demo_volume Ext2Root) AND VFS_DIRECTORY \<noteq> 0"
  "block_size demo_volume = 1024" "user_mem demo_volume = (\<lambda>a. ucast a)"
  "in_group demo_volume n \<longleftrightarrow> 0 < n \<and> n \<le> 8"
  "b < 7 \<Longrightarrow> block_bytes id demo_volume (of_nat b) = demo_blocks ! b" "b < 7 \<Longrightarrow> on_disk id demo_volume (of_nat b)"
  "table_free demo_volume 5"
  "disk_bytes (disk_dev demo_volume) = disk_bytes demo_ext2_drive"
  "bg_inode_table (bg demo_volume) = 3"
proof -
  obtain e where k: "kept id demo_ext2_drive e"
    and v: "demo_volume = mounted_state (disk_super demo_ext2_drive) (disk_group demo_ext2_drive 2048) (demo_static\<lparr>disk_dev := e\<rparr>)"
    by (rule demo_mounted)
  have f: "disk_dev demo_volume = e" "block_size demo_volume = 1024" "s_inodes_per_group (sb demo_volume) = 8"
    "bg_inode_table (bg demo_volume) = 3" "capacity e = 14" "capacity_of id demo_volume = 14"
    using k by (simp_all add: v mounted_state_def copy_super_block_def copy_group_desc_def demo_super kept_def
        demo_drive_ok capacity_of_def)
  show "block_size demo_volume = 1024" "bg_inode_table (bg demo_volume) = 3" by (rule f)+
  show "volume id demo_volume"
    using k demo_drive_ok(2) by (simp add: volume_def f kept_def disk_ok_def SIZEOF_INODE_def demo_drive_ok(3))
  show "serves demo_volume Ext2Root 2" "flags (ext2_node_at demo_volume Ext2Root) AND VFS_DIRECTORY \<noteq> 0"
    "user_mem demo_volume = (\<lambda>a. ucast a)"
    by (simp_all add: v mounted_state_def serves_def ext2_node_at_def ext2_slots_def VFS_DIRECTORY_def demo_static_def)
  show "in_group demo_volume n \<longleftrightarrow> 0 < n \<and> n \<le> 8" by (simp add: in_group_def f)
  have bytes: "disk_bytes e = disk_bytes demo_ext2_drive"
    using k by (intro ext) (simp add: kept_def disk_bytes_cong [of e demo_ext2_drive])
  then show "disk_bytes (disk_dev demo_volume) = disk_bytes demo_ext2_drive" by (simp add: f)
  show "block_bytes id demo_volume (of_nat b) = demo_blocks ! b" "on_disk id demo_volume (of_nat b)" if "b < 7" for b
    using that demo_bytes [OF that, of 0 1024] demo_blocks_length [OF that]
    by (simp_all add: block_bytes_def on_disk_def bytes f unat_of_nat)
  show "table_free demo_volume 5" by (simp add: table_free_def f SIZEOF_INODE_def)
qed

lemma demo_inodes:
  "inode_of id demo_volume 2 = inode_at 0 (inode_image 0x4000 1024 4)"
  "inode_of id demo_volume 3 = inode_at 0 (inode_image 0x8000 5 5)"
  "inode_of id demo_volume 4 = inode_at 0 (inode_image 0x8000 9 6)"
proof -
  have "inode_of id demo_volume n = inode_at 0 (take 128 (drop ((unat n - 1) * 128) (demo_blocks ! 3)))"
    if "0 < unat n" "unat n \<le> 8" for n
  proof -
    have "inode_address demo_volume n = 3 * 1024 + (unat n - 1) * 128"
      by (simp add: inode_address_def demo_volume_ok(4,11) SIZEOF_INODE_def)
    then show ?thesis
      using demo_bytes [of 3 "(unat n - 1) * 128" 128] that
      by (simp add: inode_of_def demo_volume_ok(10) SIZEOF_INODE_def)
  qed
  note * = this [of 2] this [of 3] this [of 4]
  show "inode_of id demo_volume 2 = inode_at 0 (inode_image 0x4000 1024 4)"
    "inode_of id demo_volume 3 = inode_at 0 (inode_image 0x8000 5 5)"
    "inode_of id demo_volume 4 = inode_at 0 (inode_image 0x8000 9 6)"
    using * by (simp_all add: demo_blocks_def)
qed

lemma demo_files:
  "direct_file id demo_volume (inode_of id demo_volume 3)" "contents id demo_volume (inode_of id demo_volume 3) = cs ''hello''"
  "direct_file id demo_volume (inode_of id demo_volume 4)" "contents id demo_volume (inode_of id demo_volume 4) = cs ''read more''"
  "used_blocks demo_volume (inode_of id demo_volume 3) = [5]"
proof -
  have u: "used_blocks demo_volume (inode_of id demo_volume 3) = [5]" "used_blocks demo_volume (inode_of id demo_volume 4) = [6]"
    using inode_image_fields(4) by (simp_all add: used_blocks_def demo_inodes inode_image_fields demo_volume_ok)
  have b: "block_bytes id demo_volume 5 = cs ''hello'' @ replicate 1019 0" "block_bytes id demo_volume 6 = cs ''read more'' @ replicate 1015 0"
    "on_disk id demo_volume 5" "on_disk id demo_volume 6"
    using demo_volume_ok(7,8) [of 5] demo_volume_ok(7,8) [of 6] by (simp_all add: demo_blocks_def)
  have len: "length (cs ''hello'') = 5" "length (cs ''read more'') = 9" by (simp_all add: cs_def)
  show "used_blocks demo_volume (inode_of id demo_volume 3) = [5]" by (rule u)
  show "direct_file id demo_volume (inode_of id demo_volume 3)" "direct_file id demo_volume (inode_of id demo_volume 4)"
    by (simp_all add: direct_file_def u b demo_volume_ok(4)) (simp_all add: demo_inodes inode_image_fields)
  show "contents id demo_volume (inode_of id demo_volume 3) = cs ''hello''"
    "contents id demo_volume (inode_of id demo_volume 4) = cs ''read more''"
    by (simp_all add: contents_def u b) (simp_all add: demo_inodes inode_image_fields len)
qed

lemma demo_directory:
  "directory id demo_volume (inode_of id demo_volume 2) demo_dir" "\<forall>e \<in> set (live demo_dir). in_group demo_volume (e_inode e)"
  "lookup demo_dir (cs ''motd'') = Some (demo_dir ! 2)" "lookup demo_dir (cs ''todo'') = Some (demo_dir ! 3)"
  "e_inode (demo_dir ! 2) = 3" "e_inode (demo_dir ! 3) = 4"
proof -
  have "block_bytes id demo_volume 4 = dir_image demo_dir" "on_disk id demo_volume 4"
    using demo_volume_ok(7,8) [of 4] by (simp_all add: demo_blocks_def)
  then show "directory id demo_volume (inode_of id demo_volume 2) demo_dir"
    by (simp add: directory_def demo_inodes inode_image_fields demo_dir_ok demo_volume_ok(4))
  show "\<forall>e \<in> set (live demo_dir). in_group demo_volume (e_inode e)"
    unfolding demo_dir_ok(3) by (simp add: demo_volume_ok(6) demo_dir_def)
  show "lookup demo_dir (cs ''motd'') = Some (demo_dir ! 2)" "lookup demo_dir (cs ''todo'') = Some (demo_dir ! 3)"
    "e_inode (demo_dir ! 2) = 3" "e_inode (demo_dir ! 3) = 4"
    by (simp_all add: demo_dir_def cs_def)
qed

definition demo_vfs_ext2 :: vfs where
  "demo_vfs_ext2 = \<lparr>root_node = Some Ext2Root, mounts = [], mount_count = 0\<rparr>"

lemma demo_path: "components (cs ''motd'') = [cs ''motd'']" "path_to id demo_volume 2 (components (cs ''motd'')) 3"
proof -
  show c: "components (cs ''motd'') = [cs ''motd'']"
    by (rule components_single) (simp_all add: cs_def slash_def)
  have "path_to id demo_volume 3 [] 3" by (rule path_to.here) (simp add: demo_volume_ok(6))
  then show "path_to id demo_volume 2 (components (cs ''motd'')) 3"
    unfolding c
    by (intro path_to.step [where es = demo_dir and e = "demo_dir ! 2"])
      (use demo_directory in \<open>simp_all add: demo_volume_ok(6)\<close>)
qed

lemma ext2_path_reads_file_witness:
  "\<exists>q t u. vfs_resolve_path (ext2_drivers ata_drive) (Some (slash # cs ''motd'')) demo_vfs_ext2 demo_volume = Some (Inr (Some q, t)) \<and>
    vfs_read (ext2_drivers ata_drive) (Some q) 1 100 0x5000 t = Some (4, u) \<and>
    user_mem u = write_bytes (\<lambda>a. ucast a) 0x5000 (cs ''ello'')"
proof -
  have r: "root_node demo_vfs_ext2 = Some Ext2Root" by (simp add: demo_vfs_ext2_def)
  have l: "\<forall>t \<in> set (components (cs ''motd'')). length t < 128" by (simp add: demo_path(1)) (simp add: cs_def)
  have d: "take (unat (100 :: u32)) (drop (unat (1 :: u32)) (cs ''hello'')) = cs ''ello''" "length (cs ''ello'') = 4"
    by (simp_all add: cs_def)
  from ext2_path_reads_file [OF ata_drive_device demo_volume_ok(1) r demo_volume_ok(2,3) demo_path(2) l demo_files(1),
      of 100 1 "0x5000", unfolded demo_files(2) d Let_def demo_volume_ok(5)]
  obtain q t d where "vfs_resolve_path (ext2_drivers ata_drive) (Some (slash # cs ''motd'')) demo_vfs_ext2 demo_volume =
      Some (Inr (Some q, t))"
    "vfs_read (ext2_drivers ata_drive) (Some q) 1 100 0x5000 t =
      Some (4, t\<lparr>disk_dev := d, user_mem := write_bytes (\<lambda>a. ucast a) 0x5000 (cs ''ello'')\<rparr>)"
    by auto
  then show ?thesis by (intro exI conjI) (assumption, assumption, simp)
qed

lemma demo_target: "\<exists>t. t = demo_volume\<lparr>target_node := fill_target 3 (inode_of id demo_volume 3) null_node\<rparr> \<and>
    volume id t \<and> serves t Ext2Target 3 \<and> in_group t 3 \<and> inode_of id t 3 = inode_of id demo_volume 3 \<and>
    direct_file id t (inode_of id demo_volume 3) \<and> used_blocks t (inode_of id demo_volume 3) = [5] \<and>
    table_free t 5 \<and> contents id t (inode_of id demo_volume 3) = cs ''hello'' \<and> block_size t = 1024 \<and>
    user_mem t = (\<lambda>a. ucast a)"
proof -
  let ?t = "demo_volume\<lparr>target_node := fill_target 3 (inode_of id demo_volume 3) null_node\<rparr>"
  have same: "same_volume id demo_volume ?t" using kept_self [OF demo_volume_ok(1)] by (simp add: same_volume_def)
  note facts = same_volume_facts [OF same]
  show ?thesis
    using facts(1) [OF demo_volume_ok(1)] demo_files demo_volume_ok(4-6,9) serves_found
    by (intro exI [of _ ?t]) (simp add: facts table_free_def)
qed

lemma ext2_write_reads_back_witness:
  "\<exists>t d u. vfs_write (ext2_drivers ata_drive) (Some Ext2Target) 1 2 0x6141 t = Some (2, d) \<and>
    vfs_read (ext2_drivers ata_drive) (Some Ext2Target) 0 5 0x5000 d = Some (5, u) \<and>
    user_mem u = write_bytes (\<lambda>a. ucast a) 0x5000 (cs ''hABlo'')"
proof -
  obtain t where t: "volume id t" "serves t Ext2Target 3" "in_group t 3" "inode_of id t 3 = inode_of id demo_volume 3"
    "direct_file id t (inode_of id demo_volume 3)" "used_blocks t (inode_of id demo_volume 3) = [5]"
    "table_free t 5" "contents id t (inode_of id demo_volume 3) = cs ''hello''" "block_size t = 1024"
    "user_mem t = (\<lambda>a. ucast a)"
    using demo_target by blast
  let ?i = "inode_of id demo_volume 3"
  have sz: "i_size ?i = 5" by (simp add: demo_inodes inode_image_fields)
  have D: "take (unat (block_size t) - unat (1 :: u32) mod unat (block_size t)) (read_bytes (user_mem t) 0x6141 (unat (2 :: u32))) = cs ''AB''"
  proof -
    have "read_bytes (\<lambda>a :: u32. ucast a) 0x6141 2 = cs ''AB''" by code_simp
    moreover have "length (cs ''AB'') = 2" by (simp add: cs_def)
    ultimately show ?thesis by (simp add: t(9,10))
  qed
  have new: "cs ''hABlo'' = take (unat (i_size ?i)) (take (unat (1 :: u32)) (cs ''hello'') @ cs ''AB'' @
      drop (unat (1 :: u32) + length (cs ''AB'')) (cs ''hello''))"
    by (simp add: cs_def sz)
  have "distinct (used_blocks t ?i)" "\<forall>b \<in> set (used_blocks t ?i). table_free t b" using t(6,7) by simp_all
  moreover have "unat (1 :: u32) < unat (i_size ?i)" by (simp add: sz)
  moreover have "unat (1 :: u32) mod unat (block_size t) + unat (2 :: u32) \<le> BUFFER_SIZE"
    by (simp add: t(9) BUFFER_SIZE_def)
  ultimately obtain d e where
    "vfs_write (ext2_drivers ata_drive) (Some Ext2Target) 1 2 0x6141 t = Some (2, t\<lparr>disk_dev := d\<rparr>)"
    "vfs_read (ext2_drivers ata_drive) (Some Ext2Target) 0 (i_size ?i) 0x5000 (t\<lparr>disk_dev := d\<rparr>) =
      Some (i_size ?i, t\<lparr>disk_dev := e, user_mem := write_bytes (user_mem t) 0x5000 (cs ''hABlo'')\<rparr>)"
    using ext2_write_reads_back [OF ata_drive_device t(1-3) t(4) [symmetric] t(5) _ _ _ D [symmetric], unfolded t(8), OF _ _ _ new,
        of "0x5000"]
    by auto
  then show ?thesis unfolding sz t(10) by (intro exI conjI) (assumption, assumption, simp)
qed

lemma ext2_readdir_lists_witness:
  "\<exists>s1 s2. vfs_readdir (ext2_drivers ata_drive) (Some Ext2Root) 1 demo_volume =
      Some (Some \<lparr>dname = cs ''motd'', ino = 3, dtype = 1\<rparr>, s1) \<and>
    vfs_readdir (ext2_drivers ata_drive) (Some Ext2Root) 3 demo_volume = Some (None, s2)"
proof -
  have n: "in_group demo_volume 2" by (simp add: demo_volume_ok(6))
  have e: "dirent_of (demo_dir ! 2) = \<lparr>dname = cs ''motd'', ino = 3, dtype = 1\<rparr>"
    by (simp add: demo_dir_def dirent_of_def cs_def)
  note use = ext2_readdir_lists [OF ata_drive_device demo_volume_ok(1,2) n demo_volume_ok(3) demo_directory(1)]
  from use [of 1] use [of 3] show ?thesis by (auto simp: demo_dir_ok(3) e)
qed

lemma ext2_second_lookup_moves_first_witness:
  "\<exists>q t1 t2 u. vfs_finddir (ext2_drivers ata_drive) (Some Ext2Root) (cs ''motd'') demo_volume = Some (Some q, t1) \<and>
    inode (ext2_node_at t1 q) = 3 \<and>
    vfs_finddir (ext2_drivers ata_drive) (Some Ext2Root) (cs ''todo'') t1 = Some (Some q, t2) \<and>
    vfs_read (ext2_drivers ata_drive) (Some q) 0 9 0x5000 t2 = Some (9, u) \<and>
    user_mem u = write_bytes (\<lambda>a. ucast a) 0x5000 (cs ''read more'')"
proof -
  have n: "in_group demo_volume 2" by (simp add: demo_volume_ok(6))
  have sz: "i_size (inode_of id demo_volume 4) = 9" by (simp add: demo_inodes inode_image_fields)
  from ext2_second_lookup_moves_first [OF ata_drive_device demo_volume_ok(1,2) n demo_volume_ok(3) demo_directory(1-4),
      unfolded demo_directory(5,6), OF demo_files(3), of "0x5000", unfolded sz demo_files(4) demo_volume_ok(5)]
  show ?thesis by blast
qed

lemma ext2_mount_reads_witness:
  "\<exists>t. ext2_mount ata_drive [] [] demo_static = Inr (Some Ext2Root, t) \<and> block_size t = 1024 \<and>
    bg_inode_table (bg t) = 3 \<and> serves t Ext2Root 2"
proof -
  have d: "id (disk_dev demo_static) = demo_ext2_drive" by (simp add: demo_static_def)
  have c: "5 \<le> capacity demo_ext2_drive" by (simp add: demo_drive_ok)
  from ext2_mount_reads [OF ata_drive_device, of demo_static "disk_super demo_ext2_drive" "[]" "[]", unfolded d, OF demo_drive_ok(1,2) c refl]
  show ?thesis using demo_super by auto
qed

section \<open>The contract of the directory operations\<close>

text \<open>The entries readdir returns have names of at most 127 bytes.\<close>

lemma copy_entry_short:
  assumes "copy_entry off b = Inr de"
  shows "length (dname de) < 128"
proof -
  let ?name = "take (min (entry_name_len off b) 127) (drop (off + 8) b)"
  have "dname de = takeWhile (\<lambda>c. c \<noteq> 0) ?name" using assms by (auto simp: copy_entry_def Let_def split: if_splits)
  also have "length \<dots> \<le> length ?name" by (rule length_takeWhile_le)
  also have "\<dots> < 128" by simp
  finally show ?thesis .
qed

lemma readdir_loop_short:
  "readdir_loop hw node index offset current_index b s = Inr (r, s') \<Longrightarrow> r = Some de \<Longrightarrow> length (dname de) < 128"
proof (induction hw node index offset current_index b s rule: readdir_loop.induct)
  case (1 hw node index offset current_index b s)
  note run = 1(3) [unfolded readdir_loop.simps [of hw node index offset]]
  show ?case
  proof (cases "offset < i_size node")
    case True
    with run obtain b' t where rb: "ext2_read_block hw (i_block node ! 0) b s = Inr (b', t)"
      by (cases "ext2_read_block hw (i_block node ! 0) b s") auto
    note run' = run [unfolded if_P [OF True] rb and_then_simps prod.case]
    show ?thesis
      using run' 1(1) [OF True rb] 1(2) [OF True rb] 1(4)
      by (auto simp: and_then_def copy_entry_short split: if_splits sum.splits)
  qed (use run 1(4) in simp)
qed

interpretation ext2fs: fs_contract "ext2_drivers hw" "\<lambda>s. True"
proof unfold_locales
  fix d p i st r st'
  assume "readdir_call (ext2_drivers hw) d p i st = Some (r, st')"
  then have "ext2_node_readdir hw p i st = Inr (r, st')"
    by (auto simp: ext2_drivers_def returned_def split: if_splits sum.splits)
  then show "True \<and> (\<forall>de. r = Some de \<longrightarrow> length (dname de) < 128)"
    by (auto simp: ext2_node_readdir_def and_then_def dest: readdir_loop_short split: sum.splits)
qed simp_all

end
