(* ===== verification/Calls.thy ===== *)
theory Calls
  imports Syscalls
begin

text \<open>
  What a system call changes. The code does not check the buffers that read
  and getdents are given. A call whose buffer keeps clear of the addresses the
  kernel itself uses leaves the keyboard ring, the screen and the mount table
  well formed, and the scheduler's table as it is unless the call is exit;
  memory changes only in the buffer. A call whose buffer reaches the kernel's
  own memory may do anything, and the relation system_call says so.
\<close>

section \<open>Effects of a call\<close>

definition machine_ok :: "('st \<Rightarrow> bool) \<Rightarrow> ('w, 'd, 'st) machine \<Rightarrow> bool" where
  "machine_ok fs_ok s \<longleftrightarrow> kb_ok (kbd s) \<and> (\<exists>l. shows_log (screen s) l) \<and> vfs_ok (files s) \<and> fs_ok (fs s)"

text \<open>From s to s' the machine stays well formed and of the scheduler only memory inside area changes.\<close>

definition call_effect ::
  "('st \<Rightarrow> bool) \<Rightarrow> 'a::len word set \<Rightarrow> ('a word, 'd, 'st) machine \<Rightarrow> ('a word, 'd, 'st) machine \<Rightarrow> bool" where
  "call_effect fs_ok area s s' \<longleftrightarrow> (machine_ok fs_ok s \<longrightarrow> machine_ok fs_ok s' \<and>
     (\<exists>m. sched s' = (sched s)\<lparr>memory := m\<rparr> \<and> (\<forall>x. x \<notin> area \<longrightarrow> m x = mem s x)))"

lemma effect_refl: "call_effect fs_ok area s s"
  unfolding call_effect_def by (metis sched.surjective sched.update_convs(4))

lemma effect_if: "(machine_ok fs_ok s \<Longrightarrow> call_effect fs_ok area s s') \<Longrightarrow> call_effect fs_ok area s s'"
  unfolding call_effect_def by blast

lemma effect_trans:
  assumes "call_effect fs_ok area s s'" "call_effect fs_ok area s' s''"
  shows "call_effect fs_ok area s s''"
  unfolding call_effect_def
proof
  assume ok: "machine_ok fs_ok s"
  with assms(1) obtain m where m: "sched s' = (sched s)\<lparr>memory := m\<rparr>" "\<And>x. x \<notin> area \<Longrightarrow> m x = mem s x"
    and ok': "machine_ok fs_ok s'" unfolding call_effect_def by blast
  with assms(2) obtain m' where m': "sched s'' = (sched s')\<lparr>memory := m'\<rparr>" "\<And>x. x \<notin> area \<Longrightarrow> m' x = mem s' x"
    and ok'': "machine_ok fs_ok s''" unfolding call_effect_def by blast
  have "sched s'' = (sched s)\<lparr>memory := m'\<rparr>" using m(1) m'(1) by simp
  moreover have "m' x = mem s x" if "x \<notin> area" for x using m'(2) [OF that] m that by simp
  ultimately show "machine_ok fs_ok s'' \<and> (\<exists>m. sched s'' = (sched s)\<lparr>memory := m\<rparr> \<and> (\<forall>x. x \<notin> area \<longrightarrow> m x = mem s x))"
    using ok'' by blast
qed

text \<open>Steps that leave the scheduler alone.\<close>

lemma effect_outside:
  "sched s' = sched s \<Longrightarrow> (machine_ok fs_ok s \<Longrightarrow> machine_ok fs_ok s') \<Longrightarrow> call_effect fs_ok area s s'"
  using effect_refl [of fs_ok area s] by (simp add: call_effect_def)

lemma effect_fs: "(fs_ok (fs s) \<Longrightarrow> fs_ok st) \<Longrightarrow> call_effect fs_ok area s (s\<lparr>fs := st\<rparr>)"
  by (rule effect_outside) (simp_all add: machine_ok_def)

lemma effect_files: "(vfs_ok (files s) \<Longrightarrow> vfs_ok v) \<Longrightarrow> call_effect fs_ok area s (s\<lparr>files := v\<rparr>)"
  by (rule effect_outside) (simp_all add: machine_ok_def)

lemma effect_set_mem: "(\<And>x. x \<notin> area \<Longrightarrow> m x = mem s x) \<Longrightarrow> call_effect fs_ok area s (set_mem m s)"
  by (auto simp: call_effect_def machine_ok_def set_mem_def)

lemma effect_print:
  assumes "print hw str s = Some s'"
  shows "call_effect fs_ok area s s'"
proof (rule effect_outside)
  from assms obtain d where s': "s' = s\<lparr>screen := tty_chars str (screen s), dev := d\<rparr>"
    by (auto simp: print_def kprintf_def tty_write_def split: option.splits)
  then show "sched s' = sched s" by simp
  show "machine_ok fs_ok s'" if "machine_ok fs_ok s" using that tty_chars_log unfolding s' machine_ok_def by fastforce
qed

lemma keyboard_poll_ok: "kb_ok k \<Longrightarrow> kb_ok (fst (keyboard_poll hw (k, d)))"
  by (simp add: keyboard_poll_def keyboard_handler_def Let_def split_beta handle_scancode_ok)

lemma await_char_ok:
  assumes "await_char hw s = Some s'"
  shows "kb_ok (fst s) \<Longrightarrow> kb_ok (fst s')"
proof -
  from assms have "kb_ok (fst s) \<longrightarrow> kb_ok (fst s')"
  proof (rule await_char.raw_induct [where P = "\<lambda>hw s s'. kb_ok (fst s) \<longrightarrow> kb_ok (fst s')", rotated])
    fix rec hw and s s' :: "keyboard \<times> 'a"
    assume ih: "\<And>hw s s'. rec hw s = Some s' \<Longrightarrow> kb_ok (fst s) \<longrightarrow> kb_ok (fst s')"
      and run: "(case keyboard_has_char hw s of (ready, s) \<Rightarrow> if ready then Some s else rec hw s) = Some s'"
    have "kb_ok (fst (snd (keyboard_has_char hw s)))" if "kb_ok (fst s)"
      using keyboard_poll_ok [OF that, of hw "snd s"] by (simp add: keyboard_has_char_def split_beta)
    with run ih show "kb_ok (fst s) \<longrightarrow> kb_ok (fst s')"
      by (cases "keyboard_has_char hw s") (auto split: if_splits)
  qed
  then show "kb_ok (fst s) \<Longrightarrow> kb_ok (fst s')" by simp
qed

lemma effect_fetch:
  assumes "fetch_char hw s = Some (c, s')"
  shows "call_effect fs_ok area s s'"
proof (rule effect_outside)
  from assms obtain k d k' d' where a: "await_char hw (kbd s, dev s) = Some (k, d)"
    and s': "s' = s\<lparr>kbd := snd (dequeue_char k), dev := d\<rparr>"
    by (auto simp: fetch_char_def keyboard_get_char_def split: option.splits prod.splits)
  then show "sched s' = sched s" by simp
  show "machine_ok fs_ok s'" if "machine_ok fs_ok s"
    using that await_char_ok [OF a] dequeue_ok [of k] unfolding s' machine_ok_def by simp
qed

section \<open>The calls\<close>

lemma effect_write_chars: "write_chars hw bs s = Some s' \<Longrightarrow> call_effect fs_ok area s s'"
proof (induction bs arbitrary: s)
  case Nil
  then show ?case by (simp add: effect_refl)
next
  case (Cons c bs)
  then show ?case by (auto simp: bind_eq_Some_conv intro: effect_trans [OF effect_print])
qed

lemma in_buffer: "written < len \<Longrightarrow> buf + written \<in> region buf (unat len)" for buf :: "'a::len word"
  by (simp add: region_def word_less_nat_alt)

lemma effect_read_loop:
  fixes s :: "('a::len word, 'd, 'st) machine"
  assumes "read_loop hw buf len written s = Some r"
  shows "call_effect fs_ok (region buf (unat len)) s (snd r)"
  using assms
proof (rule read_loop.raw_induct
    [where P = "\<lambda>hw buf len written s r. call_effect fs_ok (region buf (unat len)) s (snd r)", rotated])
  fix rec hw and buf len written :: "'a word" and s :: "('a word, 'd, 'st) machine" and r
  assume ih: "\<And>hw buf len written s r. rec hw buf len written s = Some r \<Longrightarrow>
      call_effect fs_ok (region buf (unat len)) s (snd r)"
    and run: "(if written < len then
        Option.bind (fetch_char hw s) (\<lambda>(c, s).
          if c = 8 then
            (if 0 < written
             then Option.bind (print hw [8, 32, 8, 0] s) (rec hw buf len (written - 1))
             else rec hw buf len written s)
          else if c = 10 \<or> c = 13 then
            (let s = set_mem ((mem s)(buf + written := 10)) s in
             map_option (Pair (written + 1)) (print hw [10, 0] s))
          else
            (let s = set_mem ((mem s)(buf + written := c)) s in
             Option.bind (print hw [c, 0] s) (rec hw buf len (written + 1))))
      else Some (written, s)) = Some r"
  let ?area = "region buf (unat len)"
  show "call_effect fs_ok ?area s (snd r)"
  proof (cases "written < len")
    case False
    with run show ?thesis by (auto intro: effect_refl)
  next
    case True
    with run obtain c s1 where f: "fetch_char hw s = Some (c, s1)" by (auto simp: bind_eq_Some_conv)
    note e1 = effect_fetch [OF f, of fs_ok ?area]
    have poke: "call_effect fs_ok ?area s (set_mem ((mem s1)(buf + written := b)) s1)" for b
      by (rule effect_trans [OF e1], rule effect_set_mem) (use in_buffer [OF True] in auto)
    from run True f show ?thesis
      by (auto simp: bind_eq_Some_conv Let_def split: if_splits
          intro: effect_trans [OF e1 ih] effect_trans [OF e1 effect_trans [OF effect_print ih]]
            effect_trans [OF poke effect_print] effect_trans [OF poke effect_trans [OF effect_print ih]])
  qed
qed

lemma vfs_mount_keeps: "vfs_mount path node v = Inr (n, v') \<Longrightarrow> vfs_ok v \<Longrightarrow> vfs_ok v'"
  by (auto simp: vfs_mount_def vfs_ok_def MAX_MOUNTS_def split: if_splits sum.splits)

lemma umount_from_keeps: "umount_from i n path v = (ret, v') \<Longrightarrow> i + n \<le> mount_count v \<Longrightarrow> vfs_ok v \<Longrightarrow> vfs_ok v'"
proof (induction n arbitrary: i)
  case 0
  then show ?case by simp
next
  case (Suc n)
  then have "length (shift_mounts i (mount_count v) (mounts v)) = length (mounts v)"
    using shift_mounts_eq [where i = i and count = "mount_count v" and ms = "mounts v"] by (auto simp: vfs_ok_def)
  with Suc.prems Suc.IH [of "Suc i"] show ?case by (auto simp: vfs_ok_def split: if_splits)
qed

lemma vfs_umount_keeps: "vfs_umount path v = (ret, v') \<Longrightarrow> vfs_ok v \<Longrightarrow> vfs_ok v'"
  unfolding vfs_umount_def by (rule umount_from_keeps [of 0 "mount_count v" path v ret]) simp_all

lemma effect_mount:
  "sys_mount special dir ty flgs node s = Some (Inr (x, s')) \<Longrightarrow> call_effect fs_ok area s s'"
  by (cases "c_string (mem s) dir"; cases "vfs_mount (the (c_string (mem s) dir)) node (files s)")
    (auto simp: sys_mount_def intro: effect_files dest: vfs_mount_keeps)

lemma effect_umount:
  assumes "sys_umount special flgs s = Some (x, s')"
  shows "call_effect fs_ok area s s'"
proof -
  from assms obtain path where s': "s' = s\<lparr>files := snd (vfs_umount path (files s))\<rparr>"
    by (auto simp: sys_umount_def split_beta)
  show ?thesis unfolding s' by (intro effect_files vfs_umount_keeps [OF surjective_pairing])
qed

section \<open>Buffers\<close>

text \<open>The memory a call may write: the buffers of read and getdents.\<close>

definition call_buffer :: "'a::len word \<Rightarrow> 'a word \<Rightarrow> 'a word \<Rightarrow> 'a word set" where
  "call_buffer nr b c = (if unat nr = 3 then region b (unat c)
     else if unat nr = 141 then region b (unat (ucast c :: u32)) else {})"

text \<open>
  Where the static variables that the model keeps in records lie: addresses
  that the linker chooses. The other addresses the kernel relies on (code,
  descriptor tables, page tables, the RAM disk) are the set rest.
\<close>

record 'w layout =
  at_keyboard_buffer :: 'w
  at_head :: 'w
  at_tail :: 'w
  at_poll_counter :: 'w
  at_system_tick :: 'w
  at_seconds :: 'w
  at_task_count :: 'w
  at_current_task :: 'w
  at_tss :: 'w
  at_color :: 'w
  at_vga_addr :: 'w
  at_cursor :: 'w
  at_root_node :: 'w
  at_mounts :: 'w
  at_mount_count :: 'w
  at_file_entries :: 'w
  at_file_count :: 'w
  at_tar_nodes :: 'w
  at_tar_dirents :: 'w
  rest :: "'w set"

text \<open>
  The sizes the compilers give to the elements of the arrays, for pointers of 4
  and 8 bytes: 12 pointers follow 156 bytes in struct vfs_node, which are
  aligned to a pointer.
\<close>

definition SIZEOF_MOUNT_POINT :: "'a::len itself \<Rightarrow> nat" where
  "SIZEOF_MOUNT_POINT t = 128 + word_bytes t"
definition SIZEOF_VFS_NODE :: "'a::len itself \<Rightarrow> nat" where
  "SIZEOF_VFS_NODE t = (if word_bytes t = 8 then 160 else 156) + 12 * word_bytes t"
definition SIZEOF_TAR_FILE_ENTRY :: nat where "SIZEOF_TAR_FILE_ENTRY = 140"
definition SIZEOF_VFS_DIRENT :: nat where "SIZEOF_VFS_DIRENT = 136"

text \<open>First address and size of each variable, and of the video memory.\<close>

definition static_objects :: "'a::len word layout \<Rightarrow> ('a word \<times> nat) list" where
  "static_objects lay =
     [(at_keyboard_buffer lay, 256), (at_head lay, 4), (at_tail lay, 4), (at_poll_counter lay, 4),
      (at_system_tick lay, 4), (at_seconds lay, 4),
      (at_task_count lay, 4), (at_current_task lay, 4), (at_tss lay, 104),
      (0xB8000, 4000), (at_color lay, 1), (at_vga_addr lay, word_bytes TYPE('a)), (at_cursor lay, word_bytes TYPE('a)),
      (at_root_node lay, word_bytes TYPE('a)), (at_mounts lay, MAX_MOUNTS * SIZEOF_MOUNT_POINT TYPE('a)),
      (at_mount_count lay, 4),
      (at_file_entries lay, MAX_TAR_FILES * SIZEOF_TAR_FILE_ENTRY), (at_file_count lay, 4),
      (at_tar_nodes lay, (MAX_TAR_FILES + 1) * SIZEOF_VFS_NODE TYPE('a)),
      (at_tar_dirents lay, (MAX_TAR_FILES + 1) * SIZEOF_VFS_DIRENT)]"

definition static_area :: "'a::len word layout \<Rightarrow> 'a word set" where
  "static_area lay = (\<Union>(a, n) \<in> set (static_objects lay). region a n) \<union> rest lay"

text \<open>
  The addresses the kernel uses while it performs a call of task i: the scalar
  fields in the task table (the two sides of the stacks, with their padding),
  the kernel stack of the task, and the static variables. In the records of
  the model the variables lie outside the bytes of memory; a store to one of
  these addresses has no meaning there and is excluded by name.
\<close>

definition task_fields :: "'a::len word \<Rightarrow> nat \<Rightarrow> 'a word set" where
  "task_fields base i = region (base + of_nat (i * SIZEOF_TASK)) OFFSET_KERNEL_STACK
     \<union> region (user_stack_end base i) (SIZEOF_TASK - OFFSET_USER_STACK - 4096)"

definition kernel_area :: "'a::len word \<Rightarrow> 'a word layout \<Rightarrow> nat \<Rightarrow> 'a word set" where
  "kernel_area base lay i =
     (\<Union>j < MAX_TASKS. task_fields base j) \<union> region (kernel_stack base i) 4096 \<union> static_area lay"

text \<open>The buffer of the call keeps clear of them.\<close>

definition buffer_apart :: "'a::len word \<Rightarrow> 'a word layout \<Rightarrow> nat \<Rightarrow> 'a word \<Rightarrow> 'a word \<Rightarrow> 'a word \<Rightarrow> bool" where
  "buffer_apart base lay i nr b c \<longleftrightarrow> call_buffer nr b c \<inter> kernel_area base lay i = {}"

text \<open>
  A system call of the current task: what the code does when the buffer keeps
  clear of the kernel, and any result and any state when it does not.
\<close>

inductive system_call ::
  "'d hardware \<Rightarrow> 'st drivers \<Rightarrow> 'a::len word \<Rightarrow> 'a word layout \<Rightarrow> 'a word \<Rightarrow> 'a word \<Rightarrow> 'a word \<Rightarrow> 'a word \<Rightarrow> 'a word
     \<Rightarrow> ('a word, 'd, 'st) machine \<Rightarrow> 'a word verdict \<Rightarrow> ('a word, 'd, 'st) machine \<Rightarrow> bool"
  for hw drv base lay sp nr a b c s where
  call_apart: "buffer_apart base lay (nat (current_task (sched s))) nr b c \<Longrightarrow>
    syscall_switch hw drv base sp nr a b c s = Some (Inr (v, s')) \<Longrightarrow>
    system_call hw drv base lay sp nr a b c s v s'"
| call_astray: "\<not> buffer_apart base lay (nat (current_task (sched s))) nr b c \<Longrightarrow>
    system_call hw drv base lay sp nr a b c s v s'"

text \<open>All of it but the static variables lies in the task table.\<close>

lemma kernel_area_bound:
  fixes base :: "'a::len word"
  assumes "i < MAX_TASKS" and fits: "MAX_TASKS * SIZEOF_TASK \<le> 2 ^ LENGTH('a)"
  shows "kernel_area base lay i \<subseteq> region base (MAX_TASKS * SIZEOF_TASK) \<union> static_area lay"
proof -
  have part: "region (base + of_nat k) n \<subseteq> region base (MAX_TASKS * SIZEOF_TASK)"
    if "k + n \<le> MAX_TASKS * SIZEOF_TASK" for k n
    by (rule region_offset) (use that fits in simp_all)
  have "task_fields base j \<subseteq> region base (MAX_TASKS * SIZEOF_TASK)" if "j < MAX_TASKS" for j
    using that part [of "j * SIZEOF_TASK" OFFSET_KERNEL_STACK] part [of "j * SIZEOF_TASK + OFFSET_USER_STACK + 4096" 16]
    by (simp add: task_fields_def user_stack_end_def user_stack_def add.assoc SIZEOF_TASK_def OFFSET_USER_STACK_def
        OFFSET_KERNEL_STACK_def MAX_TASKS_def)
  moreover have "region (kernel_stack base i) 4096 \<subseteq> region base (MAX_TASKS * SIZEOF_TASK)"
    using assms(1) part [of "i * SIZEOF_TASK + OFFSET_KERNEL_STACK" 4096]
    by (simp add: kernel_stack_def SIZEOF_TASK_def OFFSET_KERNEL_STACK_def MAX_TASKS_def)
  ultimately show ?thesis by (auto simp: kernel_area_def)
qed

inductive_cases system_callE: "system_call hw drv base lay sp nr a b c s v s'"

lemmas call_defs = returning_def returning_or_fault_def and_then_def sys_read_def sys_write_def sys_close_def

text \<open>A record that fits is stored inside the buffer.\<close>

lemma put_dirent_inside:
  fixes dirp :: "'a::len word"
  assumes arch: "arch_word TYPE('a)" and short: "length (dname e) < 128" and small: "unat pos < 2 ^ 31"
    and le: "pos \<le> count" and room: "\<not> count < pos + ucast (dirent_reclen TYPE('a) (dname e))"
    and x: "x \<notin> region dirp (unat count)"
  shows "put_dirent dirp pos (dirent_reclen TYPE('a) (dname e)) e m x = m x"
proof -
  let ?r = "rec_len TYPE('a) e" and ?bs = "record_bytes TYPE('a) (unat pos) e"
  note fits = record_fits [OF arch short]
  have up: "unat pos \<le> unat count" using le by (simp add: word_le_nat_alt)
  have "pos + ucast (dirent_reclen TYPE('a) (dname e)) = of_nat (unat pos + ?r)" by (simp add: rec_len_def)
  moreover have "unat pos + ?r < 2 ^ LENGTH(32)" using up small fits(2) by simp
  ultimately have p: "unat (pos + ucast (dirent_reclen TYPE('a) (dname e))) = unat pos + ?r"
    by (simp only: unat_of_nat_less)
  have "put_dirent dirp (of_nat (unat pos)) (dirent_reclen TYPE('a) (dname e)) e m
      = write_bytes m (dirp + of_nat (unat pos)) ?bs"
    by (rule put_dirent_write) (use up small fits(2) in simp)
  then have put: "put_dirent dirp pos (dirent_reclen TYPE('a) (dname e)) e m
      = write_bytes m (dirp + of_nat (unat pos)) ?bs" by simp
  have "(2 :: nat) ^ 32 \<le> 2 ^ LENGTH('a)" "(200 :: nat) \<le> 2 ^ LENGTH('a)"
    using arch by (auto simp: arch_word_def)
  moreover have "unat count < 2 ^ 32" using unsigned_less [of count] by simp
  ultimately have big: "unat count \<le> 2 ^ LENGTH('a)" "length ?bs \<le> 2 ^ LENGTH('a)"
    using fits(1) [of "unat pos"] fits(2) by linarith+
  have "region (dirp + of_nat (unat pos)) (length ?bs) \<subseteq> region dirp (unat count)"
    by (rule region_offset) (use fits(1) [of "unat pos"] p room big in \<open>auto simp: word_less_nat_alt\<close>)
  with x show ?thesis unfolding put by (intro write_bytes_outside [OF big(2)]) blast
qed

lemma and_then_Inr: "and_then r f = Some (Inr y) \<longleftrightarrow> (\<exists>v. r = Some (Inr v) \<and> f v = Some (Inr y))"
  by (auto simp: and_then_def split: option.splits sum.splits)

section \<open>Calls on files\<close>

context small_fs begin

lemma effect_getdents_loop:
  fixes s :: "('a::len word, 'd, 'st) machine"
  assumes arch: "arch_word TYPE('a)" and "unat pos \<le> 200 * unat index" "unat index \<le> 64" "pos \<le> count"
    and "getdents_loop drv node dirp count pos index s = Some r"
  shows "call_effect fs_ok (region dirp (unat count)) s (snd r)"
proof -
  let ?P = "\<lambda>d node dirp count pos index s r. d = drv \<longrightarrow> unat pos \<le> 200 * unat index \<longrightarrow> unat index \<le> 64 \<longrightarrow>
    pos \<le> count \<longrightarrow> call_effect fs_ok (region dirp (unat count)) s (snd r)"
  from assms(5) have "?P drv node dirp count pos index s r"
  proof (rule getdents_loop.raw_induct [where P = ?P, rotated], intro impI)
    fix rec d node and dirp :: "'a word" and count pos index and s :: "('a word, 'd, 'st) machine" and r
    assume ih: "\<And>d node dirp count pos index s r. rec d node dirp count pos index s = Some r \<Longrightarrow>
        ?P d node dirp count pos index s r"
      and run: "(case vfs_readdir d (Some node) index (fs s) of
          None \<Rightarrow> None
        | Some (None, st) \<Rightarrow> Some (pos, s\<lparr>fs := st\<rparr>)
        | Some (Some de, st) \<Rightarrow>
            (let s = s\<lparr>fs := st\<rparr>; reclen = dirent_reclen TYPE('a) (dname de) in
             if pos + ucast reclen > count then Some (pos, s)
             else rec d node dirp count (pos + ucast reclen) (index + 1)
                    (set_mem (put_dirent dirp pos reclen de (mem s)) s))) = Some r"
      and d: "d = drv" and bound: "unat pos \<le> 200 * unat index" "unat index \<le> 64" and le: "pos \<le> count"
    let ?area = "region dirp (unat count)"
    obtain de st where rd: "vfs_readdir drv (Some node) index (fs s) = Some (de, st)"
      using run d by (cases "vfs_readdir drv (Some node) index (fs s)") auto
    note keeps = vfs_readdir_keeps [OF rd]
    have e1: "call_effect fs_ok ?area s (s\<lparr>fs := st\<rparr>)" by (rule effect_fs) (use keeps in simp)
    show "call_effect fs_ok ?area s (snd r)"
    proof (cases "\<exists>e. de = Some e \<and> \<not> count < pos + ucast (dirent_reclen TYPE('a) (dname e))")
      case False
      with run rd e1 d show ?thesis by (auto simp: Let_def split: option.splits if_splits)
    next
      case True
      then obtain e where e: "de = Some e" "\<not> count < pos + ucast (dirent_reclen TYPE('a) (dname e))" by blast
      let ?r = "dirent_reclen TYPE('a) (dname e)"
      let ?s = "set_mem (put_dirent dirp pos ?r e (mem s)) (s\<lparr>fs := st\<rparr>)"
      from e run rd d have again: "rec drv node dirp count (pos + ucast ?r) (index + 1) ?s = Some r"
        by (simp add: Let_def)
      show ?thesis
      proof (rule effect_if)
        assume ok: "machine_ok fs_ok s"
        then have short: "length (dname e) < 128" and i: "unat index < 64"
          using keeps e(1) rd vfs_readdir_small [of "Some node" index "fs s" e st] by (simp_all add: machine_ok_def)
        have "unat (index + 1) = Suc (unat index)" using unat_add_of_nat [of index 1] i by simp
        moreover have "unat (pos + ucast ?r) \<le> unat pos + unat (ucast ?r :: u32)" by (simp add: unat_word_ariths)
        moreover have "unat (ucast ?r :: u32) < 200"
          using record_fits(2) [OF arch short] by (simp add: rec_len_def unsigned_ucast_eq take_bit_nat_less_eq_self [THEN le_less_trans])
        ultimately have "unat (pos + ucast ?r) \<le> 200 * unat (index + 1)" "unat (index + 1) \<le> 64"
          using bound i by simp_all
        with ih [OF again] e(2) have e3: "call_effect fs_ok ?area ?s (snd r)" by (simp add: not_less)
        have "unat pos < 2 ^ 31" using bound by simp
        from put_dirent_inside [OF arch short this le e(2)]
        have "call_effect fs_ok ?area (s\<lparr>fs := st\<rparr>) ?s" by (intro effect_set_mem) simp
        with e1 e3 show "call_effect fs_ok ?area s (snd r)" by (blast intro: effect_trans)
      qed
    qed
  qed
  with assms show ?thesis by blast
qed

lemma effect_getdents:
  fixes s :: "('a::len word, 'd, 'st) machine"
  assumes "arch_word TYPE('a)" "sys_getdents drv fd dirp count s = Some r"
  shows "call_effect fs_ok (region dirp (unat count)) s (snd r)"
proof (cases "vfs_root (files s)")
  case None
  with assms(2) show ?thesis by (auto simp: sys_getdents_def intro: effect_refl)
next
  case (Some node)
  with assms(2) obtain r' where "getdents_loop drv node dirp count 0 0 s = Some r'" "snd r = snd r'"
    by (auto simp: sys_getdents_def)
  with effect_getdents_loop [OF assms(1) _ _ _ this(1)] show ?thesis by simp
qed

lemma effect_paths:
  "sys_open drv path flgs mode s = Some (Inr (x, s')) \<Longrightarrow> call_effect fs_ok area s s'"
  "sys_link drv path path2 s = Some (Inr (x, s')) \<Longrightarrow> call_effect fs_ok area s s'"
  "sys_unlink drv path s = Some (Inr (x, s')) \<Longrightarrow> call_effect fs_ok area s s'"
  "sys_mkdir drv path perm s = Some (x, s') \<Longrightarrow> call_effect fs_ok area s s'"
  by (auto simp: sys_open_def sys_link_def sys_unlink_def sys_mkdir_def and_then_Inr bind_eq_Some_conv
      intro!: effect_fs dest: vfs_resolve_keeps vfs_link_keeps vfs_unlink_keeps vfs_mkdir_keeps)

lemma call_cases:
  fixes s :: "('a::len word, 'd, 'st) machine"
  assumes "arch_word TYPE('a)"
    and "syscall_switch hw drv base sp nr a b c s = Some (Inr (v, s'))"
  shows "unat nr = 1 \<and> v = Switch (fst (task_exit base sp (sched s))) \<and> s' = s\<lparr>sched := snd (task_exit base sp (sched s))\<rparr> \<or>
    unat nr \<noteq> 1 \<and> (\<exists>x. v = Value x) \<and> call_effect fs_ok (call_buffer nr b c) s s'"
proof (cases "unat nr = 1")
  case True
  with assms(2) show ?thesis by (simp add: syscall_switch_def sys_exit_def split_beta)
next
  case no_exit: False
  note run = assms(2) [unfolded syscall_switch_def if_not_P [OF no_exit]]
  have val: "\<exists>x. v = Value x"
    using run by (auto simp: returning_def returning_or_fault_def and_then_def split: if_splits option.splits sum.splits prod.splits)
  have "call_effect fs_ok (call_buffer nr b c) s s'"
  proof (cases "unat nr = 3 \<or> unat nr = 141")
    case True
    then show ?thesis
    proof
      assume n: "unat nr = 3"
      with run show ?thesis
        by (auto simp: call_buffer_def call_defs intro: effect_refl dest: effect_read_loop split: if_splits)
    next
      assume n: "unat nr = 141"
      with run effect_getdents [OF assms(1)] show ?thesis
        by (fastforce simp: call_buffer_def returning_def)
    qed
  next
    case False
    with run show ?thesis
      by (auto simp: call_defs bind_eq_Some_conv split: if_splits option.splits sum.splits prod.splits
          intro: effect_refl effect_write_chars effect_mount effect_umount effect_paths)
  qed
  with val no_exit show ?thesis by blast
qed

end

section \<open>Well-formedness\<close>

lemma schedule_memory [simp]: "memory (snd (schedule base sp s)) = memory s"
  by (simp add: schedule_unfold split: option.split)

lemma schedule_count [simp]: "task_count (snd (schedule base sp s)) = task_count s"
  by (simp add: schedule_unfold split: option.split)

lemma mark_exited_fields [simp]:
  "memory (mark_exited s) = memory s" "current_task (mark_exited s) = current_task s"
  "task_count (mark_exited s) = task_count s" "tss_stack (mark_exited s) = tss_stack s"
  by (simp_all add: mark_exited_def)

text \<open>
  C9: A system call whose buffer keeps clear of the kernel's own memory keeps
  the kernel's data well formed. The code checks no pointer, so this condition
  is on the caller: the buffer of read and getdents (the other calls write
  through no pointer) meets neither the scalar fields of the task table nor
  the kernel stack of the calling task nor the static variables, the screen
  and the other memory of the kernel at its addresses lay; of a call that breaks it nothing is known. After a call that keeps to
  it and comes back, the keyboard ring, the screen, the mount table, the RAM
  disk and the task table satisfy their invariants again, every call but exit
  returns a value, and the only memory written is the buffer, whatever its
  length. Calls that do not come back are a read that waits for ever, a write
  to a serial line that is never ready, and a path with a component of 128 or
  more bytes, which overruns a buffer on the kernel stack.
\<close>

theorem system_calls_well_formed:
  fixes s :: "('a::len word, 'd, tar_fs) machine"
  assumes "arch_word TYPE('a)" and "buffer_apart base lay (nat (current_task (sched s))) nr b c"
    and "machine_ok tar_names_ok s" and "sched_ok (sched s)"
    and "system_call hw tar_drivers base lay sp nr a b c s v s'"
  shows "machine_ok tar_names_ok s' \<and> sched_ok (sched s') \<and> ((\<exists>x. v = Value x) \<longleftrightarrow> unat nr \<noteq> 1)
    \<and> (\<forall>x. x \<notin> call_buffer nr b c \<longrightarrow> mem s' x = mem s x)"
proof -
  have run: "syscall_switch hw tar_drivers base sp nr a b c s = Some (Inr (v, s'))"
    using assms(5) by (rule system_callE) (use assms(2) in simp_all)
  show ?thesis
  proof (cases "unat nr = 1")
    case True
    have "sched_ok (snd (schedule base sp (mark_exited (sched s))))"
      by (intro schedule_ok mark_exited_ok assms(4))
    with True assms(3) tarfs.call_cases [OF assms(1) run] show ?thesis
      by (auto simp: machine_ok_def task_exit_def)
  next
    case False
    with tarfs.call_cases [OF assms(1) run]
    have v: "\<exists>x. v = Value x" and e: "call_effect tar_names_ok (call_buffer nr b c) s s'" by auto
    then obtain m where "machine_ok tar_names_ok s'" "sched s' = (sched s)\<lparr>memory := m\<rparr>"
        "\<forall>x. x \<notin> call_buffer nr b c \<longrightarrow> m x = mem s x"
      using assms(3) by (auto simp: call_effect_def)
    with v False assms(4) show ?thesis by (simp add: sched_ok_def)
  qed
qed

text \<open>Two tasks on i386, with a line typed and an empty RAM disk.\<close>

definition demo_box :: "u8 list \<Rightarrow> 32 word sched \<Rightarrow> (u32, port_event list, tar_fs) machine" where
  "demo_box typed_ahead s = (demo_machine typed_ahead)\<lparr>screen := kcls demo_vga, sched := s\<rparr>"

lemma demo_box_ok:
  assumes "length typed_ahead \<le> 255"
  shows "machine_ok tar_names_ok (demo_box typed_ahead s)"
proof -
  have "kb_ok (kbd (demo_box typed_ahead s))"
    using demo_feeds [OF assms] by (simp add: buffered_def demo_box_def)
  moreover have "shows_log (kcls demo_vga) empty_log" by (rule kcls_log) (simp add: demo_vga_def)
  ultimately show ?thesis
    by (auto simp: machine_ok_def demo_box_def demo_machine_def vfs_ok_def MAX_MOUNTS_def tar_names_ok_def)
qed

text \<open>
  A buffer below the screen, with the task table at 0x110000 and the static
  variables from 0x130000 on, behind the code from 0x100000 on.
\<close>

definition demo_layout :: "u32 layout" where
  "demo_layout = \<lparr>at_keyboard_buffer = 0x130000, at_head = 0x130100, at_tail = 0x130104, at_poll_counter = 0x130108,
     at_system_tick = 0x13010C, at_seconds = 0x130110, at_task_count = 0x130114, at_current_task = 0x130118,
     at_tss = 0x130120, at_color = 0x130190, at_vga_addr = 0x130194, at_cursor = 0x130198,
     at_root_node = 0x13019C, at_mounts = 0x131000, at_mount_count = 0x1301A0,
     at_file_entries = 0x132000, at_file_count = 0x1301A4, at_tar_nodes = 0x134000, at_tar_dirents = 0x137000,
     rest = region 0x100000 0x10000\<rparr>"

lemma demo_apart: "buffer_apart (0x110000 :: u32) demo_layout 0 3 0x2000 127"
proof -
  let ?b = "region (0x2000 :: u32) 127"
  have sub: "kernel_area (0x110000 :: u32) demo_layout 0 \<subseteq> region 0x110000 (MAX_TASKS * SIZEOF_TASK) \<union> static_area demo_layout"
    by (rule kernel_area_bound) (simp_all add: MAX_TASKS_def SIZEOF_TASK_def)
  have table: "?b \<inter> region 0x110000 (MAX_TASKS * SIZEOF_TASK) = {}"
    by (rule regions_apart; simp add: MAX_TASKS_def SIZEOF_TASK_def)
  have code: "?b \<inter> rest demo_layout = {}"
    unfolding demo_layout_def layout.simps by (rule regions_apart; simp)
  have each: "?b \<inter> region a n = {}" if "(a, n) \<in> set (static_objects demo_layout)" for a n
  proof (rule regions_apart)
    have "unat (0x2000 :: u32) + 127 \<le> unat a \<and> unat a + n \<le> 2 ^ LENGTH(32)"
      using that unfolding static_objects_def demo_layout_def
      by (auto simp: word_bytes_def MAX_MOUNTS_def MAX_TAR_FILES_def SIZEOF_MOUNT_POINT_def SIZEOF_VFS_NODE_def
          SIZEOF_TAR_FILE_ENTRY_def SIZEOF_VFS_DIRENT_def)
    then show "unat (0x2000 :: u32) + 127 \<le> unat a" "unat a + n \<le> 2 ^ LENGTH(32)" by simp_all
  qed
  have "?b \<inter> static_area demo_layout = {}" using code each unfolding static_area_def by blast
  with sub table have "?b \<inter> kernel_area 0x110000 demo_layout 0 = {}" by blast
  moreover have "call_buffer (3 :: u32) 0x2000 127 = ?b" by (simp add: call_buffer_def)
  ultimately show ?thesis by (simp add: buffer_apart_def)
qed

lemma system_calls_well_formed_witness:
  "\<exists>v s'. syscall_switch (log_device (\<lambda>p. 0x20)) tar_drivers 0x110000 0x111f00 3 0 0x2000 127
        (demo_box [108, 115, 10] running_tasks) = Some (Inr (v, s'))
    \<and> machine_ok tar_names_ok s' \<and> sched_ok (sched s')
    \<and> (\<forall>x. x \<notin> region 0x2000 127 \<longrightarrow> mem s' x = mem (demo_box [108, 115, 10] running_tasks) x)"
proof -
  let ?s = "demo_box [108, 115, 10] running_tasks"
  have e: "edit (unat (127 :: u32)) [] [108, 115, 10] = Some ([108, 115, 10], [108, 115, 10], [])"
    by code_simp
  have f: "buffered [108, 115, 10] (kbd ?s) (dev ?s)"
    using demo_feeds [of "[108, 115, 10]"] by (simp add: demo_box_def)
  from sys_read_ok [OF terminal_buffered [OF ready_line] f e, where buf = "0x2000"]
  obtain x s' where "sys_read (log_device (\<lambda>p. 0x20)) 0 0x2000 127 ?s = Some (x, s')" by blast
  then have call: "syscall_switch (log_device (\<lambda>p. 0x20)) tar_drivers 0x110000 0x111f00 3 0 0x2000 127 ?s
      = Some (Inr (Value x, s'))"
    by (simp add: syscall_switch_def returning_def)
  have sc: "sched_ok (sched ?s)" using running_tasks_facts(1) by (simp add: demo_box_def)
  have apart: "buffer_apart (0x110000 :: u32) demo_layout (nat (current_task (sched ?s))) 3 0x2000 127"
    using demo_apart running_tasks_facts(2) by (simp add: demo_box_def)
  have "machine_ok tar_names_ok s' \<and> sched_ok (sched s') \<and> ((\<exists>x'. Value x = Value x') \<longleftrightarrow> unat (3 :: u32) \<noteq> 1)
    \<and> (\<forall>x. x \<notin> call_buffer 3 0x2000 127 \<longrightarrow> mem s' x = mem ?s x)"
    by (rule system_calls_well_formed [OF _ apart demo_box_ok sc call_apart [OF apart call]]) (simp_all add: arch_word_def)
  with call show ?thesis by (auto simp: call_buffer_def)
qed

end
