(* ===== verification/Interrupts.thy ===== *)
theory Interrupts
  imports Calls Timer
begin

text \<open>
  The interrupt stubs of kernel/i386/irq.s, kernel/x64/irq.s and the two
  syscall_stub.s: the timer, the keyboard and the system calls entered from a
  task in user mode. The registers of a task that does not run lie in a frame
  at the top of its kernel stack, in the one memory. The lemmas say that
  entering and leaving restores the registers, that the stacks of the tasks
  are disjoint, and what schedule does to the frames. The segment registers
  ds, es, fs and gs are not part of a frame: the stubs of the timer and the
  keyboard do not save them.
\<close>

section \<open>Register frames\<close>

text \<open>
  The registers of a task, in the order the stubs pop them: the general ones
  (on i386 edi, esi, ebp, ebx, edx, ecx, eax; on x86_64 r15 to rax), and the
  instruction pointer, code segment, flags, stack pointer and stack segment.
\<close>

record 'w registers =
  gprs :: "'w list"
  iret :: "'w list"

text \<open>
  pusha saves the stack pointer between ebp and ebx, and popa skips it; the
  x86_64 stubs save no stack pointer.
\<close>

definition saved_gprs :: "'a::len word \<Rightarrow> 'a word registers \<Rightarrow> 'a word list" where
  "saved_gprs sp c = (if LENGTH('a) = 64 then gprs c else take 3 (gprs c) @ [sp] @ drop 3 (gprs c))"

definition restored_gprs :: "'a::len word list \<Rightarrow> 'a word list" where
  "restored_gprs ws = (if LENGTH('a) = 64 then ws else take 3 ws @ drop 4 ws)"

text \<open>
  An interrupt in user mode takes the stack from the task state segment (in
  64-bit mode rounded down to 16 bytes), pushes the five words and, by the
  stub, the general registers. Leaving pops them in the other order.
\<close>

definition entry_stack :: "'a::len word \<Rightarrow> 'a word" where
  "entry_stack sp = (if LENGTH('a) = 64 then sp AND NOT 15 else sp)"

definition interrupt_entry :: "'a::len word registers \<Rightarrow> 'a word sched \<Rightarrow> 'a word \<times> 'a word sched" where
  "interrupt_entry c s =
     (let (m, sp) = fold push_word (rev (iret c)) (memory s, entry_stack (tss_stack s));
          (m, sp) = fold push_word (rev (saved_gprs sp c)) (m, sp)
      in (sp, s\<lparr>memory := m\<rparr>))"

definition interrupt_exit :: "'a::len memory \<Rightarrow> 'a word \<Rightarrow> 'a word registers" where
  "interrupt_exit m sp = (case irq0_return m sp of (ws, ip) \<Rightarrow> \<lparr>gprs = restored_gprs ws, iret = ip\<rparr>)"

section \<open>The running kernel\<close>

record ('w, 'd, 'st) running =
  ctx :: "'w registers"
  clock :: timer
  box :: "('w, 'd, 'st) machine"

text \<open>
  The stubs, while a task runs in user mode. The frames of the C functions
  they call lie below the saved registers on the same stack; what these leave
  there is the argument frames, a change of memory.
\<close>

definition irq0_stub ::
  "'d hardware \<Rightarrow> 'a::len word \<Rightarrow> ('a memory \<Rightarrow> 'a memory) \<Rightarrow> ('a word, 'd, 'st) running \<Rightarrow> ('a word, 'd, 'st) running" where
  "irq0_stub hw base frames r =
     (let (sp, s) = interrupt_entry (ctx r) (sched (box r));
          (t, d) = timer_handler hw (clock r, dev (box r));
          s = s\<lparr>memory := frames (memory s)\<rparr>;
          (sp, s) = schedule base sp s
      in r\<lparr>ctx := interrupt_exit (memory s) sp, clock := t, box := (box r)\<lparr>sched := s, dev := d\<rparr>\<rparr>)"

definition irq1_stub ::
  "'d hardware \<Rightarrow> ('a::len memory \<Rightarrow> 'a memory) \<Rightarrow> ('a word, 'd, 'st) running \<Rightarrow> ('a word, 'd, 'st) running" where
  "irq1_stub hw frames r =
     (let (sp, s) = interrupt_entry (ctx r) (sched (box r));
          (k, d) = keyboard_handler hw (kbd (box r), dev (box r));
          d = out8 hw 0x20 0x20 d;
          s = s\<lparr>memory := frames (memory s)\<rparr>
      in r\<lparr>ctx := interrupt_exit (memory s) sp, box := (box r)\<lparr>sched := s, kbd := k, dev := d\<rparr>\<rparr>)"

text \<open>The positions of the call number, its three arguments and the result among the general registers.\<close>

definition call_regs :: "'a::len itself \<Rightarrow> nat list" where
  "call_regs t = (if LENGTH('a) = 64 then [14, 8, 9, 11] else [6, 3, 5, 4])"

text \<open>The call number, argument 0, and the arguments of a call.\<close>

definition call_reg :: "'a::len word registers \<Rightarrow> nat \<Rightarrow> 'a word" where
  "call_reg c k = gprs c ! (call_regs TYPE('a) ! k)"

text \<open>
  The stub of system calls. The result goes into the saved register of the
  call number. sys_exit raises interrupt 32 on the kernel stack: its stub
  counts a tick too and calls schedule on a pointer inner into that stack. When
  another task is chosen its frame is popped; when there is none schedule
  returns inner, sys_exit returns and the frame of the call is popped, with
  the register of the result as it was.
\<close>

definition syscall_stub ::
  "'d hardware \<Rightarrow> 'st drivers \<Rightarrow> 'a::len word \<Rightarrow> ('a memory \<Rightarrow> 'a memory) \<Rightarrow> 'a word \<Rightarrow> ('a word, 'd, 'st) running
     \<Rightarrow> (vfs_error + ('a word, 'd, 'st) running) option" where
  "syscall_stub hw drv base frames inner r =
     (let (sp, s) = interrupt_entry (ctx r) (sched (box r));
          s = s\<lparr>memory := frames (memory s)\<rparr>
      in and_then (syscall_switch hw drv base inner (call_reg (ctx r) 0) (call_reg (ctx r) 1) (call_reg (ctx r) 2)
            (call_reg (ctx r) 3) ((box r)\<lparr>sched := s\<rparr>)) (\<lambda>(v, b).
           case v of
             Value x \<Rightarrow>
               let c = interrupt_exit (memory (sched b)) sp
               in Some (Inr (r\<lparr>ctx := c\<lparr>gprs := (gprs c)[call_regs TYPE('a) ! 0 := x]\<rparr>, box := b\<rparr>))
           | Switch sp' \<Rightarrow>
               let (t, d) = timer_handler hw (clock r, dev b);
                   c = interrupt_exit (memory (sched b))
                         (if current_task (sched b) = current_task (sched (box r)) then sp else sp')
               in Some (Inr (r\<lparr>ctx := c, clock := t, box := b\<lparr>dev := d\<rparr>\<rparr>))))"

section \<open>Frames on the kernel stacks\<close>

abbreviation word_size :: "'a::len itself \<Rightarrow> nat" where
  "word_size t \<equiv> LENGTH('a) div 8"

definition frame_size :: "'a::len itself \<Rightarrow> nat" where
  "frame_size t = (frame_regs t + 5) * word_size t"

definition frame_at :: "'a::len word \<Rightarrow> nat \<Rightarrow> 'a word" where
  "frame_at base i = kernel_stack_end base i - of_nat (frame_size TYPE('a))"

definition context_ok :: "'a::len word registers \<Rightarrow> bool" where
  "context_ok c \<longleftrightarrow> length (gprs c) = (if LENGTH('a) = 64 then 15 else 7) \<and> length (iret c) = 5"

text \<open>The architectures, and the alignment of the task table that 64-bit mode needs.\<close>

definition table_ok :: "'a::len word \<Rightarrow> bool" where
  "table_ok base \<longleftrightarrow> LENGTH('a) = 32 \<or> LENGTH('a) = 64 \<and> base AND NOT 15 = base"

lemma table_word: "table_ok (base :: 'a::len word) \<Longrightarrow> 8 * word_size TYPE('a) = LENGTH('a)"
  by (auto simp: table_ok_def)

lemma frame_fits:
  assumes "table_ok (base :: 'a::len word)"
  shows "frame_size TYPE('a) \<le> 160" "160 < (2 :: nat) ^ LENGTH('a)" "4096 < (2 :: nat) ^ LENGTH('a)"
    "10 * SIZEOF_TASK < 2 ^ LENGTH('a)"
  using assms by (auto simp: table_ok_def frame_size_def frame_regs_def SIZEOF_TASK_def)

lemma and_not_eq: "x AND NOT y = x \<longleftrightarrow> x AND y = 0" for x y :: "'a::len word"
  by (auto simp: bit_eq_iff bit_and_iff bit_not_iff)

lemma push_bit_aligned: "push_bit 4 w AND NOT 15 = push_bit 4 w" for w :: "'a::len word"
proof -
  have "take_bit 4 (push_bit 4 w) = 0" by (simp add: take_bit_push_bit)
  then show ?thesis unfolding and_not_eq by (simp add: take_bit_eq_mask mask_eq_exp_minus_1)
qed

lemma aligned_16:
  fixes a :: "'a::len word"
  assumes "a AND NOT 15 = a"
  shows "(a + push_bit 4 w) AND NOT 15 = a + push_bit 4 w"
proof -
  have "take_bit 4 a = a AND 15" by (simp add: take_bit_eq_mask mask_eq_exp_minus_1)
  with assms have "take_bit 4 a = 0" unfolding and_not_eq by simp
  with bits_ident [of 4 a] have "a + push_bit 4 w = push_bit 4 (drop_bit 4 a + w)"
    by (simp add: push_bit_add)
  then show ?thesis by (simp only: push_bit_aligned)
qed

lemma entry_kernel_stack:
  assumes "table_ok (base :: 'a::len word)"
  shows "entry_stack (kernel_stack_end base i) = kernel_stack_end base i"
proof (cases "LENGTH('a) = 64")
  case True
  with assms have b: "base AND NOT 15 = base" by (auto simp: table_ok_def)
  have "of_nat (i * SIZEOF_TASK + OFFSET_KERNEL_STACK) + 4096 = (16 :: 'a word) * of_nat (i * 514 + 257)"
    by (simp add: SIZEOF_TASK_def OFFSET_KERNEL_STACK_def algebra_simps)
  then have e: "kernel_stack_end base i = base + push_bit 4 (of_nat (i * 514 + 257))"
    by (simp add: kernel_stack_end_def kernel_stack_def push_bit_eq_mult algebra_simps)
  show ?thesis unfolding entry_stack_def e using True aligned_16 [OF b] by simp
qed (simp add: entry_stack_def)

lemma length_pop_words [simp]: "length (pop_words n m sp) = n"
  by (induction n arbitrary: sp) simp_all

lemma frame_in_stack:
  assumes "table_ok (base :: 'a::len word)"
  shows "region (frame_at base i) (frame_size TYPE('a)) \<subseteq> region (kernel_stack base i) 4096"
    "region (kernel_stack base i) (4096 - frame_size TYPE('a)) \<inter> region (frame_at base i) (frame_size TYPE('a)) = {}"
    "i < 10 \<Longrightarrow> j < 10 \<Longrightarrow> i \<noteq> j \<Longrightarrow> region (kernel_stack base i) 4096 \<inter> region (kernel_stack base j) 4096 = {}"
proof -
  note f = frame_fits [OF assms]
  have at: "frame_at base i = kernel_stack base i + of_nat (4096 - frame_size TYPE('a))"
    using f(1) by (simp add: frame_at_def kernel_stack_end_def of_nat_diff)
  show "region (frame_at base i) (frame_size TYPE('a)) \<subseteq> region (kernel_stack base i) 4096"
    unfolding at by (rule region_offset) (use f in simp_all)
  show "region (kernel_stack base i) (4096 - frame_size TYPE('a)) \<inter> region (frame_at base i) (frame_size TYPE('a)) = {}"
    unfolding at by (rule region_adjacent) (use f in simp)
  have lt: "region (kernel_stack base a) 4096 \<inter> region (kernel_stack base b) 4096 = {}" if "a < b" "b < 10" for a b
    unfolding kernel_stack_def
  proof (rule regions_apart_base)
    have "b * SIZEOF_TASK + OFFSET_KERNEL_STACK + 4096 \<le> 10 * SIZEOF_TASK"
      using that by (simp add: SIZEOF_TASK_def OFFSET_KERNEL_STACK_def)
    then show "b * SIZEOF_TASK + OFFSET_KERNEL_STACK + 4096 \<le> 2 ^ LENGTH('a)" using f(4) by linarith
    show "a * SIZEOF_TASK + OFFSET_KERNEL_STACK + 4096 \<le> b * SIZEOF_TASK + OFFSET_KERNEL_STACK"
      using that by (simp add: SIZEOF_TASK_def)
  qed
  show "region (kernel_stack base i) 4096 \<inter> region (kernel_stack base j) 4096 = {}" if "i < 10" "j < 10" "i \<noteq> j"
    using lt [of i j] lt [of j i] that by (cases "i < j") auto
qed

text \<open>A frame is read back as long as its bytes stay as they are.\<close>

lemma interrupt_exit_cong:
  fixes base :: "'a::len word"
  assumes t: "table_ok base" and eq: "\<And>x. x \<in> region (frame_at base i) (frame_size TYPE('a)) \<Longrightarrow> m x = m' x"
  shows "interrupt_exit m (frame_at base i) = interrupt_exit m' (frame_at base i)"
proof -
  note f = frame_fits [OF t]
  let ?g = "frame_regs TYPE('a)"
  have fits: "(?g + 5) * word_size TYPE('a) \<le> 2 ^ LENGTH('a)" using f by (simp add: frame_size_def)
  have "pop_words (?g + 5) m (frame_at base i) = pop_words (?g + 5) m' (frame_at base i)"
    by (rule pop_words_cong [OF fits]) (use eq in \<open>simp add: frame_size_def\<close>)
  then show ?thesis
    unfolding pop_words_append by (simp add: interrupt_exit_def irq0_return_def append_eq_append_conv)
qed

text \<open>Entering on the top of a kernel stack and leaving again restores the registers.\<close>

lemma entry_exit:
  fixes base :: "'a::len word"
  assumes t: "table_ok base" and c: "context_ok c" and top: "tss_stack s = kernel_stack_end base i"
  obtains m where "interrupt_entry c s = (frame_at base i, s\<lparr>memory := m\<rparr>)"
    and "interrupt_exit m (frame_at base i) = c"
    and "\<And>x. x \<notin> region (frame_at base i) (frame_size TYPE('a)) \<Longrightarrow> m x = memory s x"
proof -
  let ?top = "kernel_stack_end base i" and ?k = "word_size TYPE('a)" and ?g = "frame_regs TYPE('a)"
  note k = table_word [OF t] and f = frame_fits [OF t]
  obtain m1 sp1 where e1: "fold push_word (rev (iret c)) (memory s, ?top) = (m1, sp1)"
    by (cases "fold push_word (rev (iret c)) (memory s, ?top)") blast
  let ?ws = "rev (saved_gprs sp1 c @ iret c)"
  have arch: "LENGTH('a) = 32 \<or> LENGTH('a) = 64" using t by (auto simp: table_ok_def)
  have len: "length ?ws = ?g + 5" "length (saved_gprs sp1 c) = ?g" "length (iret c) = 5"
    using c arch by (auto simp: context_ok_def saved_gprs_def frame_regs_def)
  have fits: "length ?ws * ?k \<le> 2 ^ LENGTH('a)" unfolding len using f by (simp add: frame_size_def)
  note push = push_words_spec [OF k fits, where m = "memory s" and sp = ?top]
  let ?m = "fst (fold push_word ?ws (memory s, ?top))"
  have at: "?top - of_nat (length ?ws * ?k) = frame_at base i"
    unfolding len(1) by (simp add: frame_at_def frame_size_def)
  have run: "interrupt_entry c s = (frame_at base i, s\<lparr>memory := ?m\<rparr>)"
    using push(1) unfolding at
    by (simp add: interrupt_entry_def top entry_kernel_stack [OF t] e1 split_beta Let_def)
  have "pop_words ?g ?m (frame_at base i) @ pop_words 5 ?m (frame_at base i + of_nat (?g * ?k)) =
      saved_gprs sp1 c @ iret c"
    using push(2) unfolding at unfolding len(1) pop_words_append by simp
  then have "irq0_return ?m (frame_at base i) = (saved_gprs sp1 c, iret c)"
    using len(2) by (simp add: irq0_return_def append_eq_append_conv)
  moreover have "restored_gprs (saved_gprs sp1 c) = gprs c"
    using c by (simp add: context_ok_def restored_gprs_def saved_gprs_def)
  ultimately have exit: "interrupt_exit ?m (frame_at base i) = c" by (simp add: interrupt_exit_def)
  have "?m x = memory s x" if "x \<notin> region (frame_at base i) (frame_size TYPE('a))" for x
    using push(3) [of x] that unfolding at by (simp only: len(1) frame_size_def not_False_eq_True)
  with run exit show ?thesis by (rule that)
qed

section \<open>Well-formed states\<close>

text \<open>
  What the called functions leave on the running task's kernel stack: changes
  below the frame.
\<close>

definition leaves_frame :: "'a::len word \<Rightarrow> nat \<Rightarrow> ('a memory \<Rightarrow> 'a memory) \<Rightarrow> bool" where
  "leaves_frame base i frames \<longleftrightarrow>
     (\<forall>m x. x \<notin> region (kernel_stack base i) (4096 - frame_size TYPE('a)) \<longrightarrow> frames m x = m x)"

text \<open>The scheduler, with the frames of the waiting tasks in place.\<close>

definition tasks_ok :: "'a::len word \<Rightarrow> 'a word sched \<Rightarrow> bool" where
  "tasks_ok base s \<longleftrightarrow> sched_ok s \<and> 0 \<le> current_task s \<and> tss_stack s = kernel_stack_end base (nat (current_task s)) \<and>
     (\<forall>i. is_active s i \<and> int i \<noteq> current_task s \<longrightarrow> stack_pointer (tasks s ! i) = frame_at base i)"

definition running_ok :: "('st \<Rightarrow> bool) \<Rightarrow> 'a::len word \<Rightarrow> ('a word, 'd, 'st) running \<Rightarrow> bool" where
  "running_ok fs_ok base r \<longleftrightarrow> machine_ok fs_ok (box r) \<and> tasks_ok base (sched (box r)) \<and> context_ok (ctx r) \<and>
     system_tick (clock r) < 100"

text \<open>The registers task i runs with, or will be resumed with.\<close>

definition context_of :: "'a::len word \<Rightarrow> ('a word, 'd, 'st) running \<Rightarrow> nat \<Rightarrow> 'a word registers" where
  "context_of base r i = (if int i = current_task (sched (box r)) then ctx r
     else interrupt_exit (mem (box r)) (frame_at base i))"

definition running_task :: "('w, 'd, 'st) running \<Rightarrow> nat" where
  "running_task r = nat (current_task (sched (box r)))"

lemma exit_context_ok: "table_ok (base :: 'a::len word) \<Longrightarrow> context_ok (interrupt_exit m (sp :: 'a word))"
  by (auto simp: context_ok_def interrupt_exit_def irq0_return_def restored_gprs_def table_ok_def frame_regs_def)

lemma tasks_ok_current:
  assumes "tasks_ok base s"
  shows "nat (current_task s) < 10" "int (nat (current_task s)) = current_task s" "is_active s i \<Longrightarrow> i < 10"
  using assms by (auto simp: tasks_ok_def sched_ok_def is_active_def MAX_TASKS_def)

text \<open>Entering an interrupt and the calls of C functions keep the frames of the other tasks and save the own one.\<close>

lemma saved_frames:
  fixes base :: "'a::len word"
  assumes t: "table_ok base" and ok: "tasks_ok base s" and c: "context_ok c"
    and f: "leaves_frame base (nat (current_task s)) frames"
  obtains m where "interrupt_entry c s = (frame_at base (nat (current_task s)), s\<lparr>memory := m\<rparr>)"
    and "interrupt_exit (frames m) (frame_at base (nat (current_task s))) = c"
    and "\<And>i. i < 10 \<Longrightarrow> int i \<noteq> current_task s \<Longrightarrow>
      interrupt_exit (frames m) (frame_at base i) = interrupt_exit (memory s) (frame_at base i)"
    and "\<And>x. x \<notin> region (kernel_stack base (nat (current_task s))) 4096 \<Longrightarrow> frames m x = memory s x"
proof -
  let ?c = "nat (current_task s)"
  have top: "tss_stack s = kernel_stack_end base ?c" using ok by (simp add: tasks_ok_def)
  obtain m where m: "interrupt_entry c s = (frame_at base ?c, s\<lparr>memory := m\<rparr>)"
    "interrupt_exit m (frame_at base ?c) = c"
    "\<And>x. x \<notin> region (frame_at base ?c) (frame_size TYPE('a)) \<Longrightarrow> m x = memory s x"
    by (rule entry_exit [OF t c top]) (rule that)
  note stack = frame_in_stack [OF t]
  have sub: "region (kernel_stack base ?c) (4096 - frame_size TYPE('a)) \<subseteq> region (kernel_stack base ?c) 4096"
    by (rule region_mono) simp
  have "interrupt_exit (frames m) (frame_at base ?c) = interrupt_exit m (frame_at base ?c)"
    by (rule interrupt_exit_cong [OF t]) (use stack(2) [of ?c] f in \<open>auto simp: leaves_frame_def\<close>)
  then have own: "interrupt_exit (frames m) (frame_at base ?c) = c" using m(2) by simp
  have out: "frames m x = memory s x" if "x \<notin> region (kernel_stack base ?c) 4096" for x
  proof -
    have "frames m x = m x" using f that sub unfolding leaves_frame_def by blast
    also have "m x = memory s x" using m(3) that stack(1) by blast
    finally show ?thesis .
  qed
  have "interrupt_exit (frames m) (frame_at base i) = interrupt_exit (memory s) (frame_at base i)"
    if "i < 10" "int i \<noteq> current_task s" for i
  proof (rule interrupt_exit_cong [OF t])
    fix x
    assume "x \<in> region (frame_at base i) (frame_size TYPE('a))"
    moreover have "i \<noteq> ?c" using that(2) tasks_ok_current(2) [OF ok] by auto
    ultimately have "x \<notin> region (kernel_stack base ?c) 4096"
      using stack(1) [of i] stack(3) [OF that(1) tasks_ok_current(1) [OF ok]] by blast
    then show "frames m x = memory s x" by (rule out)
  qed
  with m(1) own out show ?thesis by (intro that)
qed

text \<open>
  Switching: with the registers of the running task saved at its frame,
  schedule picks a task whose frame is in place.
\<close>

lemma schedule_switches:
  fixes base :: "'a::len word"
  assumes t: "table_ok base" and ok: "tasks_ok base s" and sw: "schedule base (frame_at base (nat (current_task s))) s = (sp', s')"
  shows "tasks_ok base s'" "sp' = frame_at base (nat (current_task s'))" "memory s' = memory s"
    "is_active s' = is_active s"
    "if \<exists>i. is_active s i
     then is_active s (nat (current_task s')) \<and>
       (\<forall>i. is_active s i \<longrightarrow> distance (task_count s) (current_task s) (nat (current_task s')) \<le>
         distance (task_count s) (current_task s) i)
     else current_task s' = current_task s"
proof -
  let ?c = "nat (current_task s)"
  note cur = tasks_ok_current [OF ok]
  have so: "sched_ok s" and wait: "\<And>i. is_active s i \<Longrightarrow> int i \<noteq> current_task s \<Longrightarrow> stack_pointer (tasks s ! i) = frame_at base i"
    and top: "tss_stack s = kernel_stack_end base ?c" and nn: "0 \<le> current_task s"
    using ok by (simp_all add: tasks_ok_def)
  note spec = schedule_spec [OF so sw]
  show act: "is_active s' = is_active s"
    using spec by (simp add: fun_eq_iff is_active_def) metis
  show "memory s' = memory s" using schedule_memory [of base "frame_at base ?c" s] sw by simp
  have sp: "stack_pointer (tasks s' ! i) = frame_at base i" if "is_active s i" for i
  proof (cases "int i = current_task s")
    case True
    then have "i = ?c" by simp
    with spec that True show ?thesis by (simp add: is_active_def)
  next
    case False
    with spec that wait [OF that False] show ?thesis by (simp add: is_active_def)
  qed
  show ch: "if \<exists>i. is_active s i
     then is_active s (nat (current_task s')) \<and>
       (\<forall>i. is_active s i \<longrightarrow> distance (task_count s) (current_task s) (nat (current_task s')) \<le>
         distance (task_count s) (current_task s) i)
     else current_task s' = current_task s"
    using spec by (auto split: if_splits)
  have next_sp: "sp' = frame_at base (nat (current_task s'))" "tss_stack s' = kernel_stack_end base (nat (current_task s'))"
    "0 \<le> current_task s'"
  proof -
    have "sp' = frame_at base (nat (current_task s')) \<and> tss_stack s' = kernel_stack_end base (nat (current_task s')) \<and>
        0 \<le> current_task s'"
    proof (cases "\<exists>i. is_active s i")
      case True
      with spec obtain j where j: "current_task s' = int j" "is_active s j"
        "sp' = (if int j = current_task s then frame_at base ?c else stack_pointer (tasks s ! j))"
        "tss_stack s' = kernel_stack_end base j" by auto
      have "sp' = frame_at base j"
      proof (cases "int j = current_task s")
        case True
        then have "j = ?c" by simp
        with j(3) True show ?thesis by simp
      next
        case False
        with j(3) wait [OF j(2) False] show ?thesis by simp
      qed
      with j show ?thesis by simp
    next
      case False
      with spec top nn show ?thesis by simp
    qed
    then show "sp' = frame_at base (nat (current_task s'))" "tss_stack s' = kernel_stack_end base (nat (current_task s'))"
      "0 \<le> current_task s'" by simp_all
  qed
  show "sp' = frame_at base (nat (current_task s'))" by (rule next_sp)
  show "tasks_ok base s'"
    using spec next_sp sp act by (simp add: tasks_ok_def)
qed

end
