(* ===== verification/Multitasking.thy ===== *)
theory Multitasking
  imports Interrupts
begin

text \<open>
  The running kernel as a step relation: user code, timer and keyboard
  interrupts and system calls, in any order, from the first dispatch on. User
  code can write to the kernel's variables, for the pages are open to it, and
  a call can be given a buffer over them; such a step may lead anywhere. As
  long as none is taken, every reachable state is well formed, and the
  registers of a task that does not run are what they were when it was
  interrupted, whatever the others do.
\<close>

section \<open>Events\<close>

text \<open>
  User code leaves any state it can reach with its stores: other registers,
  other bytes of memory, other values of the kernel's variables. The interrupts
  carry what C code leaves on the kernel stack, and the call the stack pointer
  at the interrupt that sys_exit raises. A call that goes astray, whose buffer
  reaches the kernel's own memory, leaves any state as well.
\<close>

datatype ('w, 'd, 'st) event =
  User "('w, 'd, 'st) running"
| TimerTick "('w \<Rightarrow> u8) \<Rightarrow> ('w \<Rightarrow> u8)"
| KeyPress "('w \<Rightarrow> u8) \<Rightarrow> ('w \<Rightarrow> u8)"
| Call "('w \<Rightarrow> u8) \<Rightarrow> ('w \<Rightarrow> u8)" 'w
| StrayCall "('w, 'd, 'st) running"

text \<open>The buffer of the call that the running task's registers describe keeps clear of the kernel.\<close>

definition call_confined :: "'a::len word \<Rightarrow> 'a word layout \<Rightarrow> ('a word, 'd, 'st) running \<Rightarrow> bool" where
  "call_confined base lay r \<longleftrightarrow> buffer_apart base lay (running_task r)
     (call_reg (ctx r) 0) (call_reg (ctx r) 2) (call_reg (ctx r) 3)"

definition run_event ::
  "'d hardware \<Rightarrow> 'st drivers \<Rightarrow> 'a::len word \<Rightarrow> 'a word layout \<Rightarrow> ('a word, 'd, 'st) event \<Rightarrow> ('a word, 'd, 'st) running
     \<Rightarrow> (vfs_error + ('a word, 'd, 'st) running) option" where
  "run_event hw drv base lay e r =
     (case e of
        User r' \<Rightarrow> Some (Inr r')
      | TimerTick frames \<Rightarrow> Some (Inr (irq0_stub hw base frames r))
      | KeyPress frames \<Rightarrow> Some (Inr (irq1_stub hw frames r))
      | Call frames inner \<Rightarrow> if call_confined base lay r then syscall_stub hw drv base frames inner r else None
      | StrayCall r' \<Rightarrow> if call_confined base lay r then None else Some (Inr r'))"

text \<open>
  User code that leaves the kernel's variables alone: memory and registers are
  free, and the devices may have gone on, but the task table, the clock, the
  keyboard ring, the screen, the mount table and the file system are as before.
\<close>

definition keeps_kernel :: "('a::len word, 'd, 'st) running \<Rightarrow> ('a word, 'd, 'st) running \<Rightarrow> bool" where
  "keeps_kernel r r' \<longleftrightarrow> (\<exists>m d. r' = r\<lparr>ctx := ctx r', box := (set_mem m (box r))\<lparr>dev := d\<rparr>\<rparr>)"

text \<open>
  Steps without such stores. The functions an interrupt calls stay on the
  running task's kernel stack, below its frame.
\<close>

fun confined :: "'a::len word \<Rightarrow> 'a word layout \<Rightarrow> ('a word, 'd, 'st) event \<Rightarrow> ('a word, 'd, 'st) running \<Rightarrow> bool" where
  "confined base lay (User r') r = (context_ok (ctx r') \<and> keeps_kernel r r')"
| "confined base lay (TimerTick frames) r = leaves_frame base (running_task r) frames"
| "confined base lay (KeyPress frames) r = leaves_frame base (running_task r) frames"
| "confined base lay (Call frames inner) r =
     (leaves_frame base (running_task r) frames \<and> call_confined base lay r)"
| "confined base lay (StrayCall r') r = False"

text \<open>
  kmain has created the tasks; the first timer interrupt arrives while its
  last loop waits, on the boot stack. There is no current task, so schedule
  drops the pointer into that stack.
\<close>

definition first_dispatch ::
  "'d hardware \<Rightarrow> 'a::len word \<Rightarrow> 'a word \<Rightarrow> timer \<Rightarrow> ('a word, 'd, 'st) machine \<Rightarrow> ('a word, 'd, 'st) running" where
  "first_dispatch hw base sp t b =
     (let (t, d) = timer_handler hw (t, dev b);
          (sp, s) = schedule base sp (sched b)
      in \<lparr>ctx = interrupt_exit (memory s) sp, clock = t, box = b\<lparr>sched := s, dev := d\<rparr>\<rparr>)"

definition create_tasks :: "'a::len word \<Rightarrow> 'a word list \<Rightarrow> 'a word sched \<Rightarrow> 'a word sched" where
  "create_tasks base entries s = fold (\<lambda>e s. task_create_user base e s) entries (scheduler_init s)"

text \<open>Any run of the kernel, and the runs whose steps are confined.\<close>

inductive runs_to ::
  "'d hardware \<Rightarrow> 'st drivers \<Rightarrow> ('st \<Rightarrow> bool) \<Rightarrow> 'a::len word \<Rightarrow> 'a word layout
     \<Rightarrow> (('a word, 'd, 'st) event \<times> ('a word, 'd, 'st) running) list \<Rightarrow> ('a word, 'd, 'st) running \<Rightarrow> bool"
  for hw drv fs_ok base lay where
  runs_start: "machine_ok fs_ok b \<Longrightarrow> sched b = create_tasks base entries s \<Longrightarrow> length (tasks s) = MAX_TASKS \<Longrightarrow>
    entries \<noteq> [] \<Longrightarrow> system_tick t < 100 \<Longrightarrow> runs_to hw drv fs_ok base lay [] (first_dispatch hw base sp t b)"
| runs_step: "runs_to hw drv fs_ok base lay evs r \<Longrightarrow> run_event hw drv base lay e r = Some (Inr r') \<Longrightarrow>
    runs_to hw drv fs_ok base lay (evs @ [(e, r)]) r'"

text \<open>
  A step that does not disturb task i: an interrupt, or user code or a call of
  another task that writes outside the frame of i.
\<close>

fun spares :: "'a::len word \<Rightarrow> nat \<Rightarrow> ('a word, 'd, 'st) event \<Rightarrow> ('a word, 'd, 'st) running \<Rightarrow> bool" where
  "spares base i (User r') r =
     (running_task r \<noteq> i \<and> (\<forall>x \<in> region (frame_at base i) (frame_size TYPE('a)). mem (box r') x = mem (box r) x))"
| "spares base i (Call frames inner) r =
     (running_task r \<noteq> i \<and> call_buffer (call_reg (ctx r) 0) (call_reg (ctx r) 2) (call_reg (ctx r) 3)
        \<inter> region (frame_at base i) (frame_size TYPE('a)) = {})"
| "spares base i e r = True"

text \<open>From r to r' nothing disturbs task i or the kernel.\<close>

inductive undisturbed ::
  "'d hardware \<Rightarrow> 'st drivers \<Rightarrow> 'a::len word \<Rightarrow> 'a word layout \<Rightarrow> nat \<Rightarrow> ('a word, 'd, 'st) running
     \<Rightarrow> ('a word, 'd, 'st) running \<Rightarrow> bool"
  for hw drv base lay i r where
  undisturbed_refl: "undisturbed hw drv base lay i r r"
| undisturbed_step: "undisturbed hw drv base lay i r r1 \<Longrightarrow> confined base lay e r1 \<Longrightarrow> spares base i e r1 \<Longrightarrow>
    run_event hw drv base lay e r1 = Some (Inr r2) \<Longrightarrow> undisturbed hw drv base lay i r r2"

section \<open>One step\<close>

lemma tick_below: "system_tick t < 100 \<Longrightarrow> system_tick (fst (timer_handler hw (t, d))) < 100"
  by (simp add: timer_handler_def Let_def not_le [symmetric])

lemma tasks_ok_memory [simp]: "tasks_ok base (s\<lparr>memory := m\<rparr>) = tasks_ok base s"
  by (simp add: tasks_ok_def sched_ok_def is_active_def)

lemma context_of_running: "context_of base r (running_task r) = ctx r" if "0 \<le> current_task (sched (box r))"
  using that by (simp add: context_of_def running_task_def)

text \<open>After switching, all frames lie in memory, and the registers are those of one of them.\<close>

lemma context_of_popped:
  assumes "ctx r = interrupt_exit (mem (box r)) (frame_at base (running_task r))"
  shows "context_of base r i = interrupt_exit (mem (box r)) (frame_at base i)"
  using assms by (auto simp: context_of_def running_task_def) (metis nat_int)

lemma entered:
  fixes base :: "'a::len word"
  assumes t: "table_ok base" and ok: "running_ok fs_ok base r" and f: "leaves_frame base (running_task r) frames"
  obtains m where
    "interrupt_entry (ctx r) (sched (box r)) = (frame_at base (running_task r), (sched (box r))\<lparr>memory := m\<rparr>)"
    "interrupt_exit (frames m) (frame_at base (running_task r)) = ctx r"
    "\<And>i. i < 10 \<Longrightarrow> int i \<noteq> current_task (sched (box r)) \<Longrightarrow>
      interrupt_exit (frames m) (frame_at base i) = interrupt_exit (mem (box r)) (frame_at base i)"
proof -
  have tk: "tasks_ok base (sched (box r))" and c: "context_ok (ctx r)" using ok by (simp_all add: running_ok_def)
  show ?thesis
    by (rule saved_frames [OF t tk c f [unfolded running_task_def]]) (rule that, simp_all add: running_task_def)
qed

lemma irq0_step:
  fixes base :: "'a::len word"
  assumes t: "table_ok base" and ok: "running_ok fs_ok base r" and f: "leaves_frame base (running_task r) frames"
    and r': "r' = irq0_stub hw base frames r"
  shows "running_ok fs_ok base r'"
    and "i < 10 \<Longrightarrow> context_of base r' i = context_of base r i"
    and "is_active (sched (box r')) = is_active (sched (box r))" "task_count (sched (box r')) = task_count (sched (box r))"
    and "if \<exists>i. is_active (sched (box r)) i
     then is_active (sched (box r)) (running_task r') \<and>
       (\<forall>i. is_active (sched (box r)) i \<longrightarrow>
         distance (task_count (sched (box r))) (current_task (sched (box r))) (running_task r') \<le>
         distance (task_count (sched (box r))) (current_task (sched (box r))) i)
     else running_task r' = running_task r"
proof -
  let ?s = "sched (box r)"
  have tk: "tasks_ok base ?s" and c: "context_ok (ctx r)" and b: "machine_ok fs_ok (box r)"
    and tick: "system_tick (clock r) < 100"
    using ok by (simp_all add: running_ok_def)
  obtain m where entry: "interrupt_entry (ctx r) ?s = (frame_at base (running_task r), ?s\<lparr>memory := m\<rparr>)"
    and own: "interrupt_exit (frames m) (frame_at base (running_task r)) = ctx r"
    and others: "\<And>i. i < 10 \<Longrightarrow> int i \<noteq> current_task ?s \<Longrightarrow>
      interrupt_exit (frames m) (frame_at base i) = interrupt_exit (memory ?s) (frame_at base i)"
    by (rule entered [OF t ok f]) (rule that)
  let ?s1 = "?s\<lparr>memory := frames m\<rparr>"
  obtain sp' s' where sw: "schedule base (frame_at base (nat (current_task ?s1))) ?s1 = (sp', s')" by fastforce
  have tk1: "tasks_ok base ?s1" using tk by simp
  note S = schedule_switches [OF t tk1 sw]
  have act1: "is_active ?s1 = is_active ?s" by (simp add: is_active_def fun_eq_iff)
  have run: "r' = r\<lparr>ctx := interrupt_exit (frames m) sp', clock := fst (timer_handler hw (clock r, dev (box r))),
      box := (box r)\<lparr>sched := s', dev := snd (timer_handler hw (clock r, dev (box r)))\<rparr>\<rparr>"
    unfolding r' irq0_stub_def entry using sw S(3) by (simp add: running_task_def split_beta Let_def)
  have frames: "mem (box r') = frames m" and next_task: "running_task r' = nat (current_task s')"
    unfolding run using S(3) by (simp_all add: running_task_def)
  show "running_ok fs_ok base r'"
    using S(1) b tick_below [OF tick] exit_context_ok [OF t] unfolding run
    by (simp add: running_ok_def machine_ok_def)
  have popped: "context_of base r' i = interrupt_exit (frames m) (frame_at base i)" for i
    unfolding frames [symmetric]
    by (rule context_of_popped) (use S(2) frames next_task in \<open>simp add: run\<close>)
  show "context_of base r' i = context_of base r i" if "i < 10"
    using own others [OF that] unfolding popped by (auto simp: context_of_def running_task_def) (metis nat_int)
  show "is_active (sched (box r')) = is_active ?s"
    using S(4) unfolding run by (simp add: is_active_def fun_eq_iff)
  show "task_count (sched (box r')) = task_count ?s"
    using schedule_count [of base "frame_at base (nat (current_task ?s1))" ?s1, unfolded sw snd_conv] unfolding run by simp
  show "if \<exists>i. is_active ?s i
     then is_active ?s (running_task r') \<and>
       (\<forall>i. is_active ?s i \<longrightarrow> distance (task_count ?s) (current_task ?s) (running_task r') \<le>
         distance (task_count ?s) (current_task ?s) i)
     else running_task r' = running_task r"
    using S(5) [unfolded act1] next_task by (cases "\<exists>i. is_active ?s i") (simp_all add: running_task_def)
qed

lemma irq1_step:
  fixes base :: "'a::len word"
  assumes t: "table_ok base" and ok: "running_ok fs_ok base r" and f: "leaves_frame base (running_task r) frames"
    and r': "r' = irq1_stub hw frames r"
  shows "running_ok fs_ok base r'" and "i < 10 \<Longrightarrow> context_of base r' i = context_of base r i"
proof -
  let ?s = "sched (box r)"
  have tk: "tasks_ok base ?s" and c: "context_ok (ctx r)" and b: "machine_ok fs_ok (box r)"
    and tick: "system_tick (clock r) < 100"
    using ok by (simp_all add: running_ok_def)
  obtain m where entry: "interrupt_entry (ctx r) ?s = (frame_at base (running_task r), ?s\<lparr>memory := m\<rparr>)"
    and own: "interrupt_exit (frames m) (frame_at base (running_task r)) = ctx r"
    and others: "\<And>i. i < 10 \<Longrightarrow> int i \<noteq> current_task ?s \<Longrightarrow>
      interrupt_exit (frames m) (frame_at base i) = interrupt_exit (memory ?s) (frame_at base i)"
    by (rule entered [OF t ok f]) (rule that)
  obtain k d where k: "keyboard_handler hw (kbd (box r), dev (box r)) = (k, d)" by fastforce
  have run: "r' = r\<lparr>box := (box r)\<lparr>sched := ?s\<lparr>memory := frames m\<rparr>, kbd := k, dev := out8 hw 0x20 0x20 d\<rparr>\<rparr>"
    unfolding r' irq1_stub_def entry using k own by (simp add: Let_def)
  have "kb_ok k" using k b by (auto simp: keyboard_handler_def machine_ok_def split_beta handle_scancode_ok)
  then show "running_ok fs_ok base r'"
    using tk b c tick unfolding run by (simp add: running_ok_def machine_ok_def)
  show "context_of base r' i = context_of base r i" if "i < 10"
    using others [OF that] unfolding run by (simp add: context_of_def)
qed

lemma mark_exited_active:
  assumes "tasks_ok base s"
  shows "is_active (mark_exited s) i \<longleftrightarrow> is_active s i \<and> int i \<noteq> current_task s"
    "int i \<noteq> current_task s \<Longrightarrow> stack_pointer (tasks (mark_exited s) ! i) = stack_pointer (tasks s ! i)"
  using assms by (auto simp: mark_exited_def is_active_def tasks_ok_def sched_ok_def nth_list_update split: if_splits)

text \<open>Exit: the next task's frame is the one to pop, or the call returns when there is none.\<close>

lemma exit_switches:
  fixes base :: "'a::len word"
  assumes t: "table_ok base" and ok: "tasks_ok base s" and ex: "task_exit base inner s = (sp', s')"
  shows "tasks_ok base s'" "memory s' = memory s"
    and "current_task s' \<noteq> current_task s \<Longrightarrow> sp' = frame_at base (nat (current_task s'))"
proof -
  have so: "sched_ok (mark_exited s)" using ok by (intro mark_exited_ok) (simp add: tasks_ok_def)
  note spec = schedule_spec [OF so ex [unfolded task_exit_def]]
  note act = mark_exited_active [OF ok]
  have wait: "stack_pointer (tasks s ! i) = frame_at base i" if "is_active s i" "int i \<noteq> current_task s" for i
    using ok that by (simp add: tasks_ok_def)
  show "memory s' = memory s" 
    using schedule_memory [of base inner "mark_exited s", unfolded ex [unfolded task_exit_def] snd_conv] by simp
  have act': "is_active s' i \<longleftrightarrow> is_active (mark_exited s) i" for i
    using spec by (auto simp: is_active_def)
  have sp: "stack_pointer (tasks s' ! i) = frame_at base i" if "is_active s' i" for i
    using that spec act [of i] wait [of i] unfolding act' by (simp add: is_active_def)
  show "tasks_ok base s'" and "current_task s' \<noteq> current_task s \<Longrightarrow> sp' = frame_at base (nat (current_task s'))"
  proof -
    have "(0 \<le> current_task s' \<and> tss_stack s' = kernel_stack_end base (nat (current_task s'))) \<and>
        (current_task s' \<noteq> current_task s \<longrightarrow> sp' = frame_at base (nat (current_task s')))"
    proof (cases "\<exists>i. is_active (mark_exited s) i")
      case True
      with spec obtain j where j: "current_task s' = int j" "is_active (mark_exited s) j"
        "sp' = (if int j = current_task s then inner else stack_pointer (tasks (mark_exited s) ! j))"
        "tss_stack s' = kernel_stack_end base j" by auto
      with act [of j] wait [of j] show ?thesis by simp
    next
      case False
      with spec ok show ?thesis by (auto simp: tasks_ok_def)
    qed
    then show "tasks_ok base s'" and "current_task s' \<noteq> current_task s \<Longrightarrow> sp' = frame_at base (nat (current_task s'))"
      using spec sp by (auto simp: tasks_ok_def)
  qed
qed

lemma syscall_stub_cases:
  assumes entry: "interrupt_entry (ctx r) (sched (box r)) = (sp, (sched (box r))\<lparr>memory := m\<rparr>)"
    and call: "syscall_stub hw drv base frames inner r = Some (Inr r')"
  defines "run \<equiv> syscall_switch hw drv base inner (call_reg (ctx r) 0) (call_reg (ctx r) 1) (call_reg (ctx r) 2)
    (call_reg (ctx r) 3) ((box r)\<lparr>sched := (sched (box r))\<lparr>memory := frames m\<rparr>\<rparr>)"
  obtains sp' b where "run = Some (Inr (Switch sp', b))"
      and "r' = r\<lparr>ctx := interrupt_exit (mem b) (if current_task (sched b) = current_task (sched (box r)) then sp else sp'),
        clock := fst (timer_handler hw (clock r, dev b)), box := b\<lparr>dev := snd (timer_handler hw (clock r, dev b))\<rparr>\<rparr>"
  | x b where "run = Some (Inr (Value x, b))"
      and "r' = r\<lparr>ctx := (interrupt_exit (mem b) sp)\<lparr>gprs := (gprs (interrupt_exit (mem b) sp))[call_regs TYPE('a::len) ! 0 := x]\<rparr>,
        box := (b :: ('a word, 'd, 'st) machine)\<rparr>"
proof -
  from call obtain v b where sw: "run = Some (Inr (v, b))"
    unfolding syscall_stub_def entry run_def by (auto simp: and_then_Inr)
  have "case v of
        Value x \<Rightarrow> r' = r\<lparr>ctx := (interrupt_exit (mem b) sp)\<lparr>gprs := (gprs (interrupt_exit (mem b) sp))[call_regs TYPE('a) ! 0 := x]\<rparr>,
          box := b\<rparr>
      | Switch sp' \<Rightarrow> r' = r\<lparr>ctx := interrupt_exit (mem b) (if current_task (sched b) = current_task (sched (box r)) then sp else sp'),
          clock := fst (timer_handler hw (clock r, dev b)), box := b\<lparr>dev := snd (timer_handler hw (clock r, dev b))\<rparr>\<rparr>"
    using call sw unfolding syscall_stub_def entry run_def by (cases v) (auto simp: and_then_Inr split_beta Let_def)
  with sw show thesis by (cases v) (auto intro: that)
qed

context small_fs begin

lemma call_step:
  fixes base :: "'a::len word"
  assumes t: "table_ok base" and ok: "running_ok fs_ok base r" and f: "leaves_frame base (running_task r) frames"
    and call: "syscall_stub hw drv base frames inner r = Some (Inr r')"
  shows "running_ok fs_ok base r'"
    and "i < 10 \<Longrightarrow> i \<noteq> running_task r \<Longrightarrow>
      call_buffer (call_reg (ctx r) 0) (call_reg (ctx r) 2) (call_reg (ctx r) 3)
        \<inter> region (frame_at base i) (frame_size TYPE('a)) = {} \<Longrightarrow> context_of base r' i = context_of base r i"
proof -
  let ?s = "sched (box r)" and ?area = "call_buffer (call_reg (ctx r) 0) (call_reg (ctx r) 2) (call_reg (ctx r) 3)"
  have tk: "tasks_ok base ?s" and b: "machine_ok fs_ok (box r)" and tick: "system_tick (clock r) < 100"
    using ok by (simp_all add: running_ok_def)
  have arch: "arch_word TYPE('a)" using t by (auto simp: table_ok_def arch_word_def)
  obtain m where entry: "interrupt_entry (ctx r) ?s = (frame_at base (running_task r), ?s\<lparr>memory := m\<rparr>)"
    and own: "interrupt_exit (frames m) (frame_at base (running_task r)) = ctx r"
    and others: "\<And>i. i < 10 \<Longrightarrow> int i \<noteq> current_task ?s \<Longrightarrow>
      interrupt_exit (frames m) (frame_at base i) = interrupt_exit (memory ?s) (frame_at base i)"
    by (rule entered [OF t ok f]) (rule that)
  let ?s1 = "?s\<lparr>memory := frames m\<rparr>"
  let ?b1 = "(box r)\<lparr>sched := ?s1\<rparr>"
  have tk1: "tasks_ok base ?s1" and b1: "machine_ok fs_ok ?b1" using tk b by (simp_all add: machine_ok_def)
  have goal: "running_ok fs_ok base r' \<and> (i < 10 \<and> i \<noteq> running_task r \<and> ?area \<inter> region (frame_at base i) (frame_size TYPE('a)) = {} \<longrightarrow>
      context_of base r' i = context_of base r i)"
  proof (cases rule: syscall_stub_cases [OF entry call])
    case (1 sp' b2)
    note v = call_cases [OF arch 1(1)]
    let ?s2 = "snd (task_exit base inner ?s1)"
    note E = exit_switches [OF t tk1 surjective_pairing [of "task_exit base inner ?s1"]]
    have run: "r' = r\<lparr>ctx := interrupt_exit (frames m) (frame_at base (nat (current_task ?s2))),
        clock := fst (timer_handler hw (clock r, dev (box r))),
        box := (box r)\<lparr>sched := ?s2, dev := snd (timer_handler hw (clock r, dev (box r)))\<rparr>\<rparr>"
      using 1(2) v E(2,3) by (auto simp: running_task_def)
    have "running_ok fs_ok base r'"
      using E(1) b tick_below [OF tick] exit_context_ok [OF t] unfolding run by (simp add: running_ok_def machine_ok_def)
    moreover have "context_of base r' i = interrupt_exit (frames m) (frame_at base i)"
      using context_of_popped [of r' base i] E(2) unfolding run by (simp add: running_task_def)
    ultimately show ?thesis using others tasks_ok_current(2) [OF tk] by (auto simp: context_of_def running_task_def)
  next
    case (2 x b2)
    with call_cases [OF arch 2(1)] b1 obtain m2
      where b2: "machine_ok fs_ok b2" "sched b2 = ?s1\<lparr>memory := m2\<rparr>" and m2: "\<And>x. x \<notin> ?area \<Longrightarrow> m2 x = frames m x"
      by (auto simp: call_effect_def)
    have run: "\<exists>c. r' = r\<lparr>ctx := c, box := b2\<rparr> \<and> context_ok c"
      using 2(2) exit_context_ok [OF t] by (auto simp: context_ok_def)
    then have "running_ok fs_ok base r'" using tk tick b2 by (auto simp: running_ok_def)
    moreover have "interrupt_exit m2 (frame_at base i) = interrupt_exit (frames m) (frame_at base i)"
      if "?area \<inter> region (frame_at base i) (frame_size TYPE('a)) = {}"
      by (rule interrupt_exit_cong [OF t]) (use that m2 in blast)
    ultimately show ?thesis
      using run others tasks_ok_current(2) [OF tk] b2(2) by (auto simp: context_of_def running_task_def)
  qed
  show "running_ok fs_ok base r'" using goal by simp
  show "context_of base r' i = context_of base r i" if "i < 10" "i \<noteq> running_task r"
    "?area \<inter> region (frame_at base i) (frame_size TYPE('a)) = {}" using goal that by simp
qed

end

section \<open>The first dispatch\<close>

text \<open>The frames of the tasks that kmain creates.\<close>

definition created_ok :: "'a::len word \<Rightarrow> 'a word sched \<Rightarrow> bool" where
  "created_ok base s \<longleftrightarrow> sched_ok s \<and> current_task s = -1 \<and>
     (\<forall>i < task_count s. active (tasks s ! i) \<noteq> 0 \<and> stack_pointer (tasks s ! i) = frame_at base i)"

lemma task_create_user_created:
  fixes base :: "'a::len word"
  assumes t: "table_ok base" and ok: "created_ok base s"
  shows "created_ok base (task_create_user base e s)"
    and "task_count (task_create_user base e s) = (if task_count s < 10 then Suc (task_count s) else task_count s)"
proof -
  let ?w = "word_size TYPE('a)" and ?ws = "start_frame base e (task_count s)"
  have len: "length ?ws = frame_regs TYPE('a) + 5" by (simp add: start_frame_def)
  have fits: "length ?ws * ?w \<le> 2 ^ LENGTH('a)"
    using frame_fits [OF t] unfolding len by (simp add: frame_size_def)
  have sp: "snd (fold push_word ?ws (memory s, kernel_stack_end base (task_count s))) = frame_at base (task_count s)"
    using push_words_spec(1) [OF table_word [OF t] fits, where m = "memory s" and sp = "kernel_stack_end base (task_count s)"]
    by (simp add: frame_at_def frame_size_def len)
  have "sched_ok s" using ok by (simp add: created_ok_def)
  note s' = task_create_user_ok [OF this, of base e]
  have l: "length (tasks s) = 10" using \<open>sched_ok s\<close> by (simp add: sched_ok_def MAX_TASKS_def)
  show "created_ok base (task_create_user base e s)"
  proof (cases "task_count s < 10")
    case True
    with ok s' sp l show ?thesis
      by (auto simp: created_ok_def task_create_user_fields nth_list_update less_Suc_eq)
  qed (use ok in \<open>simp add: task_create_user_full\<close>)
  show "task_count (task_create_user base e s) = (if task_count s < 10 then Suc (task_count s) else task_count s)"
    by (simp add: task_create_user_fields task_create_user_full)
qed

lemma create_tasks_ok:
  assumes t: "table_ok base" and len: "length (tasks s) = MAX_TASKS"
  shows "created_ok base (create_tasks base entries s)"
    and "task_count (create_tasks base entries s) = min (length entries) 10"
proof -
  have init: "created_ok base (scheduler_init s)"
    using scheduler_init_ok [OF len] by (simp add: created_ok_def)
  have "created_ok base s0 \<Longrightarrow> task_count s0 \<le> 10 \<Longrightarrow>
      created_ok base (fold (\<lambda>e s. task_create_user base e s) entries s0) \<and>
      task_count (fold (\<lambda>e s. task_create_user base e s) entries s0) = min (task_count s0 + length entries) 10" for s0
    by (induction entries arbitrary: s0) (simp_all add: task_create_user_created [OF t])
  from this [OF init] show "created_ok base (create_tasks base entries s)"
    "task_count (create_tasks base entries s) = min (length entries) 10"
    by (simp_all add: create_tasks_def)
qed

lemma first_dispatch_ok:
  fixes base :: "'a::len word"
  assumes t: "table_ok base" and b: "machine_ok fs_ok b" and s: "created_ok base (sched b)" "0 < task_count (sched b)"
    and tick: "system_tick k < 100"
  shows "running_ok fs_ok base (first_dispatch hw base sp k b)"
proof -
  let ?s = "sched b"
  obtain sp' s' where sw: "schedule base sp ?s = (sp', s')" by fastforce
  have so: "sched_ok ?s" and cur: "current_task ?s = -1"
    and frames: "\<And>i. i < task_count ?s \<Longrightarrow> active (tasks ?s ! i) \<noteq> 0 \<and> stack_pointer (tasks ?s ! i) = frame_at base i"
    using s by (simp_all add: created_ok_def)
  note spec = schedule_spec [OF so sw]
  have "\<exists>i. is_active ?s i" using frames [of 0] s(2) by (auto simp: is_active_def)
  with spec obtain j where j: "current_task s' = int j" "tss_stack s' = kernel_stack_end base j" by auto
  have "stack_pointer (tasks s' ! i) = frame_at base i" if "is_active s' i" for i
    using that spec frames [of i] cur by (simp add: is_active_def)
  with j spec have "tasks_ok base s'" by (simp add: tasks_ok_def)
  with b tick_below [OF tick] exit_context_ok [OF t] show ?thesis
    by (simp add: first_dispatch_def sw split_beta Let_def running_ok_def machine_ok_def)
qed

section \<open>Invariance\<close>

context small_fs begin

lemma user_step:
  fixes base :: "'a::len word"
  assumes t: "table_ok base" and ok: "running_ok fs_ok base r" and c: "context_ok (ctx r')" and k: "keeps_kernel r r'"
  shows "running_ok fs_ok base r'"
    and "spares base i (User r') r \<Longrightarrow> context_of base r' i = context_of base r i"
proof -
  obtain m d where r': "r' = r\<lparr>ctx := ctx r', box := (set_mem m (box r))\<lparr>dev := d\<rparr>\<rparr>"
    using k by (auto simp: keeps_kernel_def)
  have box': "box r' = (set_mem m (box r))\<lparr>dev := d\<rparr>" "clock r' = clock r"
    by (subst r', simp)+
  show "running_ok fs_ok base r'"
    using ok c by (simp add: running_ok_def machine_ok_def set_mem_def box')
  show "context_of base r' i = context_of base r i" if s: "spares base i (User r') r"
  proof -
    have "interrupt_exit (mem (box r')) (frame_at base i) = interrupt_exit (mem (box r)) (frame_at base i)"
      by (rule interrupt_exit_cong [OF t]) (use s in simp)
    moreover have "0 \<le> current_task (sched (box r))" using ok by (simp add: running_ok_def tasks_ok_def)
    ultimately show ?thesis using s by (auto simp: context_of_def running_task_def box' set_mem_def)
  qed
qed

lemma event_step:
  fixes base :: "'a::len word"
  assumes t: "table_ok base" and ok: "running_ok fs_ok base r" and e: "confined base lay e r"
    and run: "run_event hw drv base lay e r = Some (Inr r')"
  shows "running_ok fs_ok base r'"
    and "i < 10 \<Longrightarrow> spares base i e r \<Longrightarrow> context_of base r' i = context_of base r i"
proof -
  have "running_ok fs_ok base r' \<and> (i < 10 \<longrightarrow> spares base i e r \<longrightarrow> context_of base r' i = context_of base r i)"
  proof (cases e)
    case (User r1)
    with run e have "r' = r1" "context_ok (ctx r1)" "keeps_kernel r r1" by (simp_all add: run_event_def)
    with user_step [OF t ok] User show ?thesis by blast
  next
    case (TimerTick frames)
    with run e have "r' = irq0_stub hw base frames r" "leaves_frame base (running_task r) frames"
      by (simp_all add: run_event_def)
    with irq0_step [OF t ok] show ?thesis by blast
  next
    case (KeyPress frames)
    with run e have "r' = irq1_stub hw frames r" "leaves_frame base (running_task r) frames"
      by (simp_all add: run_event_def)
    with irq1_step [OF t ok] show ?thesis by blast
  next
    case (Call frames inner)
    with run e have "syscall_stub hw drv base frames inner r = Some (Inr r')" "leaves_frame base (running_task r) frames"
      by (simp_all add: run_event_def)
    with call_step [OF t ok] Call show ?thesis by auto
  next
    case (StrayCall r1)
    with e show ?thesis by simp
  qed
  then show "running_ok fs_ok base r'" "i < 10 \<Longrightarrow> spares base i e r \<Longrightarrow> context_of base r' i = context_of base r i"
    by simp_all
qed

lemma runs_ok:
  assumes "table_ok base" and "runs_to hw drv fs_ok base lay evs r" and "\<forall>(e, r0) \<in> set evs. confined base lay e r0"
  shows "running_ok fs_ok base r"
  using assms(2,3)
proof induction
  case (runs_start b entries s k sp)
  with create_tasks_ok [OF assms(1) runs_start(3), of entries] show ?case
    by (intro first_dispatch_ok [OF assms(1)]) (simp_all add: Suc_le_eq)
next
  case (runs_step evs r e r')
  then have "running_ok fs_ok base r" "confined base lay e r" by simp_all
  from event_step(1) [OF assms(1) this runs_step(2)] show ?case .
qed

lemma undisturbed_ok:
  assumes t: "table_ok base" and "running_ok fs_ok base r" and i: "i < 10" and "undisturbed hw drv base lay i r r'"
  shows "running_ok fs_ok base r' \<and> context_of base r' i = context_of base r i"
  using assms(4)
proof induction
  case undisturbed_refl
  then show ?case using assms(2) by simp
next
  case (undisturbed_step r1 e r2)
  then have ok: "running_ok fs_ok base r1" by simp
  from undisturbed_step event_step [OF t ok, where e = e and hw = hw and r' = r2] i show ?case by simp
qed

end

section \<open>The properties of the running kernel\<close>

text \<open>
  C3: In every state the kernel reaches, from its first dispatch on and through
  any sequence of user code, timer and keyboard interrupts and system calls,
  in which user code leaves the kernel's own variables alone and no buffer of
  read or getdents lies over them: the task table, the keyboard ring, the
  screen, the mount table and the RAM disk are well formed, the stack the
  next interrupt will use is the running task's own kernel stack, and every
  other active task has its stack pointer at a whole frame on its own. The
  condition is needed: the first 16 MB are mapped writable for user code and
  the calls check no pointer, so a user program can store to these variables,
  which is a step of the model too. User code may write to all other memory.
\<close>

theorem kernel_invariant:
  fixes base :: "'a::len word"
  assumes "table_ok base" and "runs_to hw tar_drivers tar_names_ok base lay evs r"
    and "\<forall>(e, r0) \<in> set evs. confined base lay e r0"
  shows "machine_ok tar_names_ok (box r) \<and> sched_ok (sched (box r)) \<and> context_ok (ctx r) \<and> system_tick (clock r) < 100
    \<and> tss_stack (sched (box r)) = kernel_stack_end base (running_task r)
    \<and> (\<forall>i. is_active (sched (box r)) i \<and> i \<noteq> running_task r \<longrightarrow>
         stack_pointer (tasks (sched (box r)) ! i) = frame_at base i)"
proof -
  have "running_ok tar_names_ok base r" by (rule tarfs.runs_ok [OF assms])
  then show ?thesis by (auto simp: running_ok_def tasks_ok_def running_task_def)
qed

text \<open>The witness: two tasks on i386, and two ticks of the timer.\<close>

definition demo_start :: "(u32, port_event list, tar_fs) running" where
  "demo_start = first_dispatch (log_device (\<lambda>p. 0x20)) 0x110000 0x9000 timer_static (demo_box [] two_tasks)"

definition demo_tick :: "(u32, port_event list, tar_fs) running \<Rightarrow> (u32, port_event list, tar_fs) running" where
  "demo_tick r = irq0_stub (log_device (\<lambda>p. 0x20)) 0x110000 (\<lambda>m. m) r"

lemma demo_table: "table_ok (0x110000 :: u32)"
  by (simp add: table_ok_def)

lemma demo_start_runs: "runs_to (log_device (\<lambda>p. 0x20)) tar_drivers tar_names_ok 0x110000 lay [] demo_start"
  unfolding demo_start_def
proof (rule runs_start)
  show "machine_ok tar_names_ok (demo_box [] two_tasks)" by (rule demo_box_ok) simp
  show "sched (demo_box [] two_tasks) = create_tasks 0x110000 [0x800020, 0x900000] blank_sched"
    by (simp add: demo_box_def create_tasks_def two_tasks_def)
qed (simp_all add: blank_sched_def MAX_TASKS_def timer_static_def)

lemma no_frames: "leaves_frame base i (\<lambda>m. m)"
  by (simp add: leaves_frame_def)

lemma demo_tick_runs:
  "runs_to (log_device (\<lambda>p. 0x20)) tar_drivers tar_names_ok 0x110000 lay evs r \<Longrightarrow>
    runs_to (log_device (\<lambda>p. 0x20)) tar_drivers tar_names_ok 0x110000 lay (evs @ [(TimerTick (\<lambda>m. m), r)]) (demo_tick r)"
  by (rule runs_step) (simp_all add: run_event_def demo_tick_def)

lemma demo_tick_undisturbed:
  "undisturbed (log_device (\<lambda>p. 0x20)) tar_drivers 0x110000 lay i r (demo_tick r)"
  by (rule undisturbed_step [OF undisturbed_refl, where e = "TimerTick (\<lambda>m. m)"])
    (simp_all add: no_frames run_event_def demo_tick_def)

lemma kernel_invariant_witness:
  "sched_ok (sched (box (demo_tick demo_start)))
    \<and> tss_stack (sched (box (demo_tick demo_start))) = kernel_stack_end 0x110000 (running_task (demo_tick demo_start))"
proof -
  have "\<forall>(e, r0) \<in> set ([] @ [(TimerTick (\<lambda>m. m), demo_start)]). confined 0x110000 demo_layout e r0"
    by (simp add: no_frames)
  from kernel_invariant [OF demo_table demo_tick_runs [OF demo_start_runs] this] show ?thesis by blast
qed

text \<open>
  A store of user code to the kernel's variables is a step of the model, and
  the invariant does not survive it: here task 0 stores -1 into current_task.
\<close>

lemma user_store_breaks_kernel:
  "\<exists>evs r. runs_to (log_device (\<lambda>p. 0x20)) tar_drivers tar_names_ok 0x110000 lay evs r
    \<and> \<not> running_ok tar_names_ok (0x110000 :: u32) r"
proof -
  let ?r = "demo_start\<lparr>box := (box demo_start)\<lparr>sched := (sched (box demo_start))\<lparr>current_task := -1\<rparr>\<rparr>\<rparr>"
  have "runs_to (log_device (\<lambda>p. 0x20)) tar_drivers tar_names_ok 0x110000 lay ([] @ [(User ?r, demo_start)]) ?r"
    by (rule runs_step [OF demo_start_runs]) (simp add: run_event_def)
  moreover have "\<not> running_ok tar_names_ok 0x110000 ?r" by (simp add: running_ok_def tasks_ok_def)
  ultimately show ?thesis by blast
qed

text \<open>
  C2: The registers of a task are its own: the general registers, the
  instruction pointer, the flags and the stack (the segment registers ds, es,
  fs and gs are not saved by the timer's stub and are not spoken of). From a
  state in which it runs or waits, through any sequence of interrupts and of
  user code and system calls of the other tasks, the registers it will be
  resumed with stay the same, provided that these others store neither into
  its saved frame nor to the kernel's own variables, the task table with its
  stack pointers and current_task among them; when it runs again it has
  exactly the registers it was interrupted with. Nothing in the kernel
  enforces the proviso.
\<close>

theorem task_registers_preserved:
  fixes base :: "'a::len word"
  assumes "table_ok base" and "runs_to hw tar_drivers tar_names_ok base lay evs r"
    and "\<forall>(e, r0) \<in> set evs. confined base lay e r0" and "i < 10"
    and "undisturbed hw tar_drivers base lay i r r'"
  shows "context_of base r' i = context_of base r i
    \<and> (running_task r = i \<and> running_task r' = i \<longrightarrow> ctx r' = ctx r)"
proof -
  have r: "running_ok tar_names_ok base r" by (rule tarfs.runs_ok [OF assms(1-3)])
  note u = tarfs.undisturbed_ok [OF assms(1) r assms(4,5)]
  have "0 \<le> current_task (sched (box r))" "0 \<le> current_task (sched (box r'))"
    using r u by (simp_all add: running_ok_def tasks_ok_def)
  with u context_of_running [of r base] context_of_running [of r' base] show ?thesis by auto
qed

lemma demo_start_facts: "running_task demo_start = 0" "task_count (sched (box demo_start)) = 2"
  "is_active (sched (box demo_start)) 0" "is_active (sched (box demo_start)) 1"
  using running_tasks_facts schedule_count [of "0x110000" "0x9000" two_tasks] two_tasks_fields
  by (simp_all add: demo_start_def first_dispatch_def demo_box_def running_task_def running_tasks_def split_beta Let_def)

lemma demo_tick_alternates:
  assumes ok: "running_ok tar_names_ok 0x110000 r"
    and "task_count (sched (box r)) = 2" "is_active (sched (box r)) 0" "is_active (sched (box r)) 1"
  shows "running_task (demo_tick r) = (if running_task r = 0 then 1 else 0)"
    and "task_count (sched (box (demo_tick r))) = 2"
    and "is_active (sched (box (demo_tick r))) 0" "is_active (sched (box (demo_tick r))) 1"
proof -
  let ?s = "sched (box r)"
  note step = irq0_step [OF demo_table ok no_frames demo_tick_def]
  show "task_count (sched (box (demo_tick r))) = 2" "is_active (sched (box (demo_tick r))) 0"
    "is_active (sched (box (demo_tick r))) 1" using step(3,4) assms(2-4) by simp_all
  have cur: "0 \<le> current_task ?s" "current_task ?s < 2"
    using ok assms(2) by (simp_all add: running_ok_def tasks_ok_def sched_ok_def)
  from step(5) assms(3) have j: "is_active ?s (running_task (demo_tick r))"
    "\<forall>i. is_active ?s i \<longrightarrow> distance 2 (current_task ?s) (running_task (demo_tick r)) \<le> distance 2 (current_task ?s) i"
    unfolding assms(2) by (meson if_P)+
  have "running_task (demo_tick r) < 2" using j(1) assms(2) by (simp add: is_active_def)
  moreover have "distance 2 (current_task ?s) (running_task (demo_tick r)) \<le> distance 2 (current_task ?s) 0"
    "distance 2 (current_task ?s) (running_task (demo_tick r)) \<le> distance 2 (current_task ?s) 1"
    using j(2) assms(3,4) by auto
  ultimately show "running_task (demo_tick r) = (if running_task r = 0 then 1 else 0)"
    using cur by (auto simp: distance_def running_task_def split: if_splits)
qed

text \<open>Task 0 is interrupted, task 1 runs and is interrupted, and task 0 has its registers again.\<close>

lemma task_registers_preserved_witness:
  "running_task demo_start = 0 \<and> running_task (demo_tick demo_start) = 1 \<and> running_task (demo_tick (demo_tick demo_start)) = 0
    \<and> ctx (demo_tick (demo_tick demo_start)) = ctx demo_start"
proof -
  have start: "\<forall>(e, r0) \<in> set []. confined (0x110000 :: u32) demo_layout e r0" by simp
  have ok: "running_ok tar_names_ok 0x110000 demo_start"
    by (rule tarfs.runs_ok [OF demo_table demo_start_runs start])
  have ok1: "running_ok tar_names_ok 0x110000 (demo_tick demo_start)"
    by (rule irq0_step(1) [OF demo_table ok no_frames demo_tick_def])
  note one = demo_tick_alternates [OF ok demo_start_facts(2-4)]
  note two = demo_tick_alternates [OF ok1 one(2-4)]
  have "undisturbed (log_device (\<lambda>p. 0x20)) tar_drivers 0x110000 demo_layout 0 demo_start
      (demo_tick (demo_tick demo_start))"
    by (rule undisturbed_step [OF demo_tick_undisturbed, where e = "TimerTick (\<lambda>m. m)"])
      (simp_all add: no_frames run_event_def demo_tick_def)
  from task_registers_preserved [OF demo_table demo_start_runs start _ this] one(1) two(1) demo_start_facts(1)
  show ?thesis by simp
qed

end
