(* ===== verification/Syscalls64.thy ===== *)
theory Syscalls64
  imports Syscalls
begin

text \<open>
  kernel/x64/syscall.c as it stands, with its 64-bit types, loops and structure
  offsets. The two files of system calls are copies edited apart; theory
  Syscalls describes them at a variable word size. Here the x86_64 file is
  proved to be that description at 64 bits.
\<close>

section \<open>Writing and reading\<close>

text \<open>The loop of sys_write reads the buffer as it goes, one byte per turn.\<close>

partial_function (option) x64_write_loop ::
  "'d hardware \<Rightarrow> u64 \<Rightarrow> u64 \<Rightarrow> u64 \<Rightarrow> (u64, 'd, 'st) machine \<Rightarrow> (u64, 'd, 'st) machine option" where
  "x64_write_loop hw buf len i s =
     (if i < len
      then Option.bind (print hw [mem s (buf + i), 0] s) (x64_write_loop hw buf len (i + 1))
      else Some s)"

definition x64_sys_write ::
  "'d hardware \<Rightarrow> u32 \<Rightarrow> u64 \<Rightarrow> u64 \<Rightarrow> (u64, 'd, 'st) machine \<Rightarrow> (u64 \<times> (u64, 'd, 'st) machine) option" where
  "x64_sys_write hw fd buf len s =
     (if fd = 1 \<or> fd = 2
      then Option.bind (x64_write_loop hw buf len 0 s) (\<lambda>s. Some (len, s))
      else Some (-1, s))"

partial_function (option) x64_read_loop ::
  "'d hardware \<Rightarrow> u64 \<Rightarrow> u64 \<Rightarrow> u64 \<Rightarrow> (u64, 'd, 'st) machine \<Rightarrow> (u64 \<times> (u64, 'd, 'st) machine) option" where
  "x64_read_loop hw buf len written s =
     (if written < len then
        Option.bind (fetch_char hw s) (\<lambda>(c, s).
          if c = 8 then
            (if written > 0
             then (let written = written - 1 in
                   Option.bind (print hw [8, 32, 8, 0] s) (x64_read_loop hw buf len written))
             else x64_read_loop hw buf len written s)
          else if c = 10 \<or> c = 13 then
            (let s = set_mem ((mem s)(buf + written := 10)) s; written = written + 1 in
             Option.bind (print hw [10, 0] s) (\<lambda>s. Some (written, s)))
          else
            (let s = set_mem ((mem s)(buf + written := c)) s; written = written + 1 in
             Option.bind (print hw [c, 0] s) (x64_read_loop hw buf len written)))
      else Some (written, s))"

definition x64_sys_read ::
  "'d hardware \<Rightarrow> u32 \<Rightarrow> u64 \<Rightarrow> u64 \<Rightarrow> (u64, 'd, 'st) machine \<Rightarrow> (u64 \<times> (u64, 'd, 'st) machine) option" where
  "x64_sys_read hw fd buf len s =
     (if fd \<noteq> 0 then Some (0, s)
      else let written = 0 in x64_read_loop hw buf len written s)"

section \<open>Files\<close>

definition x64_sys_open ::
  "'st drivers \<Rightarrow> u64 \<Rightarrow> u32 \<Rightarrow> u32 \<Rightarrow> (u64, 'd, 'st) machine
     \<Rightarrow> (vfs_error + u64 \<times> (u64, 'd, 'st) machine) option" where
  "x64_sys_open drv path flgs mode s =
     Option.bind (path_arg (mem s) path) (\<lambda>p.
       and_then (vfs_resolve_path drv p (files s) (fs s)) (\<lambda>(node, st).
         let s = s\<lparr>fs := st\<rparr> in
         case node of None \<Rightarrow> Some (Inr (-1, s)) | Some n \<Rightarrow> Some (Inr (3, s))))"

definition x64_sys_close :: "u32 \<Rightarrow> (u64, 'd, 'st) machine \<Rightarrow> u64 \<times> (u64, 'd, 'st) machine" where
  "x64_sys_close fd s = (0, s)"

text \<open>struct linux_dirent: two 64-bit words, a 16-bit length and the name, 24 bytes with its padding.\<close>

definition X64_SIZEOF_DIRENT :: nat where "X64_SIZEOF_DIRENT = 24"
definition X64_OFFSET_OFF :: u64 where "X64_OFFSET_OFF = 8"
definition X64_OFFSET_RECLEN :: u64 where "X64_OFFSET_RECLEN = 16"
definition X64_OFFSET_NAME :: u64 where "X64_OFFSET_NAME = 18"

text \<open>The two assignments to reclen; the arithmetic is that of int, cut to 16 bits each time.\<close>

definition x64_reclen :: "nat \<Rightarrow> u16" where
  "x64_reclen name_len =
     (let reclen = ucast (of_nat X64_SIZEOF_DIRENT + of_nat name_len + 1 :: u64) :: u16
      in ucast ((ucast reclen + 7) AND NOT 7 :: u32))"

fun x64_copy_name :: "u64 \<Rightarrow> u8 list \<Rightarrow> nat \<Rightarrow> nat \<Rightarrow> 64 memory \<Rightarrow> 64 memory" where
  "x64_copy_name d nm i 0 m = m"
| "x64_copy_name d nm i (Suc n) m = x64_copy_name d nm (i + 1) n (m(d + of_nat i := nm ! i))"

definition x64_put_entry :: "u64 \<Rightarrow> u32 \<Rightarrow> u16 \<Rightarrow> dirent \<Rightarrow> 64 memory \<Rightarrow> 64 memory" where
  "x64_put_entry dirp pos reclen de m =
     (let entry = dirp + ucast pos;
          name_len = length (dname de);
          m = write_bytes m entry (bytes_le 8 (ucast (ino de) :: u64));
          m = write_bytes m (entry + X64_OFFSET_OFF) (bytes_le 8 (ucast (pos + ucast reclen :: u32) :: u64));
          m = write_bytes m (entry + X64_OFFSET_RECLEN) (bytes_le 2 reclen);
          m = x64_copy_name (entry + X64_OFFSET_NAME) (dname de) 0 name_len m
      in m(entry + X64_OFFSET_NAME + of_nat name_len := 0))"

partial_function (option) x64_getdents_loop ::
  "'st drivers \<Rightarrow> node_ptr \<Rightarrow> u64 \<Rightarrow> u32 \<Rightarrow> u32 \<Rightarrow> u32 \<Rightarrow> (u64, 'd, 'st) machine
     \<Rightarrow> (u32 \<times> (u64, 'd, 'st) machine) option" where
  "x64_getdents_loop drv node dirp count pos index s =
     Option.bind (vfs_readdir drv (Some node) index (fs s)) (\<lambda>(r, st).
       let s = s\<lparr>fs := st\<rparr> in
       case r of
         None \<Rightarrow> Some (pos, s)
       | Some de \<Rightarrow>
           let reclen = x64_reclen (length (dname de)) in
           if pos + ucast reclen > count then Some (pos, s)
           else let s = set_mem (x64_put_entry dirp pos reclen de (mem s)) s;
                    pos = pos + ucast reclen;
                    index = index + 1
                in x64_getdents_loop drv node dirp count pos index s)"

definition x64_sys_getdents ::
  "'st drivers \<Rightarrow> u32 \<Rightarrow> u64 \<Rightarrow> u32 \<Rightarrow> (u64, 'd, 'st) machine \<Rightarrow> (u64 \<times> (u64, 'd, 'st) machine) option" where
  "x64_sys_getdents drv fd dirp count s =
     (case vfs_root (files s) of
        None \<Rightarrow> Some (-1, s)
      | Some node \<Rightarrow>
          Option.bind (x64_getdents_loop drv node dirp count 0 0 s) (\<lambda>(pos, s). Some (ucast pos, s)))"

definition x64_sys_mount ::
  "u64 \<Rightarrow> u64 \<Rightarrow> u64 \<Rightarrow> u64 \<Rightarrow> node_ptr option \<Rightarrow> (u64, 'd, 'st) machine
     \<Rightarrow> (vfs_error + u64 \<times> (u64, 'd, 'st) machine) option" where
  "x64_sys_mount special dir fstype flgs data s =
     Option.bind (c_string (mem s) dir) (\<lambda>path.
       case vfs_mount path data (files s) of
         Inl e \<Rightarrow> Some (Inl e)
       | Inr (r, v) \<Rightarrow> Some (Inr (of_int r, s\<lparr>files := v\<rparr>)))"

definition x64_sys_umount ::
  "u64 \<Rightarrow> u32 \<Rightarrow> (u64, 'd, 'st) machine \<Rightarrow> (u64 \<times> (u64, 'd, 'st) machine) option" where
  "x64_sys_umount special flgs s =
     Option.bind (c_string (mem s) special) (\<lambda>path.
       let (r, v) = vfs_umount path (files s) in Some (of_int r, s\<lparr>files := v\<rparr>))"

definition x64_sys_mkdir ::
  "'st drivers \<Rightarrow> u64 \<Rightarrow> u32 \<Rightarrow> (u64, 'd, 'st) machine \<Rightarrow> (u64 \<times> (u64, 'd, 'st) machine) option" where
  "x64_sys_mkdir drv pathname mode s =
     Option.bind (c_string (mem s) pathname) (\<lambda>path.
       Option.bind (vfs_mkdir drv path (ucast mode) (files s) (fs s)) (\<lambda>(r, st).
         Some (of_int r, s\<lparr>fs := st\<rparr>)))"

definition x64_sys_link ::
  "'st drivers \<Rightarrow> u64 \<Rightarrow> u64 \<Rightarrow> (u64, 'd, 'st) machine
     \<Rightarrow> (vfs_error + u64 \<times> (u64, 'd, 'st) machine) option" where
  "x64_sys_link drv oldpath newpath s =
     Option.bind (path_arg (mem s) oldpath) (\<lambda>old.
       Option.bind (c_string (mem s) newpath) (\<lambda>new.
         and_then (vfs_link drv old new (files s) (fs s)) (\<lambda>(r, st).
           Some (Inr (of_int r, s\<lparr>fs := st\<rparr>)))))"

definition x64_sys_unlink ::
  "'st drivers \<Rightarrow> u64 \<Rightarrow> (u64, 'd, 'st) machine \<Rightarrow> (vfs_error + u64 \<times> (u64, 'd, 'st) machine) option" where
  "x64_sys_unlink drv pathname s =
     Option.bind (path_arg (mem s) pathname) (\<lambda>path.
       and_then (vfs_unlink drv path (files s) (fs s)) (\<lambda>(r, st).
         Some (Inr (of_int r, s\<lparr>fs := st\<rparr>))))"

definition x64_sys_exit ::
  "u64 \<Rightarrow> u64 \<Rightarrow> u32 \<Rightarrow> (u64, 'd, 'st) machine \<Rightarrow> u64 \<times> (u64, 'd, 'st) machine" where
  "x64_sys_exit base sp code s = (let (sp, sc) = task_exit base sp (sched s) in (sp, s\<lparr>sched := sc\<rparr>))"

section \<open>The handler\<close>

text \<open>Storing a result in the saved rax.\<close>

definition set_rax ::
  "regs64 \<Rightarrow> (vfs_error + u64 \<times> (u64, 'd, 'st) machine) option
     \<Rightarrow> (vfs_error + regs64 \<times> u64 option \<times> (u64, 'd, 'st) machine) option" where
  "set_rax regs r = and_then r (\<lambda>(v, s). Some (Inr (regs\<lparr>rax := v\<rparr>, None, s)))"

text \<open>The switch: the registers afterwards, the stack to continue on after exit, and the state.\<close>

definition x64_syscall_handler ::
  "'d hardware \<Rightarrow> 'st drivers \<Rightarrow> u64 \<Rightarrow> u64 \<Rightarrow> regs64 \<Rightarrow> (u64, 'd, 'st) machine
     \<Rightarrow> (vfs_error + regs64 \<times> u64 option \<times> (u64, 'd, 'st) machine) option" where
  "x64_syscall_handler hw drv base sp regs s =
     (let nr = rax regs; a = rdi regs; b = rsi regs; c = rdx regs in
      if nr = 1 then (let (sp, s) = x64_sys_exit base sp (ucast a) s in Some (Inr (regs, Some sp, s)))
      else if nr = 3 then set_rax regs (map_option Inr (x64_sys_read hw (ucast a) b c s))
      else if nr = 4 then set_rax regs (map_option Inr (x64_sys_write hw (ucast a) b c s))
      else if nr = 5 then set_rax regs (x64_sys_open drv a (ucast b) (ucast c) s)
      else if nr = 6 then set_rax regs (Some (Inr (x64_sys_close (ucast a) s)))
      else if nr = 9 then set_rax regs (x64_sys_link drv a b s)
      else if nr = 10 then set_rax regs (x64_sys_unlink drv a s)
      else if nr = 21 then set_rax regs (x64_sys_mount a b c 0 None s)
      else if nr = 22 then set_rax regs (map_option Inr (x64_sys_umount a (ucast b) s))
      else if nr = 39 then set_rax regs (map_option Inr (x64_sys_mkdir drv a (ucast b) s))
      else if nr = 141 then set_rax regs (map_option Inr (x64_sys_getdents drv (ucast a) b (ucast c) s))
      else Some (Inr (regs\<lparr>rax := -1\<rparr>, None, s)))"

section \<open>The file is the width-generic model at 64 bits\<close>

lemma mem_print: "print hw str s = Some s' \<Longrightarrow> mem s' = mem s"
  by (auto simp: print_def split: option.splits)

lemma x64_write_loop_eq:
  "i \<le> len \<Longrightarrow> x64_write_loop hw buf len i s = write_chars hw (read_bytes (mem s) (buf + i) (unat (len - i))) s"
proof (induction "unat (len - i)" arbitrary: i s)
  case 0
  then have "i = len" by (simp add: unat_eq_0)
  then show ?case by (simp add: x64_write_loop.simps)
next
  case (Suc n)
  then have lt: "i < len" by (metis diff_self order_le_less unsigned_0 nat.distinct(1))
  have n: "n = unat (len - (i + 1))"
    using Suc.hyps(2) lt by (metis add_diff_eq diff_Suc_1 diff_diff_eq unat_minus_one unsigned_0 nat.distinct(1))
  have le: "i + 1 \<le> len" using lt by (simp add: inc_le)
  show ?case
  proof (cases "print hw [mem s (buf + i), 0] s")
    case None
    with lt show ?thesis by (subst x64_write_loop.simps) (simp flip: Suc.hyps(2))
  next
    case (Some s')
    with Suc.hyps(1) [OF n le, of s'] mem_print [OF Some] lt n show ?thesis
      by (subst x64_write_loop.simps) (simp flip: Suc.hyps(2) add: add.assoc)
  qed
qed

lemma x64_sys_write_eq: "x64_sys_write hw fd buf len s = sys_write hw fd buf len s"
  by (simp add: x64_sys_write_def sys_write_def x64_write_loop_eq map_option_case bind_eq_None_conv
      split: option.split)

lemma x64_read_loop_eq: "x64_read_loop hw buf len written s = read_loop hw buf len written s"
proof (rule option_eqI)
  fix y
  show "read_loop hw buf len written s = Some y" if "x64_read_loop hw buf len written s = Some y"
    by (rule x64_read_loop.raw_induct [OF _ that, where P = "\<lambda>hw buf len written s y. read_loop hw buf len written s = Some y"])
      (subst read_loop.simps, auto simp: Let_def split: bind_splits if_splits prod.splits)
  show "x64_read_loop hw buf len written s = Some y" if "read_loop hw buf len written s = Some y"
    by (rule read_loop.raw_induct [OF _ that, where P = "\<lambda>hw buf len written s y. x64_read_loop hw buf len written s = Some y"])
      (subst x64_read_loop.simps, auto simp: Let_def split: bind_splits if_splits prod.splits)
qed

lemma x64_sys_read_eq: "x64_sys_read hw fd buf len s = sys_read hw fd buf len s"
  by (simp add: x64_sys_read_def sys_read_def x64_read_loop_eq)

text \<open>Rounding up the record length at 32 bits and at 16 is the same.\<close>

lemma x64_reclen_eq: "x64_reclen (length nm) = dirent_reclen TYPE(64) nm"
proof -
  have "ucast (x AND NOT 7 :: u32) = (ucast x :: u16) AND NOT 7" for x
    by (rule bit_word_eqI) (auto simp: bit_simps bit_ucast_iff)
  moreover have "(ucast (ucast r + 7 :: u32) :: u16) = r + 7" for r :: u16
  proof -
    have r: "unat r < 2 ^ LENGTH(16)" by (rule unsigned_less)
    then have "unat (ucast r :: u32) + unat (7 :: u32) < 2 ^ LENGTH(32)"
      by (simp add: unsigned_ucast_eq take_bit_nat_eq_self)
    then have "unat (ucast r + 7 :: u32) = unat r + 7"
      using r by (simp add: unat_add_lem [THEN iffD1] unsigned_ucast_eq take_bit_nat_eq_self)
    then have "unat (ucast (ucast r + 7 :: u32) :: u16) = (unat r + 7) mod 2 ^ 16"
      by (simp add: unsigned_ucast_eq take_bit_eq_mod)
    then show ?thesis by (simp add: word_unat_eq_iff unat_word_ariths)
  qed
  moreover have "(ucast (of_nat 24 + of_nat n + 1 :: u64) :: u16) = of_nat (24 + n + 1)" for n
  proof -
    have "(of_nat 24 + of_nat n + 1 :: u64) = of_nat (24 + n + 1)" by simp
    moreover have "(ucast (of_nat k :: u64) :: u16) = of_nat k" for k
      by (simp add: word_unat_eq_iff unsigned_ucast_eq unat_of_nat take_bit_eq_mod mod_mod_cancel)
    ultimately show ?thesis by metis
  qed
  ultimately show ?thesis
    by (simp add: x64_reclen_def dirent_reclen_def Let_def X64_SIZEOF_DIRENT_def SIZEOF_DIRENT_def word_bytes_def)
qed

lemma x64_copy_name_eq: "i + n \<le> length nm \<Longrightarrow> x64_copy_name d nm i n m = write_bytes m (d + of_nat i) (take n (drop i nm))"
proof (induction n arbitrary: i m)
  case 0
  then show ?case by simp
next
  case (Suc n)
  have "take (Suc n) (drop i nm) = nm ! i # take n (drop (Suc i) nm)"
    using Suc.prems by (simp add: Cons_nth_drop_Suc [symmetric])
  with Suc show ?case by (simp add: add.assoc add.commute [of 1] fun_upd_def)
qed

lemma x64_put_entry_eq: "x64_put_entry dirp pos reclen de m = put_dirent dirp pos reclen de m"
  using x64_copy_name_eq [of 0 "length (dname de)" "dname de"]
  by (simp add: x64_put_entry_def put_dirent_def Let_def word_bytes_def OFFSET_NAME_def X64_OFFSET_OFF_def
      X64_OFFSET_RECLEN_def X64_OFFSET_NAME_def)

lemma x64_getdents_loop_eq: "x64_getdents_loop drv node dirp count pos index s = getdents_loop drv node dirp count pos index s"
proof (rule option_eqI)
  fix y
  show "getdents_loop drv node dirp count pos index s = Some y" if "x64_getdents_loop drv node dirp count pos index s = Some y"
    by (rule x64_getdents_loop.raw_induct [OF _ that,
          where P = "\<lambda>drv node dirp count pos index s y. getdents_loop drv node dirp count pos index s = Some y"])
      (subst getdents_loop.simps, auto simp: Let_def x64_reclen_eq x64_put_entry_eq
         split: bind_splits if_splits option.splits prod.splits)
  show "x64_getdents_loop drv node dirp count pos index s = Some y" if "getdents_loop drv node dirp count pos index s = Some y"
    by (rule getdents_loop.raw_induct [OF _ that,
          where P = "\<lambda>drv node dirp count pos index s y. x64_getdents_loop drv node dirp count pos index s = Some y"])
      (subst x64_getdents_loop.simps, auto simp: Let_def x64_reclen_eq x64_put_entry_eq
         split: bind_splits if_splits option.splits prod.splits)
qed

lemma x64_sys_getdents_eq: "x64_sys_getdents drv fd dirp count s = sys_getdents drv fd dirp count s"
  by (auto simp: x64_sys_getdents_def sys_getdents_def x64_getdents_loop_eq map_option_case split: option.split)

lemma x64_path_calls_eq:
  "x64_sys_open drv path flgs mode s = sys_open drv path flgs mode s"
  "x64_sys_mount special dir ty flgs3 data s = sys_mount special dir ty (ucast flgs3) data s"
  "x64_sys_umount special flgs2 s = sys_umount special flgs2 s"
  "x64_sys_mkdir drv path mode s = sys_mkdir drv path mode s"
  "x64_sys_link drv path path2 s = sys_link drv path path2 s"
  "x64_sys_unlink drv path s = sys_unlink drv path s"
  by (auto simp: x64_sys_open_def sys_open_def x64_sys_mount_def sys_mount_def x64_sys_umount_def sys_umount_def
      x64_sys_mkdir_def sys_mkdir_def x64_sys_link_def sys_link_def x64_sys_unlink_def sys_unlink_def and_then_def
      map_option_case split_beta Let_def split: option.split sum.split bind_split)

text \<open>Storing a result, and the verdict of the generic dispatcher.\<close>

lemma set_rax_verdict:
  "and_then (returning r) (\<lambda>(v, s). Some (Inr (case v of Value x \<Rightarrow> (regs\<lparr>rax := x\<rparr>, None, s) | Switch sp \<Rightarrow> (regs, Some sp, s))))
    = set_rax regs (map_option Inr r)"
  "and_then (returning_or_fault q) (\<lambda>(v, s). Some (Inr (case v of Value x \<Rightarrow> (regs\<lparr>rax := x\<rparr>, None, s) | Switch sp \<Rightarrow> (regs, Some sp, s))))
    = set_rax regs q"
  by (auto simp: set_rax_def returning_def returning_or_fault_def and_then_def split: option.split sum.split)

lemma and_then_returned: "and_then (Some (Inr v)) f = f v"
  by (simp add: and_then_def)

lemma x64_calls_eq:
  "x64_sys_close fd s = sys_close fd s"
  "x64_sys_exit base sp code s = sys_exit base sp code s"
  by (simp_all add: x64_sys_close_def sys_close_def x64_sys_exit_def sys_exit_def Let_def)

lemmas x64_eqs = x64_sys_read_eq x64_sys_write_eq x64_sys_getdents_eq x64_path_calls_eq x64_calls_eq

text \<open>
  C20: The x86_64 system call handler, written out with the loops, the widths
  and the structure offsets of its file, does what the width-generic system
  calls do at 64 bits, whatever the registers, the memory, the file system and
  the devices, for calls that return, that fault and that never return alike.
  Every theorem on the generic calls holds of this file.
\<close>

theorem x64_syscall_handler_equivalent:
  "x64_syscall_handler hw drv base sp regs s = syscall_handler64 hw drv base sp regs s"
proof -
  have nr: "n < 2 ^ LENGTH(64) \<Longrightarrow> (rax regs = of_nat n) = (unat (rax regs) = n)" for n
    by (simp only: word_unat_eq_iff unat_of_nat_less)
  note cases = nr [of 1, simplified] nr [of 3, simplified] nr [of 4, simplified] nr [of 5, simplified] nr [of 6, simplified]
    nr [of 9, simplified] nr [of 10, simplified] nr [of 21, simplified] nr [of 22, simplified] nr [of 39, simplified]
    nr [of 141, simplified]
  show ?thesis
    unfolding x64_syscall_handler_def syscall_handler64_def syscall_switch_def Let_def cases x64_eqs
    by (simp add: if_distrib [of "\<lambda>r. and_then r _"] set_rax_verdict and_then_returned split_beta cong: if_cong)
qed

end
