(* ===== verification/Legacy.thy ===== *)
theory Legacy
  imports Keyboard Scheduler Pata
begin

text \<open>
  The older i386 sources that the Makefile does not compile: the drivers of
  kernel/drv and kernel/scheduler.c. Their functions are translated from these
  files, and the theorems say where they agree with the current ones and where
  not: carriage returns on the serial line, the cursor after clearing the
  screen, the initialisation of the keyboard, the layout of the task table, and the scheduler without active tasks.
\<close>

section \<open>drv/serial.c\<close>

definition drv_serial_init :: "'d hardware \<Rightarrow> 'd \<Rightarrow> 'd" where
  "drv_serial_init hw d =
     (let d = out8 hw (0x3F8 + 1) 0x00 d;
          d = out8 hw (0x3F8 + 3) 0x80 d;
          d = out8 hw (0x3F8 + 0) 0x03 d;
          d = out8 hw (0x3F8 + 1) 0x00 d;
          d = out8 hw (0x3F8 + 3) 0x03 d;
          d = out8 hw (0x3F8 + 2) 0xC7 d
      in out8 hw (0x3F8 + 4) 0x0B d)"

definition drv_is_transmit_empty :: "'d hardware \<Rightarrow> 'd \<Rightarrow> u8 \<times> 'd" where
  "drv_is_transmit_empty hw d = (let (b, d) = in8 hw (0x3F8 + 5) d in (b AND 0x20, d))"

partial_function (option) drv_serial_wait :: "'d hardware \<Rightarrow> 'd \<Rightarrow> 'd option" where
  "drv_serial_wait hw d =
     (let (b, d) = drv_is_transmit_empty hw d in if b = 0 then drv_serial_wait hw d else Some d)"

definition drv_serial_write :: "'d hardware \<Rightarrow> u8 \<Rightarrow> 'd \<Rightarrow> 'd option" where
  "drv_serial_write hw c d = Option.bind (drv_serial_wait hw d) (\<lambda>d. Some (out8 hw 0x3F8 c d))"

fun drv_serial_printf :: "'d hardware \<Rightarrow> u8 list \<Rightarrow> 'd \<Rightarrow> 'd option" where
  "drv_serial_printf hw [] d = Some d"
| "drv_serial_printf hw (c # str) d =
     (if c \<noteq> 0 then Option.bind (drv_serial_write hw c d) (drv_serial_printf hw str) else Some d)"

section \<open>drv/vga.c\<close>

definition drv_color :: u8 where "drv_color = 0x0f"

definition drv_scroll :: "vga \<Rightarrow> vga" where
  "drv_scroll s =
     (let v = fold (\<lambda>i v. v[i := v ! (i + 80)]) [0 ..< 24 * 80] (cells s);
          v = fold (\<lambda>i v. v[i := push_bit 8 (ucast drv_color) OR 32]) [24 * 80 ..< 25 * 80] v
      in s\<lparr>cells := v, cursor := 24 * 80\<rparr>)"

text \<open>The cursor stays where it is.\<close>

definition drv_kcls :: "vga \<Rightarrow> vga" where
  "drv_kcls s = s\<lparr>cells := fold (\<lambda>i v. v[i := push_bit 8 (ucast drv_color) OR 32]) [0 ..< 80 * 25] (cells s)\<rparr>"

fun drv_tty_chars :: "u8 list \<Rightarrow> vga \<Rightarrow> vga" where
  "drv_tty_chars [] s = s"
| "drv_tty_chars (c # str) s =
     (if c = 0 then s
      else if c = 10
      then (let linha_atual = cursor s div 80 in
            if linha_atual \<ge> 24
            then drv_tty_chars str ((drv_scroll s)\<lparr>cursor := 24 * 80\<rparr>)
            else drv_tty_chars str (s\<lparr>cursor := (linha_atual + 1) * 80\<rparr>))
      else
        (let s = s\<lparr>cells := (cells s)[cursor s := push_bit 8 (ucast drv_color) OR ucast c], cursor := cursor s + 1\<rparr> in
         if cursor s \<ge> 25 * 80
         then drv_tty_chars str ((drv_scroll s)\<lparr>cursor := 24 * 80\<rparr>)
         else drv_tty_chars str s))"

definition drv_tty_write :: "'d hardware \<Rightarrow> u8 list \<Rightarrow> vga \<times> 'd \<Rightarrow> (vga \<times> 'd) option" where
  "drv_tty_write hw str = (\<lambda>(s, d).
     Option.bind (drv_serial_printf hw str d) (\<lambda>d. Some (drv_tty_chars str s, d)))"

definition drv_kprintf :: "'d hardware \<Rightarrow> u8 list \<Rightarrow> vga \<times> 'd \<Rightarrow> (vga \<times> 'd) option" where
  "drv_kprintf hw str = drv_tty_write hw str"

section \<open>drv/keyboard.c\<close>

text \<open>The table by its rows in this file; C fills the rest with zeros.\<close>

definition drv_kbdus :: "u8 list" where
  "drv_kbdus =
     (let rows = [0, 27] @ cs ''12345678'' @
        cs ''90-='' @ [8] @
        [9] @ cs ''qwertyuio'' @
        cs ''p[]'' @ [10, 0] @
        cs ''asdfghjkl;'' @
        [39] @ cs ''`'' @ [0, 92] @ cs ''zxcvbn'' @
        cs ''m,./'' @ [0] @
        cs ''*'' @ [0] @ cs '' '' @ [0, 0] @
        replicate 10 0 @
        replicate 6 0 @ cs ''-'' @ [0, 0, 0] @
        cs ''+'' @ replicate 9 0 @
        [0, 0]
      in rows @ replicate (128 - length rows) 0)"

definition drv_keyboard_init :: "keyboard \<Rightarrow> keyboard" where
  "drv_keyboard_init k = k"

definition drv_keyboard_handler :: "'d hardware \<Rightarrow> keyboard \<times> 'd \<Rightarrow> keyboard \<times> 'd" where
  "drv_keyboard_handler hw = (\<lambda>(k, d).
     let (scancode, d) = in8 hw 0x60 d in
     if scancode AND 0x80 = 0
     then (let c = drv_kbdus ! unat scancode in
           if c \<noteq> 0
           then (let next = (head_ix k + 1) mod 256 in
                 if next \<noteq> tail_ix k
                 then (k\<lparr>keyboard_buffer := (keyboard_buffer k)[head_ix k := c], head_ix := next\<rparr>, d)
                 else (k, d))
           else (k, d))
     else (k, d))"

definition drv_keyboard_poll :: "'d hardware \<Rightarrow> keyboard \<times> 'd \<Rightarrow> keyboard \<times> 'd" where
  "drv_keyboard_poll hw = (\<lambda>(k, d).
     let k = k\<lparr>poll_counter := poll_counter k + 1\<rparr> in
     if poll_counter k \<ge> 100000
     then (let k = k\<lparr>poll_counter := 0\<rparr>; (status, d) = in8 hw 0x64 d in
           if status AND 1 \<noteq> 0 then drv_keyboard_handler hw (k, d) else (k, d))
     else (k, d))"

definition drv_keyboard_has_char :: "'d hardware \<Rightarrow> keyboard \<times> 'd \<Rightarrow> bool \<times> keyboard \<times> 'd" where
  "drv_keyboard_has_char hw s = (let (k, d) = drv_keyboard_poll hw s in (head_ix k \<noteq> tail_ix k, k, d))"

partial_function (option) drv_await_char :: "'d hardware \<Rightarrow> keyboard \<times> 'd \<Rightarrow> (keyboard \<times> 'd) option" where
  "drv_await_char hw s =
     (let (ready, s) = drv_keyboard_has_char hw s in if \<not> ready then drv_await_char hw s else Some s)"

definition drv_keyboard_get_char :: "'d hardware \<Rightarrow> keyboard \<times> 'd \<Rightarrow> (u8 \<times> keyboard \<times> 'd) option" where
  "drv_keyboard_get_char hw s =
     Option.bind (drv_await_char hw s) (\<lambda>(k, d).
       let c = keyboard_buffer k ! tail_ix k in Some (c, k\<lparr>tail_ix := (tail_ix k + 1) mod 256\<rparr>, d))"

section \<open>drv/pata.c\<close>

definition drv_pata_init :: "'d \<Rightarrow> 'd" where
  "drv_pata_init d = d"

partial_function (option) drv_pata_wait_bsy :: "'d hardware \<Rightarrow> 'd \<Rightarrow> 'd option" where
  "drv_pata_wait_bsy hw d =
     (let (status, d) = in8 hw 0x1F7 d in if status AND 0x80 \<noteq> 0 then drv_pata_wait_bsy hw d else Some d)"

partial_function (option) drv_pata_wait_drq :: "'d hardware \<Rightarrow> 'd \<Rightarrow> 'd option" where
  "drv_pata_wait_drq hw d =
     (let (status, d) = in8 hw 0x1F7 d in if \<not> status AND 0x08 \<noteq> 0 then drv_pata_wait_drq hw d else Some d)"

definition drv_pata_read_sectors ::
  "'d hardware \<Rightarrow> u32 \<Rightarrow> u8 \<Rightarrow> u32 \<Rightarrow> 32 memory \<times> 'd \<Rightarrow> (int \<times> 32 memory \<times> 'd) option" where
  "drv_pata_read_sectors hw lba sector_count buf = (\<lambda>(m, d).
     Option.bind (drv_pata_wait_bsy hw d) (\<lambda>d.
       let d = out8 hw 0x1F6 (ucast (0xE0 OR (drop_bit 24 lba AND 0x0F))) d;
           d = out8 hw 0x1F2 sector_count d;
           d = out8 hw 0x1F3 (ucast lba) d;
           d = out8 hw 0x1F4 (ucast (drop_bit 8 lba)) d;
           d = out8 hw 0x1F5 (ucast (drop_bit 16 lba)) d;
           d = out8 hw 0x1F7 0x20 d
       in Option.bind (for_each (\<lambda>s (m, d).
            Option.bind (drv_pata_wait_bsy hw d) (\<lambda>d.
              Option.bind (drv_pata_wait_drq hw d) (\<lambda>d.
                Some (fold (\<lambda>i (m, d).
                  let (data, d) = in16 hw 0x1F0 d;
                      m = m(buf + of_nat (s * 512 + i * 2) := ucast (data AND 0xFF));
                      m = m(buf + of_nat (s * 512 + i * 2) + 1 := ucast (drop_bit 8 data))
                  in (m, d)) [0..<256] (m, d))))) [0..<unat sector_count] (m, d))
          (\<lambda>s. Some (0, s))))"

definition drv_pata_write_sectors ::
  "'d hardware \<Rightarrow> u32 \<Rightarrow> u8 \<Rightarrow> u32 \<Rightarrow> 32 memory \<times> 'd \<Rightarrow> (int \<times> 32 memory \<times> 'd) option" where
  "drv_pata_write_sectors hw lba sector_count buf = (\<lambda>(m, d).
     Option.bind (drv_pata_wait_bsy hw d) (\<lambda>d.
       let d = out8 hw 0x1F6 (ucast (0xE0 OR (drop_bit 24 lba AND 0x0F))) d;
           d = out8 hw 0x1F2 sector_count d;
           d = out8 hw 0x1F3 (ucast lba) d;
           d = out8 hw 0x1F4 (ucast (drop_bit 8 lba)) d;
           d = out8 hw 0x1F5 (ucast (drop_bit 16 lba)) d;
           d = out8 hw 0x1F7 0x30 d
       in Option.bind (for_each (\<lambda>s d.
            Option.bind (drv_pata_wait_bsy hw d) (\<lambda>d.
              Option.bind (drv_pata_wait_drq hw d) (\<lambda>d.
                Some (fold (\<lambda>i d.
                  let data = ucast (m (buf + of_nat (s * 512 + i * 2)))
                        OR push_bit 8 (ucast (m (buf + of_nat (s * 512 + i * 2) + 1)))
                  in out16 hw 0x1F0 data d) [0..<256] d)))) [0..<unat sector_count] d) (\<lambda>d.
          Option.bind (drv_pata_wait_bsy hw d) (\<lambda>d. Some (0, m, d)))))"

section \<open>The older drivers and the current ones\<close>

lemma drv_serial_wait_eq: "drv_serial_wait hw d = serial_wait hw d"
proof (rule option_eqI)
  fix y
  show "serial_wait hw d = Some y" if "drv_serial_wait hw d = Some y"
    by (rule drv_serial_wait.raw_induct [OF _ that, where P = "\<lambda>hw d y. serial_wait hw d = Some y"])
      (subst serial_wait.simps, auto simp: drv_is_transmit_empty_def is_transmit_empty_def COM1_def Let_def
        split: prod.splits if_splits)
  show "drv_serial_wait hw d = Some y" if "serial_wait hw d = Some y"
    by (rule serial_wait.raw_induct [OF _ that, where P = "\<lambda>hw d y. drv_serial_wait hw d = Some y"])
      (subst drv_serial_wait.simps, auto simp: drv_is_transmit_empty_def is_transmit_empty_def COM1_def Let_def
        split: prod.splits if_splits)
qed

lemma drv_serial_write_eq: "drv_serial_write hw c d = serial_write hw c d"
  by (simp add: drv_serial_write_def serial_write_def drv_serial_wait_eq COM1_def map_option_case split: bind_split option.split)

text \<open>The carriage returns that the current driver adds, in front of each line feed.\<close>

definition with_returns :: "u8 list \<Rightarrow> u8 list" where
  "with_returns str = concat (map (\<lambda>c. if c = 10 then [13, 10] else [c]) str)"

lemma drv_serial_printf_eq: "serial_printf hw str d = drv_serial_printf hw (with_returns str) d"
  by (induction str arbitrary: d)
    (auto simp: with_returns_def drv_serial_write_eq split: bind_split)

lemma drv_scroll_eq: "drv_scroll s = scroll s"
  by (simp add: drv_scroll_def scroll_def scroll_up_def clear_cells_def glyph_def color_def drv_color_def Let_def)

lemma drv_kcls_eq: "drv_kcls s = (kcls s)\<lparr>cursor := cursor s\<rparr>"
  by (simp add: drv_kcls_def kcls_def clear_cells_def glyph_def color_def drv_color_def)

lemma drv_tty_chars_eq: "drv_tty_chars str s = tty_chars str s"
  by (induction str arbitrary: s)
    (simp_all add: tty_char_def drv_scroll_eq glyph_def color_def drv_color_def Let_def, simp add: scroll_def)

lemma drv_kbdus_eq: "drv_kbdus = kbdus"
  by (simp add: drv_kbdus_def kbdus_def kbdus_rows_def Let_def)

lemma drv_keyboard_handler_eq: "drv_keyboard_handler hw s = keyboard_handler hw s"
  by (cases s) (simp add: drv_keyboard_handler_def keyboard_handler_def handle_scancode_def enqueue_char_def
      drv_kbdus_eq KEYBOARD_DATA_PORT_def Let_def split_beta)

lemma drv_keyboard_poll_eq: "drv_keyboard_poll hw s = keyboard_poll hw s"
  by (cases s) (simp add: drv_keyboard_poll_def keyboard_poll_def drv_keyboard_handler_eq POLL_INTERVAL_def
      KEYBOARD_STATUS_PORT_def Let_def split_beta)

lemma drv_keyboard_has_char_eq: "drv_keyboard_has_char hw s = keyboard_has_char hw s"
  by (simp add: drv_keyboard_has_char_def keyboard_has_char_def drv_keyboard_poll_eq Let_def split_beta)

lemma drv_init_eq:
  "drv_serial_init hw d = serial_init hw d" "drv_pata_init d = pata_init d"
  "keyboard_init k = (drv_keyboard_init k)\<lparr>head_ix := 0, tail_ix := 0, poll_counter := 0\<rparr>"
  by (simp_all add: drv_serial_init_def serial_init_def COM1_def drv_pata_init_def pata_init_def
      drv_keyboard_init_def keyboard_init_def Let_def)

lemma drv_await_char_eq: "drv_await_char hw s = await_char hw s"
proof (rule option_eqI)
  fix y
  show "await_char hw s = Some y" if "drv_await_char hw s = Some y"
    by (rule drv_await_char.raw_induct [OF _ that, where P = "\<lambda>hw s y. await_char hw s = Some y"])
      (subst await_char.simps, auto simp: drv_keyboard_has_char_eq Let_def split: prod.splits if_splits)
  show "drv_await_char hw s = Some y" if "await_char hw s = Some y"
    by (rule await_char.raw_induct [OF _ that, where P = "\<lambda>hw s y. drv_await_char hw s = Some y"])
      (subst drv_await_char.simps, auto simp: drv_keyboard_has_char_eq Let_def split: prod.splits if_splits)
qed

lemma drv_keyboard_get_char_eq: "drv_keyboard_get_char hw s = keyboard_get_char hw s"
  by (simp add: drv_keyboard_get_char_def keyboard_get_char_def drv_await_char_eq dequeue_char_def Let_def
      split: bind_split option.split)

lemma drv_pata_wait_eq: "drv_pata_wait_bsy hw d = pata_wait_bsy hw d" "drv_pata_wait_drq hw d = pata_wait_drq hw d"
proof -
  show "drv_pata_wait_bsy hw d = pata_wait_bsy hw d"
  proof (rule option_eqI)
    fix y
    show "pata_wait_bsy hw d = Some y" if "drv_pata_wait_bsy hw d = Some y"
      by (rule drv_pata_wait_bsy.raw_induct [OF _ that, where P = "\<lambda>hw d y. pata_wait_bsy hw d = Some y"])
        (subst pata_wait_bsy.simps, auto simp: ata_ports ATA_STATUS_BSY_def Let_def split: prod.splits if_splits)
    show "drv_pata_wait_bsy hw d = Some y" if "pata_wait_bsy hw d = Some y"
      by (rule pata_wait_bsy.raw_induct [OF _ that, where P = "\<lambda>hw d y. drv_pata_wait_bsy hw d = Some y"])
        (subst drv_pata_wait_bsy.simps, auto simp: ata_ports ATA_STATUS_BSY_def Let_def split: prod.splits if_splits)
  qed
  show "drv_pata_wait_drq hw d = pata_wait_drq hw d"
  proof (rule option_eqI)
    fix y
    show "pata_wait_drq hw d = Some y" if "drv_pata_wait_drq hw d = Some y"
      by (rule drv_pata_wait_drq.raw_induct [OF _ that, where P = "\<lambda>hw d y. pata_wait_drq hw d = Some y"])
        (subst pata_wait_drq.simps, auto simp: ata_ports ATA_STATUS_DRQ_def Let_def split: prod.splits if_splits)
    show "drv_pata_wait_drq hw d = Some y" if "pata_wait_drq hw d = Some y"
      by (rule pata_wait_drq.raw_induct [OF _ that, where P = "\<lambda>hw d y. drv_pata_wait_drq hw d = Some y"])
        (subst drv_pata_wait_drq.simps, auto simp: ata_ports ATA_STATUS_DRQ_def Let_def split: prod.splits if_splits)
  qed
qed

lemma drv_pata_read_eq: "drv_pata_read_sectors hw lba n buf s = pata_read_sectors hw lba n buf s"
proof -
  have sector: "(\<lambda>s (m, d). Option.bind (pata_wait_bsy hw d) (\<lambda>d. Option.bind (pata_wait_drq hw d) (\<lambda>d.
        Some (fold (\<lambda>i (m, d). let (data, d) = in16 hw 0x1F0 d;
            m = m(buf + of_nat (s * 512 + i * 2) := ucast (data AND 0xFF));
            m = m(buf + of_nat (s * 512 + i * 2) + 1 := ucast (drop_bit 8 data)) in (m, d)) [0..<256] (m, d)))))
      = read_sector hw buf"
    by (simp add: fun_eq_iff read_sector_def read_word_def ata_ports)
  show ?thesis
    unfolding drv_pata_read_sectors_def drv_pata_wait_eq sector
    by (simp add: pata_read_sectors_def pata_command_def ata_ports ATA_CMD_READ_PIO_def Let_def)
qed

lemma drv_pata_write_eq: "drv_pata_write_sectors hw lba n buf s = pata_write_sectors hw lba n buf s"
proof -
  have sector: "(\<lambda>s d. Option.bind (pata_wait_bsy hw d) (\<lambda>d. Option.bind (pata_wait_drq hw d) (\<lambda>d.
        Some (fold (\<lambda>i d. let data = ucast (m (buf + of_nat (s * 512 + i * 2)))
              OR push_bit 8 (ucast (m (buf + of_nat (s * 512 + i * 2) + 1))) in out16 hw 0x1F0 data d) [0..<256] d))))
      = write_sector hw m buf" for m
    by (simp add: fun_eq_iff write_sector_def write_word_def [abs_def] ata_ports Let_def)
  show ?thesis
    unfolding drv_pata_write_sectors_def drv_pata_wait_eq sector
    by (simp add: pata_write_sectors_def pata_command_def ata_ports ATA_CMD_WRITE_PIO_def Let_def)
qed

text \<open>
  C40: The functions of the older drivers do what the current ones do on every
  device, with three differences. Keyboard: the handler, the poll, the test
  for a character and the blocking read are the same; keyboard_init, which is
  empty in the older file, resets the ring and the counter in the current one.
  Disk: initialising, reading and writing are the same. Serial line:
  initialising and writing a character are the same; the current
  serial_printf sends what the older one sends for the text with a carriage
  return in front of each line feed. Screen: scrolling and the effect of a text
  on the screen are the same, so kprintf differs in the carriage returns only;
  clearing leaves the cursor in the older file and resets it in the current
  one. Waiting for ever is part of the comparison, since not returning is a value.
\<close>

theorem older_drivers_equivalent:
  "drv_keyboard_handler hw (k, d) = keyboard_handler hw (k, d)
    \<and> drv_keyboard_poll hw (k, d) = keyboard_poll hw (k, d)
    \<and> drv_keyboard_has_char hw (k, d) = keyboard_has_char hw (k, d)
    \<and> drv_keyboard_get_char hw (k, d) = keyboard_get_char hw (k, d)
    \<and> keyboard_init k = (drv_keyboard_init k)\<lparr>head_ix := 0, tail_ix := 0, poll_counter := 0\<rparr>
    \<and> drv_pata_init d = pata_init d
    \<and> drv_pata_read_sectors hw lba n buf (m, d) = pata_read_sectors hw lba n buf (m, d)
    \<and> drv_pata_write_sectors hw lba n buf (m, d) = pata_write_sectors hw lba n buf (m, d)
    \<and> drv_serial_init hw d = serial_init hw d
    \<and> drv_serial_write hw c d = serial_write hw c d
    \<and> serial_printf hw str d = drv_serial_printf hw (with_returns str) d
    \<and> drv_scroll v = scroll v
    \<and> kprintf hw str (v, d) = map_option (Pair (drv_tty_chars str v)) (drv_serial_printf hw (with_returns str) d)
    \<and> drv_kprintf hw str (v, d) = map_option (Pair (drv_tty_chars str v)) (drv_serial_printf hw str d)
    \<and> drv_kcls v = (kcls v)\<lparr>cursor := cursor v\<rparr>"
  by (simp add: drv_keyboard_handler_eq drv_keyboard_poll_eq drv_keyboard_has_char_eq drv_keyboard_get_char_eq
      drv_init_eq drv_pata_read_eq drv_pata_write_eq drv_serial_write_eq drv_serial_printf_eq drv_scroll_eq drv_kcls_eq
      kprintf_def tty_write_def drv_kprintf_def drv_tty_write_def drv_tty_chars_eq map_option_case
      split: bind_split option.split)

section \<open>scheduler.c\<close>

text \<open>
  The older task_t is not aligned and has its stacks behind the process id.
  The addresses of stacks follow from its offsets; the scalar fields are those
  of the record task.
\<close>

definition LEGACY_SIZEOF_TASK :: nat where "LEGACY_SIZEOF_TASK = 8204"
definition LEGACY_OFFSET_KERNEL_STACK :: nat where "LEGACY_OFFSET_KERNEL_STACK = 8"
definition LEGACY_OFFSET_USER_STACK :: nat where "LEGACY_OFFSET_USER_STACK = 4104"

definition legacy_kernel_stack_end :: "u32 \<Rightarrow> nat \<Rightarrow> u32" where
  "legacy_kernel_stack_end base i = base + of_nat (i * LEGACY_SIZEOF_TASK + LEGACY_OFFSET_KERNEL_STACK) + 4096"

definition legacy_user_stack_end :: "u32 \<Rightarrow> nat \<Rightarrow> u32" where
  "legacy_user_stack_end base i = base + of_nat (i * LEGACY_SIZEOF_TASK + LEGACY_OFFSET_USER_STACK) + 4096"

text \<open>The statics have their initial values from the loader; initialisation does not set them.\<close>

definition legacy_scheduler_init :: "u32 sched \<Rightarrow> u32 sched" where
  "legacy_scheduler_init s =
     s\<lparr>tasks := fold (\<lambda>i ts. ts[i := (ts ! i)\<lparr>active := 0\<rparr>]) [0 ..< 10] (tasks s)\<rparr>"

definition legacy_task_create_user :: "u32 \<Rightarrow> u32 \<Rightarrow> u32 sched \<Rightarrow> u32 sched" where
  "legacy_task_create_user base entry_point s =
     (if task_count s \<ge> 10 then s
      else
        let t = task_count s;
            ustack = legacy_user_stack_end base t;
            (m, kstack) = fold push_word
              [0x23, ustack, 0x202, 0x1B, entry_point, 0, 0, 0, 0, 0, 0, 0, 0]
              (memory s, legacy_kernel_stack_end base t)
        in s\<lparr>tasks := (tasks s)[t := \<lparr>stack_pointer = kstack, pid = of_nat (t + 1), active = 1\<rparr>],
             task_count := t + 1, memory := m\<rparr>)"

fun legacy_next :: "u32 task list \<Rightarrow> nat \<Rightarrow> int \<Rightarrow> nat \<Rightarrow> int" where
  "legacy_next ts count next_task 0 = next_task"
| "legacy_next ts count next_task (Suc n) =
     (let next_task = (next_task + 1) mod int count in
      if active (ts ! nat next_task) \<noteq> 0 then next_task
      else legacy_next ts count next_task n)"

definition legacy_schedule :: "u32 \<Rightarrow> u32 \<Rightarrow> u32 sched \<Rightarrow> u32 \<times> u32 sched" where
  "legacy_schedule base esp s =
     (if task_count s = 0 then (esp, s)
      else
        let s = (if current_task s \<noteq> -1
                 then s\<lparr>tasks := (tasks s)[nat (current_task s) :=
                        (tasks s ! nat (current_task s))\<lparr>stack_pointer := esp\<rparr>]\<rparr>
                 else s);
            next_task = legacy_next (tasks s) (task_count s) (current_task s) (task_count s);
            s = set_kernel_stack (legacy_kernel_stack_end base (nat next_task)) (s\<lparr>current_task := next_task\<rparr>)
        in (stack_pointer (tasks s ! nat next_task), s))"

text \<open>The interrupt that task_exit raises calls schedule on the stack pointer esp.\<close>

definition legacy_task_exit :: "u32 \<Rightarrow> u32 \<Rightarrow> u32 sched \<Rightarrow> u32 \<times> u32 sched" where
  "legacy_task_exit base esp s =
     (let s = (if current_task s \<noteq> -1
               then s\<lparr>tasks := (tasks s)[nat (current_task s) := (tasks s ! nat (current_task s))\<lparr>active := 0\<rparr>]\<rparr>
               else s)
      in legacy_schedule base esp s)"

definition legacy_get_current_pid :: "u32 sched \<Rightarrow> u32" where
  "legacy_get_current_pid s = (if current_task s = -1 then 0 else pid (tasks s ! nat (current_task s)))"

function legacy_digits :: "u32 \<Rightarrow> u8 list \<Rightarrow> nat \<Rightarrow> u8 list \<times> nat" where
  "legacy_digits p buf i =
     (if p > 0 then legacy_digits (p div 10) (buf[i := ucast (p mod 10) + 48]) (i + 1) else (buf, i))"
  by pat_completeness auto
termination
  by (relation "measure (\<lambda>(p, buf, i). unat p)") (auto simp: unat_div word_gt_0 unat_gt_0)

declare legacy_digits.simps [simp del]

definition legacy_print_pid :: "'d hardware \<Rightarrow> u8 list \<Rightarrow> u32 \<Rightarrow> vga \<times> 'd \<Rightarrow> (vga \<times> 'd) option" where
  "legacy_print_pid hw junk p s =
     (let (buf, i) = (if p = 0 then (junk[0 := 48], 1) else legacy_digits p junk 0);
          buf = buf[i := 0];
          buf = fold (\<lambda>j buf. let tmp = buf ! j in (buf[j := buf ! (i - j - 1)])[i - j - 1 := tmp]) [0 ..< i div 2] buf
      in Option.bind (drv_kprintf hw buf s) (drv_kprintf hw [32]))"

section \<open>The older scheduler and the current one\<close>

lemma legacy_next_active:
  "next_active ts count cur n = Some j \<Longrightarrow> legacy_next ts count cur n = j"
  by (induction n arbitrary: cur) (simp_all add: Let_def split: if_splits)

lemma legacy_next_none:
  "next_active ts count cur n = None \<Longrightarrow> -1 \<le> cur \<Longrightarrow> cur < int count \<Longrightarrow> 0 < count \<Longrightarrow> 0 < n \<Longrightarrow>
    legacy_next ts count cur n = (cur + int n) mod int count"
proof (induction n arbitrary: cur)
  case (Suc n)
  let ?c = "(cur + 1) mod int count"
  have c: "-1 \<le> ?c" "?c < int count" using Suc.prems(2-4) by (simp_all add: cyclic_succ)
  have "next_active ts count ?c n = None" "active (ts ! nat ?c) = 0"
    using Suc.prems(1) by (simp_all add: Let_def split: if_splits)
  with Suc.IH [OF _ c Suc.prems(4)] show ?case
    by (cases n) (simp_all add: Let_def mod_add_left_eq add.assoc)
qed simp

text \<open>What the older schedule does, in terms of the current search.\<close>

lemma legacy_schedule_unfold:
  assumes "0 < task_count s" "sched_ok s"
  shows "legacy_schedule base esp s =
    (let j = (case next_active (save_sp esp s) (task_count s) (current_task s) (task_count s) of
                Some j \<Rightarrow> j | None \<Rightarrow> (current_task s + int (task_count s)) mod int (task_count s))
     in (stack_pointer (save_sp esp s ! nat j),
         s\<lparr>tasks := save_sp esp s, current_task := j, tss_stack := legacy_kernel_stack_end base (nat j)\<rparr>))"
proof -
  have b: "-1 \<le> current_task s" "current_task s < int (task_count s)"
    using assms(2) by (auto simp: sched_ok_def)
  let ?na = "next_active (save_sp esp s) (task_count s) (current_task s) (task_count s)"
  have next_task: "legacy_next (save_sp esp s) (task_count s) (current_task s) (task_count s) =
      (case ?na of Some j \<Rightarrow> j | None \<Rightarrow> (current_task s + int (task_count s)) mod int (task_count s))"
    using legacy_next_active legacy_next_none [OF _ b assms(1,1)] by (auto split: option.split)
  show ?thesis
    unfolding next_task [symmetric] using assms(1)
    by (cases "current_task s = -1") (simp_all add: legacy_schedule_def save_sp_def set_kernel_stack_def Let_def)
qed

text \<open>
  C39: The older scheduler is the current one with its own task layout as soon
  as some task is active or one is current whose kernel stack is in the task
  state segment: both return the same stack pointer and leave the same state,
  up to the address of the next kernel stack. They differ in one case: before
  the first switch and without an active task the older one starts the last
  task of the table although it has exited, where the current one stays.
\<close>

theorem legacy_schedule_equivalent:
  assumes "sched_ok s" and "0 < task_count s"
  shows "if (\<exists>i. is_active s i) \<or> 0 \<le> current_task s \<and> tss_stack s = legacy_kernel_stack_end base (nat (current_task s))
    then legacy_schedule base esp s =
      (case schedule core_base esp s of (sp, s') \<Rightarrow>
         (sp, s'\<lparr>tss_stack := legacy_kernel_stack_end base (nat (current_task s'))\<rparr>))
    else current_task s = -1 \<longrightarrow> fst (schedule core_base esp s) = esp \<and>
      current_task (snd (legacy_schedule base esp s)) = int (task_count s) - 1"
proof -
  let ?na = "next_active (save_sp esp s) (task_count s) (current_task s) (task_count s)"
  note legacy = legacy_schedule_unfold [OF assms(2,1), of base esp]
  have b: "-1 \<le> current_task s" "current_task s < int (task_count s)"
    using assms(1) by (auto simp: sched_ok_def)
  show ?thesis
  proof (cases ?na)
    case None
    then have idle: "\<not> (\<exists>i. is_active s i)" using next_active_None [OF b None] by (auto simp: is_active_def)
    have same: "current_task s mod int (task_count s) =
        (if current_task s = -1 then int (task_count s) - 1 else current_task s)"
      using b assms(2) by (auto simp: mod_pos_pos_trivial zmod_minus1)
    have stay: "schedule core_base esp s = (esp, s\<lparr>tasks := save_sp esp s\<rparr>)"
      using None assms(2) by (simp add: schedule_unfold)
    have "stack_pointer (save_sp esp s ! nat (current_task s)) = esp" if "0 \<le> current_task s"
      using save_sp_stack [OF assms(1), of "nat (current_task s)" esp] that b by (simp add: nat_less_iff)
    moreover have "s\<lparr>tasks := t, current_task := current_task s, tss_stack := x\<rparr> = s\<lparr>tasks := t, tss_stack := x\<rparr>" for t x
      by (cases s) simp
    moreover have run: "legacy_schedule base esp s = (let j = (if current_task s = -1 then int (task_count s) - 1 else current_task s) in
        (stack_pointer (save_sp esp s ! nat j),
         s\<lparr>tasks := save_sp esp s, current_task := j, tss_stack := legacy_kernel_stack_end base (nat j)\<rparr>))"
      unfolding legacy by (simp add: None same)
    ultimately show ?thesis using idle b(1) unfolding run stay by (simp add: Let_def)
  next
    case (Some j)
    from next_active_Some [OF assms(2) b Some] have "\<exists>i. is_active s i" by (auto simp: is_active_def)
    then show ?thesis using Some assms(2) by (simp add: legacy schedule_unfold Let_def)
  qed
qed

text \<open>The two tasks of the scheduler's theory.\<close>

lemma legacy_schedule_equivalent_witness:
  "legacy_schedule 0x200000 0x9000 two_tasks =
    (case schedule 0x110000 0x9000 two_tasks of (sp, s') \<Rightarrow>
       (sp, s'\<lparr>tss_stack := legacy_kernel_stack_end 0x200000 (nat (current_task s'))\<rparr>))"
proof -
  have "\<exists>i. is_active two_tasks i" using two_tasks_fields(3) by blast
  with legacy_schedule_equivalent [OF two_tasks_ok, where base = "0x200000" and core_base = "0x110000" and esp = "0x9000"]
  show ?thesis by (simp add: two_tasks_fields(1))
qed

text \<open>
  A task made by the older task_create_user starts as one made by the current
  function does, with the stacks of its own table.
\<close>

lemma legacy_task_starts_in_user_mode:
  assumes "sched_ok s" "n = task_count s" "n < 10" "s' = legacy_task_create_user base entry_point s"
  shows "sched_ok s' \<and> is_active s' n \<and>
    irq0_return (memory s') (stack_pointer (tasks s' ! n))
      = (replicate 8 0, [entry_point, 0x1B, 0x202, legacy_user_stack_end base n, 0x23])"
proof -
  define ws where "ws = [0x23, legacy_user_stack_end base n, 0x202, 0x1B, entry_point, 0, 0, 0, 0, 0, 0, 0, 0]"
  obtain m sp where r: "fold push_word ws (memory s, legacy_kernel_stack_end base n) = (m, sp)" by fastforce
  have s': "s' = s\<lparr>tasks := (tasks s)[n := \<lparr>stack_pointer = sp, pid = of_nat (n + 1), active = 1\<rparr>],
      task_count := n + 1, memory := m\<rparr>"
    using assms(2-4) r unfolding legacy_task_create_user_def ws_def Let_def by (simp del: fold_simps)
  have len: "length ws = 8 + 5" by (simp add: ws_def)
  have "pop_words (length ws) m sp = rev ws"
    using push_words_spec(1,2) [where ws = ws and m = "memory s" and sp = "legacy_kernel_stack_end base n"]
    by (simp add: r len)
  moreover have "rev ws = replicate 8 0 @ [entry_point, 0x1B, 0x202, legacy_user_stack_end base n, 0x23]"
    by (simp add: ws_def eval_nat_numeral)
  ultimately have "pop_words 8 m sp @ pop_words 5 m (sp + of_nat (8 * (LENGTH(32) div 8))) =
      replicate 8 0 @ [entry_point, 0x1B, 0x202, legacy_user_stack_end base n, 0x23]"
    unfolding len pop_words_append by (simp only:)
  moreover have "length (pop_words j mm a) = j" for j and mm :: "32 memory" and a
    by (induction j arbitrary: a) simp_all
  ultimately have "irq0_return m sp = (replicate 8 0, [entry_point, 0x1B, 0x202, legacy_user_stack_end base n, 0x23])"
    by (simp add: irq0_return_def frame_regs_def append_eq_append_conv del: replicate.simps pop_words.simps)
  moreover have "n < length (tasks s)" using assms(1,3) by (simp add: sched_ok_def MAX_TASKS_def)
  moreover have "sched_ok s'"
    using assms(1-3) unfolding s' by (simp add: sched_ok_def MAX_TASKS_def nth_list_update less_Suc_eq)
  ultimately show ?thesis unfolding s' by (simp add: is_active_def)
qed

lemma legacy_digits_eq: "legacy_digits p buf i = pid_digits (unat p) buf i"
proof (induction p buf i rule: legacy_digits.induct)
  case (1 p buf i)
  have "ucast (p mod 10) = (of_nat (unat p mod 10) :: u8)"
    by (simp add: unat_mod word_unat_eq_iff unsigned_ucast_eq unat_of_nat take_bit_nat_eq_self)
  with 1 show ?case
    by (subst legacy_digits.simps, subst pid_digits.simps) (simp add: unat_div word_gt_0 unat_gt_0)
qed

lemma legacy_print_pid_eq:
  "legacy_print_pid hw junk p s = Option.bind (drv_kprintf hw (pid_buffer junk p) s) (drv_kprintf hw [32])"
  by (simp add: legacy_print_pid_def pid_buffer_def legacy_digits_eq swap_bytes_def Let_def split_beta)

end
