(* ===== verification/Spec2Isabelle.thy ===== *)
theory Spec2Isabelle
  imports Vmm386 Keyboard Scheduler Tar Elf Descriptors Shell Vmm64 Timer Pata Kernel Ext2 Multitasking Syscalls64 Legacy
begin

text \<open>
  A verification development for ZeptoOS, a small kernel in C for i386 and
  x86_64 with one user program, a shell.

  The program. The boot code enters kmain (kernel/main.c), which sets up the
  console, the descriptor tables, the interrupt controller and the timer,
  builds the page allocator from the multiboot memory map, turns paging on,
  mounts the RAM disk that the boot loader left in memory, loads the ELF image
  of the member init and creates a task from it. From then on everything
  happens in interrupts: the timer interrupt switches tasks, the keyboard
  interrupt fills a ring buffer, and interrupt 0x80 performs a system call on
  the console, the keyboard, the file system and the scheduler.

  Theories, with the source each models. The definitions of a theory stand in
  the order of the code and carry the names of its functions.

    Prelude       machine integers (lib/types.h), byte memory, C strings
    Pmm           mm/pmm.c, lib/multiboot.h: page allocator, memory map
    Vmm386        i386/vmm.c: two-level paging
    Vmm64         x64/vmm.c and the page tables of x64/boot.s
    PortIO        core/io.h: the device behind the ports, a parameter
    Keyboard      core/keyboard.c: scan codes, ring buffer, polling
    Console       core/serial.c and core/vga.c
    Scheduler     core/scheduler.c, the frames of irq.s
    Descriptors   gdt.c, idt.c of both architectures
    Timer         core/pic.c, core/pit.c
    Vfs           fs/vfs.c: nodes, path resolution, mount table
    Tar           fs/tar.c: RAM disk
    Elf           elf.c of both architectures
    Syscalls      syscall.c of both architectures
    Calls         what a system call changes and what it leaves alone
    Syscalls64    x64/syscall.c as it stands
    Shell         user/init.c
    Pata          core/pata.c and the ATA drive it talks to
    Ext2          fs/ext2.c, fs/ext2.h
    Kernel        main.c, core/panic.c: kmain
    Interrupts    irq.s and syscall_stub.s of both architectures
    Multitasking  the running kernel as a step relation
    Legacy        kernel/drv and kernel/scheduler.c, which are not compiled

  State. Memory is a function from machine addresses to bytes, of 32 or 64
  bits; page tables, archives, ELF images, kernel stacks and user buffers are
  read and written there with the layout the C structures have. Static
  variables are the fields of one record per source file (vmm, keyboard, vga,
  sched, vfs, tar_fs, ext2, timer), composed in Syscalls to the record machine,
  in Kernel to the record of what kmain sets up, and in Multitasking, with the
  registers of the running task and the clock, to the record running.
  The allocator's bitmap is the list of its 512 bytes. Integers keep their
  width. Function pointers in a node name the driver whose function is stored
  there, and the record drivers holds the functions. What the code takes from
  outside, the device behind the ports and the addresses the linker chooses,
  is an argument of the definitions that use it.

  Results. A function that may call panic, or loop for ever, returns an
  option; None is not returning. Loops that wait for a device are partial
  functions in this sense, and the theorems about them state that they return
  under a stated readiness of the device, or characterise when they do. All
  other loops terminate and are structural or carry a measure. The endless
  loop of the shell is run for a number of rounds, and the theorems describe
  one round from an arbitrary state, so no bound enters them. Writing past a
  fixed array of characters in vfs.c is the error value Overflow; in ext2.c,
  whose buffers are local arrays of 4096 bytes, leaving one and dividing by
  zero are fault values too.

  What the theorems show, component by component.

    Page allocator: allocation returns the lowest free page or panics when
    none is left, runs of pages are first fit, pmm_init frees the pages of the
    available regions outside the first megabyte, the kernel and the modules,
    hence boot-time allocations never return a page in use; a region that does
    not begin on a page boundary is rounded down, which hands out bytes before
    it. The laws clients rely on are the locale page_allocator. On x86_64 the
    unpacked memory map entry is misread and no page is found.

    Paging: an address space is the map from virtual pages to entries;
    vmm_map_page refines the update of this map, mapping and unmapping are
    inverse up to tables allocated, init_paging maps the first 16 MB to
    themselves, and a clone has the entries of its source and is isolated
    from later changes to it. On x86_64 the same round trip holds on chains
    of distinct tables; below 1 GB, where the boot tables have large pages,
    vmm_map_page instead corrupts mapped memory.

    Keyboard, console, timer: the ring buffer is a bounded queue of 255
    characters (locale bounded_queue) and loses or reorders nothing below
    that; keyboard_get_char returns exactly when a character arrives; the
    screen shows the last 25 lines of an unbounded log; the serial line gets
    the text with carriage returns; after pic_remap an unmasked interrupt has
    a gate, and the gates, segments and task registers decode to what the
    stubs and task frames assume.

    Scheduler: schedule is round robin, keeps its invariant, saves and
    restores stack pointers, reaches every active task within one round, and
    a new task starts in user mode at its entry point with its own stack.

    File systems: path resolution is the walk along the components of the
    path, the mount table is an association list, and the files of a ustar
    archive given to tar_parse read back through the VFS as they were packed.

    ELF loaders: every loadable segment is in memory as the image has it, and
    cleared behind (locale elf_layout, interpreted for both layouts).

    Disk and ext2: against every device that keeps to the ATA protocol, what
    pata_write_sectors writes is read back, and a transfer returns exactly if
    its sectors lie on the drive. On such a disk a path of an ext2 volume is
    resolved to its file, reading returns the bytes of the file across its
    direct blocks, writing within a block is read back, and readdir lists the
    records of the directory; the conditions in these theorems are the limits
    of the driver (one group, direct blocks, one block per directory).

    Start-up: kmain carries the hand-over of the boot loader to the idle loop
    with paging on, the program loaded and its task ready, on exactly the
    screen it should show; the other ends of kmain are described as well.

    System calls and shell: sys_read refines a line editor on the characters
    typed; getdents writes the records the user program reads back, so that
    ls prints the names in the root directory; an unknown command is reported
    with the name typed, up to 126 characters. A call whose buffer keeps clear
    of the kernel's own memory keeps the kernel's data well formed and writes
    memory only in that buffer; what it relies on of a file system are the
    locales fs_contract, interpreted for ext2, and small_fs, for the RAM disk.
    The x86_64 file is proved equal to the width-generic calls at 64 bits.

    Running kernel: user code, timer and keyboard interrupts and system calls
    follow one another in any order from the first dispatch on. As long as
    user code does not store to the kernel's variables and gives no call a
    buffer over them, the kernel's state stays well formed; and as long as the
    others spare its frame too, a task that does not run is resumed with the
    registers it was interrupted with. Nothing in the kernel enforces this: a
    step of user code may leave any state, and one that stores to a variable
    of the scheduler is shown to break the invariant.

    Older sources: the drivers of kernel/drv and kernel/scheduler.c do the same
    as the current ones, with the differences the theorems name.

  The theorems that state a defect (an error name in the manifest) describe
  what the code does, not what it should do.

  Not modelled, and why. The static variables are not bytes of the memory: what
  a store through a user's pointer to one of them does is not computed, but
  stands for any result (system_call in Calls, the events User and StrayCall in
  Multitasking), and the theorems name the condition that excludes it; the
  record layout of Calls lists the variables with their sizes, at addresses that
  are an argument. Addresses passed by a user program are not checked by the
  code, so no theorem bounds what a hostile program can do. There is no TLB and
  no cache; invlpg has no effect. Interrupts do not occur inside a system call,
  since the gates are interrupt gates; time passes in the model only through the
  scan codes and polls the device delivers. What the C functions of an interrupt
  leave below the saved registers is an arbitrary change of that part of the
  stack. Segment registers are not modelled; the stubs of the timer and the
  keyboard do not save them. Port input and output, the four instructions of
  core/io.h, are the operations of the device parameter. Nothing in the kernel
  mounts an ext2 volume, so it is described beside kmain and not within it; the
  differences of the x86_64 start-up (its message and its paging module) are not
  composed into a second kmain. Linker scripts, headers without definitions and
  the build files have no behaviour of their own.
\<close>

end
